(* ===== verification/Prelude.thy ===== *)
theory Prelude
  imports Main "HOL-Library.Word" "HOL-Library.While_Combinator"
begin

text \<open>
  Shared vocabulary of the development: the machine integer types of the kernel, the
  loops its C code is written with (first index that satisfies a test, counting loops),
  the arithmetic of power-of-two alignment on words, and the bitmap interface that the
  frame allocator and the file systems implement. Facts every component uses carry
  \<^verbatim>\<open>[simp]\<close> or belong to one of the collections declared here.
\<close>

unbundle bit_operations_syntax

section \<open>Machine integers\<close>

type_synonym u8 = "8 word"
type_synonym u16 = "16 word"
type_synonym u32 = "32 word"
type_synonym u64 = "64 word"

text \<open>
  \<^verbatim>\<open>word_nat\<close> collects the equations that move a statement on words to natural
  numbers.
\<close>

named_theorems word_nat

declare word_less_nat_alt [word_nat] word_le_nat_alt [word_nat]

lemma unat_less_length: "unat w < 2 ^ LENGTH('a)" for w :: "'a::len word"
  by (rule unsigned_less)

lemma unat_inc: "i < n \<Longrightarrow> unat (i + 1) = Suc (unat i)" for i n :: "'a::len word"
proof -
  assume "i < n"
  then have "Suc (unat i) < 2 ^ LENGTH('a)"
    using unat_less_length[of n] by (metis Suc_leI order_le_less_trans word_less_nat_alt)
  then show ?thesis by (simp add: unat_word_ariths)
qed

lemma unat_add_small: "unat a + unat b < 2 ^ LENGTH('a) \<Longrightarrow> unat (a + b) = unat a + unat b" for a b :: "'a::len word"
  by (rule unat_add_lem[THEN iffD1])

lemma sint_small: "unat w < 2 ^ 63 \<Longrightarrow> sint w = int (unat w)" for w :: u64
proof -
  assume "unat w < 2 ^ 63"
  then have "int (unat w) < int (2 ^ 63)" by (simp only: of_nat_less_iff)
  then have "uint w < 2 ^ 63" by simp
  moreover have "- (2 ^ 63) \<le> uint w" by (rule order_trans[OF _ uint_ge_0]) simp
  ultimately have "signed_take_bit 63 (uint w) = uint w" by (intro signed_take_bit_int_eq_self)
  then show ?thesis by (simp add: sint_uint)
qed

lemma unat_of_nat_small: "n < 2 ^ LENGTH('a) \<Longrightarrow> unat (of_nat n :: 'a::len word) = n"
  by (simp add: unat_of_nat)

lemma unat_and_not_mask: "unat (x AND NOT (mask n)) = unat x div 2 ^ n * 2 ^ n"
  for x :: "'a::len word"
proof -
  have lt: "unat x div 2 ^ n * 2 ^ n < 2 ^ LENGTH('a)"
    by (metis div_times_less_eq_dividend order_le_less_trans unsigned_less)
  have "x AND NOT (mask n) = push_bit n (drop_bit n x)"
    by (rule bit_word_eqI) (auto simp: bit_simps)
  then have "unat (x AND NOT (mask n)) = unat (push_bit n (drop_bit n x))"
    by (simp only:)
  also have "\<dots> = take_bit LENGTH('a) (push_bit n (drop_bit n (unat x)))"
    by (simp only: unsigned_push_bit_eq unat_drop_bit_eq)
  also have "\<dots> = unat x div 2 ^ n * 2 ^ n"
    using lt by (simp only: drop_bit_eq_div take_bit_eq_mod push_bit_eq_mult mod_less)
  finally show ?thesis .
qed
lemma unat_and_mask: "unat (x AND mask n) = unat x mod 2 ^ n" for x :: "'a::len word"
  by (metis take_bit_eq_mask take_bit_eq_mod unsigned_take_bit_eq)

lemma byte_index_eq_iff:
  "drop_bit 3 i = drop_bit 3 j \<and> i AND 7 = j AND 7 \<longleftrightarrow> i = j" for i j :: u64
proof
  assume "drop_bit 3 i = drop_bit 3 j \<and> i AND 7 = j AND 7"
  moreover have "7 = (mask 3 :: u64)" by (simp add: mask_numeral)
  ultimately have "unat i div 8 = unat j div 8" "unat i mod 8 = unat j mod 8"
    using unat_and_mask[of i 3] unat_and_mask[of j 3] unat_drop_bit_eq[of 3 i] unat_drop_bit_eq[of 3 j]
    by (simp_all add: drop_bit_eq_div)
  then have "unat i = unat j" by (metis div_mult_mod_eq)
  then show "i = j" by (simp only: word_unat_eq_iff)
qed simp

section \<open>Console output\<close>

text \<open>What the kernel writes to the serial console: a string, or a 64-bit number in hexadecimal.\<close>

datatype console = Text string | Hex64 u64

definition line :: "string \<Rightarrow> console" where
  "line s = Text (s @ [CHR 0x0A])"

section \<open>Search loops\<close>

text \<open>
  \<^verbatim>\<open>for (i = lo; i < n; i++) if (P(i)) return i;\<close> on a machine integer: the first
  index in the range that passes the test. The guard \<open>i < n\<close> rules the wrap-around
  of \<open>i + 1\<close> out, so the loop ends.
\<close>

function find_from:: "('a::len word \<Rightarrow> bool) \<Rightarrow> 'a word \<Rightarrow> 'a word \<Rightarrow> 'a word option" where
  "find_from P i n = (if i < n then if P i then Some i else find_from P (i + 1) n else None)"
  by pat_completeness auto
termination
  by (relation "measure (\<lambda>(P, i, n). unat n - unat i)") (auto simp: unat_inc word_less_nat_alt)

declare find_from.simps [simp del]


lemma le_inc_iff: "i < n \<Longrightarrow> i \<le> j \<longleftrightarrow> j = i \<or> i + 1 \<le> j" for i n :: "'a::len word"
  using unat_inc[of i n] by (auto simp: word_nat word_unat_eq_iff)

lemma find_from_Some:
  "find_from P i n = Some k \<longleftrightarrow> i \<le> k \<and> k < n \<and> P k \<and> (\<forall>j. i \<le> j \<and> j < k \<longrightarrow> \<not> P j)"
proof (induction P i n rule: find_from.induct)
  case (1 P i n)
  show ?case
  proof (cases "i < n \<and> \<not> P i")
    case True
    then have "find_from P i n = Some k \<longleftrightarrow> i + 1 \<le> k \<and> k < n \<and> P k \<and> (\<forall>j. i + 1 \<le> j \<and> j < k \<longrightarrow> \<not> P j)"
      using 1 by (simp add: find_from.simps [of P i n])
    also have "\<dots> \<longleftrightarrow> i \<le> k \<and> k < n \<and> P k \<and> (\<forall>j. i \<le> j \<and> j < k \<longrightarrow> \<not> P j)"
      using True by (auto simp: le_inc_iff[of i n])
    finally show ?thesis .
  next
    case False
    then have *: "find_from P i n = Some k \<longleftrightarrow> i < n \<and> k = i"
      by (auto simp: find_from.simps [of P i n])
    show ?thesis
    proof
      assume "find_from P i n = Some k"
      with * False show "i \<le> k \<and> k < n \<and> P k \<and> (\<forall>j. i \<le> j \<and> j < k \<longrightarrow> \<not> P j)"
        by (auto dest: leD)
    next
      assume k: "i \<le> k \<and> k < n \<and> P k \<and> (\<forall>j. i \<le> j \<and> j < k \<longrightarrow> \<not> P j)"
      then have "i < n" by (blast intro: order.strict_trans1)
      with False k have "\<not> i < k" by blast
      with k have "k = i" by (blast intro: antisym leI)
      with \<open>i < n\<close> show "find_from P i n = Some k" using * by blast
    qed
  qed
qed

lemma find_from_None: "find_from P i n = None \<longleftrightarrow> (\<forall>j. i \<le> j \<and> j < n \<longrightarrow> \<not> P j)"
proof (induction P i n rule: find_from.induct)
  case (1 P i n)
  show ?case
  proof (cases "i < n \<and> \<not> P i")
    case True
    then have "find_from P i n = None \<longleftrightarrow> (\<forall>j. i + 1 \<le> j \<and> j < n \<longrightarrow> \<not> P j)"
      using 1 by (simp add: find_from.simps [of P i n])
    also have "\<dots> \<longleftrightarrow> (\<forall>j. i \<le> j \<and> j < n \<longrightarrow> \<not> P j)"
      using True by (auto simp: le_inc_iff[of i n])
    finally show ?thesis .
  next
    case False
    then show ?thesis by (auto simp: find_from.simps [of P i n])
  qed
qed

section \<open>Copy loops\<close>

text \<open>\<^verbatim>\<open>for (i = 0; i < n; i++) dst[i] = g(i);\<close> into a buffer and into byte-addressed memory.\<close>

lemma fold_write:
  "off + n \<le> length d \<Longrightarrow> fold (\<lambda>i d. d[off + i := g i]) [0..<n] d = take off d @ map g [0..<n] @ drop (off + n) d"
proof (induction n)
  case (Suc n)
  then show ?case by (simp add: list_update_append Cons_nth_drop_Suc[symmetric])
qed simp

lemma fold_store:
  fixes dst :: u64
  shows "n \<le> 2 ^ 64 \<Longrightarrow> fold (\<lambda>i m. m(dst + of_nat i := g i)) [0..<n] mem =
    (\<lambda>x. if unat (x - dst) < n then g (unat (x - dst)) else mem x)"
proof (induction n)
  case (Suc n)
  have "x = dst + of_nat n \<longleftrightarrow> unat (x - dst) = n" for x
  proof
    assume "x = dst + of_nat n"
    then show "unat (x - dst) = n" using Suc.prems by (simp add: unat_of_nat)
  next
    assume "unat (x - dst) = n"
    moreover have "x - dst = of_nat (unat (x - dst))" by simp
    ultimately have "x - dst = of_nat n" by (simp only:)
    then show "x = dst + of_nat n" by (simp add: algebra_simps)
  qed
  then show ?case using Suc by (auto simp: fun_eq_iff less_Suc_eq)
qed simp

section \<open>Bitmaps\<close>

text \<open>
  What the allocators rely on: a bitmap can be tested, set and cleared bit by bit, and a
  write at a valid index changes that index only.
\<close>

locale bit_store =
  fixes test :: "'b \<Rightarrow> 'i \<Rightarrow> bool"
    and set_bit_at :: "'b \<Rightarrow> 'i \<Rightarrow> 'b"
    and clear_bit_at :: "'b \<Rightarrow> 'i \<Rightarrow> 'b"
    and valid_index :: "'b \<Rightarrow> 'i \<Rightarrow> bool"
  assumes test_set: "valid_index b i \<Longrightarrow> test (set_bit_at b i) j \<longleftrightarrow> j = i \<or> test b j"
    and test_clear: "valid_index b i \<Longrightarrow> test (clear_bit_at b i) j \<longleftrightarrow> j \<noteq> i \<and> test b j"
    and valid_set: "valid_index (set_bit_at b i) j \<longleftrightarrow> valid_index b j"
    and valid_clear: "valid_index (clear_bit_at b i) j \<longleftrightarrow> valid_index b j"
begin

definition zeros :: "'i set \<Rightarrow> 'b \<Rightarrow> 'i set" where
  "zeros I b = {i \<in> I. \<not> test b i}"

lemma zeros_subset: "zeros I b \<subseteq> I"
  by (auto simp: zeros_def)

lemma zeros_set: "valid_index b i \<Longrightarrow> zeros I (set_bit_at b i) = zeros I b - {i}"
  by (auto simp: zeros_def test_set)

lemma zeros_clear: "valid_index b i \<Longrightarrow> i \<in> I \<Longrightarrow> zeros I (clear_bit_at b i) = insert i (zeros I b)"
  by (auto simp: zeros_def test_clear)

lemma card_zeros_set:
  assumes "finite I" "valid_index b i" "i \<in> I" "\<not> test b i"
  shows "Suc (card (zeros I (set_bit_at b i))) = card (zeros I b)"
proof -
  have "i \<in> zeros I b" using assms by (simp add: zeros_def)
  moreover have "finite (zeros I b)" using assms by (simp add: zeros_def)
  ultimately show ?thesis by (simp only: zeros_set [OF assms(2)] card_Suc_Diff1)
qed

lemma card_zeros_clear:
  assumes "finite I" "valid_index b i" "i \<in> I" "test b i"
  shows "card (zeros I (clear_bit_at b i)) = Suc (card (zeros I b))"
  using assms by (simp add: zeros_clear) (simp add: zeros_def)

lemma zeros_empty_iff: "zeros I b = {} \<longleftrightarrow> (\<forall>i\<in>I. test b i)"
  by (auto simp: zeros_def)

end

end
