(* ===== verification/Pmm.thy ===== *)
theory Pmm
  imports Prelude
begin

text \<open>
  The physical frame allocator of \<^verbatim>\<open>src/pmm.c\<close>. Its state is one record; the bitmap
  holds one bit per frame, set when the frame is in use. A pointer argument the code
  compares with \<open>NULL\<close> is an option. The lemmas relate the bitmap and the counters to
  the set \<open>free_set\<close> of free frames, which is the abstract state of the component.
\<close>

section \<open>Model\<close>

definition PMM_PAGE_SIZE :: u64 where
  "PMM_PAGE_SIZE = 4096"

definition PMM_INVALID_FRAME :: u64 where
  "PMM_INVALID_FRAME = 0xffffffffffffffff"

definition BOOT_MEM_USABLE :: u32 where
  "BOOT_MEM_USABLE = 1"

definition BOOT_MEM_RESERVED :: u32 where
  "BOOT_MEM_RESERVED = 2"

record boot_mem_region =
  region_base :: u64
  region_length :: u64
  region_type :: u32

record pmm_state =
  bitmap :: "u8 list"
  bitmap_bytes :: u64
  max_phys :: u64
  frame_count :: u64
  free_frames :: u64
  used_frames :: u64
  reserved_frames :: u64
  ignored_frames :: u64
  next_hint :: u64
  initialized :: bool

definition align_down :: "u64 \<Rightarrow> u64 \<Rightarrow> u64" where
  "align_down value align = value AND NOT (align - 1)"

definition align_up :: "u64 \<Rightarrow> u64 \<Rightarrow> u64" where
  "align_up value align = (value + align - 1) AND NOT (align - 1)"

definition checked_add_u64 :: "u64 \<Rightarrow> u64 \<Rightarrow> u64 option" where
  "checked_add_u64 a b = (if 0xffffffffffffffff - a < b then None else Some (a + b))"

definition bitmap_set :: "u8 list \<Rightarrow> u64 \<Rightarrow> u8 list" where
  "bitmap_set bm index =
     (let k = unat (drop_bit 3 index)
      in bm[k := bm ! k OR push_bit (unat (index AND 7)) 1])"

definition bitmap_clear :: "u8 list \<Rightarrow> u64 \<Rightarrow> u8 list" where
  "bitmap_clear bm index =
     (let k = unat (drop_bit 3 index)
      in bm[k := bm ! k AND NOT (push_bit (unat (index AND 7)) 1)])"

definition bitmap_test :: "u8 list \<Rightarrow> u64 \<Rightarrow> bool" where
  "bitmap_test bm index =
     (bm ! unat (drop_bit 3 index) AND push_bit (unat (index AND 7)) 1 \<noteq> 0)"

definition mark_frame_free :: "pmm_state \<Rightarrow> u64 \<Rightarrow> pmm_state" where
  "mark_frame_free pmm frame =
     (if frame \<ge> frame_count pmm then pmm
      else if bitmap_test (bitmap pmm) frame then
        pmm\<lparr>bitmap := bitmap_clear (bitmap pmm) frame,
            free_frames := free_frames pmm + 1,
            used_frames := (if used_frames pmm > 0 then used_frames pmm - 1 else used_frames pmm),
            next_hint := (if frame < next_hint pmm then frame else next_hint pmm)\<rparr>
      else pmm)"

definition mark_frame_used :: "pmm_state \<Rightarrow> u64 \<Rightarrow> pmm_state" where
  "mark_frame_used pmm frame =
     (if frame \<ge> frame_count pmm then pmm
      else if \<not> bitmap_test (bitmap pmm) frame then
        pmm\<lparr>bitmap := bitmap_set (bitmap pmm) frame,
            free_frames := (if free_frames pmm > 0 then free_frames pmm - 1 else free_frames pmm),
            used_frames := used_frames pmm + 1\<rparr>
      else pmm)"

text \<open>
  The loops of \<^verbatim>\<open>mark_range_free\<close> and \<^verbatim>\<open>mark_range_used\<close> step an address by
  \<open>PMM_PAGE_SIZE\<close> while it is below \<open>stop\<close>. Nothing in the loop itself rules out a
  wrap-around of the address, so the loop is \<^const>\<open>while\<close>, and that it ends is a theorem.
\<close>

definition page_loop_cond :: "u64 \<Rightarrow> u64 \<times> pmm_state \<Rightarrow> bool" where
  "page_loop_cond stop st = (fst st < stop)"

definition page_loop_body :: "(pmm_state \<Rightarrow> u64 \<Rightarrow> pmm_state) \<Rightarrow> u64 \<times> pmm_state \<Rightarrow> u64 \<times> pmm_state" where
  "page_loop_body f st = (fst st + PMM_PAGE_SIZE, f (snd st) (fst st div PMM_PAGE_SIZE))"

definition mark_range_free :: "pmm_state \<Rightarrow> u64 \<Rightarrow> u64 \<Rightarrow> pmm_state" where
  "mark_range_free pmm base len =
     (if len = 0 then pmm else
      case checked_add_u64 base len of
        None \<Rightarrow> pmm
      | Some end_addr \<Rightarrow>
         (let start = align_up base PMM_PAGE_SIZE;
              stop = align_down end_addr PMM_PAGE_SIZE
          in if stop \<le> start then pmm
             else if start \<ge> max_phys pmm then pmm
             else
               (let stop' = (if stop > max_phys pmm then max_phys pmm else stop);
                    pmm' = (if stop > max_phys pmm then
                              pmm\<lparr>ignored_frames := ignored_frames pmm +
                                    (align_down end_addr PMM_PAGE_SIZE - stop') div PMM_PAGE_SIZE\<rparr>
                            else pmm)
                in snd (while (page_loop_cond stop') (page_loop_body mark_frame_free) (start, pmm')))))"

definition reserve_frame :: "pmm_state \<Rightarrow> u64 \<Rightarrow> pmm_state" where
  "reserve_frame pmm frame =
     (let was_free = \<not> bitmap_test (bitmap pmm) frame;
          pmm' = mark_frame_used pmm frame
      in if was_free then pmm'\<lparr>reserved_frames := reserved_frames pmm' + 1\<rparr> else pmm')"

definition mark_range_used :: "pmm_state \<Rightarrow> u64 \<Rightarrow> u64 \<Rightarrow> pmm_state" where
  "mark_range_used pmm base len =
     (if len = 0 then pmm else
      case checked_add_u64 base len of
        None \<Rightarrow> pmm
      | Some end_addr \<Rightarrow>
         (let start = align_down base PMM_PAGE_SIZE;
              stop = align_up end_addr PMM_PAGE_SIZE
          in if stop \<le> start then pmm
             else if start \<ge> max_phys pmm then pmm
             else
               (let stop' = (if stop > max_phys pmm then max_phys pmm else stop)
                in snd (while (page_loop_cond stop') (page_loop_body reserve_frame) (start, pmm)))))"

definition pmm_zero_state :: "pmm_state option \<Rightarrow> pmm_state option" where
  "pmm_zero_state pmm =
     (case pmm of None \<Rightarrow> None
      | Some _ \<Rightarrow> Some \<lparr>bitmap = [], bitmap_bytes = 0, max_phys = 0, frame_count = 0,
                       free_frames = 0, used_frames = 0, reserved_frames = 0,
                       ignored_frames = 0, next_hint = 0, initialized = False\<rparr>)"

text \<open>
  \<^verbatim>\<open>regions\<close> and \<^verbatim>\<open>region_count\<close> are one list. The result is the returned flag and
  the state behind \<^verbatim>\<open>pmm\<close>.
\<close>

definition pmm_init_from_map ::
  "pmm_state option \<Rightarrow> boot_mem_region list option \<Rightarrow> u8 list option \<Rightarrow> u64 \<Rightarrow> u64 \<Rightarrow>
   bool \<times> pmm_state option" where
  "pmm_init_from_map pmm regions bitmap_storage bitmap_storage_bytes max_phys_bytes =
     (case (pmm, regions, bitmap_storage) of
        (Some s, Some rs, Some storage) \<Rightarrow>
          if rs = [] then (False, pmm)
          else if max_phys_bytes = 0 \<or> max_phys_bytes AND (PMM_PAGE_SIZE - 1) \<noteq> 0 then (False, pmm)
          else
            (let frames = max_phys_bytes div PMM_PAGE_SIZE;
                 required_bitmap_bytes = (frames + 7) div 8
             in if bitmap_storage_bytes < required_bitmap_bytes then (False, pmm)
                else
                  (let s0 = (the (pmm_zero_state (Some s)))
                              \<lparr>bitmap := storage, bitmap_bytes := required_bitmap_bytes,
                               max_phys := max_phys_bytes, frame_count := frames,
                               free_frames := 0, used_frames := frames, next_hint := 0\<rparr>;
                       s1 = s0\<lparr>bitmap := fold (\<lambda>i bm. bm[i := 0xff])
                                            [0..<unat required_bitmap_bytes] (bitmap s0)\<rparr>;
                       s2 = fold (\<lambda>r st. if region_type r = BOOT_MEM_USABLE
                                         then mark_range_free st (region_base r) (region_length r)
                                         else st) rs s1;
                       s3 = mark_range_used s2 0 PMM_PAGE_SIZE;
                       s4 = fold (\<lambda>r st. if region_type r \<noteq> BOOT_MEM_USABLE
                                         then mark_range_used st (region_base r) (region_length r)
                                         else st) rs s3
                   in (True, Some (s4\<lparr>initialized := True\<rparr>))))
      | _ \<Rightarrow> (False, pmm))"

definition take_frame :: "pmm_state \<Rightarrow> u64 \<Rightarrow> u64 \<times> pmm_state option" where
  "take_frame pmm frame =
     (frame * PMM_PAGE_SIZE, Some ((mark_frame_used pmm frame)\<lparr>next_hint := frame + 1\<rparr>))"

definition pmm_alloc_frame :: "pmm_state option \<Rightarrow> u64 \<times> pmm_state option" where
  "pmm_alloc_frame pmm =
     (case pmm of
        None \<Rightarrow> (PMM_INVALID_FRAME, None)
      | Some s \<Rightarrow>
          if \<not> initialized s \<or> free_frames s = 0 then (PMM_INVALID_FRAME, pmm)
          else
            (case find_from (\<lambda>frame. \<not> bitmap_test (bitmap s) frame) (next_hint s) (frame_count s) of
               Some frame \<Rightarrow> take_frame s frame
             | None \<Rightarrow>
                 (case find_from (\<lambda>frame. \<not> bitmap_test (bitmap s) frame) 0 (next_hint s) of
                    Some frame \<Rightarrow> take_frame s frame
                  | None \<Rightarrow> (PMM_INVALID_FRAME, pmm))))"

definition pmm_free_frame :: "pmm_state option \<Rightarrow> u64 \<Rightarrow> bool \<times> pmm_state option" where
  "pmm_free_frame pmm phys_addr =
     (case pmm of
        None \<Rightarrow> (False, None)
      | Some s \<Rightarrow>
          if \<not> initialized s then (False, pmm)
          else if phys_addr AND (PMM_PAGE_SIZE - 1) \<noteq> 0 \<or> phys_addr = 0 \<or> phys_addr \<ge> max_phys s
          then (False, pmm)
          else
            (let frame = phys_addr div PMM_PAGE_SIZE
             in if \<not> bitmap_test (bitmap s) frame then (False, pmm)
                else (True, Some (mark_frame_free s frame))))"

definition pmm_reserve_range :: "pmm_state option \<Rightarrow> u64 \<Rightarrow> u64 \<Rightarrow> bool \<times> pmm_state option" where
  "pmm_reserve_range pmm base len =
     (case pmm of
        None \<Rightarrow> (False, None)
      | Some s \<Rightarrow>
          if \<not> initialized s \<or> len = 0 then (False, pmm)
          else (True, Some (mark_range_used s base len)))"

definition pmm_is_frame_free :: "pmm_state option \<Rightarrow> u64 \<Rightarrow> bool" where
  "pmm_is_frame_free pmm phys_addr =
     (case pmm of
        None \<Rightarrow> False
      | Some s \<Rightarrow>
          if \<not> initialized s then False
          else if phys_addr AND (PMM_PAGE_SIZE - 1) \<noteq> 0 \<or> phys_addr \<ge> max_phys s then False
          else \<not> bitmap_test (bitmap s) (phys_addr div PMM_PAGE_SIZE))"

definition pmm_free_count :: "pmm_state option \<Rightarrow> u64" where
  "pmm_free_count pmm = (case pmm of Some s \<Rightarrow> free_frames s | None \<Rightarrow> 0)"

definition pmm_used_count :: "pmm_state option \<Rightarrow> u64" where
  "pmm_used_count pmm = (case pmm of Some s \<Rightarrow> used_frames s | None \<Rightarrow> 0)"

definition pmm_frame_count :: "pmm_state option \<Rightarrow> u64" where
  "pmm_frame_count pmm = (case pmm of Some s \<Rightarrow> frame_count s | None \<Rightarrow> 0)"

section \<open>The bitmap\<close>

definition bitmap_holds :: "u8 list \<Rightarrow> u64 \<Rightarrow> bool" where
  "bitmap_holds bm index \<longleftrightarrow> unat index div 8 < length bm"

lemma unat_drop_bit_3: "unat (drop_bit 3 i) = unat i div 8" for i :: u64
  by (simp add: drop_bit_eq_div unat_div)

lemma bitmap_test_bit: "bitmap_test bm i \<longleftrightarrow> bit (bm ! (unat i div 8)) (unat (i AND 7))"
  by (simp add: bitmap_test_def unat_drop_bit_3 bit_iff_and_push_bit_not_eq_0)

lemma unat_and_7: "unat (i AND 7) = unat i mod 8" for i :: u64
  using unat_and_mask[of i 3] by (simp add: mask_numeral)

lemma same_bit: "unat i div 8 = unat j div 8 \<Longrightarrow> unat i mod 8 = unat j mod 8 \<Longrightarrow> i = j" for i j :: u64
  by (metis div_mult_mod_eq word_unat_eq_iff)


lemma unat_mod_8_bit [simp]: "bit (2 ^ (unat i mod 8) :: u8) n \<longleftrightarrow> n = unat i mod 8" for i :: u64
  by (auto simp: bit_exp_iff)

lemma bit_position_neq:
  "j \<noteq> i \<Longrightarrow> unat j div 8 \<noteq> unat i div 8 \<or> unat j mod 8 \<noteq> unat i mod 8" for i j :: u64
  using same_bit by metis

lemmas bitmap_defs = bitmap_test_bit bitmap_set_def bitmap_clear_def bitmap_holds_def
  unat_drop_bit_3 unat_and_7 Let_def

interpretation pmm_bits: bit_store bitmap_test bitmap_set bitmap_clear bitmap_holds
proof
  fix b i j
  assume "bitmap_holds b i"
  then show "bitmap_test (bitmap_set b i) j \<longleftrightarrow> j = i \<or> bitmap_test b j"
    using bit_position_neq[of j i]
    by (cases "j = i"; cases "unat j div 8 = unat i div 8") (simp_all add: bitmap_defs bit_or_iff)
next
  fix b i j
  assume "bitmap_holds b i"
  then show "bitmap_test (bitmap_clear b i) j \<longleftrightarrow> j \<noteq> i \<and> bitmap_test b j"
    using bit_position_neq[of j i]
    by (cases "j = i"; cases "unat j div 8 = unat i div 8")
      (simp_all add: bitmap_defs bit_and_iff bit_not_iff)
qed (simp_all add: bitmap_holds_def bitmap_set_def bitmap_clear_def Let_def)

section \<open>Free frames and the state invariant\<close>

definition free_set :: "pmm_state \<Rightarrow> u64 set" where
  "free_set pmm = {f. f < frame_count pmm \<and> \<not> bitmap_test (bitmap pmm) f}"

definition geometry_ok :: "pmm_state \<Rightarrow> bool" where
  "geometry_ok pmm \<longleftrightarrow>
     unat (max_phys pmm) = unat (frame_count pmm) * 4096 \<and>
     0 < frame_count pmm \<and> unat (frame_count pmm) \<le> 8 * length (bitmap pmm)"

definition counts_ok :: "pmm_state \<Rightarrow> bool" where
  "counts_ok pmm \<longleftrightarrow>
     unat (free_frames pmm) = card (free_set pmm) \<and>
     unat (free_frames pmm) + unat (used_frames pmm) = unat (frame_count pmm)"

definition hint_ok :: "pmm_state \<Rightarrow> bool" where
  "hint_ok pmm \<longleftrightarrow> next_hint pmm \<le> frame_count pmm \<and> (\<forall>f \<in> free_set pmm. next_hint pmm \<le> f)"

definition pmm_ok :: "pmm_state \<Rightarrow> bool" where
  "pmm_ok pmm \<longleftrightarrow> geometry_ok pmm \<and> counts_ok pmm \<and> hint_ok pmm"

definition pmm_inv :: "pmm_state \<Rightarrow> bool" where
  "pmm_inv pmm \<longleftrightarrow> pmm_ok pmm \<and> initialized pmm \<and> 0 \<notin> free_set pmm"

lemmas pmm_ok_defs = pmm_ok_def geometry_ok_def counts_ok_def hint_ok_def

lemma free_set_zeros: "free_set pmm = pmm_bits.zeros {f. f < frame_count pmm} (bitmap pmm)"
  by (simp add: free_set_def pmm_bits.zeros_def)

lemma finite_free_set [simp]: "finite (free_set pmm)"
  by (rule finite)

lemma geometry_holds: "geometry_ok pmm \<Longrightarrow> f < frame_count pmm \<Longrightarrow> bitmap_holds (bitmap pmm) f"
  by (auto simp: geometry_ok_def bitmap_holds_def word_less_nat_alt)

lemma length_bitmap_updates [simp]:
  "length (bitmap_set bm i) = length bm" "length (bitmap_clear bm i) = length bm"
  by (simp_all add: bitmap_set_def bitmap_clear_def Let_def)

lemma mark_frame_free_frame [simp]:
  "frame_count (mark_frame_free pmm f) = frame_count pmm"
  "max_phys (mark_frame_free pmm f) = max_phys pmm"
  "initialized (mark_frame_free pmm f) = initialized pmm"
  by (simp_all add: mark_frame_free_def)

lemma mark_frame_used_frame [simp]:
  "frame_count (mark_frame_used pmm f) = frame_count pmm"
  "max_phys (mark_frame_used pmm f) = max_phys pmm"
  "initialized (mark_frame_used pmm f) = initialized pmm"
  "next_hint (mark_frame_used pmm f) = next_hint pmm"
  by (simp_all add: mark_frame_used_def)

lemma free_set_mark_free:
  assumes "geometry_ok pmm"
  shows "free_set (mark_frame_free pmm f) = free_set pmm \<union> {g. g = f \<and> f < frame_count pmm}"
  using assms geometry_holds[OF assms, of f]
  by (auto simp: free_set_def mark_frame_free_def pmm_bits.test_clear)

lemma free_set_mark_used:
  assumes "geometry_ok pmm"
  shows "free_set (mark_frame_used pmm f) = free_set pmm - {f}"
  using assms geometry_holds[OF assms, of f]
  by (auto simp: free_set_def mark_frame_used_def pmm_bits.test_set)

lemma geometry_mark [simp]:
  "geometry_ok (mark_frame_free pmm f) = geometry_ok pmm"
  "geometry_ok (mark_frame_used pmm f) = geometry_ok pmm"
  by (simp_all add: geometry_ok_def mark_frame_free_def mark_frame_used_def)

lemma card_free_set_le: "card (free_set pmm) \<le> unat (frame_count pmm)"
proof -
  have "unat ` free_set pmm \<subseteq> {..<unat (frame_count pmm)}"
    by (auto simp: free_set_def word_less_nat_alt)
  then have "card (unat ` free_set pmm) \<le> unat (frame_count pmm)"
    by (metis card_lessThan card_mono finite_lessThan)
  moreover have "inj_on unat (free_set pmm)"
    by (rule inj_onI) (simp only: word_unat_eq_iff)
  ultimately show ?thesis by (simp only: card_image)
qed

lemma pmm_ok_mark_free:
  assumes ok: "pmm_ok pmm"
  shows "pmm_ok (mark_frame_free pmm f)"
proof (cases "f < frame_count pmm \<and> bitmap_test (bitmap pmm) f")
  case True
  let ?p = "mark_frame_free pmm f"
  have fs: "free_set ?p = insert f (free_set pmm)" "f \<notin> free_set pmm"
    using True ok free_set_mark_free[of pmm f] by (auto simp: pmm_ok_def free_set_def)
  then have card: "card (free_set ?p) = Suc (card (free_set pmm))" by simp
  have "\<not> frame_count pmm \<le> f" using True by (simp add: not_le)
  then have "free_frames ?p = free_frames pmm + 1" "used_frames ?p =
      (if used_frames pmm > 0 then used_frames pmm - 1 else used_frames pmm)"
      "next_hint ?p = (if f < next_hint pmm then f else next_hint pmm)"
    using True by (simp_all add: mark_frame_free_def)
  moreover have "unat (free_frames pmm) < unat (frame_count pmm)"
    using card card_free_set_le[of ?p] ok by (simp add: pmm_ok_defs)
  moreover have "unat (free_frames pmm + 1) = Suc (unat (free_frames pmm))"
    using calculation(4) by (simp add: unat_inc word_less_nat_alt)
  moreover have "unat (used_frames pmm - 1) = unat (used_frames pmm) - 1"
    using calculation(4) ok by (intro unat_minus_one) (auto simp: pmm_ok_defs)
  ultimately show ?thesis
    using ok card fs True
    by (auto simp: pmm_ok_def counts_ok_def hint_ok_def word_less_nat_alt word_le_nat_alt)
next
  case False
  then have "mark_frame_free pmm f = pmm" by (auto simp: mark_frame_free_def)
  with ok show ?thesis by simp
qed

lemma pmm_ok_mark_used:
  assumes ok: "pmm_ok pmm"
  shows "pmm_ok (mark_frame_used pmm f)"
proof (cases "f \<in> free_set pmm")
  case True
  let ?p = "mark_frame_used pmm f"
  have fs: "free_set ?p = free_set pmm - {f}"
    using ok by (simp add: free_set_mark_used pmm_ok_def)
  then have card: "Suc (card (free_set ?p)) = card (free_set pmm)"
    using True by (simp only: fs) (rule card_Suc_Diff1[OF finite_free_set])
  have c: "free_frames pmm > 0"
    using card ok by (auto simp: pmm_ok_defs word_less_nat_alt)
  then have "free_frames ?p = free_frames pmm - 1" "used_frames ?p = used_frames pmm + 1"
    using True by (simp_all add: mark_frame_used_def free_set_def not_le)
  moreover have "unat (free_frames pmm - 1) = unat (free_frames pmm) - 1"
    using c by (intro unat_minus_one) auto
  moreover have "unat (used_frames pmm + 1) = Suc (unat (used_frames pmm))"
    using c ok by (intro unat_inc[of _ "frame_count pmm"]) (auto simp: pmm_ok_defs word_less_nat_alt)
  ultimately show ?thesis
    using ok card fs c
    by (auto simp: pmm_ok_def counts_ok_def hint_ok_def word_less_nat_alt)
next
  case False
  then have "mark_frame_used pmm f = pmm" by (auto simp: mark_frame_used_def free_set_def)
  with ok show ?thesis by simp
qed

section \<open>Ranges of frames\<close>

lemma page_loop_ends:
  assumes "unat start = a * 4096" and "unat stop \<le> 2 ^ 64 - 4096"
  shows "\<exists>e. while_option (page_loop_cond stop) (page_loop_body f) (start, pmm) =
           Some (e, fold (\<lambda>k s. f s (word_of_nat k)) [a..<(unat stop + 4095) div 4096] pmm)"
  using assms
proof (induction "(unat stop + 4095) div 4096 - a" arbitrary: a start pmm)
  case 0
  then have "\<not> start < stop" by (simp add: word_less_nat_alt)
  with 0 show ?case
    by (subst while_option_unfold) (simp add: page_loop_cond_def)
next
  case (Suc n)
  then have lt: "a < (unat stop + 4095) div 4096" and less: "start < stop"
    by (simp_all add: word_less_nat_alt)
  have next_addr: "unat (start + 4096) = Suc a * 4096"
    using Suc.prems less by (simp add: unat_word_ariths word_less_nat_alt)
  have frame: "start div 4096 = word_of_nat a"
    using Suc.prems unat_less_length[of start]
    by (simp add: word_unat_eq_iff unat_div unat_of_nat)
  have "n = (unat stop + 4095) div 4096 - Suc a" using Suc.hyps(2) by simp
  from Suc.hyps(1)[OF this next_addr Suc.prems(2), of "f pmm (word_of_nat a)"]
  show ?case
    using less frame upt_conv_Cons[OF lt]
    by (subst while_option_unfold)
      (simp add: page_loop_cond_def page_loop_body_def PMM_PAGE_SIZE_def)
qed

lemma page_loop_while:
  assumes "unat start = a * 4096" and "unat stop \<le> 2 ^ 64 - 4096"
  shows "snd (while (page_loop_cond stop) (page_loop_body f) (start, pmm)) =
           fold (\<lambda>k s. f s (word_of_nat k)) [a..<(unat stop + 4095) div 4096] pmm"
  using page_loop_ends[OF assms, of f pmm] by (auto simp: while_def)

lemma reserve_frame_frame [simp]:
  "frame_count (reserve_frame pmm f) = frame_count pmm"
  "max_phys (reserve_frame pmm f) = max_phys pmm"
  "initialized (reserve_frame pmm f) = initialized pmm"
  by (simp_all add: reserve_frame_def Let_def)

lemma free_set_update [simp]:
  "free_set (pmm\<lparr>reserved_frames := x\<rparr>) = free_set pmm"
  "free_set (pmm\<lparr>ignored_frames := x\<rparr>) = free_set pmm"
  "free_set (pmm\<lparr>initialized := b\<rparr>) = free_set pmm"
  "free_set (pmm\<lparr>next_hint := x\<rparr>) = free_set pmm"
  by (simp_all add: free_set_def)

lemma pmm_ok_update [simp]:
  "pmm_ok (pmm\<lparr>reserved_frames := x\<rparr>) = pmm_ok pmm"
  "pmm_ok (pmm\<lparr>ignored_frames := x\<rparr>) = pmm_ok pmm"
  "pmm_ok (pmm\<lparr>initialized := b\<rparr>) = pmm_ok pmm"
  by (simp_all add: pmm_ok_defs)

lemma reserve_frame_ok:
  assumes "pmm_ok pmm"
  shows "pmm_ok (reserve_frame pmm f)" "free_set (reserve_frame pmm f) = free_set pmm - {f}"
proof -
  have "geometry_ok pmm" using assms by (simp add: pmm_ok_def)
  then show "pmm_ok (reserve_frame pmm f)" "free_set (reserve_frame pmm f) = free_set pmm - {f}"
    using assms by (simp_all add: reserve_frame_def Let_def pmm_ok_mark_used free_set_mark_used)
qed

lemma fold_mark_free:
  assumes "pmm_ok pmm"
  shows "let p = fold (\<lambda>k s. mark_frame_free s (g k)) ks pmm in
           pmm_ok p \<and> frame_count p = frame_count pmm \<and> max_phys p = max_phys pmm \<and>
           initialized p = initialized pmm \<and>
           free_set p = free_set pmm \<union> {f \<in> g ` set ks. f < frame_count pmm}"
  using assms
proof (induction ks arbitrary: pmm)
  case (Cons k ks)
  then show ?case
    using Cons.IH[of "mark_frame_free pmm (g k)"] pmm_ok_mark_free[of pmm "g k"] free_set_mark_free[of pmm "g k"]
    by (auto simp: Let_def pmm_ok_def)
qed simp

lemma fold_reserve:
  assumes "pmm_ok pmm"
  shows "let p = fold (\<lambda>k s. reserve_frame s (g k)) ks pmm in
           pmm_ok p \<and> frame_count p = frame_count pmm \<and> max_phys p = max_phys pmm \<and>
           initialized p = initialized pmm \<and>
           free_set p = free_set pmm - g ` set ks"
  using assms
proof (induction ks arbitrary: pmm)
  case (Cons k ks)
  then show ?case
    using Cons.IH[of "reserve_frame pmm (g k)"] reserve_frame_ok[of pmm "g k"]
    by (auto simp: Let_def)
qed simp

text \<open>
  What a memory range means for frames: a usable range contributes the frames that lie
  wholly inside it, a reserved range withdraws every frame it overlaps.
\<close>

definition frame_inside :: "u64 \<Rightarrow> u64 \<Rightarrow> u64 \<Rightarrow> bool" where
  "frame_inside base len f \<longleftrightarrow>
     unat base \<le> unat f * 4096 \<and> unat f * 4096 + 4096 \<le> unat base + unat len"

definition frame_touched :: "u64 \<Rightarrow> u64 \<Rightarrow> u64 \<Rightarrow> bool" where
  "frame_touched base len f \<longleftrightarrow>
     0 < len \<and> unat f * 4096 < unat base + unat len \<and> unat base < unat f * 4096 + 4096"

lemma mask_4096: "(4096 :: u64) - 1 = mask 12"
  by (simp add: mask_numeral)

lemma unat_align_down: "unat (align_down v PMM_PAGE_SIZE) = unat v div 4096 * 4096"
  unfolding align_down_def PMM_PAGE_SIZE_def mask_4096 unat_and_not_mask by simp

lemma unat_align_up:
  assumes "unat v \<le> 2 ^ 64 - 4096"
  shows "unat (align_up v PMM_PAGE_SIZE) = (unat v + 4095) div 4096 * 4096"
proof -
  have "unat (v + 4096 - 1) = unat v + 4095"
  proof -
    have "v + 4096 - 1 = v + 4095" by simp
    then show ?thesis using assms by (simp only: unat_word_ariths) simp
  qed
  then show ?thesis
    unfolding align_up_def PMM_PAGE_SIZE_def mask_4096 unat_and_not_mask by simp
qed

lemma checked_add_u64_eq:
  "checked_add_u64 a b = (if unat a + unat b < 2 ^ 64 then Some (a + b) else None)"
proof -
  have "a \<le> 0xffffffffffffffff"
    using unat_less_length[of a] by (simp add: word_le_nat_alt)
  then have "unat (0xffffffffffffffff - a) = 2 ^ 64 - 1 - unat a"
    by (simp only: unat_sub) simp
  then show ?thesis
    using unat_less_length[of a] by (auto simp: checked_add_u64_def word_less_nat_alt)
qed

lemma unat_add_no_wrap: "unat a + unat b < 2 ^ 64 \<Longrightarrow> unat (a + b) = unat a + unat b" for a b :: u64
  by (simp add: unat_word_ariths)


lemma page_ceil_le: "(b + 4095) div 4096 \<le> f \<longleftrightarrow> b \<le> f * 4096" for b f :: nat
  using div_less_iff_less_mult[of 4096 "b + 4095" "Suc f"] by (simp add: less_Suc_eq_le)

lemma page_less_floor: "f < e div 4096 \<longleftrightarrow> f * 4096 + 4096 \<le> e" for e f :: nat
  using less_eq_div_iff_mult_less_eq[of 4096 "Suc f" e] by (simp add: Suc_le_eq add.commute)

lemma page_floor_le: "b div 4096 \<le> f \<longleftrightarrow> b < f * 4096 + 4096" for b f :: nat
  using div_less_iff_less_mult[of 4096 b "Suc f"] by (simp add: less_Suc_eq_le add.commute)

lemma page_less_ceil: "f < (e + 4095) div 4096 \<longleftrightarrow> f * 4096 < e" for e f :: nat
  using page_ceil_le[of e f] by linarith

lemma word_of_nat_image:
  assumes "n \<le> 2 ^ 64"
  shows "(word_of_nat ` {m..<n} :: u64 set) = {f. m \<le> unat f \<and> unat f < n}"
proof -
  have "x \<in> word_of_nat ` {m..<n}" if "m \<le> unat x" "unat x < n" for x :: u64
    using that by (intro image_eqI[of _ _ "unat x"]) auto
  then show ?thesis using assms by (auto simp: unat_of_nat)
qed

lemma mark_range_free_spec:
  assumes ok: "pmm_ok pmm" and fits: "unat base \<le> 2 ^ 64 - 4096" and wrap: "unat base + unat len < 2 ^ 64"
  shows "let p = mark_range_free pmm base len in
           pmm_ok p \<and> frame_count p = frame_count pmm \<and> max_phys p = max_phys pmm \<and>
           initialized p = initialized pmm \<and>
           free_set p = free_set pmm \<union> {f. f < frame_count pmm \<and> frame_inside base len f}"
proof -
  let ?start = "align_up base PMM_PAGE_SIZE" and ?stop = "align_down (base + len) PMM_PAGE_SIZE"
  let ?s = "(unat base + 4095) div 4096" and ?e = "(unat base + unat len) div 4096"
  have start: "unat ?start = ?s * 4096" by (rule unat_align_up[OF fits])
  have stop: "unat ?stop = ?e * 4096" using wrap by (simp add: unat_align_down unat_add_no_wrap)
  have geo: "unat (max_phys pmm) = unat (frame_count pmm) * 4096" using ok by (simp add: pmm_ok_defs)
  have inside: "frame_inside base len f \<longleftrightarrow> ?s \<le> unat f \<and> unat f < ?e" for f
    by (simp only: frame_inside_def page_ceil_le page_less_floor)
  show ?thesis
  proof (cases "len = 0 \<or> ?stop \<le> ?start \<or> ?start \<ge> max_phys pmm")
    case True
    then have "mark_range_free pmm base len = pmm"
      using wrap by (auto simp: mark_range_free_def checked_add_u64_eq Let_def)
    moreover have "\<not> (f < frame_count pmm \<and> frame_inside base len f)" for f
      using True start stop geo unfolding inside
      by (auto simp: word_le_nat_alt word_less_nat_alt)
    ultimately show ?thesis using ok by (auto simp: Let_def)
  next
    case False
    define pmm' where "pmm' = (if ?stop > max_phys pmm then
        pmm\<lparr>ignored_frames := ignored_frames pmm +
            (?stop - max_phys pmm) div PMM_PAGE_SIZE\<rparr> else pmm)"
    define stop' where "stop' = (if ?stop > max_phys pmm then max_phys pmm else ?stop)"
    have p': "pmm_ok pmm'" "free_set pmm' = free_set pmm" "frame_count pmm' = frame_count pmm"
        "max_phys pmm' = max_phys pmm" "initialized pmm' = initialized pmm"
      using ok by (simp_all add: pmm'_def)
    have stop'_eq: "unat stop' = min ?e (unat (frame_count pmm)) * 4096"
      using stop geo by (auto simp: stop'_def word_less_nat_alt)
    have "mark_range_free pmm base len =
        snd (while (page_loop_cond stop') (page_loop_body mark_frame_free) (?start, pmm'))"
      using False wrap
      by (auto simp: mark_range_free_def checked_add_u64_eq Let_def stop'_def pmm'_def)
    also have "\<dots> = fold (\<lambda>k s. mark_frame_free s (word_of_nat k)) [?s..<(unat stop' + 4095) div 4096] pmm'"
      using start unat_less_length[of stop'] by (intro page_loop_while) (auto simp: stop'_eq)
    finally have eq: "mark_range_free pmm base len =
        fold (\<lambda>k s. mark_frame_free s (word_of_nat k)) [?s..<min ?e (unat (frame_count pmm))] pmm'"
      by (simp add: stop'_eq)
    have "unat (frame_count pmm) \<le> 2 ^ 64" using unat_less_length[of "frame_count pmm"] by simp
    then have "(word_of_nat ` {?s..<min ?e (unat (frame_count pmm))} :: u64 set) =
        {f. f < frame_count pmm \<and> frame_inside base len f}"
      unfolding inside by (subst word_of_nat_image) (auto simp: word_less_nat_alt)
    then show ?thesis
      using fold_mark_free[OF p'(1), of word_of_nat "[?s..<min ?e (unat (frame_count pmm))]"] p'
      by (auto simp: eq Let_def)
  qed
qed

lemma mark_range_used_spec:
  assumes ok: "pmm_ok pmm" and fits: "unat base + unat len \<le> 2 ^ 64 - 4096"
  shows "let p = mark_range_used pmm base len in
           pmm_ok p \<and> frame_count p = frame_count pmm \<and> max_phys p = max_phys pmm \<and>
           initialized p = initialized pmm \<and>
           free_set p = free_set pmm - {f. frame_touched base len f}"
proof -
  let ?start = "align_down base PMM_PAGE_SIZE" and ?stop = "align_up (base + len) PMM_PAGE_SIZE"
  let ?s = "unat base div 4096" and ?e = "(unat base + unat len + 4095) div 4096"
  have wrap: "unat base + unat len < 2 ^ 64" using fits by simp
  have start: "unat ?start = ?s * 4096" by (rule unat_align_down)
  have stop: "unat ?stop = ?e * 4096"
    using fits wrap by (simp add: unat_align_up unat_add_no_wrap)
  have geo: "unat (max_phys pmm) = unat (frame_count pmm) * 4096" using ok by (simp add: pmm_ok_defs)
  have touched: "frame_touched base len f \<longleftrightarrow> 0 < len \<and> ?s \<le> unat f \<and> unat f < ?e" for f
    by (auto simp only: frame_touched_def page_floor_le page_less_ceil)
  have small: "f < frame_count pmm" if "f \<in> free_set pmm" for f
    using that by (simp add: free_set_def)
  show ?thesis
  proof (cases "len = 0 \<or> ?stop \<le> ?start \<or> ?start \<ge> max_phys pmm")
    case True
    then have "mark_range_used pmm base len = pmm"
      using wrap by (auto simp: mark_range_used_def checked_add_u64_eq Let_def)
    moreover have "\<not> (f < frame_count pmm \<and> frame_touched base len f)" for f
      using True start stop geo unfolding touched
      by (auto simp: word_le_nat_alt word_less_nat_alt)
    ultimately show ?thesis using ok small by (auto simp: Let_def)
  next
    case False
    define stop' where "stop' = (if ?stop > max_phys pmm then max_phys pmm else ?stop)"
    have stop'_eq: "unat stop' = min ?e (unat (frame_count pmm)) * 4096"
      using stop geo by (auto simp: stop'_def word_less_nat_alt)
    have "mark_range_used pmm base len =
        snd (while (page_loop_cond stop') (page_loop_body reserve_frame) (?start, pmm))"
      using False wrap
      by (auto simp: mark_range_used_def checked_add_u64_eq Let_def stop'_def)
    also have "\<dots> = fold (\<lambda>k s. reserve_frame s (word_of_nat k)) [?s..<(unat stop' + 4095) div 4096] pmm"
      using start unat_less_length[of stop'] by (intro page_loop_while) (auto simp: stop'_eq)
    finally have eq: "mark_range_used pmm base len =
        fold (\<lambda>k s. reserve_frame s (word_of_nat k)) [?s..<min ?e (unat (frame_count pmm))] pmm"
      by (simp add: stop'_eq)
    have "unat (frame_count pmm) \<le> 2 ^ 64" using unat_less_length[of "frame_count pmm"] by simp
    then have "(word_of_nat ` {?s..<min ?e (unat (frame_count pmm))} :: u64 set) =
        {f. f < frame_count pmm \<and> frame_touched base len f}"
      using False unfolding touched
      by (subst word_of_nat_image) (auto simp: word_less_nat_alt unat_gt_0)
    then show ?thesis
      using fold_reserve[OF ok, of word_of_nat "[?s..<min ?e (unat (frame_count pmm))]"] small
      by (auto simp: eq Let_def)
  qed
qed

text \<open>The same for every range, with the wrap-around of the rounding at the top of the address space.\<close>

lemma align_up_wraps: "2 ^ 64 - 4096 < unat v \<Longrightarrow> align_up v PMM_PAGE_SIZE = 0"
proof -
  assume v: "2 ^ 64 - 4096 < unat v"
  have "unat (v + 4095) = unat v + 4095 - 2 ^ 64"
    using v unat_less_length[of v] by (simp add: unat_word_ariths mod_if)
  then have "unat (v + 4095) div 4096 = 0" using unat_less_length[of v] by simp
  then have "unat (align_up v PMM_PAGE_SIZE) = 0"
    unfolding align_up_def PMM_PAGE_SIZE_def mask_4096 add_diff_eq[symmetric] by (simp only: unat_and_not_mask) (simp add: mask_numeral)
  then show ?thesis by (simp add: unsigned_eq_0_iff)
qed

lemma mark_range_free_top:
  assumes "2 ^ 64 - 4096 < unat base" "unat base + unat len < 2 ^ 64" "len \<noteq> 0"
  shows "mark_range_free pmm base len = mark_range_free pmm 0 0xfffffffffffff000"
proof -
  have "(unat base + unat len) div 4096 = (2 ^ 64 - 4096) div 4096" using assms(1,2) by (intro div_nat_eqI) auto
  then have "unat (align_down (base + len) PMM_PAGE_SIZE) = unat (0xfffffffffffff000 :: u64)"
    using assms(2) by (simp add: unat_align_down unat_add_no_wrap)
  then have d: "align_down (base + len) PMM_PAGE_SIZE = 0xfffffffffffff000" by (simp add: word_unat_eq_iff)
  have z: "align_down 0xfffffffffffff000 PMM_PAGE_SIZE = 0xfffffffffffff000" "align_up 0 PMM_PAGE_SIZE = 0"
    by (simp_all add: align_down_def align_up_def PMM_PAGE_SIZE_def)
  show ?thesis using assms
    by (simp add: mark_range_free_def checked_add_u64_eq d z align_up_wraps)
qed

lemma mark_range_free_any:
  assumes ok: "pmm_ok pmm"
  shows "let p = mark_range_free pmm base len in
           pmm_ok p \<and> frame_count p = frame_count pmm \<and> max_phys p = max_phys pmm \<and>
           initialized p = initialized pmm \<and>
           free_set p = free_set pmm \<union> {f. f < frame_count pmm \<and> 0 < len \<and> unat base + unat len < 2 ^ 64 \<and>
             (2 ^ 64 - 4096 < unat base \<or> frame_inside base len f)}"
proof -
  consider (none) "len = 0 \<or> \<not> unat base + unat len < 2 ^ 64"
    | (top) "len \<noteq> 0" "unat base + unat len < 2 ^ 64" "2 ^ 64 - 4096 < unat base"
    | (plain) "len \<noteq> 0" "unat base + unat len < 2 ^ 64" "unat base \<le> 2 ^ 64 - 4096" by linarith
  then show ?thesis
  proof cases
    case none
    then have "mark_range_free pmm base len = pmm" by (auto simp: mark_range_free_def checked_add_u64_eq)
    with none ok show ?thesis by auto
  next
    case top
    have "frame_inside 0 0xfffffffffffff000 f" if "f < frame_count pmm" for f
    proof -
      have "unat (frame_count pmm) * 4096 < 2 ^ 64" using ok unat_less_length[of "max_phys pmm"] by (simp add: pmm_ok_defs)
      then show ?thesis using that by (simp add: frame_inside_def word_less_nat_alt)
    qed
    then show ?thesis using mark_range_free_spec[OF ok, of 0 "0xfffffffffffff000"] top
      by (auto simp: mark_range_free_top word_neq_0_conv Let_def)
  next
    case plain
    then show ?thesis using mark_range_free_spec[OF ok plain(3,2)] by (auto simp: Let_def word_neq_0_conv)
  qed
qed

lemma mark_range_used_any:
  assumes ok: "pmm_ok pmm"
  shows "let p = mark_range_used pmm base len in
           pmm_ok p \<and> frame_count p = frame_count pmm \<and> max_phys p = max_phys pmm \<and>
           initialized p = initialized pmm \<and>
           free_set p = free_set pmm - {f. unat base + unat len \<le> 2 ^ 64 - 4096 \<and> frame_touched base len f}"
proof (cases "unat base + unat len \<le> 2 ^ 64 - 4096")
  case True
  then show ?thesis using mark_range_used_spec[OF ok True] by simp
next
  case False
  have "mark_range_used pmm base len = pmm"
  proof (cases "unat base + unat len < 2 ^ 64")
    case True
    then have "align_up (base + len) PMM_PAGE_SIZE = 0" using False by (intro align_up_wraps) (simp add: unat_add_no_wrap)
    then show ?thesis using True by (simp add: mark_range_used_def checked_add_u64_eq)
  next
    case False
    then show ?thesis by (simp add: mark_range_used_def checked_add_u64_eq)
  qed
  with False ok show ?thesis by simp
qed

section \<open>Initialisation\<close>

text \<open>
  A boot region is plain when it ends at or below the last page of the address space, so that the
  page rounding of its ends does not pass \<open>2 ^ 64\<close>.
\<close>

definition region_plain :: "boot_mem_region \<Rightarrow> bool" where
  "region_plain r \<longleftrightarrow> unat (region_base r) + unat (region_length r) \<le> 2 ^ 64 - 4096"

definition usable_frame :: "boot_mem_region list \<Rightarrow> u64 \<Rightarrow> bool" where
  "usable_frame rs f \<longleftrightarrow>
     (\<exists>r \<in> set rs. region_type r = BOOT_MEM_USABLE \<and> frame_inside (region_base r) (region_length r) f)"

definition reserved_frame :: "boot_mem_region list \<Rightarrow> u64 \<Rightarrow> bool" where
  "reserved_frame rs f \<longleftrightarrow>
     (\<exists>r \<in> set rs. region_type r \<noteq> BOOT_MEM_USABLE \<and> frame_touched (region_base r) (region_length r) f)"

text \<open>What a region of any position and length does to a frame.\<close>

definition region_frees :: "boot_mem_region \<Rightarrow> u64 \<Rightarrow> bool" where
  "region_frees r f \<longleftrightarrow> region_type r = BOOT_MEM_USABLE \<and> 0 < region_length r \<and>
     unat (region_base r) + unat (region_length r) < 2 ^ 64 \<and>
     (2 ^ 64 - 4096 < unat (region_base r) \<or> frame_inside (region_base r) (region_length r) f)"

definition region_reserves :: "boot_mem_region \<Rightarrow> u64 \<Rightarrow> bool" where
  "region_reserves r f \<longleftrightarrow> region_type r \<noteq> BOOT_MEM_USABLE \<and>
     unat (region_base r) + unat (region_length r) \<le> 2 ^ 64 - 4096 \<and> frame_touched (region_base r) (region_length r) f"

lemma fold_usable_regions:
  assumes "pmm_ok pmm"
  shows "let p = fold (\<lambda>r st. if region_type r = BOOT_MEM_USABLE
                               then mark_range_free st (region_base r) (region_length r) else st) rs pmm in
           pmm_ok p \<and> frame_count p = frame_count pmm \<and> max_phys p = max_phys pmm \<and>
           initialized p = initialized pmm \<and>
           free_set p = free_set pmm \<union> {f. f < frame_count pmm \<and> (\<exists>r \<in> set rs. region_frees r f)}"
  using assms
proof (induction rs arbitrary: pmm)
  case (Cons r rs)
  from mark_range_free_any[OF Cons.prems, of "region_base r" "region_length r"] Cons
  show ?case by (auto simp: Let_def region_frees_def)
qed simp

lemma fold_reserved_regions:
  assumes "pmm_ok pmm"
  shows "let p = fold (\<lambda>r st. if region_type r \<noteq> BOOT_MEM_USABLE
                               then mark_range_used st (region_base r) (region_length r) else st) rs pmm in
           pmm_ok p \<and> frame_count p = frame_count pmm \<and> max_phys p = max_phys pmm \<and>
           initialized p = initialized pmm \<and>
           free_set p = free_set pmm - {f. \<exists>r \<in> set rs. region_reserves r f}"
  using assms
proof (induction rs arbitrary: pmm)
  case (Cons r rs)
  from mark_range_used_any[OF Cons.prems, of "region_base r" "region_length r"] Cons
  show ?case by (auto simp: Let_def region_reserves_def)
qed simp

lemma fold_fill:
  "n \<le> length bm \<Longrightarrow> fold (\<lambda>i bm. bm[i := v]) [0..<n] bm = replicate n v @ drop n bm"
proof (induction n)
  case (Suc n)
  then show ?case
    by (simp add: list_update_append replicate_append_same[symmetric] flip: Cons_nth_drop_Suc)
qed simp

lemma bitmap_test_full:
  assumes "unat i div 8 < n" and "n \<le> length bm"
  shows "bitmap_test (replicate n 0xff @ drop n bm) i"
proof -
  have "bit (mask 8 :: u8) (unat i mod 8)" by (simp add: bit_mask_iff)
  moreover have "mask 8 = (0xff :: u8)" by (simp add: mask_numeral)
  ultimately show ?thesis using assms by (simp add: bitmap_test_bit unat_and_7 nth_append)
qed

lemma pmm_init_any_map:
  assumes rs: "rs \<noteq> []"
    and phys: "0 < frames" "unat max_phys_bytes = frames * 4096"
    and storage: "(frames + 7) div 8 \<le> unat storage_bytes" "unat storage_bytes \<le> length storage"
  shows "\<exists>s'. pmm_init_from_map (Some s) (Some rs) (Some storage) storage_bytes max_phys_bytes = (True, Some s') \<and>
           pmm_inv s' \<and> unat (frame_count s') = frames \<and>
           free_set s' = {f. unat f < frames \<and> f \<noteq> 0 \<and> (\<exists>r \<in> set rs. region_frees r f) \<and> \<not> (\<exists>r \<in> set rs. region_reserves r f)}"
proof -
  have lim: "frames < 2 ^ 52" using phys unat_less_length[of max_phys_bytes] by simp
  have page: "max_phys_bytes AND (PMM_PAGE_SIZE - 1) = 0" "max_phys_bytes \<noteq> 0"
    using phys unat_and_mask[of max_phys_bytes 12]
    by (auto simp: PMM_PAGE_SIZE_def mask_numeral word_unat_eq_iff)
  define fc where "fc = max_phys_bytes div PMM_PAGE_SIZE"
  define req where "req = (fc + 7) div 8"
  have fc: "unat fc = frames" using phys by (simp add: fc_def PMM_PAGE_SIZE_def unat_div)
  have req: "unat req = (frames + 7) div 8"
    using fc lim by (simp add: req_def unat_div unat_add_no_wrap)
  define s1 where "s1 = \<lparr>bitmap = replicate (unat req) 0xff @ drop (unat req) storage, bitmap_bytes = req,
      max_phys = max_phys_bytes, frame_count = fc, free_frames = 0, used_frames = fc, reserved_frames = 0,
      ignored_frames = 0, next_hint = 0, initialized = False\<rparr>"
  have all_used: "free_set s1 = {}"
    using fc req storage by (auto simp: free_set_def s1_def word_less_nat_alt bitmap_test_full)
  have s1_ok: "pmm_ok s1"
    using all_used fc req phys storage by (auto simp: pmm_ok_defs) (auto simp: s1_def word_less_nat_alt)
  define s2 where "s2 = fold (\<lambda>r st. if region_type r = BOOT_MEM_USABLE
      then mark_range_free st (region_base r) (region_length r) else st) rs s1"
  define s3 where "s3 = mark_range_used s2 0 PMM_PAGE_SIZE"
  define s4 where "s4 = fold (\<lambda>r st. if region_type r \<noteq> BOOT_MEM_USABLE
      then mark_range_used st (region_base r) (region_length r) else st) rs s3"
  have eq: "pmm_init_from_map (Some s) (Some rs) (Some storage) storage_bytes max_phys_bytes =
      (True, Some (s4\<lparr>initialized := True\<rparr>))"
    using rs page storage req
    by (simp add: pmm_init_from_map_def Let_def pmm_zero_state_def fold_fill word_less_nat_alt
        flip: fc_def req_def s1_def) (simp add: s1_def s2_def s3_def s4_def)
  have s2: "pmm_ok s2" "frame_count s2 = fc" "free_set s2 = {f. f < fc \<and> (\<exists>r \<in> set rs. region_frees r f)}"
    using fold_usable_regions[OF s1_ok, of rs] all_used by (simp_all add: s2_def Let_def) (simp_all add: s1_def)
  have zero: "frame_touched 0 4096 f \<longleftrightarrow> f = 0" for f
    by (auto simp: frame_touched_def word_unat_eq_iff)
  have s3: "pmm_ok s3" "frame_count s3 = fc" "free_set s3 = {f. f < fc \<and> f \<noteq> 0 \<and> (\<exists>r \<in> set rs. region_frees r f)}"
    using mark_range_used_spec[OF s2(1), of 0 PMM_PAGE_SIZE] s2
    by (auto simp: s3_def Let_def zero PMM_PAGE_SIZE_def)
  have s4: "pmm_ok s4" "frame_count s4 = fc"
      "free_set s4 = {f. f < fc \<and> f \<noteq> 0 \<and> (\<exists>r \<in> set rs. region_frees r f) \<and> \<not> (\<exists>r \<in> set rs. region_reserves r f)}"
    using fold_reserved_regions[OF s3(1), of rs] s3 by (auto simp: s4_def Let_def)
  show ?thesis
    using eq s4 fc by (auto simp: pmm_inv_def word_less_nat_alt)
qed

lemma region_plain_effect:
  assumes "\<forall>r \<in> set rs. region_plain r"
  shows "(\<exists>r \<in> set rs. region_frees r f) \<longleftrightarrow> usable_frame rs f" "(\<exists>r \<in> set rs. region_reserves r f) \<longleftrightarrow> reserved_frame rs f"
proof -
  have "region_frees r f \<longleftrightarrow> region_type r = BOOT_MEM_USABLE \<and> frame_inside (region_base r) (region_length r) f"
    "region_reserves r f \<longleftrightarrow> region_type r \<noteq> BOOT_MEM_USABLE \<and> frame_touched (region_base r) (region_length r) f" if "r \<in> set rs" for r
  proof -
    have p: "unat (region_base r) + unat (region_length r) \<le> 2 ^ 64 - 4096" using assms that by (simp add: region_plain_def)
    have "0 < region_length r" if "frame_inside (region_base r) (region_length r) f"
      using that by (auto simp: frame_inside_def word_less_nat_alt)
    then show "region_frees r f \<longleftrightarrow> region_type r = BOOT_MEM_USABLE \<and> frame_inside (region_base r) (region_length r) f"
      "region_reserves r f \<longleftrightarrow> region_type r \<noteq> BOOT_MEM_USABLE \<and> frame_touched (region_base r) (region_length r) f"
      using p by (auto simp: region_frees_def region_reserves_def)
  qed
  then show "(\<exists>r \<in> set rs. region_frees r f) \<longleftrightarrow> usable_frame rs f" "(\<exists>r \<in> set rs. region_reserves r f) \<longleftrightarrow> reserved_frame rs f"
    unfolding usable_frame_def reserved_frame_def by blast+
qed

lemma pmm_init_from_map_spec:
  assumes rs: "rs \<noteq> []" "\<forall>r \<in> set rs. region_plain r"
    and phys: "0 < frames" "unat max_phys_bytes = frames * 4096"
    and storage: "(frames + 7) div 8 \<le> unat storage_bytes" "unat storage_bytes \<le> length storage"
  shows "\<exists>s'. pmm_init_from_map (Some s) (Some rs) (Some storage) storage_bytes max_phys_bytes = (True, Some s') \<and>
           pmm_inv s' \<and> unat (frame_count s') = frames \<and>
           free_set s' = {f. unat f < frames \<and> f \<noteq> 0 \<and> usable_frame rs f \<and> \<not> reserved_frame rs f}"
  using pmm_init_any_map[OF rs(1) phys storage, of s] unfolding region_plain_effect[OF rs(2)] .

section \<open>Allocation, release and reservation\<close>

text \<open>The abstract allocator: a finite set of free frames, handed out lowest first.\<close>

definition pool_alloc :: "u64 set \<Rightarrow> (u64 \<times> u64 set) option" where
  "pool_alloc F = (if F = {} then None else Some (Min F, F - {Min F}))"

lemma frame_addr:
  assumes "geometry_ok pmm" "f < frame_count pmm"
  shows "unat (f * PMM_PAGE_SIZE) = unat f * 4096" "f * PMM_PAGE_SIZE < max_phys pmm"
proof -
  have "unat f * 4096 < unat (max_phys pmm)"
    using assms by (simp add: geometry_ok_def word_less_nat_alt)
  moreover from this have "unat f * 4096 < 2 ^ 64"
    using unat_less_length[of "max_phys pmm"] by simp
  ultimately show "unat (f * PMM_PAGE_SIZE) = unat f * 4096" "f * PMM_PAGE_SIZE < max_phys pmm"
    by (simp_all add: PMM_PAGE_SIZE_def unat_word_ariths word_less_nat_alt)
qed

lemma take_frame_ok:
  assumes inv: "pmm_inv pmm" and f: "f \<in> free_set pmm" and least: "\<forall>g \<in> free_set pmm. f \<le> g"
  shows "\<exists>s'. take_frame pmm f = (f * PMM_PAGE_SIZE, Some s') \<and> pmm_inv s' \<and>
           free_set s' = free_set pmm - {f} \<and> frame_count s' = frame_count pmm \<and> max_phys s' = max_phys pmm"
proof -
  let ?s = "(mark_frame_used pmm f)\<lparr>next_hint := f + 1\<rparr>"
  have "pmm_ok pmm" "geometry_ok pmm" using inv by (simp_all add: pmm_inv_def pmm_ok_def)
  then have ok: "pmm_ok (mark_frame_used pmm f)" and fs: "free_set (mark_frame_used pmm f) = free_set pmm - {f}"
    by (simp_all add: pmm_ok_mark_used free_set_mark_used)
  have fc: "f < frame_count pmm" using f by (simp add: free_set_def)
  then have "f + 1 \<le> frame_count pmm" by (rule inc_le)
  moreover have "f + 1 \<le> g" if "g \<in> free_set ?s" for g
    using that least le_inc_iff[OF fc, of g] by (auto simp: fs)
  ultimately have "pmm_ok ?s"
    using ok by (simp add: pmm_ok_def hint_ok_def geometry_ok_def counts_ok_def)
  then show ?thesis using inv fs by (auto simp: take_frame_def pmm_inv_def)
qed

lemma pmm_alloc_frame_spec:
  assumes inv: "pmm_inv pmm" and ne: "free_set pmm \<noteq> {}"
  shows "\<exists>s'. pmm_alloc_frame (Some pmm) = (Min (free_set pmm) * PMM_PAGE_SIZE, Some s') \<and> pmm_inv s' \<and>
           free_set s' = free_set pmm - {Min (free_set pmm)} \<and>
           frame_count s' = frame_count pmm \<and> max_phys s' = max_phys pmm"
proof -
  let ?m = "Min (free_set pmm)"
  have m: "?m \<in> free_set pmm" "\<forall>g \<in> free_set pmm. ?m \<le> g" using ne by simp_all
  have "find_from (\<lambda>frame. \<not> bitmap_test (bitmap pmm) frame) (next_hint pmm) (frame_count pmm) = Some ?m"
    unfolding find_from_Some
  proof (intro conjI allI impI)
    show "next_hint pmm \<le> ?m" using inv m by (simp add: pmm_inv_def pmm_ok_defs)
    show "?m < frame_count pmm" "\<not> bitmap_test (bitmap pmm) ?m" using m(1) by (simp_all add: free_set_def)
    fix j assume "next_hint pmm \<le> j \<and> j < ?m"
    then have "j \<notin> free_set pmm" "j < frame_count pmm"
      using m(2) \<open>?m < frame_count pmm\<close> by (meson leD order.strict_trans)+
    then show "\<not> \<not> bitmap_test (bitmap pmm) j" by (simp add: free_set_def)
  qed
  moreover have "initialized pmm" "free_frames pmm \<noteq> 0"
    using inv ne by (auto simp: pmm_inv_def pmm_ok_defs)
  ultimately show ?thesis
    using take_frame_ok[OF inv m] by (simp add: pmm_alloc_frame_def)
qed

lemma pmm_alloc_frame_empty:
  "pmm_inv pmm \<Longrightarrow> free_set pmm = {} \<Longrightarrow> pmm_alloc_frame (Some pmm) = (PMM_INVALID_FRAME, Some pmm)"
  by (simp add: pmm_alloc_frame_def pmm_inv_def pmm_ok_defs unat_eq_0)

lemma page_aligned_iff: "p AND (PMM_PAGE_SIZE - 1) = 0 \<longleftrightarrow> 4096 dvd unat p"
  using unat_and_mask[of p 12]
  by (auto simp: PMM_PAGE_SIZE_def mask_numeral word_unat_eq_iff dvd_eq_mod_eq_0)

lemma pmm_free_frame_spec:
  assumes inv: "pmm_inv pmm"
  shows "\<exists>s'. pmm_free_frame (Some pmm) p =
             (4096 dvd unat p \<and> p \<noteq> 0 \<and> p < max_phys pmm \<and> p div 4096 \<notin> free_set pmm, Some s') \<and>
           pmm_inv s' \<and> frame_count s' = frame_count pmm \<and> max_phys s' = max_phys pmm \<and>
           free_set s' = free_set pmm \<union>
             {f. f = p div 4096 \<and> 4096 dvd unat p \<and> p \<noteq> 0 \<and> p < max_phys pmm}"
proof (cases "4096 dvd unat p \<and> p \<noteq> 0 \<and> p < max_phys pmm")
  case False
  then have "pmm_free_frame (Some pmm) p = (False, Some pmm)"
    using inv by (auto simp: pmm_free_frame_def pmm_inv_def page_aligned_iff not_le)
  with False inv show ?thesis by auto
next
  case True
  let ?f = "p div 4096"
  have uf: "unat ?f = unat p div 4096" by (simp add: unat_div)
  have lt: "?f < frame_count pmm"
    using True inv by (auto simp: pmm_inv_def pmm_ok_defs word_less_nat_alt uf)
  have nz: "?f \<noteq> 0" using True by (auto simp: word_unat_eq_iff uf)
  have "free_set (mark_frame_free pmm ?f) = insert ?f (free_set pmm)"
    using lt inv by (subst free_set_mark_free) (auto simp: pmm_inv_def pmm_ok_def)
  moreover from this have "pmm_inv (mark_frame_free pmm ?f)"
    using inv nz by (simp add: pmm_inv_def pmm_ok_mark_free)
  moreover have "pmm_free_frame (Some pmm) p =
      (if ?f \<in> free_set pmm then (False, Some pmm) else (True, Some (mark_frame_free pmm ?f)))"
    using True inv lt page_aligned_iff[of p]
    by (auto simp: pmm_free_frame_def pmm_inv_def free_set_def Let_def PMM_PAGE_SIZE_def)
  ultimately show ?thesis using True inv by auto
qed

lemma pmm_inv_mono: "pmm_ok p \<Longrightarrow> initialized p \<Longrightarrow> free_set p \<subseteq> free_set pmm \<Longrightarrow> pmm_inv pmm \<Longrightarrow> pmm_inv p"
  by (auto simp: pmm_inv_def)

lemma pmm_reserve_range_spec:
  assumes inv: "pmm_inv pmm" and plain: "unat base + unat len \<le> 2 ^ 64 - 4096"
  shows "\<exists>s'. pmm_reserve_range (Some pmm) base len = (0 < len, Some s') \<and> pmm_inv s' \<and>
           frame_count s' = frame_count pmm \<and> max_phys s' = max_phys pmm \<and>
           free_set s' = free_set pmm - {f. frame_touched base len f}"
proof (cases "len = 0")
  case True
  with inv show ?thesis by (auto simp: pmm_reserve_range_def frame_touched_def)
next
  case False
  then have "0 < len" by (simp add: word_neq_0_conv)
  with False inv mark_range_used_spec[OF _ plain, of pmm] show ?thesis
    by (auto simp: pmm_reserve_range_def pmm_inv_def Let_def)
qed

section \<open>Histories of clients\<close>

text \<open>
  A history of the allocator: clients obtain frames, give back frames they hold, and
  ranges are reserved. The set is the addresses currently held by clients.
\<close>

inductive pmm_history :: "pmm_state \<Rightarrow> u64 set \<Rightarrow> bool" where
  start: "pmm_inv s \<Longrightarrow> pmm_history s {}"
| alloc: "pmm_history s H \<Longrightarrow> pmm_alloc_frame (Some s) = (p, Some s') \<Longrightarrow>
    pmm_history s' (if p = PMM_INVALID_FRAME then H else insert p H)"
| free: "pmm_history s H \<Longrightarrow> p \<in> H \<Longrightarrow> pmm_free_frame (Some s) p = (b, Some s') \<Longrightarrow>
    pmm_history s' (H - {p})"
| reserve: "pmm_history s H \<Longrightarrow> unat base + unat len \<le> 2 ^ 64 - 4096 \<Longrightarrow>
    pmm_reserve_range (Some s) base len = (b, Some s') \<Longrightarrow> pmm_history s' H"

definition held_ok :: "pmm_state \<Rightarrow> u64 \<Rightarrow> bool" where
  "held_ok s p \<longleftrightarrow> 4096 dvd unat p \<and> p \<noteq> 0 \<and> p < max_phys s \<and> p div 4096 \<notin> free_set s"

lemma frame_of_addr: "geometry_ok s \<Longrightarrow> f < frame_count s \<Longrightarrow> f * PMM_PAGE_SIZE div 4096 = f"
  using frame_addr[of s f] by (simp add: word_unat_eq_iff unat_div)

lemma frame_addr_inj:
  "4096 dvd unat p \<Longrightarrow> 4096 dvd unat q \<Longrightarrow> p div 4096 = q div 4096 \<Longrightarrow> p = q" for p q :: u64
proof -
  assume p: "4096 dvd unat p" "4096 dvd unat q" and eq: "p div 4096 = q div 4096"
  have "unat p div 4096 = unat q div 4096" using arg_cong[OF eq, of unat] by (simp add: unat_div)
  with p have "unat p = unat q" by (simp only: dvd_div_eq_iff)
  then show ?thesis by (simp add: word_unat_eq_iff)
qed

lemma invalid_not_frame: "4096 dvd unat p \<Longrightarrow> p \<noteq> PMM_INVALID_FRAME"
  by (cases "p = PMM_INVALID_FRAME") (simp_all add: PMM_INVALID_FRAME_def)

lemma pmm_alloc_cases:
  assumes inv: "pmm_inv s" and call: "pmm_alloc_frame (Some s) = (p, Some s')"
  obtains (none) "free_set s = {}" "p = PMM_INVALID_FRAME" "s' = s"
  | (some) f where "f = Min (free_set s)" "f \<in> free_set s" "p = f * PMM_PAGE_SIZE" "p div 4096 = f"
      "4096 dvd unat p" "p \<noteq> 0" "p < max_phys s" "p \<noteq> PMM_INVALID_FRAME" "pmm_inv s'"
      "free_set s' = free_set s - {f}" "frame_count s' = frame_count s" "max_phys s' = max_phys s"
proof (cases "free_set s = {}")
  case True
  with inv call show ?thesis by (intro none) (auto simp: pmm_alloc_frame_empty)
next
  case False
  let ?f = "Min (free_set s)"
  from pmm_alloc_frame_spec[OF inv False] call
  have eff: "p = ?f * PMM_PAGE_SIZE" "pmm_inv s'" "free_set s' = free_set s - {?f}"
      "frame_count s' = frame_count s" "max_phys s' = max_phys s"
    by auto
  have f: "?f \<in> free_set s" using False by simp
  then have lt: "?f < frame_count s" and nz: "?f \<noteq> 0"
    using inv by (auto simp: free_set_def pmm_inv_def)
  have geo: "geometry_ok s" using inv by (simp add: pmm_inv_def pmm_ok_def)
  have "4096 dvd unat p" "p < max_phys s" "p div 4096 = ?f"
    using frame_addr[OF geo lt] frame_of_addr[OF geo lt] eff by simp_all
  moreover from this nz have "p \<noteq> 0" by auto
  ultimately show ?thesis
    using eff f by (intro some) (auto simp: invalid_not_frame)
qed

lemma pmm_history_inv: "pmm_history s H \<Longrightarrow> pmm_inv s \<and> (\<forall>p \<in> H. held_ok s p)"
proof (induction rule: pmm_history.induct)
  case (alloc s H p s')
  then have "pmm_inv s" by blast
  from this alloc(2) show ?case
    by (cases rule: pmm_alloc_cases) (use alloc.IH in \<open>auto simp: held_ok_def\<close>)
next
  case (free s H p b s')
  then have inv: "pmm_inv s" and p: "held_ok s p" and H: "\<forall>p \<in> H. held_ok s p" by blast+
  from pmm_free_frame_spec[OF inv, of p] free(3)
  have "pmm_inv s'" "max_phys s' = max_phys s" "free_set s' = insert (p div 4096) (free_set s)"
    using p by (auto simp: held_ok_def)
  moreover have "q div 4096 \<noteq> p div 4096" if "q \<in> H - {p}" for q
    using that p H frame_addr_inj[of q p] by (auto simp: held_ok_def)
  ultimately show ?case using H by (auto simp: held_ok_def)
next
  case (reserve s H base len b s')
  with pmm_reserve_range_spec[of s base len] show ?case by (auto simp: held_ok_def)
qed simp

lemma pmm_inv_count: "pmm_inv s \<Longrightarrow> unat (pmm_free_count (Some s)) = card (free_set s)"
  by (simp add: pmm_free_count_def pmm_inv_def pmm_ok_defs)

section \<open>Properties of the frame allocator\<close>

text \<open>
  C2. Booting the allocator from a memory map whose regions end at or below the last page of the 64-bit address
  space accepts it and leaves free exactly the frames that lie completely inside some usable region, touch no
  region of another type and are not frame 0, whatever the order and the overlaps of the regions; the
  invariant (bitmap, counters and hint agree) holds and the free counter is the number of those frames.
  The condition on the regions is needed: the theorem on maps without it is at the end of this theory.
\<close>

theorem pmm_init_frees_exactly_usable:
  assumes "rs \<noteq> []" "\<forall>r \<in> set rs. region_plain r"
    and "0 < frames" "unat max_phys_bytes = frames * 4096"
    and "(frames + 7) div 8 \<le> unat storage_bytes" "unat storage_bytes \<le> length storage"
  shows "\<exists>s'. pmm_init_from_map (Some s) (Some rs) (Some storage) storage_bytes max_phys_bytes = (True, Some s') \<and>
           pmm_inv s' \<and>
           free_set s' = {f. unat f < frames \<and> f \<noteq> 0 \<and> usable_frame rs f \<and> \<not> reserved_frame rs f} \<and>
           unat (pmm_free_count (Some s')) = card (free_set s') \<and>
           unat (pmm_frame_count (Some s')) = frames"
  using pmm_init_from_map_spec[OF assms, of s] by (auto simp: pmm_inv_count pmm_frame_count_def pmm_inv_def)

definition boot_state :: pmm_state where
  "boot_state = \<lparr>bitmap = [], bitmap_bytes = 0, max_phys = 0, frame_count = 0, free_frames = 0,
                 used_frames = 0, reserved_frames = 0, ignored_frames = 0, next_hint = 0,
                 initialized = False\<rparr>"

definition boot_regions :: "boot_mem_region list" where
  "boot_regions =
     [\<lparr>region_base = 0, region_length = 0xA000, region_type = BOOT_MEM_USABLE\<rparr>,
      \<lparr>region_base = 0x2800, region_length = 0x1000, region_type = BOOT_MEM_RESERVED\<rparr>]"

definition boot_pmm :: pmm_state where
  "boot_pmm = the (snd (pmm_init_from_map (Some boot_state) (Some boot_regions) (Some [0, 0]) 2 0xA000))"

theorem pmm_init_frees_exactly_usable_witness:
  "pmm_init_from_map (Some boot_state) (Some boot_regions) (Some [0, 0]) 2 0xA000 = (True, Some boot_pmm) \<and>
   pmm_inv boot_pmm \<and> bitmap boot_pmm = [0x0D, 0xFC]"
proof -
  have "\<exists>s'. pmm_init_from_map (Some boot_state) (Some boot_regions) (Some [0, 0]) 2 0xA000 = (True, Some s') \<and>
          pmm_inv s' \<and>
          free_set s' = {f. unat f < 10 \<and> f \<noteq> 0 \<and> usable_frame boot_regions f \<and> \<not> reserved_frame boot_regions f} \<and>
          unat (pmm_free_count (Some s')) = card (free_set s') \<and> unat (pmm_frame_count (Some s')) = 10"
    by (rule pmm_init_frees_exactly_usable)
      (simp_all add: boot_regions_def region_plain_def BOOT_MEM_USABLE_def BOOT_MEM_RESERVED_def)
  moreover have "bitmap boot_pmm = [0x0D, 0xFC]" by code_simp
  ultimately show ?thesis unfolding boot_pmm_def by (metis option.sel snd_conv)
qed

lemma boot_pmm_inv: "pmm_inv boot_pmm"
proof -
  have "\<exists>s'. pmm_init_from_map (Some boot_state) (Some boot_regions) (Some [0, 0]) 2 0xA000 = (True, Some s') \<and>
          pmm_inv s' \<and> unat (frame_count s') = 10 \<and>
          free_set s' = {f. unat f < 10 \<and> f \<noteq> 0 \<and> usable_frame boot_regions f \<and> \<not> reserved_frame boot_regions f}"
    by (rule pmm_init_from_map_spec)
      (simp_all add: boot_regions_def region_plain_def BOOT_MEM_USABLE_def BOOT_MEM_RESERVED_def)
  then show ?thesis unfolding boot_pmm_def by (metis option.sel snd_conv)
qed

text \<open>
  C3. \<open>pmm_alloc_frame\<close> refines the abstract allocator that hands out the lowest free frame: with
  no frame left it returns the invalid frame and changes nothing; otherwise it returns the address
  of the lowest free frame, which is page aligned, non-zero and below the physical limit, removes
  exactly that frame and keeps the invariant and the counters.
\<close>

theorem pmm_alloc_refines_pool:
  assumes "pmm_inv s"
  shows "case pool_alloc (free_set s) of
           None \<Rightarrow> pmm_alloc_frame (Some s) = (PMM_INVALID_FRAME, Some s)
         | Some (f, F) \<Rightarrow> \<exists>s'. pmm_alloc_frame (Some s) = (f * PMM_PAGE_SIZE, Some s') \<and> pmm_inv s' \<and>
             free_set s' = F \<and> unat (pmm_free_count (Some s')) = card F \<and>
             unat (f * PMM_PAGE_SIZE) = unat f * 4096 \<and> f * PMM_PAGE_SIZE \<noteq> 0 \<and>
             f * PMM_PAGE_SIZE < max_phys s"
proof (cases "free_set s = {}")
  case True
  with assms show ?thesis by (simp add: pool_alloc_def pmm_alloc_frame_empty)
next
  case False
  let ?f = "Min (free_set s)"
  obtain s' where s': "pmm_alloc_frame (Some s) = (?f * PMM_PAGE_SIZE, Some s')" "pmm_inv s'"
      "free_set s' = free_set s - {?f}"
    using pmm_alloc_frame_spec[OF assms False] by blast
  have "?f \<in> free_set s" using False by simp
  then have lt: "?f < frame_count s" using assms by (simp add: free_set_def)
  have geo: "geometry_ok s" using assms by (simp add: pmm_inv_def pmm_ok_def)
  have cnt: "unat (pmm_free_count (Some s')) = card (free_set s')"
    by (rule pmm_inv_count[OF s'(2)])
  from assms s'(1) have "?f * PMM_PAGE_SIZE \<noteq> 0"
    by (cases rule: pmm_alloc_cases) (use False in simp_all)
  with False s' cnt frame_addr[OF geo lt] show ?thesis by (auto simp: pool_alloc_def)
qed

text \<open>
  C4. \<open>pmm_free_frame\<close> accepts an address exactly when it is page aligned, non-zero, below the
  physical limit and its frame is not free already (so a double free is refused); then exactly that
  frame becomes free, otherwise nothing changes. The invariant is kept on every branch.
\<close>

theorem pmm_free_frame_exact:
  assumes "pmm_inv s"
  shows "\<exists>s'. pmm_free_frame (Some s) p =
             (4096 dvd unat p \<and> p \<noteq> 0 \<and> p < max_phys s \<and> p div 4096 \<notin> free_set s, Some s') \<and>
           pmm_inv s' \<and> unat (pmm_free_count (Some s')) = card (free_set s') \<and>
           free_set s' = (if 4096 dvd unat p \<and> p \<noteq> 0 \<and> p < max_phys s
                          then insert (p div 4096) (free_set s) else free_set s)"
  using pmm_free_frame_spec[OF assms, of p]
  by (auto simp: pmm_inv_count)

text \<open>
  C5. Exclusive ownership: along every history of allocations, releases of held frames and
  reservations, an allocation never returns a frame that a client still holds, and releasing any
  held frame succeeds.
\<close>

theorem pmm_exclusive_ownership:
  assumes "pmm_history s H"
  shows "(\<exists>p s'. pmm_alloc_frame (Some s) = (p, Some s') \<and> p \<notin> H) \<and>
         (\<forall>p \<in> H. \<exists>s'. pmm_free_frame (Some s) p = (True, Some s'))"
proof -
  have inv: "pmm_inv s" and held: "\<forall>p \<in> H. held_ok s p" using pmm_history_inv[OF assms] by auto
  obtain q s' where call: "pmm_alloc_frame (Some s) = (q, Some s')"
    using pmm_alloc_frame_spec[OF inv] pmm_alloc_frame_empty[OF inv] by blast
  from inv call have "q \<notin> H"
    by (cases rule: pmm_alloc_cases) (use held invalid_not_frame in \<open>auto simp: held_ok_def\<close>)
  moreover have "\<forall>p \<in> H. \<exists>s'. pmm_free_frame (Some s) p = (True, Some s')"
  proof
    fix p
    assume "p \<in> H"
    with held pmm_free_frame_spec[OF inv, of p]
    show "\<exists>s'. pmm_free_frame (Some s) p = (True, Some s')" by (auto simp: held_ok_def)
  qed
  ultimately show ?thesis using call by blast
qed

definition boot_pmm1 :: pmm_state where
  "boot_pmm1 = the (snd (pmm_alloc_frame (Some boot_pmm)))"

lemma boot_pmm_alloc: "pmm_alloc_frame (Some boot_pmm) = (0x1000, Some boot_pmm1)"
  by code_simp

theorem pmm_alloc_refines_pool_witness:
  "pmm_inv boot_pmm1 \<and> free_set boot_pmm1 = free_set boot_pmm - {1}"
proof -
  have "free_set boot_pmm \<noteq> {} \<and> 1 = Min (free_set boot_pmm)"
    using boot_pmm_inv boot_pmm_alloc
  proof (cases rule: pmm_alloc_cases)
    case none
    from none(2) show ?thesis by (simp add: PMM_INVALID_FRAME_def)
  next
    case (some f)
    from some(4) have "f = 1" by simp
    with some(1, 2) show ?thesis by (metis empty_iff)
  qed
  then have *: "pool_alloc (free_set boot_pmm) = Some (1, free_set boot_pmm - {1})"
    unfolding pool_alloc_def by metis
  have "pool_alloc (free_set boot_pmm) = Some (f, F) \<Longrightarrow> \<exists>s'. pmm_alloc_frame (Some boot_pmm) = (f * PMM_PAGE_SIZE, Some s') \<and>
      pmm_inv s' \<and> free_set s' = F" for f F
    using pmm_alloc_refines_pool[OF boot_pmm_inv] by auto
  from this[OF *] boot_pmm_alloc show ?thesis by auto
qed

theorem pmm_free_frame_exact_witness:
  "\<exists>s'. pmm_free_frame (Some boot_pmm) 0x2000 = (True, Some s') \<and> pmm_inv s' \<and>
        free_set s' = insert 2 (free_set boot_pmm)"
proof -
  have "\<not> (2 :: u64) \<in> free_set boot_pmm" "(0x2000 :: u64) < max_phys boot_pmm"
    by (simp add: free_set_def; code_simp) code_simp
  then show ?thesis using pmm_free_frame_exact[OF boot_pmm_inv, of "0x2000"] by auto
qed

theorem pmm_exclusive_ownership_witness:
  "\<exists>s'. pmm_free_frame (Some boot_pmm1) 0x1000 = (True, Some s')"
proof -
  have "pmm_history boot_pmm1 {0x1000}"
    using pmm_history.alloc[OF pmm_history.start[OF boot_pmm_inv] boot_pmm_alloc]
    by (simp add: PMM_INVALID_FRAME_def)
  then show ?thesis using pmm_exclusive_ownership by blast
qed

text \<open>
  C6. The start from any memory map, with no condition on the regions, and what the wrap-around of \<open>align_up\<close> makes of them.
  A frame is free afterwards exactly when it is managed, is not frame 0, some usable region frees it and no other region
  reserves it. A usable region frees the frames inside it, as it should. One whose base lies in the last page of the address space is
  rounded up to address 0 and frees every frame, although no frame is inside it. A region of another type
  reserves the frames it touches, unless its end lies in that page: then it reserves none. Regions whose end
  overflows are ignored.
\<close>

theorem pmm_init_wraps_high_region:
  assumes "rs \<noteq> []" "0 < frames" "unat max_phys_bytes = frames * 4096"
    and "(frames + 7) div 8 \<le> unat storage_bytes" "unat storage_bytes \<le> length storage"
  shows "\<exists>s'. pmm_init_from_map (Some s) (Some rs) (Some storage) storage_bytes max_phys_bytes = (True, Some s') \<and> pmm_inv s' \<and>
    free_set s' = {f. unat f < frames \<and> f \<noteq> 0 \<and>
      (\<exists>r \<in> set rs. region_type r = BOOT_MEM_USABLE \<and> 0 < region_length r \<and>
         unat (region_base r) + unat (region_length r) < 2 ^ 64 \<and>
         (2 ^ 64 - 4096 < unat (region_base r) \<or> frame_inside (region_base r) (region_length r) f)) \<and>
      \<not> (\<exists>r \<in> set rs. region_type r \<noteq> BOOT_MEM_USABLE \<and>
         unat (region_base r) + unat (region_length r) \<le> 2 ^ 64 - 4096 \<and> frame_touched (region_base r) (region_length r) f)}"
  using pmm_init_any_map[OF assms, of s] unfolding region_frees_def region_reserves_def by blast

text \<open>A usable byte in the last page, and a reserved range from frame 2 to that page: all frames but frame 0 are free.\<close>

theorem pmm_init_wraps_high_region_witness:
  "\<exists>s'. pmm_init_from_map (Some boot_state)
      (Some [\<lparr>region_base = 0xFFFFFFFFFFFFF001, region_length = 1, region_type = BOOT_MEM_USABLE\<rparr>,
             \<lparr>region_base = 0x2000, region_length = 0xFFFFFFFFFFFFD001, region_type = BOOT_MEM_RESERVED\<rparr>])
      (Some [0, 0]) 2 0xA000 = (True, Some s') \<and> free_set s' = {f. unat f < 10 \<and> f \<noteq> 0}"
  using pmm_init_wraps_high_region[of "[\<lparr>region_base = 0xFFFFFFFFFFFFF001, region_length = 1, region_type = BOOT_MEM_USABLE\<rparr>,
      \<lparr>region_base = 0x2000, region_length = 0xFFFFFFFFFFFFD001, region_type = BOOT_MEM_RESERVED\<rparr>]" 10 "0xA000" 2 "[0, 0]" boot_state]
  by (simp add: BOOT_MEM_USABLE_def BOOT_MEM_RESERVED_def) blast

end
