(* ===== verification/Vmm.thy ===== *)
theory Vmm
  imports Prelude "HOL-Library.Sublist"
begin

text \<open>
  The four-level page tables of \<^verbatim>\<open>src/vmm.c\<close> and \<^verbatim>\<open>include/vmm.h\<close>.

  Page tables live in memory, a function from the address of a 64-bit word to its value;
  \<open>table[index]\<close> is the word at \<open>slot table index\<close>. The callbacks of a space (allocate a frame,
  free a frame, translate a physical address) are fields of its record as in the code; the state
  they work on, behind the \<open>ctx\<close> pointer or in globals, is the field \<open>ctx\<close>. A null pointer to a
  space or to an output is \<open>None\<close>, a null callback is \<open>None\<close>, a null table is address 0.

  The interface \<open>frame_allocator\<close> says what the code relies on of the callbacks. Under it the tables
  form a tree, and \<open>vmm_map_page\<close>, \<open>vmm_unmap_page\<close> and \<open>vmm_query_page\<close> refine a finite map from
  virtual pages to page-table entries.
\<close>

section \<open>Model\<close>

definition VMM_PAGE_SIZE :: u64 where
  "VMM_PAGE_SIZE = 4096"

definition VMM_ENTRIES_PER_TABLE :: u32 where
  "VMM_ENTRIES_PER_TABLE = 512"

definition VMM_INVALID_PHYS :: u64 where
  "VMM_INVALID_PHYS = 0xffffffffffffffff"

definition VMM_PTE_PRESENT :: u64 where
  "VMM_PTE_PRESENT = push_bit 0 1"

definition VMM_PTE_WRITABLE :: u64 where
  "VMM_PTE_WRITABLE = push_bit 1 1"

definition VMM_PTE_USER :: u64 where
  "VMM_PTE_USER = push_bit 2 1"

definition VMM_PTE_WRITE_THROUGH :: u64 where
  "VMM_PTE_WRITE_THROUGH = push_bit 3 1"

definition VMM_PTE_CACHE_DISABLE :: u64 where
  "VMM_PTE_CACHE_DISABLE = push_bit 4 1"

definition VMM_PTE_HUGE :: u64 where
  "VMM_PTE_HUGE = push_bit 7 1"

definition VMM_PTE_GLOBAL :: u64 where
  "VMM_PTE_GLOBAL = push_bit 8 1"

definition VMM_PTE_NO_EXECUTE :: u64 where
  "VMM_PTE_NO_EXECUTE = push_bit 63 1"

definition VMM_PTE_ADDR_MASK :: u64 where
  "VMM_PTE_ADDR_MASK = 0x000FFFFFFFFFF000"

lemmas vmm_pte_bits =
  VMM_PTE_PRESENT_def VMM_PTE_WRITABLE_def VMM_PTE_USER_def VMM_PTE_WRITE_THROUGH_def
  VMM_PTE_CACHE_DISABLE_def VMM_PTE_HUGE_def VMM_PTE_GLOBAL_def VMM_PTE_NO_EXECUTE_def

datatype vmm_status = VMM_MAP_OK | VMM_ERR_INVAL | VMM_ERR_NOMEM | VMM_ERR_EXISTS | VMM_ERR_NOT_FOUND

record 'c vmm_space =
  root_paddr :: u64
  ctx :: 'c
  alloc_frame :: "('c \<Rightarrow> u64 \<times> 'c) option"
  free_frame :: "('c \<Rightarrow> u64 \<Rightarrow> 'c) option"
  phys_to_virt :: "('c \<Rightarrow> u64 \<Rightarrow> u64) option"

record vmm_mapping =
  map_vaddr :: u64
  map_paddr :: u64
  map_flags :: u64

text \<open>The machine: memory by words and the addresses whose translation was invalidated.\<close>

record machine =
  mem :: "u64 \<Rightarrow> u64"
  invalidated :: "u64 list"

definition slot :: "u64 \<Rightarrow> u32 \<Rightarrow> u64" where
  "slot table index = table + 8 * ucast index"

definition vmm_zero_page :: "u64 \<Rightarrow> machine \<Rightarrow> machine" where
  "vmm_zero_page page m =
     m\<lparr>mem := fold (\<lambda>i mm. mm(slot page (word_of_nat i) := 0)) [0..<unat VMM_ENTRIES_PER_TABLE] (mem m)\<rparr>"

definition vmm_is_aligned_4k :: "u64 \<Rightarrow> bool" where
  "vmm_is_aligned_4k val \<longleftrightarrow> val AND (VMM_PAGE_SIZE - 1) = 0"

definition vmm_is_canonical :: "u64 \<Rightarrow> bool" where
  "vmm_is_canonical vaddr \<longleftrightarrow>
     (let sign = drop_bit 47 vaddr AND 1; upper = drop_bit 48 vaddr
      in if sign \<noteq> 0 then upper = 0xFFFF else upper = 0)"

definition idx_pml4 :: "u64 \<Rightarrow> u32" where
  "idx_pml4 vaddr = ucast (drop_bit 39 vaddr AND 0x1FF)"

definition idx_pdpt :: "u64 \<Rightarrow> u32" where
  "idx_pdpt vaddr = ucast (drop_bit 30 vaddr AND 0x1FF)"

definition idx_pd :: "u64 \<Rightarrow> u32" where
  "idx_pd vaddr = ucast (drop_bit 21 vaddr AND 0x1FF)"

definition idx_pt :: "u64 \<Rightarrow> u32" where
  "idx_pt vaddr = ucast (drop_bit 12 vaddr AND 0x1FF)"

definition table_from_phys :: "'c vmm_space \<Rightarrow> u64 \<Rightarrow> u64" where
  "table_from_phys space paddr =
     (case phys_to_virt space of
        None \<Rightarrow> 0
      | Some f \<Rightarrow> if \<not> vmm_is_aligned_4k paddr then 0 else f (ctx space) paddr)"

definition get_or_alloc_next_table ::
  "'c vmm_space \<Rightarrow> machine \<Rightarrow> u64 \<Rightarrow> u32 \<Rightarrow> vmm_status \<times> u64 \<times> 'c vmm_space \<times> machine" where
  "get_or_alloc_next_table space m table index =
     (let entry = mem m (slot table index)
      in if entry AND VMM_PTE_PRESENT \<noteq> 0 then
           if entry AND VMM_PTE_HUGE \<noteq> 0 then (VMM_ERR_EXISTS, 0, space, m)
           else (let next_table = table_from_phys space (entry AND VMM_PTE_ADDR_MASK)
                 in if next_table = 0 then (VMM_ERR_INVAL, 0, space, m)
                    else (VMM_MAP_OK, next_table, space, m))
         else
           (case alloc_frame space of
              None \<Rightarrow> (VMM_ERR_NOMEM, 0, space, m)
            | Some alloc \<Rightarrow>
                (let (new_paddr, c) = alloc (ctx space); space = space\<lparr>ctx := c\<rparr>
                 in if new_paddr = VMM_INVALID_PHYS \<or> \<not> vmm_is_aligned_4k new_paddr
                    then (VMM_ERR_NOMEM, 0, space, m)
                    else
                      (let new_table = table_from_phys space new_paddr
                       in if new_table = 0 then
                            (VMM_ERR_INVAL, 0,
                             (case free_frame space of
                                None \<Rightarrow> space
                              | Some free \<Rightarrow> space\<lparr>ctx := free (ctx space) new_paddr\<rparr>), m)
                          else
                            (let m = vmm_zero_page new_table m;
                                 m = m\<lparr>mem := (mem m)(slot table index :=
                                       (new_paddr AND VMM_PTE_ADDR_MASK) OR VMM_PTE_PRESENT OR VMM_PTE_WRITABLE)\<rparr>
                             in (VMM_MAP_OK, new_table, space, m))))))"

definition vmm_space_init ::
  "'c vmm_space option \<Rightarrow> u64 \<Rightarrow> 'c \<Rightarrow> ('c \<Rightarrow> u64 \<times> 'c) option \<Rightarrow> ('c \<Rightarrow> u64 \<Rightarrow> 'c) option \<Rightarrow>
   ('c \<Rightarrow> u64 \<Rightarrow> u64) option \<Rightarrow> vmm_status \<times> 'c vmm_space option" where
  "vmm_space_init space root c alloc free virt =
     (case space of
        None \<Rightarrow> (VMM_ERR_INVAL, None)
      | Some s \<Rightarrow>
          if virt = None \<or> \<not> vmm_is_aligned_4k root then (VMM_ERR_INVAL, space)
          else (VMM_MAP_OK,
                Some (s\<lparr>root_paddr := root, ctx := c, alloc_frame := alloc, free_frame := free,
                        phys_to_virt := virt\<rparr>)))"

definition vmm_map_page ::
  "'c vmm_space option \<Rightarrow> machine \<Rightarrow> u64 \<Rightarrow> u64 \<Rightarrow> u64 \<Rightarrow> vmm_status \<times> 'c vmm_space option \<times> machine" where
  "vmm_map_page space m vaddr paddr flags =
     (case space of
        None \<Rightarrow> (VMM_ERR_INVAL, None, m)
      | Some s \<Rightarrow>
          if \<not> vmm_is_canonical vaddr \<or> \<not> vmm_is_aligned_4k vaddr \<or> \<not> vmm_is_aligned_4k paddr
          then (VMM_ERR_INVAL, space, m)
          else
            (let pml4 = table_from_phys s (root_paddr s)
             in if pml4 = 0 then (VMM_ERR_INVAL, space, m)
                else
                  (let (rc, pdpt, s, m) = get_or_alloc_next_table s m pml4 (idx_pml4 vaddr)
                   in if rc \<noteq> VMM_MAP_OK then (rc, Some s, m)
                      else
                        (let (rc, pd, s, m) = get_or_alloc_next_table s m pdpt (idx_pdpt vaddr)
                         in if rc \<noteq> VMM_MAP_OK then (rc, Some s, m)
                            else
                              (let (rc, pt, s, m) = get_or_alloc_next_table s m pd (idx_pd vaddr)
                               in if rc \<noteq> VMM_MAP_OK then (rc, Some s, m)
                                  else
                                    (let pti = idx_pt vaddr
                                     in if mem m (slot pt pti) AND VMM_PTE_PRESENT \<noteq> 0
                                        then (VMM_ERR_EXISTS, Some s, m)
                                        else
                                          (let allowed = VMM_PTE_WRITABLE OR VMM_PTE_USER OR VMM_PTE_WRITE_THROUGH OR
                                                 VMM_PTE_CACHE_DISABLE OR VMM_PTE_GLOBAL OR VMM_PTE_NO_EXECUTE
                                           in (VMM_MAP_OK, Some s,
                                               m\<lparr>mem := (mem m)(slot pt pti :=
                                                  (paddr AND VMM_PTE_ADDR_MASK) OR VMM_PTE_PRESENT OR
                                                  (flags AND allowed))\<rparr>))))))))"

text \<open>
  \<open>vmm_query_page\<close> and \<open>vmm_unmap_page\<close> repeat the same descent through three levels. \<open>next_table\<close>
  is one of its steps: the entry must be present and not huge, and its table must translate.
\<close>

definition next_table :: "'c vmm_space \<Rightarrow> machine \<Rightarrow> u64 \<Rightarrow> u32 \<Rightarrow> vmm_status + u64" where
  "next_table s m table index =
     (let e = mem m (slot table index)
      in if e AND VMM_PTE_PRESENT = 0 \<or> e AND VMM_PTE_HUGE \<noteq> 0 then Inl VMM_ERR_NOT_FOUND
         else (let t = table_from_phys s (e AND VMM_PTE_ADDR_MASK)
               in if t = 0 then Inl VMM_ERR_INVAL else Inr t))"

definition vmm_query_page ::
  "'c vmm_space option \<Rightarrow> machine \<Rightarrow> u64 \<Rightarrow> vmm_mapping option \<Rightarrow> vmm_status \<times> vmm_mapping option" where
  "vmm_query_page space m vaddr out =
     (case (space, out) of
        (Some s, Some om) \<Rightarrow>
          if \<not> vmm_is_canonical vaddr \<or> \<not> vmm_is_aligned_4k vaddr then (VMM_ERR_INVAL, out)
          else
            (let pml4 = table_from_phys s (root_paddr s)
             in if pml4 = 0 then (VMM_ERR_INVAL, out)
                else case next_table s m pml4 (idx_pml4 vaddr) of Inl rc \<Rightarrow> (rc, out) | Inr pdpt \<Rightarrow>
                  (case next_table s m pdpt (idx_pdpt vaddr) of Inl rc \<Rightarrow> (rc, out) | Inr pd \<Rightarrow>
                  (case next_table s m pd (idx_pd vaddr) of Inl rc \<Rightarrow> (rc, out) | Inr pt \<Rightarrow>
                    (let e = mem m (slot pt (idx_pt vaddr))
                     in if e AND VMM_PTE_PRESENT = 0 then (VMM_ERR_NOT_FOUND, out)
                        else (VMM_MAP_OK,
                              Some (om\<lparr>map_vaddr := vaddr, map_paddr := e AND VMM_PTE_ADDR_MASK,
                                       map_flags := e AND NOT VMM_PTE_ADDR_MASK\<rparr>))))))
      | _ \<Rightarrow> (VMM_ERR_INVAL, out))"

definition vmm_invalidate_page :: "u64 \<Rightarrow> machine \<Rightarrow> machine" where
  "vmm_invalidate_page vaddr m = m\<lparr>invalidated := invalidated m @ [vaddr]\<rparr>"

definition vmm_unmap_page :: "'c vmm_space option \<Rightarrow> machine \<Rightarrow> u64 \<Rightarrow> vmm_status \<times> machine" where
  "vmm_unmap_page space m vaddr =
     (case space of
        None \<Rightarrow> (VMM_ERR_INVAL, m)
      | Some s \<Rightarrow>
          if \<not> vmm_is_canonical vaddr \<or> \<not> vmm_is_aligned_4k vaddr then (VMM_ERR_INVAL, m)
          else
            (let pml4 = table_from_phys s (root_paddr s)
             in if pml4 = 0 then (VMM_ERR_INVAL, m)
                else case next_table s m pml4 (idx_pml4 vaddr) of Inl rc \<Rightarrow> (rc, m) | Inr pdpt \<Rightarrow>
                  (case next_table s m pdpt (idx_pdpt vaddr) of Inl rc \<Rightarrow> (rc, m) | Inr pd \<Rightarrow>
                  (case next_table s m pd (idx_pd vaddr) of Inl rc \<Rightarrow> (rc, m) | Inr pt \<Rightarrow>
                    (let pti = idx_pt vaddr
                     in if mem m (slot pt pti) AND VMM_PTE_PRESENT = 0 then (VMM_ERR_NOT_FOUND, m)
                        else (VMM_MAP_OK,
                              vmm_invalidate_page vaddr (m\<lparr>mem := (mem m)(slot pt pti := 0)\<rparr>)))))))"

section \<open>Addresses and entries\<close>

definition present :: "u64 \<Rightarrow> bool" where
  "present e \<longleftrightarrow> e AND VMM_PTE_PRESENT \<noteq> 0"

definition huge :: "u64 \<Rightarrow> bool" where
  "huge e \<longleftrightarrow> e AND VMM_PTE_HUGE \<noteq> 0"

lemma present_iff: "present e \<longleftrightarrow> bit e 0"
  by (simp only: present_def VMM_PTE_PRESENT_def bit_iff_and_push_bit_not_eq_0)

lemma huge_iff: "huge e \<longleftrightarrow> bit e 7"
  by (simp only: huge_def VMM_PTE_HUGE_def bit_iff_and_push_bit_not_eq_0)

lemma mask_9: "(0x1FF :: 'a :: len word) = mask 9"
  by (simp add: mask_eq_decr_exp)

lemma bit_addr_mask: "bit VMM_PTE_ADDR_MASK n \<longleftrightarrow> 12 \<le> n \<and> n < 52"
proof -
  have *: "VMM_PTE_ADDR_MASK = mask 52 AND NOT (mask 12)"
    by (simp add: VMM_PTE_ADDR_MASK_def mask_eq_decr_exp)
  show ?thesis unfolding * by (auto simp: bit_simps)
qed

lemma aligned_iff_bits: "vmm_is_aligned_4k v \<longleftrightarrow> (\<forall>n < 12. \<not> bit v n)"
proof -
  have *: "VMM_PAGE_SIZE - 1 = mask 12" by (simp add: VMM_PAGE_SIZE_def mask_eq_decr_exp)
  have "(\<forall>n < 64. \<not> (bit v n \<and> n < 12)) \<longleftrightarrow> (\<forall>n < 12. \<not> bit v n)"
    by (meson bit_imp_le_length[where 'a = 64, simplified] numeral_less_iff order_less_trans)
  then show ?thesis unfolding vmm_is_aligned_4k_def * by (simp add: bit_eq_iff bit_simps)
qed

lemma addr_mask_idem_iff: "p AND VMM_PTE_ADDR_MASK = p \<longleftrightarrow> vmm_is_aligned_4k p \<and> (\<forall>n. 52 \<le> n \<longrightarrow> \<not> bit p n)"
proof -
  have "p AND VMM_PTE_ADDR_MASK = p \<longleftrightarrow> (\<forall>n. bit p n \<longrightarrow> 12 \<le> n \<and> n < 52)"
    unfolding bit_eq_iff by (metis bit_addr_mask bit_and_iff bit_imp_possible_bit)
  then show ?thesis unfolding aligned_iff_bits by (meson not_le)
qed

lemma idx_bits:
  "bit (idx_pml4 v) n \<longleftrightarrow> n < 9 \<and> bit v (39 + n)"
  "bit (idx_pdpt v) n \<longleftrightarrow> n < 9 \<and> bit v (30 + n)"
  "bit (idx_pd v) n \<longleftrightarrow> n < 9 \<and> bit v (21 + n)"
  "bit (idx_pt v) n \<longleftrightarrow> n < 9 \<and> bit v (12 + n)"
  unfolding idx_pml4_def idx_pdpt_def idx_pd_def idx_pt_def mask_9
  by (auto simp: bit_simps)

lemma mask_16: "(0xFFFF :: u64) = mask 16"
  by (simp add: mask_eq_decr_exp)

lemma canonical_bits:
  assumes "vmm_is_canonical v" "48 \<le> n" "n < 64"
  shows "bit v n \<longleftrightarrow> bit v 47"
proof -
  have sign: "drop_bit 47 v AND 1 \<noteq> 0 \<longleftrightarrow> bit v 47"
    by (simp only: and_one_eq bit_iff_odd_drop_bit odd_iff_mod_2_eq_one even_iff_mod_2_eq_zero)
  have "bit v n \<longleftrightarrow> bit (drop_bit 48 v) (n - 48)"
    using assms by (simp only: bit_drop_bit_eq) simp
  also have "\<dots> \<longleftrightarrow> bit v 47"
    using assms unfolding vmm_is_canonical_def Let_def sign mask_16
    by (simp only: split: if_splits) (auto simp: bit_mask_iff)
  finally show ?thesis .
qed

lemma less_512_bits: "(\<And>n. bit i n \<Longrightarrow> n < 9) \<Longrightarrow> i < 512" for i :: u32
proof -
  assume "\<And>n. bit i n \<Longrightarrow> n < 9"
  then have "take_bit 9 i = i" by (auto simp: bit_eq_iff bit_take_bit_iff)
  then have "unat i < 2 ^ 9" by (metis take_bit_nat_less_exp unsigned_take_bit_eq)
  then show ?thesis by (simp add: word_less_nat_alt)
qed

lemma idx_less [simp]: "idx_pml4 v < 512" "idx_pdpt v < 512" "idx_pd v < 512" "idx_pt v < 512"
  by (rule less_512_bits, simp add: idx_bits)+

definition vpath :: "u64 \<Rightarrow> u32 list" where
  "vpath v = [idx_pml4 v, idx_pdpt v, idx_pd v, idx_pt v]"

lemma vpath_inj:
  assumes "vmm_is_canonical v" "vmm_is_aligned_4k v" "vmm_is_canonical w" "vmm_is_aligned_4k w"
    and "vpath v = vpath w"
  shows "v = w"
proof (rule bit_word_eqI)
  fix n
  assume "n < LENGTH(64)"
  have low: "bit v n = bit w n" if "n < 48" for n
  proof -
    consider "n < 12" | "12 \<le> n" "n < 21" | "21 \<le> n" "n < 30" | "30 \<le> n" "n < 39" | "39 \<le> n" "n < 48"
      using \<open>n < 48\<close> by linarith
    then show ?thesis
    proof cases
      case 1 with assms show ?thesis by (simp add: aligned_iff_bits)
    next
      case 2 then show ?thesis using idx_bits(4)[of v "n - 12"] idx_bits(4)[of w "n - 12"] assms(5)
        by (simp add: vpath_def less_diff_conv2)
    next
      case 3 then show ?thesis using idx_bits(3)[of v "n - 21"] idx_bits(3)[of w "n - 21"] assms(5)
        by (simp add: vpath_def less_diff_conv2)
    next
      case 4 then show ?thesis using idx_bits(2)[of v "n - 30"] idx_bits(2)[of w "n - 30"] assms(5)
        by (simp add: vpath_def less_diff_conv2)
    next
      case 5 then show ?thesis using idx_bits(1)[of v "n - 39"] idx_bits(1)[of w "n - 39"] assms(5)
        by (simp add: vpath_def less_diff_conv2)
    qed
  qed
  show "bit v n = bit w n"
  proof (cases "n < 48")
    case True then show ?thesis by (rule low)
  next
    case False
    then have "bit v n = bit v 47" "bit w n = bit w 47"
      using assms \<open>n < LENGTH(64)\<close> by (simp_all add: canonical_bits)
    then show ?thesis using low[of 47] by simp
  qed
qed

section \<open>The tables as a tree\<close>

text \<open>
  \<open>walk v mm p is\<close> follows the indices \<open>is\<close> from the table in frame \<open>p\<close>, in the memory \<open>mm\<close> seen
  through the translation \<open>v\<close>, and gives the frame of the table reached.
\<close>

definition entry_at :: "(u64 \<Rightarrow> u64) \<Rightarrow> (u64 \<Rightarrow> u64) \<Rightarrow> u64 \<Rightarrow> u32 \<Rightarrow> u64" where
  "entry_at v mm p i = mm (slot (v p) i)"

definition link :: "u64 \<Rightarrow> u64 option" where
  "link e = (if present e \<and> \<not> huge e then Some (e AND VMM_PTE_ADDR_MASK) else None)"

fun walk :: "(u64 \<Rightarrow> u64) \<Rightarrow> (u64 \<Rightarrow> u64) \<Rightarrow> u64 \<Rightarrow> u32 list \<Rightarrow> u64 option" where
  "walk v mm p [] = Some p"
| "walk v mm p (i # is) =
     (case link (entry_at v mm p i) of None \<Rightarrow> None | Some q \<Rightarrow> walk v mm q is)"

definition leaf :: "(u64 \<Rightarrow> u64) \<Rightarrow> (u64 \<Rightarrow> u64) \<Rightarrow> u64 \<Rightarrow> u32 list \<Rightarrow> u32 \<Rightarrow> u64 option" where
  "leaf v mm p is i =
     (case walk v mm p is of
        None \<Rightarrow> None
      | Some q \<Rightarrow> if present (entry_at v mm q i) then Some (entry_at v mm q i) else None)"

lemma walk_append:
  "walk v mm p (is @ js) = (case walk v mm p is of None \<Rightarrow> None | Some q \<Rightarrow> walk v mm q js)"
  by (induction "is" arbitrary: p) (auto split: option.splits)

lemma walk_snoc: "walk v mm p (is @ [i]) = (case walk v mm p is of None \<Rightarrow> None | Some q \<Rightarrow> link (entry_at v mm q i))"
  by (auto simp: walk_append split: option.splits)

lemma walk_cong:
  assumes "\<And>ks k q. prefix (ks @ [k]) js \<Longrightarrow> walk v mm p ks = Some q \<Longrightarrow> entry_at v mm' q k = entry_at v mm q k"
  shows "walk v mm' p js = walk v mm p js"
  using assms
proof (induction js rule: rev_induct)
  case (snoc j js)
  then have "walk v mm' p js = walk v mm p js" by (meson prefix_order.trans prefixI)
  with snoc.prems[of js j] show ?case by (auto simp: walk_snoc split: option.splits)
qed simp

lemma walk_zero: "(\<And>i. i \<in> set is \<Longrightarrow> entry_at v mm p i = 0) \<Longrightarrow> is \<noteq> [] \<Longrightarrow> walk v mm p is = None"
  by (cases "is") (auto simp: link_def present_iff)

lemma zero_page_apply:
  "mem (vmm_zero_page t m) a = (if \<exists>i < 512. a = slot t i then 0 else mem m a)"
proof -
  have "fold (\<lambda>i mm. mm(slot t (word_of_nat i) := 0)) [0..<n] f a =
          (if \<exists>i < n. a = slot t (word_of_nat i) then 0 else f a)" for n and f :: "u64 \<Rightarrow> u64"
    by (induction n) (auto simp: less_Suc_eq)
  moreover have "(\<exists>i < (512 :: nat). a = slot t (word_of_nat i)) \<longleftrightarrow> (\<exists>i < (512 :: u32). a = slot t i)"
  proof
    assume "\<exists>i < (512 :: nat). a = slot t (word_of_nat i)"
    then obtain i where "i < (512 :: nat)" "a = slot t (word_of_nat i)" by blast
    moreover from this have "(word_of_nat i :: u32) < 512" by (simp add: word_less_nat_alt unat_of_nat)
    ultimately show "\<exists>i < (512 :: u32). a = slot t i" by blast
  next
    assume "\<exists>i < (512 :: u32). a = slot t i"
    then obtain i :: u32 where "i < 512" "a = slot t i" by blast
    then have "unat i < 512" "a = slot t (word_of_nat (unat i))" by (simp_all add: word_less_nat_alt)
    then show "\<exists>i < (512 :: nat). a = slot t (word_of_nat i)" by blast
  qed
  ultimately show ?thesis by (simp add: vmm_zero_page_def VMM_ENTRIES_PER_TABLE_def)
qed

section \<open>What the code relies on of the callbacks\<close>

text \<open>
  \<open>avail\<close> is the set of frames the allocator may still hand out and \<open>usable\<close> the frames whose table
  can be reached through the translation. Frames in use are distinct pages of memory.
\<close>

locale frame_allocator =
  fixes alloc :: "'c \<Rightarrow> u64 \<times> 'c"
    and virt :: "'c \<Rightarrow> u64 \<Rightarrow> u64"
    and avail :: "'c \<Rightarrow> u64 set"
    and usable :: "'c \<Rightarrow> u64 \<Rightarrow> bool"
    and ok :: "'c \<Rightarrow> bool"
  assumes alloc_ok: "ok c \<Longrightarrow> alloc c = (p, c') \<Longrightarrow> ok c' \<and> virt c' = virt c \<and> usable c' = usable c"
    and alloc_none: "ok c \<Longrightarrow> avail c = {} \<Longrightarrow> fst (alloc c) = VMM_INVALID_PHYS \<and> avail (snd (alloc c)) = {}"
    and alloc_some: "ok c \<Longrightarrow> avail c \<noteq> {} \<Longrightarrow> alloc c = (p, c') \<Longrightarrow> p \<in> avail c \<and> avail c' = avail c - {p}"
    and avail_usable: "ok c \<Longrightarrow> p \<in> avail c \<Longrightarrow> usable c p"
    and avail_finite: "ok c \<Longrightarrow> finite (avail c)"
    and usable_addr: "ok c \<Longrightarrow> usable c p \<Longrightarrow> p AND VMM_PTE_ADDR_MASK = p"
    and usable_virt: "ok c \<Longrightarrow> usable c p \<Longrightarrow> virt c p \<noteq> 0"
    and virt_sep: "ok c \<Longrightarrow> usable c p \<Longrightarrow> usable c q \<Longrightarrow> i < 512 \<Longrightarrow> j < 512 \<Longrightarrow>
                   slot (virt c p) i = slot (virt c q) j \<Longrightarrow> p = q \<and> i = j"

definition short_path :: "u32 list \<Rightarrow> bool" where
  "short_path is \<longleftrightarrow> length is \<le> 3 \<and> (\<forall>i \<in> set is. i < 512)"

text \<open>
  The invariant of the tables below a root: every table reached lies in a frame that satisfies \<open>U\<close>,
  no table is reached by two paths, and no entry above the last level is huge.
\<close>

definition tables_ok :: "(u64 \<Rightarrow> u64) \<Rightarrow> (u64 \<Rightarrow> bool) \<Rightarrow> (u64 \<Rightarrow> u64) \<Rightarrow> u64 \<Rightarrow> bool" where
  "tables_ok v U mm r \<longleftrightarrow>
     (\<forall>is p. short_path is \<longrightarrow> walk v mm r is = Some p \<longrightarrow> U p) \<and>
     (\<forall>is js p. short_path is \<longrightarrow> short_path js \<longrightarrow> walk v mm r is = Some p \<longrightarrow> walk v mm r js = Some p \<longrightarrow> is = js) \<and>
     (\<forall>is i p. short_path (is @ [i]) \<longrightarrow> walk v mm r is = Some p \<longrightarrow> present (entry_at v mm p i) \<longrightarrow>
        \<not> huge (entry_at v mm p i))"

definition pages_apart :: "(u64 \<Rightarrow> u64) \<Rightarrow> (u64 \<Rightarrow> bool) \<Rightarrow> bool" where
  "pages_apart v U \<longleftrightarrow>
     (\<forall>p q i j. U p \<longrightarrow> U q \<longrightarrow> i < 512 \<longrightarrow> j < 512 \<longrightarrow> slot (v p) i = slot (v q) j \<longrightarrow> p = q \<and> i = j)"

lemma short_path_prefix: "short_path js \<Longrightarrow> prefix is js \<Longrightarrow> short_path is"
  by (auto simp: short_path_def prefix_def)

lemma short_path_snoc: "short_path (ks @ [k]) \<longleftrightarrow> short_path ks \<and> length ks < 3 \<and> k < 512"
  by (auto simp: short_path_def)

lemma tables_reach: "tables_ok v U mm r \<Longrightarrow> short_path is \<Longrightarrow> walk v mm r is = Some p \<Longrightarrow> U p"
  unfolding tables_ok_def by blast

lemma tables_inj:
  "tables_ok v U mm r \<Longrightarrow> short_path is \<Longrightarrow> short_path js \<Longrightarrow> walk v mm r is = Some p \<Longrightarrow>
   walk v mm r js = Some p \<Longrightarrow> is = js"
  unfolding tables_ok_def by blast

lemma tables_not_huge:
  "tables_ok v U mm r \<Longrightarrow> short_path (is @ [i]) \<Longrightarrow> walk v mm r is = Some p \<Longrightarrow>
   present (entry_at v mm p i) \<Longrightarrow> \<not> huge (entry_at v mm p i)"
  unfolding tables_ok_def by blast

lemma tables_mono: "tables_ok v U mm r \<Longrightarrow> (\<And>p. U p \<Longrightarrow> U' p) \<Longrightarrow> tables_ok v U' mm r"
  unfolding tables_ok_def by blast

lemma pages_apart_mono: "pages_apart v U \<Longrightarrow> (\<And>p. U' p \<Longrightarrow> U p) \<Longrightarrow> pages_apart v U'"
  unfolding pages_apart_def by meson

lemma tables_ok_cong:
  assumes "tables_ok v U mm r"
    and "\<And>is. short_path is \<Longrightarrow> walk v mm' r is = walk v mm r is"
    and "\<And>is i p. short_path (is @ [i]) \<Longrightarrow> walk v mm r is = Some p \<Longrightarrow> entry_at v mm' p i = entry_at v mm p i"
  shows "tables_ok v U mm' r"
  using assms unfolding tables_ok_def by (metis short_path_snoc)

text \<open>A write to an entry of the last level leaves the tree as it is and changes that leaf only.\<close>

lemma leaf_write_entry:
  assumes "tables_ok v U mm r" "pages_apart v U"
    and "short_path is" "walk v mm r is = Some p" "d < 512"
    and "short_path js" "walk v mm r js = Some q" "k < 512"
  shows "entry_at v (mm(slot (v p) d := e)) q k = (if js = is \<and> k = d then e else entry_at v mm q k)"
proof -
  have U: "U p" "U q" using assms tables_reach[OF assms(1)] by blast+
  have "slot (v q) k = slot (v p) d \<longleftrightarrow> js = is \<and> k = d"
    using assms U tables_inj[OF assms(1), of js "is" p] unfolding pages_apart_def by (metis option.inject)
  then show ?thesis by (auto simp: entry_at_def)
qed

lemma leaf_write_above:
  assumes "tables_ok v U mm r" "pages_apart v U"
    and "short_path is" "length is = 3" "walk v mm r is = Some p" "d < 512"
    and "short_path (ks @ [k])" "walk v mm r ks = Some q"
  shows "entry_at v (mm(slot (v p) d := e)) q k = entry_at v mm q k"
  using leaf_write_entry[OF assms(1-3,5,6), of ks q k] assms by (auto simp: short_path_snoc)

lemma leaf_write_walk:
  assumes "tables_ok v U mm r" "pages_apart v U"
    and "short_path is" "length is = 3" "walk v mm r is = Some p" "d < 512" "short_path js"
  shows "walk v (mm(slot (v p) d := e)) r js = walk v mm r js"
  by (rule walk_cong) (use leaf_write_above[OF assms(1-6)] short_path_prefix[OF assms(7)] in blast)

lemma leaf_write_ok:
  assumes "tables_ok v U mm r" "pages_apart v U"
    and "short_path is" "length is = 3" "walk v mm r is = Some p" "d < 512"
  shows "tables_ok v U (mm(slot (v p) d := e)) r"
  by (rule tables_ok_cong[OF assms(1) leaf_write_walk[OF assms]]) (assumption, rule leaf_write_above[OF assms])

lemma leaf_write_leaf:
  assumes "tables_ok v U mm r" "pages_apart v U"
    and "short_path is" "length is = 3" "walk v mm r is = Some p" "d < 512"
    and "short_path js" "j < 512"
  shows "leaf v (mm(slot (v p) d := e)) r js j =
           (if js = is \<and> j = d then (if present e then Some e else None) else leaf v mm r js j)"
  using leaf_write_entry[OF assms(1-3,5-7) _ assms(8)] assms
  by (auto simp: leaf_def leaf_write_walk[OF assms(1-7)] split: option.splits)

text \<open>
  Linking a fresh, zeroed table below a non-present entry adds that one table to the tree and
  changes no leaf.
\<close>

lemma link_walk:
  assumes ok: "tables_ok v U mm r"
    and path: "short_path (is @ [i])" "walk v mm r is = Some p" "\<not> present (entry_at v mm p i)"
    and new: "link (entry_at v mm' p i) = Some q" "\<And>k. k < 512 \<Longrightarrow> entry_at v mm' q k = 0"
    and same: "\<And>x k. U x \<Longrightarrow> k < 512 \<Longrightarrow> (x, k) \<noteq> (p, i) \<Longrightarrow> entry_at v mm' x k = entry_at v mm x k"
    and js: "short_path js"
  shows "walk v mm' r js = (if js = is @ [i] then Some q else walk v mm r js)"
proof -
  have stay: "walk v mm' r ks = walk v mm r ks" if "short_path ks" "\<not> prefix (is @ [i]) ks" for ks
  proof (rule walk_cong)
    fix ls l x
    assume l: "prefix (ls @ [l]) ks" "walk v mm r ls = Some x"
    then have "short_path (ls @ [l])" using \<open>short_path ks\<close> short_path_prefix by blast
    moreover from this l that path have "(x, l) \<noteq> (p, i)"
      using tables_inj[OF ok, of ls "is" p] by (auto simp: short_path_snoc)
    ultimately show "entry_at v mm' x l = entry_at v mm x l"
      using l tables_reach[OF ok] by (intro same) (auto simp: short_path_snoc)
  qed
  have base: "walk v mm' r is = Some p"
    using stay[of "is"] path by (auto simp: short_path_snoc prefix_def)
  show ?thesis
  proof (cases "prefix (is @ [i]) js")
    case True
    then obtain ks where ks: "js = is @ i # ks" by (auto simp: prefix_def)
    have old: "walk v mm r js = None" using path by (simp add: ks walk_append link_def)
    show ?thesis
    proof (cases "ks = []")
      case True
      then show ?thesis using base new by (simp add: ks walk_append)
    next
      case False
      moreover have "walk v mm' q ks = None"
        by (rule walk_zero) (use False js new in \<open>auto simp: ks short_path_def\<close>)
      ultimately show ?thesis using base new old by (simp add: ks walk_append)
    qed
  next
    case False
    then show ?thesis using stay[OF js] by auto
  qed
qed

lemma link_tables_ok:
  assumes ok: "tables_ok v U mm r" and fresh: "\<not> U q"
    and path: "short_path (is @ [i])" "walk v mm r is = Some p" "\<not> present (entry_at v mm p i)"
    and new: "link (entry_at v mm' p i) = Some q" "\<And>k. k < 512 \<Longrightarrow> entry_at v mm' q k = 0"
    and same: "\<And>x k. U x \<Longrightarrow> k < 512 \<Longrightarrow> (x, k) \<noteq> (p, i) \<Longrightarrow> entry_at v mm' x k = entry_at v mm x k"
  shows "tables_ok v (\<lambda>x. U x \<or> x = q) mm' r"
proof -
  have w: "walk v mm' r js = (if js = is @ [i] then Some q else walk v mm r js)" if "short_path js" for js
    using link_walk[OF ok path new same that] by blast
  have old: "walk v mm r js \<noteq> Some q" if "short_path js" for js
    using tables_reach[OF ok that] fresh by blast
  have huge: "\<not> huge (entry_at v mm' x k)"
    if "short_path (ks @ [k])" "walk v mm' r ks = Some x" "present (entry_at v mm' x k)" for ks k x
  proof (cases "ks = is @ [i]")
    case True
    from that(1) have "short_path ks" "k < 512" unfolding short_path_snoc by blast+
    with True that new(2)[of k] w[of ks] show ?thesis by (simp add: present_iff)
  next
    case False
    with that w[of ks] have x: "walk v mm r ks = Some x" by (auto simp: short_path_snoc)
    show ?thesis
    proof (cases "(x, k) = (p, i)")
      case True with new show ?thesis by (auto simp: link_def split: if_splits)
    next
      case False
      have "entry_at v mm' x k = entry_at v mm x k"
        by (rule same) (use that x False tables_reach[OF ok, of ks x] in \<open>auto simp: short_path_snoc\<close>)
      with that x tables_not_huge[OF ok, of ks k x] show ?thesis by simp
    qed
  qed
  show ?thesis
    unfolding tables_ok_def
    using w old huge tables_reach[OF ok] tables_inj[OF ok] by (auto split: if_splits)
qed

lemma link_leaf:
  assumes ok: "tables_ok v U mm r"
    and path: "short_path (is @ [i])" "walk v mm r is = Some p" "\<not> present (entry_at v mm p i)"
    and new: "link (entry_at v mm' p i) = Some q" "\<And>k. k < 512 \<Longrightarrow> entry_at v mm' q k = 0"
    and same: "\<And>x k. U x \<Longrightarrow> k < 512 \<Longrightarrow> (x, k) \<noteq> (p, i) \<Longrightarrow> entry_at v mm' x k = entry_at v mm x k"
    and js: "short_path js" "length js = 3" "j < 512"
  shows "leaf v mm' r js j = leaf v mm r js j"
proof (cases "js = is @ [i]")
  case True
  with path new(2)[OF js(3)] link_walk[OF ok path new same js(1)] show ?thesis
    by (simp add: leaf_def walk_append link_def present_iff)
next
  case False
  then have w: "walk v mm' r js = walk v mm r js" using link_walk[OF ok path new same js(1)] by simp
  show ?thesis
  proof (cases "walk v mm r js")
    case (Some x)
    have "x \<noteq> p" using tables_inj[OF ok js(1), of "is" p] Some path js(2) by (auto simp: short_path_snoc)
    with Some same[of x j] tables_reach[OF ok js(1)] js(3) w show ?thesis by (simp add: leaf_def)
  qed (simp add: leaf_def w)
qed

section \<open>The operations under the interface\<close>

text \<open>The map a space stands for: the present leaf entry of a canonical, aligned virtual address.\<close>

definition page_map :: "'c vmm_space \<Rightarrow> machine \<Rightarrow> u64 \<Rightarrow> u64 option" where
  "page_map s m vaddr =
     (if vmm_is_canonical vaddr \<and> vmm_is_aligned_4k vaddr
      then leaf (the (phys_to_virt s) (ctx s)) (mem m) (root_paddr s)
             [idx_pml4 vaddr, idx_pdpt vaddr, idx_pd vaddr] (idx_pt vaddr)
      else None)"

definition new_pte :: "u64 \<Rightarrow> u64 \<Rightarrow> u64" where
  "new_pte paddr flags =
     (paddr AND VMM_PTE_ADDR_MASK) OR VMM_PTE_PRESENT OR
     (flags AND (VMM_PTE_WRITABLE OR VMM_PTE_USER OR VMM_PTE_WRITE_THROUGH OR
                 VMM_PTE_CACHE_DISABLE OR VMM_PTE_GLOBAL OR VMM_PTE_NO_EXECUTE))"

lemma present_new_pte [simp]: "present (new_pte paddr flags)"
  by (simp add: present_iff new_pte_def bit_or_iff VMM_PTE_PRESENT_def)

lemma bit_table_flags: "bit VMM_PTE_PRESENT n \<longleftrightarrow> n = 0" "bit VMM_PTE_WRITABLE n \<longleftrightarrow> n = 1"
  unfolding VMM_PTE_PRESENT_def VMM_PTE_WRITABLE_def by (auto simp: bit_simps)

lemma link_new_table:
  assumes "p AND VMM_PTE_ADDR_MASK = p"
  shows "link ((p AND VMM_PTE_ADDR_MASK) OR VMM_PTE_PRESENT OR VMM_PTE_WRITABLE) = Some p"
proof -
  have p: "bit p n \<Longrightarrow> 12 \<le> n \<and> n < 52" for n
    using assms bit_addr_mask bit_and_iff by metis
  then have "(p OR VMM_PTE_PRESENT OR VMM_PTE_WRITABLE) AND VMM_PTE_ADDR_MASK = p"
    unfolding bit_eq_iff by (auto simp: bit_or_iff bit_and_iff bit_table_flags bit_addr_mask)
  moreover have "\<not> bit p 7" using p[of 7] by auto
  ultimately show ?thesis
    using assms by (simp add: link_def present_iff huge_iff bit_or_iff bit_table_flags)
qed

context frame_allocator
begin

definition in_use :: "'c \<Rightarrow> u64 \<Rightarrow> bool" where
  "in_use c p \<longleftrightarrow> usable c p \<and> p \<notin> avail c"

definition vmm_inv :: "'c vmm_space \<Rightarrow> machine \<Rightarrow> bool" where
  "vmm_inv s m \<longleftrightarrow>
     alloc_frame s = Some alloc \<and> phys_to_virt s = Some virt \<and> ok (ctx s) \<and>
     tables_ok (virt (ctx s)) (in_use (ctx s)) (mem m) (root_paddr s)"

lemma usable_apart: "ok c \<Longrightarrow> pages_apart (virt c) (usable c)"
  unfolding pages_apart_def using virt_sep by blast

lemma in_use_apart: "ok c \<Longrightarrow> pages_apart (virt c) (in_use c)"
  by (rule pages_apart_mono[OF usable_apart]) (auto simp: in_use_def)

lemma usable_aligned: "ok c \<Longrightarrow> usable c p \<Longrightarrow> vmm_is_aligned_4k p"
  using usable_addr addr_mask_idem_iff by blast

lemma usable_table:
  "phys_to_virt s = Some virt \<Longrightarrow> ok (ctx s) \<Longrightarrow> usable (ctx s) p \<Longrightarrow> table_from_phys s p = virt (ctx s) p"
  by (simp add: table_from_phys_def usable_aligned)

lemma get_next_present:
  assumes inv: "vmm_inv s m"
    and path: "short_path (is @ [i])" "walk (virt (ctx s)) (mem m) (root_paddr s) is = Some p"
    and e: "present (entry_at (virt (ctx s)) (mem m) p i)"
  obtains q where "walk (virt (ctx s)) (mem m) (root_paddr s) (is @ [i]) = Some q" "usable (ctx s) q"
    "get_or_alloc_next_table s m (virt (ctx s) p) i = (VMM_MAP_OK, virt (ctx s) q, s, m)"
    "next_table s m (virt (ctx s) p) i = Inr (virt (ctx s) q)"
proof -
  let ?e = "entry_at (virt (ctx s)) (mem m) p i" and ?q = "entry_at (virt (ctx s)) (mem m) p i AND VMM_PTE_ADDR_MASK"
  from inv have ok: "tables_ok (virt (ctx s)) (in_use (ctx s)) (mem m) (root_paddr s)" "ok (ctx s)"
      "phys_to_virt s = Some virt"
    by (simp_all add: vmm_inv_def)
  have nh: "\<not> huge ?e" using tables_not_huge[OF ok(1) path e] .
  then have w: "walk (virt (ctx s)) (mem m) (root_paddr s) (is @ [i]) = Some ?q"
    using path e by (simp add: walk_snoc link_def)
  then have u: "usable (ctx s) ?q" using tables_reach[OF ok(1) path(1)] by (simp add: in_use_def)
  then have t: "table_from_phys s ?q = virt (ctx s) ?q" "virt (ctx s) ?q \<noteq> 0"
    using ok usable_table usable_virt by blast+
  show ?thesis
    by (rule that[OF w u]) (use t e nh in \<open>simp_all add: get_or_alloc_next_table_def next_table_def entry_at_def present_def huge_def Let_def\<close>)
qed


lemma get_next_alloc:
  assumes inv: "vmm_inv s m"
    and path: "short_path (is @ [i])" "walk (virt (ctx s)) (mem m) (root_paddr s) is = Some p"
    and e: "\<not> present (entry_at (virt (ctx s)) (mem m) p i)" and free: "avail (ctx s) \<noteq> {}"
  obtains q c m' where "get_or_alloc_next_table s m (virt (ctx s) p) i = (VMM_MAP_OK, virt c q, s\<lparr>ctx := c\<rparr>, m')"
    "vmm_inv (s\<lparr>ctx := c\<rparr>) m'" "walk (virt c) (mem m') (root_paddr s) (is @ [i]) = Some q"
    "\<And>js j. short_path js \<Longrightarrow> length js = 3 \<Longrightarrow> j < 512 \<Longrightarrow>
       leaf (virt c) (mem m') (root_paddr s) js j = leaf (virt (ctx s)) (mem m) (root_paddr s) js j"
    "q \<in> avail (ctx s)" "avail c = avail (ctx s) - {q}" "invalidated m' = invalidated m"
proof -
  from inv have tab: "tables_ok (virt (ctx s)) (in_use (ctx s)) (mem m) (root_paddr s)" and ok: "ok (ctx s)"
      and cb: "phys_to_virt s = Some virt" "alloc_frame s = Some alloc"
    by (simp_all add: vmm_inv_def)
  obtain q c where call: "alloc (ctx s) = (q, c)" by fastforce
  have c: "ok c" "virt c = virt (ctx s)" "usable c = usable (ctx s)" using alloc_ok[OF ok call] by auto
  have q: "q \<in> avail (ctx s)" "avail c = avail (ctx s) - {q}" using alloc_some[OF ok free call] by auto
  have u: "usable (ctx s) q" using avail_usable[OF ok q(1)] .
  have a: "q AND VMM_PTE_ADDR_MASK = q" "vmm_is_aligned_4k q" "virt (ctx s) q \<noteq> 0"
    using usable_addr[OF ok u] usable_aligned[OF ok u] usable_virt[OF ok u] by auto
  have ninv: "q \<noteq> VMM_INVALID_PHYS" using a(1) by (auto simp: VMM_INVALID_PHYS_def VMM_PTE_ADDR_MASK_def)
  define e' where "e' = (q AND VMM_PTE_ADDR_MASK) OR VMM_PTE_PRESENT OR VMM_PTE_WRITABLE"
  define m1 where "m1 = vmm_zero_page (virt (ctx s) q) m"
  define m' where "m' = m1\<lparr>mem := (mem m1)(slot (virt (ctx s) p) i := e')\<rparr>"
  have p: "in_use (ctx s) p" using tables_reach[OF tab _ path(2)] path(1) by (simp add: short_path_snoc)
  have i: "i < 512" using path(1) by (simp add: short_path_snoc)
  have fresh: "\<not> in_use (ctx s) q" using q(1) by (simp add: in_use_def)
  have new: "link (entry_at (virt (ctx s)) (mem m') p i) = Some q"
    using link_new_table[OF a(1)] by (simp add: entry_at_def m'_def e'_def)
  have sep: "slot (virt (ctx s) x) k = slot (virt (ctx s) y) l \<Longrightarrow> x = y \<and> k = l"
    if "usable (ctx s) x" "usable (ctx s) y" "k < 512" "l < 512" for x y k l
    using virt_sep[OF ok that] .
  have zero: "entry_at (virt (ctx s)) (mem m') q k = 0" if "k < 512" for k
    using that sep[OF u, of p k i] p fresh i
    by (auto simp: entry_at_def m'_def m1_def zero_page_apply in_use_def)
  have same: "entry_at (virt (ctx s)) (mem m') x k = entry_at (virt (ctx s)) (mem m) x k"
    if "in_use (ctx s) x" "k < 512" "(x, k) \<noteq> (p, i)" for x k
    using that sep[of x p k i] sep[of x q k] p fresh i u
    by (auto simp: entry_at_def m'_def m1_def zero_page_apply in_use_def)
  have use: "in_use c = (\<lambda>x. in_use (ctx s) x \<or> x = q)"
    using u c(3) q by (auto simp: in_use_def fun_eq_iff)
  show ?thesis
  proof (rule that[of c q m'])
    show "get_or_alloc_next_table s m (virt (ctx s) p) i = (VMM_MAP_OK, virt c q, s\<lparr>ctx := c\<rparr>, m')"
      using e ninv a call cb c(2)
      by (simp add: get_or_alloc_next_table_def entry_at_def present_def Let_def table_from_phys_def
            m'_def m1_def e'_def)
    show "vmm_inv (s\<lparr>ctx := c\<rparr>) m'"
      using link_tables_ok[OF tab fresh path e new zero same] cb c by (simp add: vmm_inv_def use)
    show "walk (virt c) (mem m') (root_paddr s) (is @ [i]) = Some q"
      using link_walk[OF tab path e new zero same path(1)] c by simp
    show "leaf (virt c) (mem m') (root_paddr s) js j = leaf (virt (ctx s)) (mem m) (root_paddr s) js j"
      if "short_path js" "length js = 3" "j < 512" for js j
      using link_leaf[OF tab path e new zero same that] c by simp
  qed (use q in \<open>simp_all add: m'_def m1_def vmm_zero_page_def\<close>)
qed

end

context frame_allocator
begin

lemma page_map_eqI:
  assumes "phys_to_virt s = Some virt" "phys_to_virt s' = Some virt"
    and "\<And>js j. short_path js \<Longrightarrow> length js = 3 \<Longrightarrow> j < 512 \<Longrightarrow>
       leaf (virt (ctx s')) (mem m') (root_paddr s') js j = leaf (virt (ctx s)) (mem m) (root_paddr s) js j"
  shows "page_map s' m' = page_map s m"
  using assms by (auto simp: page_map_def fun_eq_iff short_path_def)

lemma get_next_spec:
  assumes inv: "vmm_inv s m"
    and path: "short_path (is @ [i])" "walk (virt (ctx s)) (mem m) (root_paddr s) is = Some p"
    and call: "get_or_alloc_next_table s m (virt (ctx s) p) i = (rc, out, s', m')"
  shows "vmm_inv s' m' \<and> root_paddr s' = root_paddr s \<and> page_map s' m' = page_map s m \<and>
         invalidated m' = invalidated m \<and> card (avail (ctx s)) \<le> Suc (card (avail (ctx s'))) \<and>
         (rc = VMM_MAP_OK \<and>
            (\<exists>q. walk (virt (ctx s')) (mem m') (root_paddr s') (is @ [i]) = Some q \<and> out = virt (ctx s') q) \<or>
          rc = VMM_ERR_NOMEM \<and> avail (ctx s) = {} \<and>
            walk (virt (ctx s)) (mem m) (root_paddr s) (is @ [i]) = None)"
proof (cases "present (entry_at (virt (ctx s)) (mem m) p i)")
  case True
  show ?thesis by (rule get_next_present[OF inv path True]) (use call inv in auto)
next
  case absent: False
  have ok: "ok (ctx s)" and cb: "alloc_frame s = Some alloc" "phys_to_virt s = Some virt"
    using inv by (simp_all add: vmm_inv_def)
  show ?thesis
  proof (cases "avail (ctx s) = {}")
    case True
    obtain c where c: "alloc (ctx s) = (VMM_INVALID_PHYS, c)" "avail c = {}"
      using alloc_none[OF ok True] by (cases "alloc (ctx s)") auto
    have c': "ok c" "virt c = virt (ctx s)" "usable c = usable (ctx s)" using alloc_ok[OF ok c(1)] by auto
    from absent cb c call have "rc = VMM_ERR_NOMEM \<and> s' = s\<lparr>ctx := c\<rparr> \<and> m' = m"
      by (auto simp: get_or_alloc_next_table_def entry_at_def present_def Let_def)
    moreover have "walk (virt (ctx s)) (mem m) (root_paddr s) (is @ [i]) = None"
      using path absent by (simp add: walk_snoc link_def)
    moreover have "in_use c = in_use (ctx s)" using c' c(2) True by (auto simp: in_use_def fun_eq_iff)
    moreover have "page_map (s\<lparr>ctx := c\<rparr>) m = page_map s m"
      by (rule page_map_eqI) (use cb c' in simp_all)
    ultimately show ?thesis using inv True c c' by (simp add: vmm_inv_def)
  next
    case False
    from get_next_alloc[OF inv path absent False] obtain q c m1 where
      q: "get_or_alloc_next_table s m (virt (ctx s) p) i = (VMM_MAP_OK, virt c q, s\<lparr>ctx := c\<rparr>, m1)"
        "vmm_inv (s\<lparr>ctx := c\<rparr>) m1" "walk (virt c) (mem m1) (root_paddr s) (is @ [i]) = Some q"
      and lf: "\<And>js j. short_path js \<Longrightarrow> length js = 3 \<Longrightarrow> j < 512 \<Longrightarrow>
         leaf (virt c) (mem m1) (root_paddr s) js j = leaf (virt (ctx s)) (mem m) (root_paddr s) js j"
      and av: "q \<in> avail (ctx s)" "avail c = avail (ctx s) - {q}" "invalidated m1 = invalidated m"
      by metis
    have "page_map (s\<lparr>ctx := c\<rparr>) m1 = page_map s m" by (rule page_map_eqI) (use cb lf in simp_all)
    moreover have "card (avail (ctx s)) = Suc (card (avail c))"
      using card_Suc_Diff1[OF avail_finite[OF ok] av(1)] av(2) by simp
    ultimately show ?thesis using q av call by auto
  qed
qed

lemma root_walk:
  assumes "vmm_inv s m"
  shows "table_from_phys s (root_paddr s) = virt (ctx s) (root_paddr s)" "virt (ctx s) (root_paddr s) \<noteq> 0"
proof -
  have "in_use (ctx s) (root_paddr s)"
    using assms tables_reach[of "virt (ctx s)" "in_use (ctx s)" "mem m" "root_paddr s" "[]"]
    by (simp add: vmm_inv_def short_path_def)
  with assms show "table_from_phys s (root_paddr s) = virt (ctx s) (root_paddr s)" "virt (ctx s) (root_paddr s) \<noteq> 0"
    by (simp_all add: usable_table usable_virt in_use_def vmm_inv_def)
qed

lemma page_map_unreached:
  assumes "vmm_inv s m" and pre: "prefix ks [idx_pml4 va, idx_pdpt va, idx_pd va]"
    and none: "walk (virt (ctx s)) (mem m) (root_paddr s) ks = None"
  shows "page_map s m va = None"
proof -
  obtain zs where zs: "[idx_pml4 va, idx_pdpt va, idx_pd va] = ks @ zs" using pre by (auto simp: prefix_def)
  show ?thesis
    using assms(1) none unfolding page_map_def zs by (simp add: leaf_def walk_append vmm_inv_def)
qed

lemma page_map_reached:
  assumes "vmm_inv s m" "vmm_is_canonical va" "vmm_is_aligned_4k va"
    and "walk (virt (ctx s)) (mem m) (root_paddr s) [idx_pml4 va, idx_pdpt va, idx_pd va] = Some p"
  shows "page_map s m va = (let e = mem m (slot (virt (ctx s) p) (idx_pt va)) in if present e then Some e else None)"
  using assms unfolding page_map_def leaf_def by (simp add: vmm_inv_def entry_at_def)

lemma page_write:
  assumes inv: "vmm_inv s m" and va: "vmm_is_canonical va" "vmm_is_aligned_4k va"
    and path: "walk (virt (ctx s)) (mem m) (root_paddr s) [idx_pml4 va, idx_pdpt va, idx_pd va] = Some p"
    and m': "mem m' = (mem m)(slot (virt (ctx s) p) (idx_pt va) := e)"
  shows "vmm_inv s m' \<and> page_map s m' = (page_map s m)(va := if present e then Some e else None)"
proof -
  have tab: "tables_ok (virt (ctx s)) (in_use (ctx s)) (mem m) (root_paddr s)" and ok: "ok (ctx s)"
      and cb: "phys_to_virt s = Some virt" "alloc_frame s = Some alloc"
    using inv by (simp_all add: vmm_inv_def)
  have sp: "short_path [idx_pml4 w, idx_pdpt w, idx_pd w]" for w by (simp add: short_path_def)
  note wr = tab in_use_apart[OF ok] sp _ path idx_less(4)[of va]
  have "tables_ok (virt (ctx s)) (in_use (ctx s)) (mem m') (root_paddr s)"
    unfolding m' by (rule leaf_write_ok[OF wr]) simp
  moreover have "page_map s m' w = ((page_map s m)(va := if present e then Some e else None)) w" for w
  proof (cases "vmm_is_canonical w \<and> vmm_is_aligned_4k w")
    case True
    have "[idx_pml4 w, idx_pdpt w, idx_pd w] = [idx_pml4 va, idx_pdpt va, idx_pd va] \<and> idx_pt w = idx_pt va \<longleftrightarrow> w = va"
      using vpath_inj[of w va] True va by (auto simp: vpath_def)
    then show ?thesis
      using leaf_write_leaf[OF wr sp[of w] idx_less(4)[of w], of e] True cb by (simp add: page_map_def m')
  qed (use va in \<open>auto simp: page_map_def\<close>)
  ultimately show ?thesis using cb ok by (auto simp: vmm_inv_def)
qed

lemma vmm_map_page_spec:
  assumes inv: "vmm_inv s m"
    and va: "vmm_is_canonical va" "vmm_is_aligned_4k va" "vmm_is_aligned_4k pa"
  shows "\<exists>rc s' m'. vmm_map_page (Some s) m va pa flags = (rc, Some s', m') \<and> vmm_inv s' m' \<and>
           invalidated m' = invalidated m \<and> root_paddr s' = root_paddr s \<and>
           (rc = VMM_MAP_OK \<and> page_map s m va = None \<and> page_map s' m' = (page_map s m)(va \<mapsto> new_pte pa flags) \<or>
            rc = VMM_ERR_EXISTS \<and> page_map s m va \<noteq> None \<and> page_map s' m' = page_map s m \<or>
            rc = VMM_ERR_NOMEM \<and> page_map s m va = None \<and> page_map s' m' = page_map s m \<and>
              card (avail (ctx s)) < 3)"
proof -
  let ?a = "idx_pml4 va" and ?b = "idx_pdpt va" and ?c = "idx_pd va" and ?d = "idx_pt va"
  have sp: "short_path ([] @ [?a])" "short_path ([?a] @ [?b])" "short_path ([?a, ?b] @ [?c])"
    by (auto simp: short_path_def)
  obtain rc1 o1 s1 m1 where c1: "get_or_alloc_next_table s m (virt (ctx s) (root_paddr s)) ?a = (rc1, o1, s1, m1)"
    by (metis prod_cases4)
  note g1 = get_next_spec[OF inv sp(1) walk.simps(1) c1]
  show ?thesis
  proof (cases "rc1 = VMM_MAP_OK")
    case False
    then have "page_map s m va = None"
      using g1 by (intro page_map_unreached[OF inv, of "[?a]"]) auto
    with False g1 c1 va root_walk[OF inv] show ?thesis by (auto simp: vmm_map_page_def)
  next
    case ok1: True
    then obtain p1 where p1: "walk (virt (ctx s1)) (mem m1) (root_paddr s1) [?a] = Some p1" "o1 = virt (ctx s1) p1"
      and inv1: "vmm_inv s1 m1" using g1 by auto
    obtain rc2 o2 s2 m2 where c2: "get_or_alloc_next_table s1 m1 o1 ?b = (rc2, o2, s2, m2)" by (metis prod_cases4)
    note g2 = get_next_spec[OF inv1 sp(2) p1(1) c2[unfolded p1]]
    show ?thesis
    proof (cases "rc2 = VMM_MAP_OK")
      case False
      then have "page_map s1 m1 va = None"
        using g2 by (intro page_map_unreached[OF inv1, of "[?a, ?b]"]) auto
      with False ok1 g1 g2 c1 c2 va root_walk[OF inv] show ?thesis by (auto simp: vmm_map_page_def)
    next
      case ok2: True
      then obtain p2 where p2: "walk (virt (ctx s2)) (mem m2) (root_paddr s2) [?a, ?b] = Some p2" "o2 = virt (ctx s2) p2"
        and inv2: "vmm_inv s2 m2" using g2 by auto
      obtain rc3 o3 s3 m3 where c3: "get_or_alloc_next_table s2 m2 o2 ?c = (rc3, o3, s3, m3)" by (metis prod_cases4)
      note g3 = get_next_spec[OF inv2 sp(3) p2(1) c3[unfolded p2]]
      show ?thesis
      proof (cases "rc3 = VMM_MAP_OK")
        case False
        then have "page_map s2 m2 va = None"
          using g3 by (intro page_map_unreached[OF inv2, of "[?a, ?b, ?c]"]) auto
        with False ok1 ok2 g1 g2 g3 c1 c2 c3 va root_walk[OF inv] show ?thesis by (auto simp: vmm_map_page_def)
      next
        case ok3: True
        then obtain p3 where p3: "walk (virt (ctx s3)) (mem m3) (root_paddr s3) [?a, ?b, ?c] = Some p3" "o3 = virt (ctx s3) p3"
          and inv3: "vmm_inv s3 m3" using g3 by auto
        let ?m = "m3\<lparr>mem := (mem m3)(slot o3 ?d := new_pte pa flags)\<rparr>"
        have res: "vmm_map_page (Some s) m va pa flags =
            (if present (mem m3 (slot o3 ?d)) then (VMM_ERR_EXISTS, Some s3, m3) else (VMM_MAP_OK, Some s3, ?m))"
          using c1 c2 c3 ok1 ok2 ok3 va root_walk[OF inv]
          by (simp add: vmm_map_page_def present_def new_pte_def Let_def)
        have same: "page_map s3 m3 = page_map s m" "invalidated m3 = invalidated m" "root_paddr s3 = root_paddr s"
          using g1 g2 g3 by auto
        have w: "vmm_inv s3 ?m \<and> page_map s3 ?m = (page_map s3 m3)(va \<mapsto> new_pte pa flags)"
          using page_write[OF inv3 va(1,2) p3(1), of ?m "new_pte pa flags"] by (simp add: p3(2))
        show ?thesis
          using res same w inv3 page_map_reached[OF inv3 va(1,2) p3(1)] by (auto simp: p3(2) Let_def)
      qed
    qed
  qed
qed

end

context frame_allocator
begin

lemma next_table_walk:
  assumes inv: "vmm_inv s m"
    and path: "short_path (is @ [i])" "walk (virt (ctx s)) (mem m) (root_paddr s) is = Some p"
  shows "next_table s m (virt (ctx s) p) i =
           (case walk (virt (ctx s)) (mem m) (root_paddr s) (is @ [i]) of
              None \<Rightarrow> Inl VMM_ERR_NOT_FOUND
            | Some q \<Rightarrow> Inr (virt (ctx s) q))"
proof (cases "present (entry_at (virt (ctx s)) (mem m) p i)")
  case True
  show ?thesis by (rule get_next_present[OF inv path True]) simp
next
  case False
  then show ?thesis using path by (simp add: walk_snoc link_def next_table_def entry_at_def present_def)
qed

text \<open>The descent shared by \<open>vmm_query_page\<close> and \<open>vmm_unmap_page\<close>.\<close>

lemma descent:
  assumes inv: "vmm_inv s m"
  shows "(case next_table s m (table_from_phys s (root_paddr s)) (idx_pml4 va) of Inl rc \<Rightarrow> err rc | Inr pdpt \<Rightarrow>
           (case next_table s m pdpt (idx_pdpt va) of Inl rc \<Rightarrow> err rc | Inr pd \<Rightarrow>
           (case next_table s m pd (idx_pd va) of Inl rc \<Rightarrow> err rc | Inr pt \<Rightarrow> body pt))) =
         (case walk (virt (ctx s)) (mem m) (root_paddr s) [idx_pml4 va, idx_pdpt va, idx_pd va] of
            None \<Rightarrow> err VMM_ERR_NOT_FOUND
          | Some p \<Rightarrow> body (virt (ctx s) p))"
proof -
  let ?w = "walk (virt (ctx s)) (mem m) (root_paddr s)"
  have sp: "short_path ([] @ [idx_pml4 va])" "short_path ([idx_pml4 va] @ [idx_pdpt va])"
      "short_path ([idx_pml4 va, idx_pdpt va] @ [idx_pd va])"
    by (auto simp: short_path_def)
  have none: "?w (ks @ ls) = None" if "?w ks = None" for ks ls using that by (simp add: walk_append)
  show ?thesis
    unfolding root_walk(1)[OF inv] next_table_walk[OF inv sp(1) walk.simps(1)]
    using next_table_walk[OF inv sp(2)] next_table_walk[OF inv sp(3)]
      none[of "[idx_pml4 va]" "[idx_pdpt va, idx_pd va]"] none[of "[idx_pml4 va, idx_pdpt va]" "[idx_pd va]"]
    by (auto split: option.split simp del: walk.simps)
qed

lemma vmm_query_page_spec:
  assumes inv: "vmm_inv s m" and va: "vmm_is_canonical va" "vmm_is_aligned_4k va"
  shows "vmm_query_page (Some s) m va (Some out) =
           (case page_map s m va of
              None \<Rightarrow> (VMM_ERR_NOT_FOUND, Some out)
            | Some e \<Rightarrow> (VMM_MAP_OK, Some (out\<lparr>map_vaddr := va, map_paddr := e AND VMM_PTE_ADDR_MASK,
                                              map_flags := e AND NOT VMM_PTE_ADDR_MASK\<rparr>)))"
proof -
  let ?p = "[idx_pml4 va, idx_pdpt va, idx_pd va]"
  have root: "table_from_phys s (root_paddr s) \<noteq> 0" using root_walk[OF inv] by simp
  show ?thesis
  proof (cases "walk (virt (ctx s)) (mem m) (root_paddr s) ?p")
    case None
    then have "page_map s m va = None" by (intro page_map_unreached[OF inv, of ?p]) simp_all
    with None va root show ?thesis
      unfolding vmm_query_page_def by (simp add: Let_def descent[OF inv] del: walk.simps)
  next
    case (Some p)
    from page_map_reached[OF inv va Some] Some va root show ?thesis
      unfolding vmm_query_page_def by (simp add: Let_def descent[OF inv] present_def del: walk.simps)
  qed
qed

lemma vmm_unmap_page_spec:
  assumes inv: "vmm_inv s m" and va: "vmm_is_canonical va" "vmm_is_aligned_4k va"
  shows "if page_map s m va = None then vmm_unmap_page (Some s) m va = (VMM_ERR_NOT_FOUND, m)
         else \<exists>m'. vmm_unmap_page (Some s) m va = (VMM_MAP_OK, m') \<and> vmm_inv s m' \<and>
                page_map s m' = (page_map s m)(va := None) \<and> invalidated m' = invalidated m @ [va]"
proof -
  let ?p = "[idx_pml4 va, idx_pdpt va, idx_pd va]"
  have root: "table_from_phys s (root_paddr s) \<noteq> 0" using root_walk[OF inv] by simp
  show ?thesis
  proof (cases "walk (virt (ctx s)) (mem m) (root_paddr s) ?p")
    case None
    then have "page_map s m va = None" by (intro page_map_unreached[OF inv, of ?p]) simp_all
    with None va root show ?thesis
      unfolding vmm_unmap_page_def by (simp add: Let_def descent[OF inv] del: walk.simps)
  next
    case (Some p)
    let ?a = "slot (virt (ctx s) p) (idx_pt va)"
    let ?m = "vmm_invalidate_page va (m\<lparr>mem := (mem m)(?a := 0)\<rparr>)"
    have res: "vmm_unmap_page (Some s) m va =
        (if present (mem m ?a) then (VMM_MAP_OK, ?m) else (VMM_ERR_NOT_FOUND, m))"
      using Some va root
      unfolding vmm_unmap_page_def by (simp add: Let_def descent[OF inv] present_def del: walk.simps)
    have "vmm_inv s ?m \<and> page_map s ?m = (page_map s m)(va := None)"
      using page_write[OF inv va Some, of ?m 0] by (simp add: vmm_invalidate_page_def present_iff)
    with res page_map_reached[OF inv va Some] show ?thesis
      by (auto simp: Let_def vmm_invalidate_page_def)
  qed
qed

lemma vmm_space_init_spec:
  assumes "ok c" "in_use c root" and zero: "\<And>i. i < 512 \<Longrightarrow> mem m (slot (virt c root) i) = 0"
  obtains s' where "vmm_space_init (Some s) root c (Some alloc) fr (Some virt) = (VMM_MAP_OK, Some s')"
    "vmm_inv s' m" "page_map s' m = Map.empty" "ctx s' = c" "root_paddr s' = root"
proof
  let ?s = "s\<lparr>root_paddr := root, ctx := c, alloc_frame := Some alloc, free_frame := fr, phys_to_virt := Some virt\<rparr>"
  have "vmm_is_aligned_4k root" using assms usable_aligned by (simp add: in_use_def)
  then show "vmm_space_init (Some s) root c (Some alloc) fr (Some virt) = (VMM_MAP_OK, Some ?s)"
    by (simp add: vmm_space_init_def)
  have e: "entry_at (virt c) (mem m) root i = 0" if "i < 512" for i using zero[OF that] by (simp add: entry_at_def)
  have w: "walk (virt c) (mem m) root is = (if is = [] then Some root else None)" if "short_path is" for "is"
    using walk_zero[of "is" "virt c" "mem m" root] that e by (auto simp: short_path_def)
  have "tables_ok (virt c) (in_use c) (mem m) root"
    unfolding tables_ok_def using w assms(2) e by (auto simp: short_path_snoc present_iff split: if_splits)
  then show "vmm_inv ?s m" using assms by (simp add: vmm_inv_def)
  show "page_map ?s m = Map.empty"
    using w by (auto simp: page_map_def leaf_def short_path_def fun_eq_iff simp del: walk.simps)
qed simp_all

end

end
