(* ===== verification/Kernel_Mm.thy ===== *)
theory Kernel_Mm
  imports Pmm Vmm
begin

text \<open>
  The memory bring-up of \<^verbatim>\<open>src/kernel.c\<close>: the adapters that give the page tables their frames from
  the frame allocator, \<open>kernel_memory_init\<close> and \<open>kernel_vmm_init\<close>. The adapters satisfy the interface
  \<open>frame_allocator\<close>, so the page-table lemmas hold for the kernel's own space.
\<close>

section \<open>Model\<close>

definition PMM_MAX_PHYS_BYTES :: u64 where
  "PMM_MAX_PHYS_BYTES = 64 * 1024 * 1024 * 1024"

definition PMM_BITMAP_BYTES :: u64 where
  "PMM_BITMAP_BYTES = PMM_MAX_PHYS_BYTES div PMM_PAGE_SIZE div 8"

definition BOOT_MEM_KERNEL_AND_MODULES :: u32 where
  "BOOT_MEM_KERNEL_AND_MODULES = 4"

text \<open>The globals the adapters work on.\<close>

record kernel_mm =
  kernel_pmm :: pmm_state
  kernel_pmm_bitmap :: "u8 list"
  hhdm_offset :: u64

definition kernel_vmm_alloc :: "kernel_mm \<Rightarrow> u64 \<times> kernel_mm" where
  "kernel_vmm_alloc k =
     (case pmm_alloc_frame (Some (kernel_pmm k)) of (p, pmm) \<Rightarrow> (p, k\<lparr>kernel_pmm := the pmm\<rparr>))"

definition kernel_vmm_free :: "kernel_mm \<Rightarrow> u64 \<Rightarrow> kernel_mm" where
  "kernel_vmm_free k frame_paddr =
     (case pmm_free_frame (Some (kernel_pmm k)) frame_paddr of (_, pmm) \<Rightarrow> k\<lparr>kernel_pmm := the pmm\<rparr>)"

definition kernel_phys_to_virt :: "kernel_mm \<Rightarrow> u64 \<Rightarrow> u64" where
  "kernel_phys_to_virt k paddr = hhdm_offset k + paddr"

definition early_map :: "boot_mem_region list" where
  "early_map =
     [\<lparr>region_base = 0x00000000, region_length = 0x0009f000, region_type = BOOT_MEM_USABLE\<rparr>,
      \<lparr>region_base = 0x0009f000, region_length = 0x00001000, region_type = BOOT_MEM_RESERVED\<rparr>,
      \<lparr>region_base = 0x00100000, region_length = 0x00300000, region_type = BOOT_MEM_USABLE\<rparr>,
      \<lparr>region_base = 0x00400000, region_length = 0x00100000, region_type = BOOT_MEM_KERNEL_AND_MODULES\<rparr>,
      \<lparr>region_base = 0x00500000, region_length = 0x07b00000, region_type = BOOT_MEM_USABLE\<rparr>]"

definition kernel_memory_init :: "kernel_mm \<Rightarrow> console list \<times> kernel_mm" where
  "kernel_memory_init k =
     (case pmm_init_from_map (Some (kernel_pmm k)) (Some early_map) (Some (kernel_pmm_bitmap k))
             PMM_BITMAP_BYTES PMM_MAX_PHYS_BYTES of
        (False, pmm) \<Rightarrow> ([line ''[m6] pmm_init_from_map failed''], k\<lparr>kernel_pmm := the pmm\<rparr>)
      | (True, pmm) \<Rightarrow>
          (let log = [line ''M6 PMM initialized'', Hex64 (pmm_frame_count pmm), line '' frames managed'',
                      Hex64 (pmm_free_count pmm), line '' frames free''];
               (f, pmm) = pmm_alloc_frame pmm
           in if f = PMM_INVALID_FRAME then (log @ [line ''[m6] alloc failed''], k\<lparr>kernel_pmm := the pmm\<rparr>)
              else
                (let log = log @ [Text ''[m6] sample frame = '', Hex64 f, line []];
                     (freed, pmm) = pmm_free_frame pmm f
                 in (log @ [line (if freed then ''[m6] frame freed ok'' else ''[m6] free failed'')],
                     k\<lparr>kernel_pmm := the pmm\<rparr>))))"

definition kernel_vmm_init ::
  "kernel_mm \<Rightarrow> kernel_mm vmm_space \<Rightarrow> console list \<times> kernel_mm \<times> kernel_mm vmm_space" where
  "kernel_vmm_init k kernel_space =
     (case pmm_alloc_frame (Some (kernel_pmm k)) of
        (root, pmm) \<Rightarrow>
          (let k = k\<lparr>kernel_pmm := the pmm\<rparr>
           in if root = PMM_INVALID_FRAME
              then ([line ''[m7] ERROR: cannot allocate root page table''], k, kernel_space)
              else
                (case vmm_space_init (Some kernel_space) root k (Some kernel_vmm_alloc)
                        (Some kernel_vmm_free) (Some kernel_phys_to_virt) of
                   (rc, sp) \<Rightarrow>
                     if rc \<noteq> VMM_MAP_OK
                     then ([line ''[m7] ERROR: vmm_space_init failed''], kernel_vmm_free k root, the sp)
                     else ([line ''M7 VMM core initialized''], k, the sp))))"

section \<open>The adapters satisfy the interface of the page tables\<close>

definition mm_ok :: "kernel_mm \<Rightarrow> bool" where
  "mm_ok k \<longleftrightarrow> pmm_inv (kernel_pmm k) \<and> unat (max_phys (kernel_pmm k)) \<le> 2 ^ 52 \<and>
     unat (hhdm_offset k) + 2 ^ 52 \<le> 2 ^ 64"

definition mm_usable :: "kernel_mm \<Rightarrow> u64 \<Rightarrow> bool" where
  "mm_usable k p \<longleftrightarrow> 4096 dvd unat p \<and> p \<noteq> 0 \<and> p < max_phys (kernel_pmm k)"

definition mm_avail :: "kernel_mm \<Rightarrow> u64 set" where
  "mm_avail k = {p. mm_usable k p \<and> p div 4096 \<in> free_set (kernel_pmm k)}"

lemma mm_alloc_cases:
  assumes ok: "mm_ok k" and call: "kernel_vmm_alloc k = (p, k')"
  obtains (none) "free_set (kernel_pmm k) = {}" "p = VMM_INVALID_PHYS" "k' = k"
  | (some) pmm where "k' = k\<lparr>kernel_pmm := pmm\<rparr>" "p \<in> mm_avail k" "mm_avail k' = mm_avail k - {p}"
      "pmm_inv pmm" "max_phys pmm = max_phys (kernel_pmm k)"
proof -
  have inv: "pmm_inv (kernel_pmm k)" using ok by (simp add: mm_ok_def)
  obtain pmm where a: "pmm_alloc_frame (Some (kernel_pmm k)) = (p, Some pmm)" "k' = k\<lparr>kernel_pmm := pmm\<rparr>"
    using call pmm_alloc_frame_spec[OF inv] pmm_alloc_frame_empty[OF inv]
    by (cases "free_set (kernel_pmm k) = {}") (auto simp: kernel_vmm_alloc_def)
  from inv a(1) show ?thesis
  proof (cases rule: pmm_alloc_cases)
    case empty: none
    show ?thesis by (rule none) (use a empty in \<open>simp_all add: VMM_INVALID_PHYS_def PMM_INVALID_FRAME_def\<close>)
  next
    case s: (some f)
    have "p \<in> mm_avail k" using s(2,4-7) by (simp add: mm_avail_def mm_usable_def)
    moreover have "mm_avail k' = mm_avail k - {p}"
    proof (rule set_eqI)
      show "q \<in> mm_avail k' \<longleftrightarrow> q \<in> mm_avail k - {p}" for q
        using s(4,5,10,12) a(2) frame_addr_inj[of q p] by (auto simp: mm_avail_def mm_usable_def)
    qed
    ultimately show ?thesis by (rule some[OF a(2) _ _ s(9,12)])
  qed
qed


lemma mm_avail_nonempty:
  assumes "mm_ok k" "free_set (kernel_pmm k) \<noteq> {}"
  shows "mm_avail k \<noteq> {}"
proof -
  obtain p k' where call: "kernel_vmm_alloc k = (p, k')" by fastforce
  from assms(1) call show ?thesis by (cases rule: mm_alloc_cases) (use assms in auto)
qed

lemma mm_virt_sep:
  assumes "mm_usable k p" "mm_usable k q" "i < 512" "j < 512"
    and "slot (kernel_phys_to_virt k p) i = slot (kernel_phys_to_virt k q) j"
  shows "p = q \<and> i = j"
proof -
  have idx: "unat (8 * ucast x :: u64) = 8 * unat x" "unat x < 512" if "x < 512" for x :: u32
    using that by (simp_all add: word_less_nat_alt unat_word_ariths unsigned_ucast_eq take_bit_nat_eq_self)
  have fit: "unat (x + 8 * ucast y) = unat x + 8 * unat y" if "4096 dvd unat x" "y < 512" for x :: u64 and y :: u32
  proof -
    obtain n where n: "unat x = 4096 * n" using \<open>4096 dvd unat x\<close> by blast
    have "unat x < 2 ^ 64" using unat_less_length[of x] by simp
    then have "unat x + 8 * unat y < 2 ^ 64" using n idx[OF that(2)] by simp
    then show ?thesis using idx[OF that(2)] by (simp add: unat_word_ariths)
  qed
  have "p + 8 * ucast i = q + 8 * ucast j" using assms(5) by (simp add: slot_def kernel_phys_to_virt_def add.assoc)
  then have eq: "unat p + 8 * unat i = unat q + 8 * unat j"
    using fit[of p i] fit[of q j] assms by (metis mm_usable_def)
  obtain n m where nm: "unat p = 4096 * n" "unat q = 4096 * m"
    using assms by (auto simp: mm_usable_def dvd_def)
  have "n = m" using eq nm idx(2)[OF assms(3)] idx(2)[OF assms(4)] by linarith
  with eq nm show ?thesis by (simp add: word_unat_eq_iff)
qed

lemma mm_usable_addr:
  assumes "mm_ok k" "mm_usable k p"
  shows "p AND VMM_PTE_ADDR_MASK = p" "kernel_phys_to_virt k p \<noteq> 0"
proof -
  have lim: "unat p < 2 ^ 52" using assms by (simp add: mm_ok_def mm_usable_def word_less_nat_alt)
  have "\<not> bit p n" if "52 \<le> n" for n
  proof -
    have "unat p < 2 ^ n" using lim power_increasing[OF that, of "2 :: nat"] by linarith
    then have "\<not> bit (unat p) n" by (simp add: bit_iff_odd)
    then show ?thesis by (simp add: bit_unsigned_iff)
  qed
  then show "p AND VMM_PTE_ADDR_MASK = p"
    using assms page_aligned_iff[of p]
    by (auto simp: addr_mask_idem_iff vmm_is_aligned_4k_def mm_usable_def VMM_PAGE_SIZE_def PMM_PAGE_SIZE_def)
  have "unat (hhdm_offset k + p) = unat (hhdm_offset k) + unat p"
    using assms lim by (intro unat_add_no_wrap) (simp add: mm_ok_def)
  moreover have "unat p \<noteq> 0" using assms by (simp add: mm_usable_def unsigned_eq_0_iff del: unat_gt_0)
  ultimately show "kernel_phys_to_virt k p \<noteq> 0" by (auto simp: kernel_phys_to_virt_def)
qed

interpretation kmm: frame_allocator kernel_vmm_alloc kernel_phys_to_virt mm_avail mm_usable mm_ok
proof
  fix k k' :: kernel_mm and p q :: u64 and i j :: u32
  show "mm_ok k' \<and> kernel_phys_to_virt k' = kernel_phys_to_virt k \<and> mm_usable k' = mm_usable k"
    if "mm_ok k" "kernel_vmm_alloc k = (p, k')"
    using that by (cases rule: mm_alloc_cases[OF that])
      (auto simp: mm_ok_def mm_usable_def kernel_phys_to_virt_def fun_eq_iff)
  show "fst (kernel_vmm_alloc k) = VMM_INVALID_PHYS \<and> mm_avail (snd (kernel_vmm_alloc k)) = {}"
    if "mm_ok k" "mm_avail k = {}"
    using that mm_avail_nonempty[OF that(1)]
    by (cases "kernel_vmm_alloc k") (auto elim: mm_alloc_cases[OF that(1)])
  show "p \<in> mm_avail k \<and> mm_avail k' = mm_avail k - {p}"
    if "mm_ok k" "mm_avail k \<noteq> {}" "kernel_vmm_alloc k = (p, k')"
    using that(2) by (cases rule: mm_alloc_cases[OF that(1,3)]) (auto simp: mm_avail_def)
  show "mm_usable k p" if "mm_ok k" "p \<in> mm_avail k" using that by (simp add: mm_avail_def)
  show "finite (mm_avail k)" by simp
  show "p AND VMM_PTE_ADDR_MASK = p" "kernel_phys_to_virt k p \<noteq> 0" if "mm_ok k" "mm_usable k p"
    using mm_usable_addr[OF that] .
  show "p = q \<and> i = j" if "mm_usable k p" "mm_usable k q" "i < 512" "j < 512"
      "slot (kernel_phys_to_virt k p) i = slot (kernel_phys_to_virt k q) j"
    using mm_virt_sep[OF that] .
qed

section \<open>The boot of the memory subsystem\<close>

definition boot_frames :: "u64 set" where
  "boot_frames = {f. 1 \<le> unat f \<and> unat f < 0x9f \<or> 0x100 \<le> unat f \<and> unat f < 0x400 \<or>
                     0x500 \<le> unat f \<and> unat f < 0x8000}"

lemma card_word_interval:
  assumes "m \<le> n" "n \<le> 2 ^ 64"
  shows "card {f :: u64. m \<le> unat f \<and> unat f < n} = n - m"
proof -
  have "inj_on (word_of_nat :: nat \<Rightarrow> u64) {m..<n}"
    by (rule inj_on_inverseI[of _ unat]) (use assms in \<open>simp add: unat_of_nat\<close>)
  then have "card (word_of_nat ` {m..<n} :: u64 set) = n - m" by (simp add: card_image)
  then show ?thesis using word_of_nat_image[OF assms(2), of m] by simp
qed

lemma card_boot_frames: "card boot_frames = 32414"
proof -
  define I where "I m n = {f :: u64. m \<le> unat f \<and> unat f < n}" for m n
  have disj: "I a b \<inter> I c d = {}" if "b \<le> c" for a b c d using that by (auto simp: I_def)
  have "boot_frames = I 1 0x9f \<union> (I 0x100 0x400 \<union> I 0x500 0x8000)" by (auto simp: boot_frames_def I_def)
  also have "card \<dots> = card (I 1 0x9f) + (card (I 0x100 0x400) + card (I 0x500 0x8000))"
    by (simp add: card_Un_disjoint disj Int_Un_distrib)
  also have "card (I 1 0x9f) = 0x9f - 1" unfolding I_def by (rule card_word_interval) simp_all
  also have "card (I 0x100 0x400) = 0x400 - 0x100" unfolding I_def by (rule card_word_interval) simp_all
  also have "card (I 0x500 0x8000) = 0x8000 - 0x500" unfolding I_def by (rule card_word_interval) simp_all
  finally show ?thesis by simp
qed

lemma page_bounds:
  "n * 4096 + 4096 \<le> 0x9f000 \<longleftrightarrow> n < 0x9f" "0x100000 \<le> n * 4096 \<longleftrightarrow> 0x100 \<le> n"
  "n * 4096 + 4096 \<le> 0x400000 \<longleftrightarrow> n < 0x400" "0x500000 \<le> n * 4096 \<longleftrightarrow> 0x500 \<le> n"
  "n * 4096 + 4096 \<le> 0x8000000 \<longleftrightarrow> n < 0x8000"
  "n * 4096 < 0xa0000 \<longleftrightarrow> n < 0xa0" "0x9f000 < n * 4096 + 4096 \<longleftrightarrow> 0x9f \<le> n"
  "n * 4096 < 0x500000 \<longleftrightarrow> n < 0x500" "0x400000 < n * 4096 + 4096 \<longleftrightarrow> 0x400 \<le> n" for n :: nat
  by linarith+

lemma early_map_usable:
  "usable_frame early_map f \<longleftrightarrow>
     unat f < 0x9f \<or> 0x100 \<le> unat f \<and> unat f < 0x400 \<or> 0x500 \<le> unat f \<and> unat f < 0x8000"
proof -
  have "usable_frame early_map f \<longleftrightarrow> unat f * 4096 + 4096 \<le> 0x9f000 \<or>
      0x100000 \<le> unat f * 4096 \<and> unat f * 4096 + 4096 \<le> 0x400000 \<or>
      0x500000 \<le> unat f * 4096 \<and> unat f * 4096 + 4096 \<le> 0x8000000"
    by (simp add: usable_frame_def early_map_def frame_inside_def BOOT_MEM_USABLE_def BOOT_MEM_RESERVED_def
          BOOT_MEM_KERNEL_AND_MODULES_def)
  then show ?thesis by (simp only: page_bounds)
qed

lemma early_map_reserved:
  "reserved_frame early_map f \<longleftrightarrow> unat f = 0x9f \<or> 0x400 \<le> unat f \<and> unat f < 0x500"
proof -
  have "reserved_frame early_map f \<longleftrightarrow>
      unat f * 4096 < 0xa0000 \<and> 0x9f000 < unat f * 4096 + 4096 \<or>
      unat f * 4096 < 0x500000 \<and> 0x400000 < unat f * 4096 + 4096"
    by (simp add: reserved_frame_def early_map_def frame_touched_def BOOT_MEM_USABLE_def BOOT_MEM_RESERVED_def
          BOOT_MEM_KERNEL_AND_MODULES_def)
  then show ?thesis unfolding page_bounds by auto
qed

lemma early_map_frames:
  "{f. unat f < 0x1000000 \<and> f \<noteq> 0 \<and> usable_frame early_map f \<and> \<not> reserved_frame early_map f} = boot_frames"
proof -
  have nz: "f \<noteq> 0 \<longleftrightarrow> 1 \<le> unat f" for f :: u64 by (simp add: Suc_le_eq unat_gt_0)
  have "n < 0x1000000 \<and> 1 \<le> n \<and> (n < 0x9f \<or> 0x100 \<le> n \<and> n < 0x400 \<or> 0x500 \<le> n \<and> n < 0x8000) \<and>
      \<not> (n = 0x9f \<or> 0x400 \<le> n \<and> n < 0x500) \<longleftrightarrow>
    1 \<le> n \<and> n < 0x9f \<or> 0x100 \<le> n \<and> n < 0x400 \<or> 0x500 \<le> n \<and> n < 0x8000" for n :: nat
    by auto
  then show ?thesis unfolding early_map_usable early_map_reserved boot_frames_def nz by (simp only:)
qed

lemma boot_frames_min: "Min boot_frames = 1" "boot_frames \<noteq> {}" "(1 :: u64) \<in> boot_frames"
proof -
  show one: "(1 :: u64) \<in> boot_frames" by (simp add: boot_frames_def)
  then show "boot_frames \<noteq> {}" by blast
  show "Min boot_frames = 1"
    by (rule Min_eqI) (use one in \<open>auto simp: boot_frames_def word_le_nat_alt\<close>)
qed

lemma kernel_memory_init_spec:
  assumes "length (kernel_pmm_bitmap k) = unat PMM_BITMAP_BYTES"
  obtains pmm where "kernel_memory_init k =
      ([line ''M6 PMM initialized'', Hex64 0x1000000, line '' frames managed'', Hex64 32414, line '' frames free'',
        Text ''[m6] sample frame = '', Hex64 0x1000, line [], line ''[m6] frame freed ok''], k\<lparr>kernel_pmm := pmm\<rparr>)"
    "pmm_inv pmm" "free_set pmm = boot_frames" "unat (max_phys pmm) = 0x1000000 * 4096"
proof -
  have bytes: "unat PMM_MAX_PHYS_BYTES = 0x1000000 * 4096" "unat PMM_BITMAP_BYTES = 0x200000"
    by (simp_all add: PMM_MAX_PHYS_BYTES_def PMM_BITMAP_BYTES_def PMM_PAGE_SIZE_def)
  have "\<exists>s'. pmm_init_from_map (Some (kernel_pmm k)) (Some early_map) (Some (kernel_pmm_bitmap k))
           PMM_BITMAP_BYTES PMM_MAX_PHYS_BYTES = (True, Some s') \<and>
         pmm_inv s' \<and> unat (frame_count s') = 0x1000000 \<and>
         free_set s' = {f. unat f < 0x1000000 \<and> f \<noteq> 0 \<and> usable_frame early_map f \<and> \<not> reserved_frame early_map f}"
    by (rule pmm_init_from_map_spec)
      (simp_all add: bytes assms, simp_all add: early_map_def region_plain_def)
  then obtain p0 where init: "pmm_init_from_map (Some (kernel_pmm k)) (Some early_map) (Some (kernel_pmm_bitmap k))
           PMM_BITMAP_BYTES PMM_MAX_PHYS_BYTES = (True, Some p0)"
    and p0: "pmm_inv p0" "unat (frame_count p0) = 0x1000000" "free_set p0 = boot_frames"
    unfolding early_map_frames by blast
  have lim: "unat (max_phys p0) = 0x1000000 * 4096"
    using p0(1,2) by (simp add: pmm_inv_def pmm_ok_defs)
  have cnt: "pmm_frame_count (Some p0) = 0x1000000" "pmm_free_count (Some p0) = 32414"
    using p0 pmm_inv_count[OF p0(1)] card_boot_frames
    by (simp_all add: pmm_frame_count_def pmm_inv_def word_unat_eq_iff)
  obtain p1 where alloc: "pmm_alloc_frame (Some p0) = (0x1000, Some p1)"
    and p1: "pmm_inv p1" "free_set p1 = boot_frames - {1}" "max_phys p1 = max_phys p0"
    using pmm_alloc_frame_spec[OF p0(1)] boot_frames_min by (auto simp: p0(3) PMM_PAGE_SIZE_def)
  have "0x1000 < max_phys p1" using lim p1(3) by (simp add: word_less_nat_alt)
  then obtain p2 where free: "pmm_free_frame (Some p1) 0x1000 = (True, Some p2)"
    and p2: "pmm_inv p2" "free_set p2 = boot_frames" "max_phys p2 = max_phys p0"
    using pmm_free_frame_spec[OF p1(1), of "0x1000"] p1 by (auto simp: insert_absorb[OF boot_frames_min(3)])
  have "kernel_memory_init k =
      ([line ''M6 PMM initialized'', Hex64 0x1000000, line '' frames managed'', Hex64 32414, line '' frames free'',
        Text ''[m6] sample frame = '', Hex64 0x1000, line [], line ''[m6] frame freed ok''], k\<lparr>kernel_pmm := p2\<rparr>)"
    using init cnt alloc free by (simp add: kernel_memory_init_def Let_def PMM_INVALID_FRAME_def)
  with p2 lim show ?thesis using that by simp
qed


text \<open>The invariant of the kernel's address space, written out.\<close>

definition kernel_space_ok :: "kernel_mm vmm_space \<Rightarrow> machine \<Rightarrow> bool" where
  "kernel_space_ok s m \<longleftrightarrow>
     alloc_frame s = Some kernel_vmm_alloc \<and> phys_to_virt s = Some kernel_phys_to_virt \<and> mm_ok (ctx s) \<and>
     tables_ok (kernel_phys_to_virt (ctx s)) (\<lambda>p. mm_usable (ctx s) p \<and> p \<notin> mm_avail (ctx s))
       (mem m) (root_paddr s)"

lemma kernel_space_ok_iff: "kernel_space_ok s m \<longleftrightarrow> kmm.vmm_inv s m"
  by (simp add: kernel_space_ok_def kmm.vmm_inv_def kmm.in_use_def[abs_def])

lemma card_mm_avail:
  assumes "mm_ok k"
  shows "card (mm_avail k) = unat (pmm_free_count (Some (kernel_pmm k)))"
proof -
  let ?pmm = "kernel_pmm k"
  have inv: "pmm_inv ?pmm" and geo: "geometry_ok ?pmm" using assms by (simp_all add: mm_ok_def pmm_inv_def pmm_ok_def)
  have f: "f * PMM_PAGE_SIZE \<in> mm_avail k \<and> f * PMM_PAGE_SIZE div 4096 = f" if "f \<in> free_set ?pmm" for f
  proof -
    have lt: "f < frame_count ?pmm" using that by (simp add: free_set_def)
    moreover have "f \<noteq> 0" using that inv by (auto simp: pmm_inv_def)
    ultimately have "f * PMM_PAGE_SIZE \<noteq> 0" using frame_of_addr[OF geo lt] by auto
    then show ?thesis
      using that frame_addr[OF geo lt] frame_of_addr[OF geo lt] by (simp add: mm_avail_def mm_usable_def)
  qed
  have "bij_betw (\<lambda>p. p div 4096) (mm_avail k) (free_set ?pmm)"
  proof (rule bij_betw_imageI)
    show "inj_on (\<lambda>p. p div 4096) (mm_avail k)"
      by (rule inj_onI) (auto intro: frame_addr_inj simp: mm_avail_def mm_usable_def)
    show "(\<lambda>p. p div 4096) ` mm_avail k = free_set ?pmm"
    proof (rule set_eqI)
      show "x \<in> (\<lambda>p. p div 4096) ` mm_avail k \<longleftrightarrow> x \<in> free_set ?pmm" for x
        using f[of x] by (auto simp: mm_avail_def intro: image_eqI[of _ _ "x * PMM_PAGE_SIZE"])
    qed
  qed
  then show ?thesis using pmm_inv_count[OF inv] by (simp add: bij_betw_same_card)
qed

lemma kernel_vmm_init_spec:
  assumes ok: "mm_ok k" and free: "free_set (kernel_pmm k) \<noteq> {}"
  obtains root k' sp' where "root = Min (free_set (kernel_pmm k)) * PMM_PAGE_SIZE"
    "kernel_vmm_init k sp = ([line ''M7 VMM core initialized''], k', sp')"
    "sp' = sp\<lparr>root_paddr := root, ctx := k', alloc_frame := Some kernel_vmm_alloc,
              free_frame := Some kernel_vmm_free, phys_to_virt := Some kernel_phys_to_virt\<rparr>"
    "mm_ok k'" "kmm.in_use k' root" "hhdm_offset k' = hhdm_offset k"
    "free_set (kernel_pmm k') = free_set (kernel_pmm k) - {Min (free_set (kernel_pmm k))}"
proof -
  let ?root = "Min (free_set (kernel_pmm k)) * PMM_PAGE_SIZE"
  have inv: "pmm_inv (kernel_pmm k)" using ok by (simp add: mm_ok_def)
  obtain pmm where a: "pmm_alloc_frame (Some (kernel_pmm k)) = (?root, Some pmm)"
      "free_set pmm = free_set (kernel_pmm k) - {Min (free_set (kernel_pmm k))}"
    using pmm_alloc_frame_spec[OF inv free] by blast
  let ?k = "k\<lparr>kernel_pmm := pmm\<rparr>"
  have call: "kernel_vmm_alloc k = (?root, ?k)" using a by (simp add: kernel_vmm_alloc_def)
  have ne: "mm_avail k \<noteq> {}" by (rule mm_avail_nonempty[OF ok free])
  have av: "?root \<in> mm_avail k" "mm_avail ?k = mm_avail k - {?root}"
    using kmm.alloc_some[OF ok ne call] by auto
  have k: "mm_ok ?k" "mm_usable ?k = mm_usable k" using kmm.alloc_ok[OF ok call] by auto
  have use: "kmm.in_use ?k ?root"
    using av k kmm.avail_usable[OF ok av(1)] by (simp add: kmm.in_use_def)
  then have al: "vmm_is_aligned_4k ?root" using kmm.usable_aligned[OF k(1)] by (simp add: kmm.in_use_def)
  have "?root \<noteq> PMM_INVALID_FRAME"
    using kmm.usable_addr[OF k(1), of ?root] use
    by (auto simp: kmm.in_use_def PMM_INVALID_FRAME_def VMM_PTE_ADDR_MASK_def)
  then show ?thesis
    by (intro that[of ?root ?k, OF refl _ refl])
      (use a al k use in \<open>simp_all add: kernel_vmm_init_def vmm_space_init_def Let_def\<close>)
qed

lemma kernel_boot:
  assumes "length (kernel_pmm_bitmap k) = unat PMM_BITMAP_BYTES" "unat (hhdm_offset k) + 2 ^ 52 \<le> 2 ^ 64"
  obtains log k1 k2 sp where "kernel_memory_init k = (log, k1)" "last log = line ''[m6] frame freed ok''"
    "kernel_vmm_init k1 sp0 = ([line ''M7 VMM core initialized''], k2, sp)"
    "alloc_frame sp = Some kernel_vmm_alloc" "phys_to_virt sp = Some kernel_phys_to_virt" "ctx sp = k2"
    "root_paddr sp = 0x1000" "mm_ok k2" "kmm.in_use k2 0x1000" "hhdm_offset k2 = hhdm_offset k"
    "free_set (kernel_pmm k2) = boot_frames - {1}"
proof -
  obtain log pmm where mi: "kernel_memory_init k = (log, k\<lparr>kernel_pmm := pmm\<rparr>)" "last log = line ''[m6] frame freed ok''"
      "pmm_inv pmm" "free_set pmm = boot_frames" "unat (max_phys pmm) = 0x1000000 * 4096"
    by (rule kernel_memory_init_spec[OF assms(1)]) (auto intro: that)
  let ?k = "k\<lparr>kernel_pmm := pmm\<rparr>"
  have ok: "mm_ok ?k" using mi assms by (simp add: mm_ok_def)
  have free: "free_set (kernel_pmm ?k) \<noteq> {}" using mi boot_frames_min by simp
  from kernel_vmm_init_spec[OF ok free, of sp0] obtain root k' sp' where
    v: "root = Min (free_set (kernel_pmm ?k)) * PMM_PAGE_SIZE"
      "kernel_vmm_init ?k sp0 = ([line ''M7 VMM core initialized''], k', sp')"
      "sp' = sp0\<lparr>root_paddr := root, ctx := k', alloc_frame := Some kernel_vmm_alloc,
              free_frame := Some kernel_vmm_free, phys_to_virt := Some kernel_phys_to_virt\<rparr>"
      "mm_ok k'" "kmm.in_use k' root" "hhdm_offset k' = hhdm_offset ?k"
      "free_set (kernel_pmm k') = free_set (kernel_pmm ?k) - {Min (free_set (kernel_pmm ?k))}" .
  have root: "root = 0x1000" using v(1) mi(4) boot_frames_min by (simp add: PMM_PAGE_SIZE_def)
  show ?thesis
    by (rule that[OF mi(1,2) v(2)]) (use v root mi(4) boot_frames_min in simp_all)
qed

lemma kernel_boot_space:
  assumes "length (kernel_pmm_bitmap k) = unat PMM_BITMAP_BYTES" "unat (hhdm_offset k) + 2 ^ 52 \<le> 2 ^ 64"
    and zero: "\<And>i. i < 512 \<Longrightarrow> mem m (slot (hhdm_offset k + 0x1000) i) = 0"
  obtains log k1 k2 sp where "kernel_memory_init k = (log, k1)" "last log = line ''[m6] frame freed ok''"
    "kernel_vmm_init k1 sp0 = ([line ''M7 VMM core initialized''], k2, sp)"
    "kernel_space_ok sp m" "page_map sp m = Map.empty" "ctx sp = k2" "root_paddr sp = 0x1000"
    "free_set (kernel_pmm k2) = boot_frames - {1}"
proof (rule kernel_boot[OF assms(1,2), of sp0])
  fix log k1 k2 sp
  assume b: "kernel_memory_init k = (log, k1)" "last log = line ''[m6] frame freed ok''"
    "kernel_vmm_init k1 sp0 = ([line ''M7 VMM core initialized''], k2, sp)"
    "alloc_frame sp = Some kernel_vmm_alloc" "phys_to_virt sp = Some kernel_phys_to_virt" "ctx sp = k2"
    "root_paddr sp = 0x1000" "mm_ok k2" "kmm.in_use k2 0x1000" "hhdm_offset k2 = hhdm_offset k"
    "free_set (kernel_pmm k2) = boot_frames - {1}"
  have z: "mem m (slot (kernel_phys_to_virt k2 0x1000) i) = 0" if "i < 512" for i
    using zero[OF that] b by (simp add: kernel_phys_to_virt_def)
  have same: "sp\<lparr>root_paddr := 0x1000, ctx := k2, alloc_frame := Some kernel_vmm_alloc,
      free_frame := free_frame sp, phys_to_virt := Some kernel_phys_to_virt\<rparr> = sp"
    using b by (cases sp) simp
  obtain s' where "vmm_space_init (Some sp) 0x1000 k2 (Some kernel_vmm_alloc) (free_frame sp) (Some kernel_phys_to_virt)
        = (VMM_MAP_OK, Some s')" "kmm.vmm_inv s' m" "page_map s' m = Map.empty"
    by (rule kmm.vmm_space_init_spec[OF b(8,9) z])
  moreover from this(1) have "s' = sp\<lparr>root_paddr := 0x1000, ctx := k2, alloc_frame := Some kernel_vmm_alloc,
      free_frame := free_frame sp, phys_to_virt := Some kernel_phys_to_virt\<rparr>"
    by (simp add: vmm_space_init_def split: if_splits)
  then have "s' = sp" unfolding same .
  ultimately show thesis by (intro that[OF b(1-3)]) (use b in \<open>simp_all add: kernel_space_ok_iff\<close>)
qed

lemma bit_push_one: "bit (push_bit k 1 :: u64) n \<longleftrightarrow> n = k \<and> k < 64"
  by (auto simp: bit_simps)

lemma new_pte_parts:
  assumes "pa AND VMM_PTE_ADDR_MASK = pa"
  defines "allowed \<equiv> VMM_PTE_WRITABLE OR VMM_PTE_USER OR VMM_PTE_WRITE_THROUGH OR
                     VMM_PTE_CACHE_DISABLE OR VMM_PTE_GLOBAL OR VMM_PTE_NO_EXECUTE"
  shows "new_pte pa flags AND VMM_PTE_ADDR_MASK = pa"
    and "new_pte pa flags AND NOT VMM_PTE_ADDR_MASK = VMM_PTE_PRESENT OR (flags AND allowed)"
proof -
  have pa: "bit pa n \<Longrightarrow> 12 \<le> n \<and> n < 52" for n using assms(1) bit_addr_mask bit_and_iff by metis
  have al: "12 \<le> n \<Longrightarrow> n < 52 \<Longrightarrow> \<not> bit allowed n" for n
    unfolding allowed_def vmm_pte_bits bit_or_iff bit_push_one by auto
  show "new_pte pa flags AND VMM_PTE_ADDR_MASK = pa"
    unfolding bit_eq_iff new_pte_def assms(1) allowed_def[symmetric]
    using pa al by (auto simp: bit_or_iff bit_and_iff bit_addr_mask bit_table_flags)
  show "new_pte pa flags AND NOT VMM_PTE_ADDR_MASK = VMM_PTE_PRESENT OR (flags AND allowed)"
    unfolding bit_eq_iff new_pte_def assms(1) allowed_def[symmetric]
    using pa al by (auto simp: bit_or_iff bit_and_iff bit_not_iff bit_addr_mask bit_table_flags)
qed

section \<open>Properties of the kernel's address space\<close>

definition boot_mm :: kernel_mm where
  "boot_mm = \<lparr>kernel_pmm = boot_state, kernel_pmm_bitmap = replicate (unat PMM_BITMAP_BYTES) 0, hhdm_offset = 0\<rparr>"

definition clean_machine :: machine where
  "clean_machine = \<lparr>mem = (\<lambda>_. 0), invalidated = []\<rparr>"

definition no_space :: "kernel_mm vmm_space" where
  "no_space = \<lparr>root_paddr = 0, ctx = boot_mm, alloc_frame = None, free_frame = None, phys_to_virt = None\<rparr>"

lemma boot_mm_args: "length (kernel_pmm_bitmap boot_mm) = unat PMM_BITMAP_BYTES"
  "unat (hhdm_offset boot_mm) + 2 ^ 52 \<le> 2 ^ 64" "mem clean_machine a = 0"
  by (simp_all add: boot_mm_def clean_machine_def)

text \<open>
  C7. \<open>vmm_map_page\<close> refines the update of a finite map. On a canonical, aligned virtual and an
  aligned physical address it keeps the invariant of the tables and either adds exactly that page
  with the masked address and flags, or reports that the page is mapped, or runs out of frames with
  fewer than three free frames; in the last two cases no mapping changes. Bad addresses are refused
  with no effect.
\<close>

theorem vmm_map_page_refines:
  assumes "kernel_space_ok s m"
  shows "\<exists>rc s' m'. vmm_map_page (Some s) m va pa flags = (rc, Some s', m') \<and> kernel_space_ok s' m' \<and>
           (if vmm_is_canonical va \<and> vmm_is_aligned_4k va \<and> vmm_is_aligned_4k pa
            then rc = VMM_MAP_OK \<and> page_map s m va = None \<and> page_map s' m' = (page_map s m)(va \<mapsto> new_pte pa flags) \<or>
                 rc = VMM_ERR_EXISTS \<and> page_map s m va \<noteq> None \<and> page_map s' m' = page_map s m \<or>
                 rc = VMM_ERR_NOMEM \<and> page_map s m va = None \<and> page_map s' m' = page_map s m \<and>
                   pmm_free_count (Some (kernel_pmm (ctx s))) < 3
            else rc = VMM_ERR_INVAL \<and> s' = s \<and> m' = m)"
proof (cases "vmm_is_canonical va \<and> vmm_is_aligned_4k va \<and> vmm_is_aligned_4k pa")
  case True
  have inv: "kmm.vmm_inv s m" using assms by (simp add: kernel_space_ok_iff)
  have card: "card (mm_avail (ctx s)) < 3 \<longleftrightarrow> pmm_free_count (Some (kernel_pmm (ctx s))) < 3"
    using card_mm_avail[of "ctx s"] assms by (simp add: kernel_space_ok_def word_less_nat_alt)
  show ?thesis using kmm.vmm_map_page_spec[OF inv, of va pa flags] True by (auto simp: kernel_space_ok_iff card)
next
  case False
  with assms show ?thesis by (auto simp: vmm_map_page_def)
qed

text \<open>
  C8. \<open>vmm_unmap_page\<close> on a canonical, aligned address removes exactly that page, invalidates its
  translation and keeps the tables well formed; on an unmapped page it reports so and changes nothing.
\<close>

theorem vmm_unmap_page_refines:
  assumes "kernel_space_ok s m" "vmm_is_canonical va" "vmm_is_aligned_4k va"
  shows "if page_map s m va = None then vmm_unmap_page (Some s) m va = (VMM_ERR_NOT_FOUND, m)
         else \<exists>m'. vmm_unmap_page (Some s) m va = (VMM_MAP_OK, m') \<and> kernel_space_ok s m' \<and>
                page_map s m' = (page_map s m)(va := None) \<and> invalidated m' = invalidated m @ [va]"
  using kmm.vmm_unmap_page_spec[of s m va] assms by (simp add: kernel_space_ok_iff)

text \<open>
  C9. Round trip: when \<open>vmm_map_page\<close> succeeds for a physical address below \<open>2 ^ 52\<close>, \<open>vmm_query_page\<close>
  returns that address with the present bit and the requested flags restricted to the allowed ones,
  and the answer for every other page is what it was before.
\<close>

theorem vmm_map_query_round_trip:
  assumes "kernel_space_ok s m" "pa AND VMM_PTE_ADDR_MASK = pa"
    and "vmm_map_page (Some s) m va pa flags = (VMM_MAP_OK, Some s', m')"
  shows "vmm_query_page (Some s') m' va (Some out) =
           (VMM_MAP_OK, Some (out\<lparr>map_vaddr := va, map_paddr := pa,
              map_flags := VMM_PTE_PRESENT OR (flags AND (VMM_PTE_WRITABLE OR VMM_PTE_USER OR VMM_PTE_WRITE_THROUGH OR
                VMM_PTE_CACHE_DISABLE OR VMM_PTE_GLOBAL OR VMM_PTE_NO_EXECUTE))\<rparr>)) \<and>
         (\<forall>vb. vb \<noteq> va \<longrightarrow> vmm_query_page (Some s') m' vb (Some out) = vmm_query_page (Some s) m vb (Some out))"
proof -
  have inv: "kmm.vmm_inv s m" using assms by (simp add: kernel_space_ok_iff)
  have va: "vmm_is_canonical va" "vmm_is_aligned_4k va" "vmm_is_aligned_4k pa"
    using assms(3) by (auto simp: vmm_map_page_def split: if_splits)
  from kmm.vmm_map_page_spec[OF inv va, of flags] assms(3)
  have res: "kmm.vmm_inv s' m'" "page_map s' m' = (page_map s m)(va \<mapsto> new_pte pa flags)" by auto
  have "vmm_query_page (Some s') m' vb (Some out) = vmm_query_page (Some s) m vb (Some out)" if "vb \<noteq> va" for vb
  proof (cases "vmm_is_canonical vb \<and> vmm_is_aligned_4k vb")
    case True
    then show ?thesis
      using res that kmm.vmm_query_page_spec[OF inv, of vb] kmm.vmm_query_page_spec[OF res(1), of vb] by simp
  qed (auto simp: vmm_query_page_def)
  moreover have "vmm_query_page (Some s') m' va (Some out) =
      (VMM_MAP_OK, Some (out\<lparr>map_vaddr := va, map_paddr := new_pte pa flags AND VMM_PTE_ADDR_MASK,
         map_flags := new_pte pa flags AND NOT VMM_PTE_ADDR_MASK\<rparr>))"
    using res(2) kmm.vmm_query_page_spec[OF res(1) va(1,2), of out] by simp
  ultimately show ?thesis using new_pte_parts[OF assms(2), of flags] by simp
qed

text \<open>
  C10. The boot of the memory subsystem: from any state of the globals, \<open>kernel_memory_init\<close> manages
  16777216 frames of which 32414 are free, hands out and takes back frame 1, and \<open>kernel_vmm_init\<close> then
  takes frame 1 as the root; when that frame holds zeros, the kernel's space is well formed and maps
  nothing.
\<close>

theorem kernel_boot_empty_space:
  assumes "length (kernel_pmm_bitmap k) = unat PMM_BITMAP_BYTES" "unat (hhdm_offset k) + 2 ^ 52 \<le> 2 ^ 64"
    and "\<And>i. i < 512 \<Longrightarrow> mem m (slot (hhdm_offset k + 0x1000) i) = 0"
  shows "\<exists>k1 k2 sp. kernel_memory_init k =
      ([line ''M6 PMM initialized'', Hex64 0x1000000, line '' frames managed'', Hex64 32414, line '' frames free'',
        Text ''[m6] sample frame = '', Hex64 0x1000, line [], line ''[m6] frame freed ok''], k1) \<and>
      kernel_vmm_init k1 sp0 = ([line ''M7 VMM core initialized''], k2, sp) \<and>
      kernel_space_ok sp m \<and> page_map sp m = Map.empty \<and> ctx sp = k2 \<and> root_paddr sp = 0x1000"
proof -
  obtain k1 where k1: "kernel_memory_init k =
      ([line ''M6 PMM initialized'', Hex64 0x1000000, line '' frames managed'', Hex64 32414, line '' frames free'',
        Text ''[m6] sample frame = '', Hex64 0x1000, line [], line ''[m6] frame freed ok''], k1)"
    using kernel_memory_init_spec[OF assms(1)] by metis
  show ?thesis by (rule kernel_boot_space[OF assms, of sp0]) (use k1 in auto)
qed


lemma boot_space:
  obtains sp where "kernel_space_ok sp clean_machine" "page_map sp clean_machine = Map.empty"
    "pmm_free_count (Some (kernel_pmm (ctx sp))) = 32413"
proof (rule kernel_boot_space[OF boot_mm_args, of no_space])
  fix log k1 k2 sp
  assume b: "kernel_space_ok sp clean_machine" "page_map sp clean_machine = Map.empty" "ctx sp = k2"
    "free_set (kernel_pmm k2) = boot_frames - {1}"
  have "unat (pmm_free_count (Some (kernel_pmm (ctx sp)))) = card (boot_frames - {1})"
    using b pmm_inv_count[of "kernel_pmm k2"] by (simp add: kernel_space_ok_def mm_ok_def)
  also have "\<dots> = 32413" using card_boot_frames boot_frames_min(3) by (simp add: card_Diff_singleton)
  finally show thesis using b that by (simp add: word_unat_eq_iff)
qed

lemma sample_page: "vmm_is_canonical 0x400000" "vmm_is_aligned_4k 0x400000" "vmm_is_aligned_4k 0x5000"
  "(0x5000 :: u64) AND VMM_PTE_ADDR_MASK = 0x5000"
  by (simp_all add: vmm_is_canonical_def vmm_is_aligned_4k_def VMM_PAGE_SIZE_def VMM_PTE_ADDR_MASK_def)

lemma boot_space_mapped:
  obtains sp s' m' where "kernel_space_ok sp clean_machine" "page_map sp clean_machine = Map.empty"
    "vmm_map_page (Some sp) clean_machine 0x400000 0x5000 7 = (VMM_MAP_OK, Some s', m')"
    "kernel_space_ok s' m'" "page_map s' m' = [0x400000 \<mapsto> new_pte 0x5000 7]"
proof (rule boot_space)
  fix sp
  assume b: "kernel_space_ok sp clean_machine" "page_map sp clean_machine = Map.empty"
    "pmm_free_count (Some (kernel_pmm (ctx sp))) = 32413"
  have "kmm.vmm_inv sp clean_machine" using b by (simp add: kernel_space_ok_iff)
  from kmm.vmm_map_page_spec[OF this sample_page(1-3), of 7]
  obtain s' m' where "vmm_map_page (Some sp) clean_machine 0x400000 0x5000 7 = (VMM_MAP_OK, Some s', m')"
      "kmm.vmm_inv s' m'" "page_map s' m' = [0x400000 \<mapsto> new_pte 0x5000 7]"
    using b card_mm_avail[of "ctx sp"] by (auto simp: kernel_space_ok_def)
  with b show thesis using that by (simp add: kernel_space_ok_iff)
qed

theorem vmm_map_page_refines_witness:
  "\<exists>s s' m'. kernel_space_ok s clean_machine \<and>
     vmm_map_page (Some s) clean_machine 0x400000 0x5000 7 = (VMM_MAP_OK, Some s', m') \<and>
     kernel_space_ok s' m' \<and> page_map s' m' = [0x400000 \<mapsto> new_pte 0x5000 7]"
proof (rule boot_space)
  fix sp
  assume b: "kernel_space_ok sp clean_machine" "page_map sp clean_machine = Map.empty"
    "pmm_free_count (Some (kernel_pmm (ctx sp))) = 32413"
  from vmm_map_page_refines[OF b(1), of "0x400000" "0x5000" 7] b show ?thesis by (auto simp: sample_page)
qed

theorem vmm_unmap_page_refines_witness:
  "\<exists>s m m'. kernel_space_ok s m \<and> page_map s m \<noteq> Map.empty \<and>
     vmm_unmap_page (Some s) m 0x400000 = (VMM_MAP_OK, m') \<and> kernel_space_ok s m' \<and> page_map s m' = Map.empty"
proof (rule boot_space_mapped)
  fix sp s' m'
  assume b: "kernel_space_ok s' m'" "page_map s' m' = [0x400000 \<mapsto> new_pte 0x5000 7]"
  from vmm_unmap_page_refines[OF b(1) sample_page(1,2)] b(2)
  obtain m'' where "vmm_unmap_page (Some s') m' 0x400000 = (VMM_MAP_OK, m'')" "kernel_space_ok s' m''"
    "page_map s' m'' = Map.empty" by auto
  with b show ?thesis by (intro exI[of _ s'] exI[of _ m'] exI[of _ m'']) simp
qed

theorem vmm_map_query_round_trip_witness:
  "\<exists>(s :: kernel_mm vmm_space) s' m'.
     vmm_map_page (Some s) clean_machine 0x400000 0x5000 7 = (VMM_MAP_OK, Some s', m') \<and>
     vmm_query_page (Some s') m' 0x400000 (Some \<lparr>map_vaddr = 0, map_paddr = 0, map_flags = 0\<rparr>) =
       (VMM_MAP_OK, Some \<lparr>map_vaddr = 0x400000, map_paddr = 0x5000, map_flags = 7\<rparr>)"
proof (rule boot_space_mapped)
  fix sp s' m'
  assume b: "kernel_space_ok sp clean_machine"
    "vmm_map_page (Some sp) clean_machine 0x400000 0x5000 7 = (VMM_MAP_OK, Some s', m')"
  from vmm_map_query_round_trip[OF b(1) sample_page(4) b(2), of "\<lparr>map_vaddr = 0, map_paddr = 0, map_flags = 0\<rparr>"]
  have "vmm_query_page (Some s') m' 0x400000 (Some \<lparr>map_vaddr = 0, map_paddr = 0, map_flags = 0\<rparr>) =
       (VMM_MAP_OK, Some \<lparr>map_vaddr = 0x400000, map_paddr = 0x5000, map_flags = 7\<rparr>)"
    by (simp add: vmm_pte_bits)
  with b(2) show ?thesis by blast
qed

theorem kernel_boot_empty_space_witness:
  "\<exists>k1 k2 sp. kernel_memory_init boot_mm =
      ([line ''M6 PMM initialized'', Hex64 0x1000000, line '' frames managed'', Hex64 32414, line '' frames free'',
        Text ''[m6] sample frame = '', Hex64 0x1000, line [], line ''[m6] frame freed ok''], k1) \<and>
      kernel_vmm_init k1 no_space = ([line ''M7 VMM core initialized''], k2, sp) \<and>
      kernel_space_ok sp clean_machine \<and> page_map sp clean_machine = Map.empty"
  using kernel_boot_empty_space[OF boot_mm_args, of no_space] by blast


end
