(* ===== verification/Kmem.thy ===== *)
theory Kmem
  imports Prelude
begin

text \<open>
  The kernel heap of \<^verbatim>\<open>kernel/mm/kmem.c\<close> and \<^verbatim>\<open>include/mcsos/kmem.h\<close>: a first-fit allocator over a
  doubly linked list of headers that tile the heap.

  Memory is a function from the address of an aligned 64-bit word to its value. A header occupies
  48 bytes: \<open>magic\<close>, \<open>size\<close>, \<open>free\<close> (the low half of the third word), two reserved fields, \<open>prev\<close> and
  \<open>next\<close>; headers are 16-byte aligned, so each field is read and written inside one word. Bytes of a
  payload are read and written inside their word. Address 0 is the null pointer. A loop over the
  list may run forever on a corrupt heap; its value is then \<open>None\<close>.

  The lemmas relate this memory to a list of blocks (start, size, free) and show that allocation is
  first fit with a split, that release merges all free neighbours, that the tiling invariant that
  \<open>kmem_validate\<close> checks is kept, and that the contents of live blocks are never touched.
\<close>

section \<open>Model\<close>

type_synonym memory = "u64 \<Rightarrow> u64"

definition KMEM_ALIGN :: u64 where
  "KMEM_ALIGN = 16"

definition KMEM_MAGIC :: u64 where
  "KMEM_MAGIC = 0x4d43534f53484541"

definition KMEM_MIN_SPLIT :: u64 where
  "KMEM_MIN_SPLIT = 32"

definition SIZEOF_BLOCK :: u64 where
  "SIZEOF_BLOCK = 48"

definition blk_magic :: "memory \<Rightarrow> u64 \<Rightarrow> u64" where
  "blk_magic m b = m b"

definition blk_size :: "memory \<Rightarrow> u64 \<Rightarrow> u64" where
  "blk_size m b = m (b + 8)"

definition blk_free :: "memory \<Rightarrow> u64 \<Rightarrow> u32" where
  "blk_free m b = ucast (m (b + 16))"

definition blk_prev :: "memory \<Rightarrow> u64 \<Rightarrow> u64" where
  "blk_prev m b = m (b + 32)"

definition blk_next :: "memory \<Rightarrow> u64 \<Rightarrow> u64" where
  "blk_next m b = m (b + 40)"

definition set_magic :: "u64 \<Rightarrow> u64 \<Rightarrow> memory \<Rightarrow> memory" where
  "set_magic b v m = m(b := v)"

definition set_size :: "u64 \<Rightarrow> u64 \<Rightarrow> memory \<Rightarrow> memory" where
  "set_size b v m = m(b + 8 := v)"

definition set_free :: "u64 \<Rightarrow> u32 \<Rightarrow> memory \<Rightarrow> memory" where
  "set_free b v m = m(b + 16 := (m (b + 16) AND NOT (mask 32)) OR ucast v)"

definition set_prev :: "u64 \<Rightarrow> u64 \<Rightarrow> memory \<Rightarrow> memory" where
  "set_prev b v m = m(b + 32 := v)"

definition set_next :: "u64 \<Rightarrow> u64 \<Rightarrow> memory \<Rightarrow> memory" where
  "set_next b v m = m(b + 40 := v)"

definition store8 :: "u64 \<Rightarrow> u8 \<Rightarrow> memory \<Rightarrow> memory" where
  "store8 p v m =
     (let c = p AND NOT 7; sh = 8 * unat (p AND 7)
      in m(c := (m c AND NOT (push_bit sh 0xFF)) OR push_bit sh (ucast v)))"

definition load8 :: "memory \<Rightarrow> u64 \<Rightarrow> u8" where
  "load8 m p = ucast (drop_bit (8 * unat (p AND 7)) (m (p AND NOT 7)))"

record kmem =
  heap :: memory
  g_heap_base :: u64
  g_heap_end :: u64
  g_head :: u64
  g_initialized :: bool

definition kmem_align_up_size :: "u64 \<Rightarrow> u64 \<Rightarrow> u64" where
  "kmem_align_up_size val align =
     (if align = 0 then val
      else (let mask = align - 1
            in if align AND mask \<noteq> 0 then 0
               else if val > 0xffffffffffffffff - mask then 0
               else (val + mask) AND NOT mask))"

definition kmem_align_up_ptr :: "u64 \<Rightarrow> u64 \<Rightarrow> u64" where
  "kmem_align_up_ptr val align =
     (let mask = align - 1
      in if align AND mask \<noteq> 0 then 0
         else if val > 0xffffffffffffffff - mask then 0
         else (val + mask) AND NOT mask)"

definition kmem_memset :: "u64 \<Rightarrow> u8 \<Rightarrow> u64 \<Rightarrow> memory \<Rightarrow> memory" where
  "kmem_memset dst v bytes = fold (\<lambda>i. store8 (dst + word_of_nat i) v) [0..<unat bytes]"

definition kmem_payload :: "u64 \<Rightarrow> u64" where
  "kmem_payload block = block + SIZEOF_BLOCK"

definition kmem_header_from_payload :: "u64 \<Rightarrow> u64" where
  "kmem_header_from_payload ptr = ptr - SIZEOF_BLOCK"

definition kmem_ptr_in_heap :: "kmem \<Rightarrow> u64 \<Rightarrow> bool" where
  "kmem_ptr_in_heap k p \<longleftrightarrow> g_initialized k \<and> p \<ge> g_heap_base k \<and> p < g_heap_end k"

definition kmem_split_if_useful :: "kmem \<Rightarrow> u64 \<Rightarrow> u64 \<Rightarrow> kmem" where
  "kmem_split_if_useful k block wanted =
     (let m = heap k; header = kmem_align_up_size SIZEOF_BLOCK KMEM_ALIGN
      in if header = 0 then k
         else if blk_size m block < wanted + header + KMEM_MIN_SPLIT then k
         else
           (let new_addr = kmem_align_up_ptr (kmem_payload block + wanted) KMEM_ALIGN
            in if new_addr = 0 then k
               else if new_addr + SIZEOF_BLOCK \<ge> g_heap_end k then k
               else
                 (let consumed = new_addr - kmem_payload block
                  in if blk_size m block \<le> consumed + SIZEOF_BLOCK + KMEM_MIN_SPLIT then k
                     else
                       (let m = set_magic new_addr KMEM_MAGIC m;
                            m = set_size new_addr (blk_size m block - consumed - SIZEOF_BLOCK) m;
                            m = set_free new_addr 1 m;
                            m = set_prev new_addr block m;
                            m = set_next new_addr (blk_next m block) m;
                            m = (if blk_next m block \<noteq> 0 then set_prev (blk_next m block) new_addr m else m);
                            m = set_next block new_addr m;
                            m = set_size block wanted m
                        in k\<lparr>heap := m\<rparr>))))"

partial_function (option) kmem_coalesce_forward :: "u64 \<Rightarrow> memory \<Rightarrow> memory option" where
  "kmem_coalesce_forward block m =
     (if block \<noteq> 0 \<and> blk_next m block \<noteq> 0 \<and> blk_free m (blk_next m block) \<noteq> 0 then
        (let nxt = blk_next m block;
             expected = kmem_align_up_ptr (kmem_payload block + blk_size m block) KMEM_ALIGN
         in if expected \<noteq> nxt then Some m
            else
              (let m = set_size block (blk_size m block + (SIZEOF_BLOCK + blk_size m nxt)) m;
                   m = set_next block (blk_next m nxt) m;
                   m = (if blk_next m nxt \<noteq> 0 then set_prev (blk_next m nxt) block m else m);
                   m = set_magic nxt 0 m;
                   m = set_size nxt 0 m;
                   m = set_prev nxt 0 m;
                   m = set_next nxt 0 m
               in kmem_coalesce_forward block m))
      else Some m)"

text \<open>\<open>validate_from\<close> is the loop of \<open>kmem_validate\<close>; its guard counts the blocks visited.\<close>

function validate_from :: "kmem \<Rightarrow> nat \<Rightarrow> u64 \<Rightarrow> u64 \<Rightarrow> u64 \<Rightarrow> int" where
  "validate_from k guard prev cursor cur =
     (if cur = 0 then 0
      else if Suc guard > 1048576 then -3
      else if cur \<noteq> cursor then -4
      else if cur < g_heap_base k \<or> cur + SIZEOF_BLOCK > g_heap_end k then -5
      else if blk_magic (heap k) cur \<noteq> KMEM_MAGIC then -6
      else if blk_prev (heap k) cur \<noteq> prev then -7
      else if blk_size (heap k) cur > g_heap_end k - kmem_payload cur then -8
      else
        (let cursor = kmem_align_up_ptr (kmem_payload cur + blk_size (heap k) cur) KMEM_ALIGN
         in if cursor = 0 \<or> cursor > g_heap_end k then -9
            else validate_from k (Suc guard) cur cursor (blk_next (heap k) cur)))"
  by pat_completeness auto
termination by (relation "measure (\<lambda>(k, guard, _). 1048576 - guard)") auto

declare validate_from.simps [simp del]

definition kmem_validate :: "kmem \<Rightarrow> int" where
  "kmem_validate k =
     (if \<not> g_initialized k \<or> g_heap_base k = 0 \<or> g_heap_end k \<le> g_heap_base k \<or> g_head k = 0 then -1
      else if g_head k \<noteq> g_heap_base k then -2
      else validate_from k 0 0 (g_heap_base k) (g_head k))"

definition kmem_init :: "kmem \<Rightarrow> u64 \<Rightarrow> u64 \<Rightarrow> int \<times> kmem" where
  "kmem_init k base bytes =
     (if base = 0 \<or> bytes < SIZEOF_BLOCK + KMEM_MIN_SPLIT then (-1, k)
      else
        (let start = kmem_align_up_ptr base KMEM_ALIGN
         in if start = 0 \<or> start < base then (-2, k)
            else
              (let lost = start - base
               in if bytes \<le> lost + SIZEOF_BLOCK + KMEM_MIN_SPLIT then (-3, k)
                  else
                    (let usable = (bytes - lost) AND NOT (KMEM_ALIGN - 1)
                     in if usable \<le> SIZEOF_BLOCK + KMEM_MIN_SPLIT then (-4, k)
                        else
                          (let m = set_magic start KMEM_MAGIC (heap k);
                               m = set_size start (usable - SIZEOF_BLOCK) m;
                               m = set_free start 1 m;
                               m = set_prev start 0 m;
                               m = set_next start 0 m;
                               k = k\<lparr>heap := m, g_heap_base := start, g_heap_end := start + usable,
                                     g_head := start, g_initialized := True\<rparr>
                           in (kmem_validate k, k))))))"

text \<open>\<open>alloc_from\<close> is the first-fit loop of \<open>kmem_alloc\<close>.\<close>

partial_function (option) alloc_from :: "u64 \<Rightarrow> kmem \<Rightarrow> u64 \<Rightarrow> (u64 \<times> kmem) option" where
  "alloc_from wanted k cur =
     (if cur = 0 then Some (0, k)
      else if blk_magic (heap k) cur \<noteq> KMEM_MAGIC then Some (0, k)
      else if blk_free (heap k) cur \<noteq> 0 \<and> blk_size (heap k) cur \<ge> wanted then
        (let k = kmem_split_if_useful k cur wanted;
             k = k\<lparr>heap := set_free cur 0 (heap k)\<rparr>
         in Some (kmem_payload cur, k))
      else alloc_from wanted k (blk_next (heap k) cur))"

definition kmem_alloc :: "kmem \<Rightarrow> u64 \<Rightarrow> (u64 \<times> kmem) option" where
  "kmem_alloc k bytes =
     (if \<not> g_initialized k \<or> bytes = 0 then Some (0, k)
      else
        (let wanted = kmem_align_up_size bytes KMEM_ALIGN
         in if wanted = 0 then Some (0, k) else alloc_from wanted k (g_head k)))"

definition kmem_calloc :: "kmem \<Rightarrow> u64 \<Rightarrow> u64 \<Rightarrow> (u64 \<times> kmem) option" where
  "kmem_calloc k count bytes =
     (if count \<noteq> 0 \<and> bytes > 0xffffffffffffffff div count then Some (0, k)
      else
        (let total = count * bytes
         in case kmem_alloc k total of
              None \<Rightarrow> None
            | Some (ptr, k) \<Rightarrow>
                Some (ptr, if ptr \<noteq> 0 then k\<lparr>heap := kmem_memset ptr 0 total (heap k)\<rparr> else k)))"

definition kmem_free_checked :: "kmem \<Rightarrow> u64 \<Rightarrow> (int \<times> kmem) option" where
  "kmem_free_checked k ptr =
     (if ptr = 0 then Some (0, k)
      else if \<not> kmem_ptr_in_heap k ptr then Some (-1, k)
      else if ptr AND (KMEM_ALIGN - 1) \<noteq> 0 then Some (-2, k)
      else
        (let block = kmem_header_from_payload ptr
         in if \<not> kmem_ptr_in_heap k block \<or> blk_magic (heap k) block \<noteq> KMEM_MAGIC then Some (-3, k)
            else if blk_free (heap k) block \<noteq> 0 then Some (-4, k)
            else
              (case kmem_coalesce_forward block (set_free block 1 (heap k)) of
                 None \<Rightarrow> None
               | Some m \<Rightarrow>
                   (case (if blk_prev m block \<noteq> 0 \<and> blk_free m (blk_prev m block) \<noteq> 0
                          then kmem_coalesce_forward (blk_prev m block) m else Some m) of
                      None \<Rightarrow> None
                    | Some m \<Rightarrow> (let k = k\<lparr>heap := m\<rparr> in Some (kmem_validate k, k))))))"

record kmem_stats =
  total_bytes :: u64
  used_bytes :: u64
  free_bytes :: u64
  block_count :: u64
  free_count :: u64
  largest_free :: u64

partial_function (option) stats_from :: "memory \<Rightarrow> u64 \<Rightarrow> kmem_stats \<Rightarrow> kmem_stats option" where
  "stats_from m cur st =
     (if cur = 0 then Some st
      else
        (let st = st\<lparr>block_count := block_count st + 1\<rparr>;
             st = (if blk_free m cur \<noteq> 0
                   then st\<lparr>free_count := free_count st + 1, free_bytes := free_bytes st + blk_size m cur,
                           largest_free := (if blk_size m cur > largest_free st then blk_size m cur
                                            else largest_free st)\<rparr>
                   else st\<lparr>used_bytes := used_bytes st + blk_size m cur\<rparr>)
         in stats_from m (blk_next m cur) st))"

definition kmem_get_stats :: "kmem \<Rightarrow> kmem_stats option \<Rightarrow> kmem_stats option option" where
  "kmem_get_stats k out =
     (case out of
        None \<Rightarrow> Some None
      | Some st \<Rightarrow>
          (let st = st\<lparr>total_bytes := 0, used_bytes := 0, free_bytes := 0, block_count := 0, free_count := 0,
                       largest_free := 0\<rparr>
           in if \<not> g_initialized k then Some (Some st)
              else map_option Some
                     (stats_from (heap k) (g_head k) (st\<lparr>total_bytes := g_heap_end k - g_heap_base k\<rparr>))))"

section \<open>Reading and writing headers\<close>

lemmas blk_fields = blk_magic_def blk_size_def blk_free_def blk_prev_def blk_next_def
lemmas set_fields = set_magic_def set_size_def set_free_def set_prev_def set_next_def

lemma ucast_set_low: "(ucast ((x AND NOT (mask 32)) OR ucast v :: u64) :: u32) = v"
proof (rule bit_word_eqI)
  show "bit (ucast ((x AND NOT (mask 32)) OR ucast v :: u64) :: u32) n = bit v n" if "n < LENGTH(32)" for n
    using that by (auto simp: bit_simps)
qed

lemma blk_set_same [simp]:
  "blk_magic (set_magic b v m) b = v" "blk_magic (set_size b v m) b = blk_magic m b"
  "blk_magic (set_free b f m) b = blk_magic m b" "blk_magic (set_prev b v m) b = blk_magic m b"
  "blk_magic (set_next b v m) b = blk_magic m b"
  "blk_size (set_magic b v m) b = blk_size m b" "blk_size (set_size b v m) b = v"
  "blk_size (set_free b f m) b = blk_size m b" "blk_size (set_prev b v m) b = blk_size m b"
  "blk_size (set_next b v m) b = blk_size m b"
  "blk_free (set_magic b v m) b = blk_free m b" "blk_free (set_size b v m) b = blk_free m b"
  "blk_free (set_free b f m) b = f" "blk_free (set_prev b v m) b = blk_free m b"
  "blk_free (set_next b v m) b = blk_free m b"
  "blk_prev (set_magic b v m) b = blk_prev m b" "blk_prev (set_size b v m) b = blk_prev m b"
  "blk_prev (set_free b f m) b = blk_prev m b" "blk_prev (set_prev b v m) b = v"
  "blk_prev (set_next b v m) b = blk_prev m b"
  "blk_next (set_magic b v m) b = blk_next m b" "blk_next (set_size b v m) b = blk_next m b"
  "blk_next (set_free b f m) b = blk_next m b" "blk_next (set_prev b v m) b = blk_next m b"
  "blk_next (set_next b v m) b = v"
  by (simp_all add: blk_fields set_fields ucast_set_low)

text \<open>Headers of two blocks do not overlap.\<close>

definition apart :: "u64 \<Rightarrow> u64 \<Rightarrow> bool" where
  "apart b d \<longleftrightarrow> unat b + 48 \<le> 2 ^ 64 \<and> unat d + 48 \<le> 2 ^ 64 \<and>
     (unat b + 48 \<le> unat d \<or> unat d + 48 \<le> unat b)"

lemma unat_offset: "unat b + 48 \<le> 2 ^ 64 \<Longrightarrow> unat i < 48 \<Longrightarrow> unat (b + i) = unat b + unat i" for b i :: u64
  by (simp add: unat_word_ariths)

lemma apart_cells: "apart b d \<Longrightarrow> unat i < 48 \<Longrightarrow> unat j < 48 \<Longrightarrow> b + i \<noteq> d + j" for i j :: u64
  using unat_offset[of b i] unat_offset[of d j] by (auto simp: apart_def)

lemma apart_sym: "apart b d \<Longrightarrow> apart d b"
  by (auto simp: apart_def)

lemma blk_set_apart [simp]:
  assumes "apart b d"
  shows "blk_magic (set_magic d v m) b = blk_magic m b" "blk_magic (set_size d v m) b = blk_magic m b"
    "blk_magic (set_free d f m) b = blk_magic m b" "blk_magic (set_prev d v m) b = blk_magic m b"
    "blk_magic (set_next d v m) b = blk_magic m b"
    "blk_size (set_magic d v m) b = blk_size m b" "blk_size (set_size d v m) b = blk_size m b"
    "blk_size (set_free d f m) b = blk_size m b" "blk_size (set_prev d v m) b = blk_size m b"
    "blk_size (set_next d v m) b = blk_size m b"
    "blk_free (set_magic d v m) b = blk_free m b" "blk_free (set_size d v m) b = blk_free m b"
    "blk_free (set_free d f m) b = blk_free m b" "blk_free (set_prev d v m) b = blk_free m b"
    "blk_free (set_next d v m) b = blk_free m b"
    "blk_prev (set_magic d v m) b = blk_prev m b" "blk_prev (set_size d v m) b = blk_prev m b"
    "blk_prev (set_free d f m) b = blk_prev m b" "blk_prev (set_prev d v m) b = blk_prev m b"
    "blk_prev (set_next d v m) b = blk_prev m b"
    "blk_next (set_magic d v m) b = blk_next m b" "blk_next (set_size d v m) b = blk_next m b"
    "blk_next (set_free d f m) b = blk_next m b" "blk_next (set_prev d v m) b = blk_next m b"
    "blk_next (set_next d v m) b = blk_next m b"
  using apart_cells[OF assms, of 0 0] apart_cells[OF assms, of 0 8] apart_cells[OF assms, of 0 16]
    apart_cells[OF assms, of 0 32] apart_cells[OF assms, of 0 40]
    apart_cells[OF assms, of 8 0] apart_cells[OF assms, of 8 8] apart_cells[OF assms, of 8 16]
    apart_cells[OF assms, of 8 32] apart_cells[OF assms, of 8 40]
    apart_cells[OF assms, of 16 0] apart_cells[OF assms, of 16 8] apart_cells[OF assms, of 16 16]
    apart_cells[OF assms, of 16 32] apart_cells[OF assms, of 16 40]
    apart_cells[OF assms, of 32 0] apart_cells[OF assms, of 32 8] apart_cells[OF assms, of 32 16]
    apart_cells[OF assms, of 32 32] apart_cells[OF assms, of 32 40]
    apart_cells[OF assms, of 40 0] apart_cells[OF assms, of 40 8] apart_cells[OF assms, of 40 16]
    apart_cells[OF assms, of 40 32] apart_cells[OF assms, of 40 40]
  by (simp_all add: blk_fields set_fields)

definition in_header :: "u64 \<Rightarrow> u64 \<Rightarrow> bool" where
  "in_header b a \<longleftrightarrow> unat b \<le> unat a \<and> unat a < unat b + 48"

lemma set_outside [simp]:
  assumes "\<not> in_header b a" "unat b + 48 \<le> 2 ^ 64"
  shows "set_magic b v m a = m a" "set_size b v m a = m a" "set_free b f m a = m a"
    "set_prev b v m a = m a" "set_next b v m a = m a"
proof -
  have "a \<noteq> b + i" if "unat i < 48" for i
    using assms that unat_offset[OF assms(2) that] by (auto simp: in_header_def)
  from this[of 0] this[of 8] this[of 16] this[of 32] this[of 40]
  show "set_magic b v m a = m a" "set_size b v m a = m a" "set_free b f m a = m a"
    "set_prev b v m a = m a" "set_next b v m a = m a"
    by (simp_all add: set_fields)
qed

section \<open>The heap as a list of blocks\<close>

text \<open>A block of the abstract heap: the address of its header, its payload size, whether it is free.\<close>

type_synonym block = "nat \<times> nat \<times> bool"

definition node :: "memory \<Rightarrow> u64 \<Rightarrow> u64 \<Rightarrow> block \<Rightarrow> bool" where
  "node m pr cur b \<longleftrightarrow>
     (case b of (s, n, f) \<Rightarrow>
        unat cur = s \<and> 128 \<le> s \<and> 16 dvd s \<and> 16 dvd n \<and> 16 \<le> n \<and> s + 48 + n < 2 ^ 64 \<and>
        blk_magic m cur = KMEM_MAGIC \<and> unat (blk_size m cur) = n \<and> (blk_free m cur \<noteq> 0) = f \<and>
        blk_prev m cur = pr)"

text \<open>
  \<open>seg m pos pr cur bs pos' pr' cur'\<close>: starting with the header \<open>cur\<close>, expected at \<open>pos\<close> with
  predecessor \<open>pr\<close>, the list runs through the adjacent blocks \<open>bs\<close> and arrives at \<open>cur'\<close>.
\<close>

fun seg :: "memory \<Rightarrow> nat \<Rightarrow> u64 \<Rightarrow> u64 \<Rightarrow> block list \<Rightarrow> nat \<Rightarrow> u64 \<Rightarrow> u64 \<Rightarrow> bool" where
  "seg m pos pr cur [] pos' pr' cur' \<longleftrightarrow> pos = pos' \<and> pr = pr' \<and> cur = cur'"
| "seg m pos pr cur ((s, n, f) # bs) pos' pr' cur' \<longleftrightarrow>
     s = pos \<and> node m pr cur (s, n, f) \<and> seg m (pos + 48 + n) cur (blk_next m cur) bs pos' pr' cur'"

definition heap_rel :: "kmem \<Rightarrow> block list \<Rightarrow> bool" where
  "heap_rel k bs \<longleftrightarrow>
     g_initialized k \<and> bs \<noteq> [] \<and> g_head k = g_heap_base k \<and>
     (\<exists>last. seg (heap k) (unat (g_heap_base k)) 0 (g_head k) bs (unat (g_heap_end k)) last 0)"

lemma seg_append:
  "seg m pos pr cur (xs @ ys) pos' pr' cur' \<longleftrightarrow>
     (\<exists>p q c. seg m pos pr cur xs p q c \<and> seg m p q c ys pos' pr' cur')"
proof (induction xs arbitrary: pos pr cur)
  case (Cons x xs)
  obtain s n f where "x = (s, n, f)" by (cases x)
  then show ?case using Cons.IH[of "pos + 48 + n" cur "blk_next m cur"] by auto
qed simp

lemma seg_le: "seg m pos pr cur bs pos' pr' cur' \<Longrightarrow> pos \<le> pos'"
  by (induction m pos pr cur bs pos' pr' cur' rule: seg.induct) auto

lemma node_cong:
  assumes "\<And>a. in_header cur a \<Longrightarrow> m' a = m a" "unat cur + 48 \<le> 2 ^ 64"
  shows "node m' pr cur b = node m pr cur b" "blk_next m' cur = blk_next m cur"
proof -
  have "m' (cur + i) = m (cur + i)" if "unat i < 48" for i
    using assms that unat_offset[of cur i] by (simp add: in_header_def)
  from this[of 0] this[of 8] this[of 16] this[of 32] this[of 40]
  show "node m' pr cur b = node m pr cur b" "blk_next m' cur = blk_next m cur"
    by (simp_all add: node_def blk_fields split: prod.split)
qed

lemma seg_cong:
  assumes "seg m pos pr cur bs pos' pr' cur'"
    and "\<And>a. pos \<le> unat a \<Longrightarrow> unat a < pos' \<Longrightarrow> m' a = m a"
  shows "seg m' pos pr cur bs pos' pr' cur'"
  using assms
proof (induction m pos pr cur bs pos' pr' cur' rule: seg.induct)
  case (2 m pos pr cur s n f bs pos' pr' cur')
  then have nd: "node m pr cur (s, n, f)" and s: "s = pos" and rest: "seg m (pos + 48 + n) cur (blk_next m cur) bs pos' pr' cur'"
    by auto
  have le: "pos + 48 + n \<le> pos'" using seg_le[OF rest] .
  have "m' a = m a" if "in_header cur a" for a
    using that nd s le 2(3)[of a] by (auto simp: in_header_def node_def)
  moreover have "unat cur + 48 \<le> 2 ^ 64" using nd by (simp add: node_def)
  ultimately have eq: "node m' pr cur (s, n, f)" "blk_next m' cur = blk_next m cur" using node_cong nd by blast+
  moreover have "seg m' (pos + 48 + n) cur (blk_next m cur) bs pos' pr' cur'"
    by (rule 2(1)[OF rest]) (use 2(3) in auto)
  ultimately show ?case using s by simp
qed simp

text \<open>
  The rest of the list after a change before it: only the \<open>prev\<close> field of its first header may differ.
\<close>

lemma seg_relink:
  assumes "seg m pos pr cur ys e l 0"
    and "\<And>a. pos \<le> unat a \<Longrightarrow> unat a < e \<Longrightarrow> \<not> (cur \<noteq> 0 \<and> a = cur + 32) \<Longrightarrow> m' a = m a"
    and "cur \<noteq> 0 \<Longrightarrow> blk_prev m' cur = pr'"
  shows "\<exists>l'. seg m' pos pr' cur ys e l' 0"
proof (cases ys)
  case Nil
  then show ?thesis using assms by simp
next
  case (Cons b zs)
  obtain s n f where b: "b = (s, n, f)" by (cases b)
  from assms(1) have nd: "node m pr cur (s, n, f)" and s: "s = pos" and rest: "seg m (pos + 48 + n) cur (blk_next m cur) zs e l 0"
    by (auto simp: Cons b)
  have lim: "unat cur + 48 \<le> 2 ^ 64" "cur \<noteq> 0" "unat cur = pos" using nd s by (auto simp: node_def)
  have le: "pos + 48 + n \<le> e" using seg_le[OF rest] .
  have cell: "m' (cur + i) = m (cur + i)" if "unat i < 48" "i \<noteq> 32" for i
    using that lim unat_offset[OF lim(1) that(1)] le by (intro assms(2)) auto
  have "node m' pr' cur (s, n, f)" "blk_next m' cur = blk_next m cur"
    using nd assms(3) lim cell[of 0] cell[of 8] cell[of 16] cell[of 40]
    by (simp_all add: node_def blk_fields)
  moreover have "seg m' (pos + 48 + n) cur (blk_next m cur) zs e l 0"
  proof (rule seg_cong[OF rest])
    show "m' a = m a" if "pos + 48 + n \<le> unat a" "unat a < e" for a
      using that lim unat_offset[OF lim(1), of 32] by (intro assms(2)) auto
  qed
  ultimately show ?thesis using s by (auto simp: Cons b)
qed

lemma align_ptr_id:
  assumes "16 dvd unat v"
  shows "kmem_align_up_ptr v KMEM_ALIGN = v"
proof -
  obtain q where q: "unat v = 16 * q" using assms by blast
  have lt: "unat v < 2 ^ 64" using unat_less_length[of v] by simp
  then have le: "unat v \<le> 2 ^ 64 - 16" using q by simp
  have 15: "(15 :: u64) = mask 4" by (simp add: mask_eq_decr_exp)
  have s: "unat (v + 15) = unat v + 15" using le by (simp add: unat_word_ariths)
  have "unat ((v + 15) AND NOT 15) = unat v"
    unfolding 15 unat_and_not_mask s[unfolded 15] using q by simp
  moreover have "\<not> v > 0xffffffffffffffff - 15" using le by (simp add: word_less_nat_alt)
  ultimately show ?thesis by (simp add: kmem_align_up_ptr_def KMEM_ALIGN_def word_unat_eq_iff)
qed

fun absorb :: "nat \<Rightarrow> block list \<Rightarrow> nat \<times> block list" where
  "absorb n ((s, k, True) # bs) = absorb (n + 48 + k) bs"
| "absorb n bs = (n, bs)"

lemmas absorb_induct = absorb.induct[case_names merge nil used]

definition hdrs :: "block list \<Rightarrow> u64 set" where
  "hdrs bs = {a. \<exists>(s, n, f) \<in> set bs. s \<le> unat a \<and> unat a < s + 48}"

lemma hdrs_Cons: "a \<in> hdrs ((s, n, f) # bs) \<longleftrightarrow> s \<le> unat a \<and> unat a < s + 48 \<or> a \<in> hdrs bs"
  by (auto simp: hdrs_def)

lemma coalesce_stop:
  assumes "node m pr c (s, n, f)" "seg m (s + 48 + n) c (blk_next m c) ys e l 0"
    and "ys = [] \<or> (\<exists>s' k zs. ys = (s', k, False) # zs)"
  shows "kmem_coalesce_forward c m = Some m"
  using assms by (subst kmem_coalesce_forward.simps) (auto simp: node_def)

lemma coalesce_step:
  assumes nd: "node m pr c (s, n, f)" and rest: "seg m (s + 48 + n) c (blk_next m c) ((t, k, True) # zs) e l 0"
  obtains m' l' where "kmem_coalesce_forward c m = kmem_coalesce_forward c m'"
    "node m' pr c (s, n + 48 + k, f)" "seg m' (s + 48 + (n + 48 + k)) c (blk_next m' c) zs e l' 0"
    "\<And>a. a \<notin> hdrs ((s, n, f) # (t, k, True) # zs) \<Longrightarrow> m' a = m a"
proof -
  define d where "d = blk_next m c"
  define x where "x = blk_next m d"
  define m1 where "m1 = set_next c x (set_size c (blk_size m c + (SIZEOF_BLOCK + blk_size m d)) m)"
  define m2 where "m2 = (if x \<noteq> 0 then set_prev x c m1 else m1)"
  define m' where "m' = set_next d 0 (set_prev d 0 (set_size d 0 (set_magic d 0 m2)))"
  from rest have t: "t = s + 48 + n" and dn: "node m c d (t, k, True)"
    and zs: "seg m (s + 48 + n + 48 + k) d x zs e l 0"
    by (auto simp: d_def x_def)
  have c: "unat c = s" "0 < s" "s + 48 + n < 2 ^ 64" and d: "unat d = t" "t + 48 + k < 2 ^ 64"
    using nd dn by (auto simp: node_def)
  have cd: "apart c d" "apart d c" using c d t by (auto simp: apart_def)
  have xs: "x \<noteq> 0 \<Longrightarrow> unat x = t + 48 + k \<and> unat x + 48 < 2 ^ 64 \<and> (\<exists>j g ws. zs = (unat x, j, g) # ws)"
    using zs t by (cases zs) (auto simp: node_def)
  have xcd: "x \<noteq> 0 \<Longrightarrow> apart c x \<and> apart x c \<and> apart d x \<and> apart x d"
    using xs c d t by (auto simp: apart_def)
  have size: "unat (blk_size m c + (SIZEOF_BLOCK + blk_size m d)) = n + 48 + k"
    using nd dn t by (simp add: node_def SIZEOF_BLOCK_def unat_word_ariths)
  have nx: "blk_next m' c = x" using cd xcd by (simp add: m'_def m2_def m1_def)
  have "\<exists>l'. seg m' (s + 48 + n + 48 + k) c x zs e l' 0"
  proof (rule seg_relink[OF zs])
    show "blk_prev m' x = c" if "x \<noteq> 0" using xcd that by (simp add: m'_def m2_def)
    show "m' a = m a" if a: "s + 48 + n + 48 + k \<le> unat a" "\<not> (x \<noteq> 0 \<and> a = x + 32)" for a
    proof -
      have "\<not> in_header c a" "\<not> in_header d a" using a c d t by (auto simp: in_header_def)
      moreover have "m2 a = m1 a" using a by (auto simp: m2_def set_prev_def)
      ultimately show ?thesis using c d t by (simp add: m'_def m1_def)
    qed
  qed
  then obtain l' where l': "seg m' (s + 48 + n + 48 + k) c x zs e l' 0" by blast
  show ?thesis
  proof (rule that[of m' l'])
    have "unat (kmem_payload c + blk_size m c) = t"
      using nd t by (simp add: node_def kmem_payload_def SIZEOF_BLOCK_def unat_word_ariths)
    moreover have "16 dvd t" using dn by (simp add: node_def)
    ultimately have "kmem_align_up_ptr (kmem_payload c + blk_size m c) KMEM_ALIGN = d"
      using align_ptr_id d by (metis word_unat_eq_iff)
    moreover have "c \<noteq> 0" "d \<noteq> 0" "blk_free m d \<noteq> 0" using nd dn by (auto simp: node_def)
    ultimately show "kmem_coalesce_forward c m = kmem_coalesce_forward c m'"
      using cd by (subst kmem_coalesce_forward.simps)
        (simp add: d_def[symmetric] x_def[symmetric] m'_def m2_def m1_def Let_def)
    show "node m' pr c (s, n + 48 + k, f)"
      using nd dn cd xcd size c d t by (auto simp: node_def m'_def m2_def m1_def)
    show "seg m' (s + 48 + (n + 48 + k)) c (blk_next m' c) zs e l' 0"
      unfolding nx using l' by (simp add: add.assoc)
    show "m' a = m a" if "a \<notin> hdrs ((s, n, f) # (t, k, True) # zs)" for a
    proof -
      have out: "\<not> in_header c a" "\<not> in_header d a" "x \<noteq> 0 \<Longrightarrow> \<not> in_header x a"
        using that c d xs by (auto simp: hdrs_Cons in_header_def)
      have "set_prev x c m1 a = m1 a" if "x \<noteq> 0"
        by (rule set_outside(4)[OF out(3)[OF that]]) (use xs[OF that] in linarith)
      then have "m2 a = m1 a" by (simp add: m2_def)
      with out show ?thesis using c d t by (simp add: m'_def m1_def)
    qed
  qed
qed

lemma coalesce_spec:
  assumes "node m pr c (s, n, f)" "seg m (s + 48 + n) c (blk_next m c) ys e l 0"
  shows "\<exists>m' l'. kmem_coalesce_forward c m = Some m' \<and> node m' pr c (s, fst (absorb n ys), f) \<and>
           seg m' (s + 48 + fst (absorb n ys)) c (blk_next m' c) (snd (absorb n ys)) e l' 0 \<and>
           (\<forall>a. a \<notin> hdrs ((s, n, f) # ys) \<longrightarrow> m' a = m a)"
  using assms
proof (induction n ys arbitrary: m l rule: absorb_induct)
  case (merge n t k zs)
  obtain m1 l1 where st: "kmem_coalesce_forward c m = kmem_coalesce_forward c m1"
    "node m1 pr c (s, n + 48 + k, f)" "seg m1 (s + 48 + (n + 48 + k)) c (blk_next m1 c) zs e l1 0"
    and fr: "\<And>a. a \<notin> hdrs ((s, n, f) # (t, k, True) # zs) \<Longrightarrow> m1 a = m a"
    using coalesce_step[OF merge(2,3)] by metis
  from merge(1)[OF st(2,3)] obtain m' l' where "kmem_coalesce_forward c m1 = Some m'"
    "node m' pr c (s, fst (absorb (n + 48 + k) zs), f)"
    "seg m' (s + 48 + fst (absorb (n + 48 + k) zs)) c (blk_next m' c) (snd (absorb (n + 48 + k) zs)) e l' 0"
    "\<forall>a. a \<notin> hdrs ((s, n + 48 + k, f) # zs) \<longrightarrow> m' a = m1 a"
    by blast
  with st fr show ?case by (intro exI[of _ m'] exI[of _ l']) (auto simp: hdrs_Cons)
next
  case (nil n)
  with coalesce_stop[OF nil] show ?case by auto
next
  case (used n t k zs)
  have "kmem_coalesce_forward c m = Some m" by (rule coalesce_stop[OF used]) simp
  with used show ?case by auto
qed

definition carve :: "nat \<Rightarrow> nat \<Rightarrow> nat \<Rightarrow> block list" where
  "carve w s n = (if w + 80 < n then [(s, w, False), (s + 48 + w, n - w - 48, True)] else [(s, n, False)])"

fun first_fit :: "nat \<Rightarrow> block list \<Rightarrow> (nat \<times> block list) option" where
  "first_fit w [] = None"
| "first_fit w ((s, n, f) # bs) =
     (if f \<and> w \<le> n then Some (s, carve w s n @ bs)
      else map_option (\<lambda>(p, bs'). (p, (s, n, f) # bs')) (first_fit w bs))"

lemma split_no:
  assumes nd: "node (heap k) pr c (s, n, True)" and w: "unat w \<le> n" "16 dvd unat w" and n: "n \<le> unat w + 80"
  shows "kmem_split_if_useful k c w = k"
proof -
  let ?m = "heap k"
  have s: "unat c = s" "128 \<le> s" "16 dvd s" "s + 48 + n < 2 ^ 64" "unat (blk_size ?m c) = n"
    using nd by (auto simp: node_def)
  have hdr: "kmem_align_up_size SIZEOF_BLOCK KMEM_ALIGN = 48"
    by (simp add: kmem_align_up_size_def SIZEOF_BLOCK_def KMEM_ALIGN_def)
  have pay: "unat (kmem_payload c + w) = s + 48 + unat w" "unat (kmem_payload c) = s + 48"
    using s w by (simp_all add: kmem_payload_def SIZEOF_BLOCK_def unat_word_ariths)
  have al: "kmem_align_up_ptr (kmem_payload c + w) KMEM_ALIGN = kmem_payload c + w"
    by (rule align_ptr_id) (use pay s w in auto)
  have sum: "unat (w + SIZEOF_BLOCK + KMEM_MIN_SPLIT) = unat w + 80"
    using s w by (simp add: SIZEOF_BLOCK_def KMEM_MIN_SPLIT_def unat_word_ariths)
  have "blk_size ?m c \<le> w + SIZEOF_BLOCK + KMEM_MIN_SPLIT" using s n sum by (simp add: word_le_nat_alt)
  then show ?thesis by (simp add: kmem_split_if_useful_def hdr al Let_def)
qed

lemma alloc_node_whole:
  assumes nd: "node m pr c (s, n, True)" and ys: "seg m (s + 48 + n) c (blk_next m c) ys e l 0"
  shows "seg (set_free c 0 m) s pr c ((s, n, False) # ys) e l 0"
proof -
  have "seg (set_free c 0 m) (s + 48 + n) c (blk_next m c) ys e l 0"
  proof (rule seg_cong[OF ys])
    show "set_free c 0 m a = m a" if "s + 48 + n \<le> unat a" for a
      using that nd by (intro set_outside) (auto simp: in_header_def node_def)
  qed
  with nd show ?thesis by (simp add: node_def)
qed

lemma split_yes:
  assumes nd: "node (heap k) pr c (s, n, True)" and ys: "seg (heap k) (s + 48 + n) c (blk_next (heap k) c) ys e l 0"
    and e: "unat (g_heap_end k) = e" and w: "16 \<le> unat w" "16 dvd unat w" and n: "unat w + 80 < n"
  obtains m l' where "kmem_split_if_useful k c w = k\<lparr>heap := m\<rparr>"
    "seg (set_free c 0 m) s pr c ((s, unat w, False) # (s + 48 + unat w, n - unat w - 48, True) # ys) e l' 0"
    "\<And>a. unat a < s \<or> s + 48 + n \<le> unat a \<Longrightarrow> a \<notin> hdrs ys \<Longrightarrow> m a = heap k a"
proof -
  let ?m = "heap k"
  define d where "d = kmem_payload c + w"
  define x where "x = blk_next ?m c"
  define m1 where "m1 = set_next d x (set_prev d c (set_free d 1
     (set_size d (blk_size ?m c - w - SIZEOF_BLOCK) (set_magic d KMEM_MAGIC ?m))))"
  define m2 where "m2 = (if x \<noteq> 0 then set_prev x d m1 else m1)"
  define m where "m = set_size c w (set_next c d m2)"
  have s: "unat c = s" "128 \<le> s" "16 dvd s" "16 dvd n" "s + 48 + n < 2 ^ 64" "unat (blk_size ?m c) = n"
    using nd by (auto simp: node_def)
  have hdr: "kmem_align_up_size SIZEOF_BLOCK KMEM_ALIGN = 48"
    by (simp add: kmem_align_up_size_def SIZEOF_BLOCK_def KMEM_ALIGN_def)
  have d: "unat d = s + 48 + unat w" "unat (kmem_payload c) = s + 48"
    using s w n by (simp_all add: d_def kmem_payload_def SIZEOF_BLOCK_def unat_word_ariths)
  have al: "kmem_align_up_ptr (kmem_payload c + w) KMEM_ALIGN = d"
    unfolding d_def by (rule align_ptr_id) (use d s w in \<open>auto simp: d_def[symmetric]\<close>)
  have sum: "unat (w + SIZEOF_BLOCK + KMEM_MIN_SPLIT) = unat w + 80" "unat (d + SIZEOF_BLOCK) = s + 96 + unat w"
    using s w n d by (simp_all add: SIZEOF_BLOCK_def KMEM_MIN_SPLIT_def unat_word_ariths)
  have rem: "unat (blk_size ?m c - w - SIZEOF_BLOCK) = n - unat w - 48"
    using s n by (simp add: SIZEOF_BLOCK_def unat_sub word_le_nat_alt)
  have le: "s + 48 + n \<le> e" using seg_le[OF ys] .
  have cd: "apart c d" "apart d c" using s d w n by (auto simp: apart_def)
  have xs: "x \<noteq> 0 \<Longrightarrow> unat x = s + 48 + n \<and> unat x + 48 < 2 ^ 64 \<and> (\<exists>j g ws. ys = (unat x, j, g) # ws)"
    using ys by (cases ys) (auto simp: node_def x_def)
  have xcd: "x \<noteq> 0 \<Longrightarrow> apart c x \<and> apart x c \<and> apart d x \<and> apart x d"
    using xs s d n by (auto simp: apart_def)
  have res: "kmem_split_if_useful k c w = k\<lparr>heap := m\<rparr>"
  proof -
    have "\<not> blk_size ?m c < w + SIZEOF_BLOCK + KMEM_MIN_SPLIT" "\<not> blk_size ?m c \<le> w + SIZEOF_BLOCK + KMEM_MIN_SPLIT"
      "\<not> d + SIZEOF_BLOCK \<ge> g_heap_end k" "d \<noteq> 0" "d - kmem_payload c = w"
      using s n sum e le d by (auto simp: word_le_nat_alt word_less_nat_alt d_def)
    then show ?thesis
      using cd xcd by (simp add: kmem_split_if_useful_def hdr[unfolded SIZEOF_BLOCK_def] hdr SIZEOF_BLOCK_def al
          m_def m2_def m1_def x_def[symmetric] Let_def)
  qed
  have frame: "set_free c 0 m a = ?m a \<and> m a = ?m a"
    if "unat a < s \<or> s + 48 + n \<le> unat a" "\<not> (x \<noteq> 0 \<and> a = x + 32)" for a
  proof -
    have "\<not> in_header c a" "\<not> in_header d a" using that s d n w by (auto simp: in_header_def)
    moreover have "m2 a = m1 a" using that by (auto simp: m2_def set_prev_def)
    ultimately show ?thesis using s d n w by (simp add: m_def m1_def)
  qed
  have "\<exists>l'. seg (set_free c 0 m) (s + 48 + n) d x ys e l' 0"
    by (rule seg_relink[OF ys[folded x_def]]) (use frame xcd in \<open>auto simp: m_def m2_def\<close>)
  then obtain l' where l': "seg (set_free c 0 m) (s + 48 + n) d x ys e l' 0" by blast
  have "node (set_free c 0 m) pr c (s, unat w, False)" "blk_next (set_free c 0 m) c = d"
    using nd w n cd xcd by (auto simp: node_def m_def m2_def m1_def)
  moreover have "node (set_free c 0 m) c d (s + 48 + unat w, n - unat w - 48, True)" "blk_next (set_free c 0 m) d = x"
    using s w n d rem cd xcd by (auto simp: node_def m_def m2_def m1_def intro: dvd_diff_nat)
  ultimately have sg: "seg (set_free c 0 m) s pr c ((s, unat w, False) # (s + 48 + unat w, n - unat w - 48, True) # ys) e l' 0"
    using l' n by (simp add: ac_simps)
  show ?thesis
  proof (rule that[OF res sg])
    show "m a = ?m a" if "unat a < s \<or> s + 48 + n \<le> unat a" "a \<notin> hdrs ys" for a
    proof -
      have "\<not> (x \<noteq> 0 \<and> a = x + 32)" using that(2) xs unat_offset[of x 32] by (auto simp: hdrs_Cons)
      then show ?thesis using frame that(1) by blast
    qed
  qed
qed


text \<open>The cells of the payloads of the blocks in use.\<close>

definition live_cells :: "block list \<Rightarrow> u64 set" where
  "live_cells bs = {a. \<exists>(s, n, f) \<in> set bs. \<not> f \<and> s + 48 \<le> unat a \<and> unat a < s + 48 + n}"

lemma live_cells_Cons: "a \<in> live_cells ((s, n, f) # bs) \<longleftrightarrow> \<not> f \<and> s + 48 \<le> unat a \<and> unat a < s + 48 + n \<or> a \<in> live_cells bs"
  by (auto simp: live_cells_def)

lemma live_cells_append: "live_cells (xs @ ys) = live_cells xs \<union> live_cells ys"
  by (auto simp: live_cells_def)

lemma hdrs_append: "hdrs (xs @ ys) = hdrs xs \<union> hdrs ys"
  by (auto simp: hdrs_def)

lemma seg_bounds:
  assumes "seg m pos pr cur bs pos' pr' cur'" "(s, n, f) \<in> set bs"
  shows "pos \<le> s \<and> s + 48 + n \<le> pos' \<and> 16 \<le> n \<and> 16 dvd s \<and> 128 \<le> s \<and> s + 48 + n < 2 ^ 64"
  using assms
proof (induction m pos pr cur bs pos' pr' cur' rule: seg.induct)
  case (2 m pos pr cur s' n' f' bs pos' pr' cur')
  then have nd: "node m pr cur (s', n', f')" "s' = pos" and rest: "seg m (pos + 48 + n') cur (blk_next m cur) bs pos' pr' cur'"
    by auto
  show ?case
  proof (cases "(s, n, f) \<in> set bs")
    case True
    with 2(1)[OF rest] show ?thesis by auto
  next
    case False
    with 2(3) nd seg_le[OF rest] show ?thesis by (auto simp: node_def)
  qed
qed simp

lemma hdrs_bounds:
  assumes "seg m pos pr cur bs pos' pr' cur'" "a \<in> hdrs bs"
  shows "pos \<le> unat a \<and> unat a < pos'"
proof -
  obtain s n f where "(s, n, f) \<in> set bs" "s \<le> unat a" "unat a < s + 48" using assms(2) by (auto simp: hdrs_def)
  with seg_bounds[OF assms(1)] show ?thesis by fastforce
qed

lemma live_not_hdrs:
  assumes "seg m pos pr cur bs pos' pr' cur'" "a \<in> live_cells bs"
  shows "a \<notin> hdrs bs \<and> pos \<le> unat a \<and> unat a < pos'"
  using assms
proof (induction m pos pr cur bs pos' pr' cur' rule: seg.induct)
  case (2 m pos pr cur s n f bs pos' pr' cur')
  then have s: "s = pos" and rest: "seg m (pos + 48 + n) cur (blk_next m cur) bs pos' pr' cur'" by auto
  have "pos + 48 + n \<le> unat a" if "a \<in> hdrs bs"
    using hdrs_bounds[OF rest that] by blast
  then show ?case
    using 2(1)[OF rest] 2(3) s seg_le[OF rest] by (auto simp: live_cells_Cons hdrs_Cons)
qed (simp add: live_cells_def)

lemma alloc_from_spec:
  assumes "seg (heap k) pos pr cur bs e l 0" "unat (g_heap_end k) = e"
    and w: "16 \<le> unat w" "16 dvd unat w"
  shows "case first_fit (unat w) bs of
           None \<Rightarrow> alloc_from w k cur = Some (0, k)
         | Some (s, bs') \<Rightarrow> \<exists>m l'. alloc_from w k cur = Some (word_of_nat (s + 48), k\<lparr>heap := m\<rparr>) \<and>
             seg m pos pr cur bs' e l' 0 \<and> (\<forall>a. unat a < pos \<or> a \<in> live_cells bs \<longrightarrow> m a = heap k a)"
  using assms(1)
proof (induction bs arbitrary: pos pr cur)
  case Nil
  then show ?case by (subst alloc_from.simps) simp
next
  case (Cons b bs)
  obtain s n f where b: "b = (s, n, f)" by (cases b)
  from Cons.prems have nd: "node (heap k) pr cur (s, n, f)" and s: "s = pos"
    and rest: "seg (heap k) (pos + 48 + n) cur (blk_next (heap k) cur) bs e l 0" by (auto simp: b)
  have cur: "cur \<noteq> 0" "blk_magic (heap k) cur = KMEM_MAGIC" "(blk_free (heap k) cur \<noteq> 0) = f"
      "blk_size (heap k) cur \<ge> w \<longleftrightarrow> unat w \<le> n" "unat cur = s" "s + 48 + n < 2 ^ 64"
    using nd by (auto simp: node_def word_le_nat_alt)
  show ?case
  proof (cases "f \<and> unat w \<le> n")
    case True
    have pay: "kmem_payload cur = word_of_nat (s + 48)"
      using cur by (auto simp: kmem_payload_def SIZEOF_BLOCK_def)
    have call: "alloc_from w k cur =
        Some (kmem_payload cur, (kmem_split_if_useful k cur w)\<lparr>heap := set_free cur 0 (heap (kmem_split_if_useful k cur w))\<rparr>)"
      using True cur by (subst alloc_from.simps) (simp add: Let_def)
    have out: "unat a < s \<or> s + 48 + n \<le> unat a \<and> a \<notin> hdrs bs" if "unat a < pos \<or> a \<in> live_cells (b # bs)" for a
      using that True s live_not_hdrs[OF rest, of a] by (auto simp: b live_cells_Cons)
    have free0: "set_free cur 0 m a = m a" if "unat a < s \<or> s + 48 + n \<le> unat a" for a m
      using that cur by (intro set_outside) (auto simp: in_header_def)
    have nd': "node (heap k) pr cur (s, n, True)" and rest': "seg (heap k) (s + 48 + n) cur (blk_next (heap k) cur) bs e l 0"
      using nd rest True s by simp_all
    show ?thesis
    proof (cases "unat w + 80 < n")
      case split: True
      obtain m l' where m: "kmem_split_if_useful k cur w = k\<lparr>heap := m\<rparr>"
          "seg (set_free cur 0 m) s pr cur ((s, unat w, False) # (s + 48 + unat w, n - unat w - 48, True) # bs) e l' 0"
        and fr: "\<And>a. unat a < s \<or> s + 48 + n \<le> unat a \<Longrightarrow> a \<notin> hdrs bs \<Longrightarrow> m a = heap k a"
        using split_yes[OF nd' rest' assms(2) w split] by metis
      have low: "a \<notin> hdrs bs" if "unat a < s" for a
        using that hdrs_bounds[OF rest', of a] by auto
      have fr': "set_free cur 0 m a = heap k a" if "unat a < pos \<or> a \<in> live_cells (b # bs)" for a
        using out[OF that] fr[of a] free0[of a m] low[of a] by auto
      have ff: "first_fit (unat w) (b # bs) = Some (s, (s, unat w, False) # (s + 48 + unat w, n - unat w - 48, True) # bs)"
        using True split by (simp add: b carve_def)
      show ?thesis
        unfolding ff option.case prod.case
        using call pay m fr' s by (intro exI[of _ "set_free cur 0 m"] exI[of _ l']) simp
    next
      case no: False
      have same: "kmem_split_if_useful k cur w = k"
        by (rule split_no[OF nd']) (use True w no in auto)
      have fr': "set_free cur 0 (heap k) a = heap k a" if "unat a < pos \<or> a \<in> live_cells (b # bs)" for a
        using out[OF that] free0[of a "heap k"] by auto
      have ff: "first_fit (unat w) (b # bs) = Some (s, (s, n, False) # bs)"
        using True no by (simp add: b carve_def)
      show ?thesis
        unfolding ff option.case prod.case
        using alloc_node_whole[OF nd' rest'] call pay same fr' s
        by (intro exI[of _ "set_free cur 0 (heap k)"] exI[of _ l]) simp
    qed
  next
    case False
    then have call: "alloc_from w k cur = alloc_from w k (blk_next (heap k) cur)"
      using cur by (subst alloc_from.simps) (auto simp: Let_def)
    show ?thesis
    proof (cases "first_fit (unat w) bs")
      case None
      with Cons.IH[OF rest] False call show ?thesis by (auto simp: b)
    next
      case (Some r)
      obtain t bs' where r: "r = (t, bs')" by (cases r)
      from Cons.IH[OF rest] Some r obtain m l' where
        m: "alloc_from w k (blk_next (heap k) cur) = Some (word_of_nat (t + 48), k\<lparr>heap := m\<rparr>)"
          "seg m (pos + 48 + n) cur (blk_next (heap k) cur) bs' e l' 0"
          "\<forall>a. unat a < pos + 48 + n \<or> a \<in> live_cells bs \<longrightarrow> m a = heap k a" by auto
      have nd2: "node m pr cur (s, n, f)" "blk_next m cur = blk_next (heap k) cur"
        using node_cong[of cur m "heap k"] m(3) nd cur s by (auto simp: in_header_def)
      have fr: "m a = heap k a" if "unat a < pos \<or> a \<in> live_cells (b # bs)" for a
        using that m(3) s by (auto simp: b live_cells_Cons)
      have ff: "first_fit (unat w) (b # bs) = Some (t, (s, n, f) # bs')"
        using False Some r by (auto simp: b)
      show ?thesis
        unfolding ff option.case prod.case
        using m(1,2) call nd2 fr s by (intro exI[of _ m] exI[of _ l']) simp
    qed
  qed
qed

section \<open>The operations on the list of blocks\<close>

fun settled :: "block list \<Rightarrow> bool" where
  "settled ((s, n, f) # (t, k, g) # bs) \<longleftrightarrow> \<not> (f \<and> g) \<and> settled ((t, k, g) # bs)"
| "settled bs \<longleftrightarrow> True"

lemmas settled_induct = settled.induct[case_names two nil one]

definition live :: "block list \<Rightarrow> (nat \<times> nat) set" where
  "live bs = {(s, n). (s, n, False) \<in> set bs}"

text \<open>
  The invariant of the heap: the headers tile it, no two neighbours are free, and it is small enough
  for the guard of \<open>kmem_validate\<close>: every block takes at least 64 bytes.
\<close>

definition heap_ok :: "kmem \<Rightarrow> block list \<Rightarrow> bool" where
  "heap_ok k bs \<longleftrightarrow> heap_rel k bs \<and> settled bs \<and> unat (g_heap_end k) \<le> unat (g_heap_base k) + 2 ^ 26"

lemma settled_append:
  "settled (xs @ b # ys) \<longleftrightarrow> settled (xs @ [b]) \<and> settled (b # ys)"
proof (induction xs rule: settled_induct)
  case (one x)
  then show ?case by (cases x; cases b; cases ys) auto
qed (cases b; auto)+

lemma settled_snoc_used: "settled (xs @ [(s, n, False)]) \<longleftrightarrow> settled xs"
proof (induction xs rule: settled_induct)
  case (one x)
  then show ?case by (cases x) auto
qed auto

lemma settled_tl: "settled (b # bs) \<Longrightarrow> settled bs"
  by (cases bs; cases b; cases "hd bs") auto

lemma settled_resize: "settled ((s, n, f) # bs) \<longleftrightarrow> settled ((s', n', f) # bs)"
  by (cases bs) auto

lemma settled_used: "settled bs \<Longrightarrow> settled ((s, n, False) # bs)"
  by (cases bs) auto

lemma settled_prefix: "settled (xs @ ys) \<Longrightarrow> settled xs"
proof (induction xs rule: settled_induct)
  case (one x)
  then show ?case by (cases x) auto
qed auto

definition used_head :: "block list \<Rightarrow> bool" where
  "used_head bs \<longleftrightarrow> (case bs of (s, n, True) # _ \<Rightarrow> False | _ \<Rightarrow> True)"

lemma settled_free: "settled ((s, n, True) # bs) \<longleftrightarrow> used_head bs \<and> settled bs"
  by (cases bs) (auto simp: used_head_def)

lemma absorb_settled:
  assumes "settled ys"
  shows "used_head (snd (absorb n ys)) \<and> settled (snd (absorb n ys)) \<and> live (snd (absorb n ys)) = live ys \<and>
         n + 48 * length ys \<le> fst (absorb n ys) + 48 * length (snd (absorb n ys)) \<and>
         length (snd (absorb n ys)) \<le> length ys"
  using assms
proof (induction n ys rule: absorb.induct)
  case (1 n s k bs)
  then show ?case by (auto simp: settled_free live_def)
qed (auto simp: used_head_def)

lemma first_fit_settled:
  assumes "settled bs" "first_fit w bs = Some (s, bs')"
  shows "settled bs' \<and> (\<exists>n. w \<le> n \<and> live bs' = insert (s, n) (live bs) \<and> (s, n, False) \<in> set bs')"
  using assms
proof (induction bs arbitrary: bs')
  case (Cons b bs)
  obtain t n f where b: "b = (t, n, f)" by (cases b)
  show ?case
  proof (cases "f \<and> w \<le> n")
    case True
    with Cons.prems have eq: "s = t" "bs' = carve w t n @ bs" and st: "used_head bs" "settled bs"
      by (auto simp: b settled_free)
    show ?thesis
    proof (cases "w + 80 < n")
      case True
      with \<open>f \<and> w \<le> n\<close> eq st show ?thesis
        by (intro conjI exI[of _ w]) (auto simp: b carve_def settled_used settled_free live_def)
    next
      case False
      with \<open>f \<and> w \<le> n\<close> eq st show ?thesis
        by (intro conjI exI[of _ n]) (auto simp: b carve_def settled_used live_def)
    qed
  next
    case False
    with Cons.prems obtain cs where cs: "first_fit w bs = Some (s, cs)" "bs' = (t, n, f) # cs"
      by (auto simp: b)
    have tl: "settled bs" using Cons.prems settled_tl by (simp add: b)
    have "used_head bs \<Longrightarrow> used_head cs"
      using cs(1) by (cases bs) (auto simp: used_head_def carve_def split: if_splits)
    with Cons.prems cs Cons.IH[OF tl cs(1)] show ?thesis
      by (cases f) (auto simp: b settled_free settled_used live_def)
  qed
qed simp

lemma seg_length: "seg m pos pr cur bs pos' pr' cur' \<Longrightarrow> pos + 64 * length bs \<le> pos'"
  by (induction m pos pr cur bs pos' pr' cur' rule: seg.induct) (auto simp: node_def)

lemma validate_from_ok:
  assumes "seg (heap k) pos pr cur bs (unat (g_heap_end k)) l 0" "unat cursor = pos"
    and "unat (g_heap_base k) \<le> pos" "guard + length bs \<le> 1048576"
  shows "validate_from k guard pr cursor cur = 0"
  using assms
proof (induction bs arbitrary: pos pr cur guard cursor)
  case Nil
  then show ?case by (subst validate_from.simps) simp
next
  case (Cons b bs)
  obtain s n f where b: "b = (s, n, f)" by (cases b)
  from Cons.prems have nd: "node (heap k) pr cur (s, n, f)" and s: "s = pos"
    and rest: "seg (heap k) (pos + 48 + n) cur (blk_next (heap k) cur) bs (unat (g_heap_end k)) l 0"
    by (auto simp: b)
  have le: "pos + 48 + n \<le> unat (g_heap_end k)" using seg_le[OF rest] .
  have c: "unat cur = pos" "128 \<le> pos" "pos + 48 + n < 2 ^ 64" "unat (blk_size (heap k) cur) = n" "16 dvd pos" "16 dvd n"
    using nd s by (auto simp: node_def)
  have pay: "unat (kmem_payload cur) = pos + 48" "unat (kmem_payload cur + blk_size (heap k) cur) = pos + 48 + n"
    using c by (simp_all add: kmem_payload_def SIZEOF_BLOCK_def unat_word_ariths)
  define nxt where "nxt = kmem_payload cur + blk_size (heap k) cur"
  have al: "kmem_align_up_ptr (kmem_payload cur + blk_size (heap k) cur) KMEM_ALIGN = nxt"
    unfolding nxt_def by (rule align_ptr_id) (use pay c in auto)
  have nx: "unat nxt = pos + 48 + n" using pay by (simp add: nxt_def)
  have "validate_from k (Suc guard) cur nxt (blk_next (heap k) cur) = 0"
    by (rule Cons.IH[OF rest nx]) (use Cons.prems in auto)
  moreover have "cur \<noteq> 0" "\<not> cur < g_heap_base k" "\<not> cur + SIZEOF_BLOCK > g_heap_end k" "cur = cursor"
    "nxt \<noteq> 0" "\<not> nxt > g_heap_end k" "\<not> blk_size (heap k) cur > g_heap_end k - kmem_payload cur"
    using c le pay nx Cons.prems(2,3)
    by (auto simp: word_less_nat_alt word_le_nat_alt SIZEOF_BLOCK_def kmem_payload_def unat_sub word_unat_eq_iff)
  ultimately show ?case
    using nd Cons.prems(4) al by (subst validate_from.simps) (simp add: node_def Let_def)
qed

lemma validate_ok:
  assumes "heap_rel k bs" "unat (g_heap_end k) \<le> unat (g_heap_base k) + 2 ^ 26"
  shows "kmem_validate k = 0"
proof -
  from assms obtain l where sg: "seg (heap k) (unat (g_heap_base k)) 0 (g_head k) bs (unat (g_heap_end k)) l 0"
    and h: "g_initialized k" "g_head k = g_heap_base k" "bs \<noteq> []" by (auto simp: heap_rel_def)
  have len: "unat (g_heap_base k) + 64 * length bs \<le> unat (g_heap_end k)" by (rule seg_length[OF sg])
  have "validate_from k 0 0 (g_heap_base k) (g_head k) = 0"
    by (rule validate_from_ok[OF sg]) (use len assms(2) in auto)
  moreover have "g_head k \<noteq> 0" "g_heap_base k < g_heap_end k"
    using sg h len by (cases bs; auto simp: node_def word_less_nat_alt)+
  ultimately show ?thesis using h by (auto simp: kmem_validate_def)
qed

definition round16 :: "nat \<Rightarrow> nat" where
  "round16 n = (n + 15) div 16 * 16"

lemma round16: "n \<le> round16 n" "round16 n < n + 16" "16 dvd round16 n" "0 < n \<Longrightarrow> 16 \<le> round16 n"
  by (simp_all add: round16_def)

lemma unat_round_up:
  fixes v :: u64
  assumes "unat v \<le> 2 ^ 64 - 16"
  shows "unat ((v + 15) AND NOT 15) = round16 (unat v)"
proof -
  have 15: "(15 :: u64) = mask 4" by (simp add: mask_eq_decr_exp)
  have s: "unat (v + 15) = unat v + 15" using assms by (simp add: unat_word_ariths)
  show ?thesis
    unfolding 15 unat_and_not_mask s[unfolded 15] by (simp add: round16_def minus_mod_eq_div_mult)
qed

lemma align_size_spec:
  "kmem_align_up_size v KMEM_ALIGN = (if unat v \<le> 2 ^ 64 - 16 then (v + 15) AND NOT 15 else 0)"
  by (auto simp: kmem_align_up_size_def KMEM_ALIGN_def word_less_nat_alt)

lemma kmem_alloc_spec:
  assumes ok: "heap_ok k bs"
  shows "if bytes = 0 \<or> 2 ^ 64 - 16 < unat bytes then kmem_alloc k bytes = Some (0, k)
         else case first_fit (round16 (unat bytes)) bs of
             None \<Rightarrow> kmem_alloc k bytes = Some (0, k)
           | Some (s, bs') \<Rightarrow> \<exists>m. kmem_alloc k bytes = Some (word_of_nat (s + 48), k\<lparr>heap := m\<rparr>) \<and>
               heap_ok (k\<lparr>heap := m\<rparr>) bs' \<and> (\<forall>a \<in> live_cells bs. m a = heap k a)"
proof (cases "bytes = 0 \<or> 2 ^ 64 - 16 < unat bytes")
  case True
  then show ?thesis using ok by (auto simp: kmem_alloc_def align_size_spec)
next
  case False
  let ?w = "(bytes + 15) AND NOT 15"
  have nz: "0 < unat bytes" using False by (simp add: unat_gt_0)
  have w: "unat ?w = round16 (unat bytes)" using False by (intro unat_round_up) simp
  have w16: "16 \<le> unat ?w" "16 dvd unat ?w" using round16(3,4) nz w by metis+
  then have wnz: "?w \<noteq> 0" by auto
  obtain l where sg: "seg (heap k) (unat (g_heap_base k)) 0 (g_head k) bs (unat (g_heap_end k)) l 0"
    and h: "g_initialized k" "g_head k = g_heap_base k" "settled bs" "bs \<noteq> []"
    using ok by (auto simp: heap_ok_def heap_rel_def)
  have call: "kmem_alloc k bytes = alloc_from ?w k (g_head k)"
    using False h wnz by (simp add: kmem_alloc_def align_size_spec Let_def)
  have spec: "case first_fit (unat ?w) bs of
           None \<Rightarrow> alloc_from ?w k (g_head k) = Some (0, k)
         | Some (s, bs') \<Rightarrow> \<exists>m l'. alloc_from ?w k (g_head k) = Some (word_of_nat (s + 48), k\<lparr>heap := m\<rparr>) \<and>
             seg m (unat (g_heap_base k)) 0 (g_head k) bs' (unat (g_heap_end k)) l' 0 \<and>
             (\<forall>a. unat a < unat (g_heap_base k) \<or> a \<in> live_cells bs \<longrightarrow> m a = heap k a)"
    by (rule alloc_from_spec[OF sg refl w16])
  show ?thesis
  proof (cases "first_fit (round16 (unat bytes)) bs")
    case None
    with False spec call w show ?thesis by simp
  next
    case (Some r)
    obtain s bs' where r: "r = (s, bs')" by (cases r)
    from spec Some r w obtain m l' where
      m: "alloc_from ?w k (g_head k) = Some (word_of_nat (s + 48), k\<lparr>heap := m\<rparr>)"
        "seg m (unat (g_heap_base k)) 0 (g_head k) bs' (unat (g_heap_end k)) l' 0"
        "\<forall>a. unat a < unat (g_heap_base k) \<or> a \<in> live_cells bs \<longrightarrow> m a = heap k a" by auto
    have st: "settled bs'" "bs' \<noteq> []" using first_fit_settled[OF h(3)] Some r by fastforce+
    have "heap_ok (k\<lparr>heap := m\<rparr>) bs'" using ok m(2) st h by (auto simp: heap_ok_def heap_rel_def)
    with False Some r m call show ?thesis by auto
  qed
qed


lemma live_append: "live (xs @ ys) = live xs \<union> live ys"
  by (auto simp: live_def)

lemma live_Nil: "live [] = {}"
  by (simp add: live_def)

lemma live_Cons: "live ((s, n, f) # bs) = (if f then live bs else insert (s, n) (live bs))"
  by (auto simp: live_def)

lemma live_cells_live: "live_cells bs = {a. \<exists>(s, n) \<in> live bs. s + 48 \<le> unat a \<and> unat a < s + 48 + n}"
  by (auto simp: live_cells_def live_def) blast

text \<open>Marking a used block free and merging it with the free blocks after it.\<close>

lemma free_forward:
  assumes xs: "seg m pos pr cur xs s q c" and nd: "node m q c (s, n, False)"
    and ys: "seg m (s + 48 + n) c (blk_next m c) ys e l 0"
  obtains m2 n2 ys2 l2 where "kmem_coalesce_forward c (set_free c 1 m) = Some m2" "(n2, ys2) = absorb n ys"
    "seg m2 pos pr cur xs s q c" "node m2 q c (s, n2, True)" "seg m2 (s + 48 + n2) c (blk_next m2 c) ys2 e l2 0"
    "\<And>a. unat a < s \<or> a \<in> live_cells ys \<Longrightarrow> m2 a = m a"
proof -
  let ?m = "set_free c 1 m"
  have out: "?m a = m a" if "unat a < s \<or> s + 48 \<le> unat a" for a
    using that nd by (intro set_outside) (auto simp: in_header_def node_def)
  have ys1: "seg ?m (s + 48 + n) c (blk_next ?m c) ys e l 0"
    using seg_cong[OF ys, of ?m] out by auto
  have nd1: "node ?m q c (s, n, True)" using nd by (simp add: node_def)
  from coalesce_spec[OF nd1 ys1] obtain m2 l2 where
    m2: "kmem_coalesce_forward c ?m = Some m2" "node m2 q c (s, fst (absorb n ys), True)"
      "seg m2 (s + 48 + fst (absorb n ys)) c (blk_next m2 c) (snd (absorb n ys)) e l2 0"
      "\<forall>a. a \<notin> hdrs ((s, n, True) # ys) \<longrightarrow> m2 a = ?m a" by blast
  have fr: "m2 a = m a" if "unat a < s \<or> a \<in> live_cells ys" for a
  proof -
    have "a \<notin> hdrs ys" "unat a < s \<or> s + 48 \<le> unat a"
      using that hdrs_bounds[OF ys, of a] live_not_hdrs[OF ys, of a] by auto
    with m2(4) out[of a] show ?thesis by (auto simp: hdrs_Cons)
  qed
  have xs2: "seg m2 pos pr cur xs s q c" by (rule seg_cong[OF xs]) (use fr in blast)
  show ?thesis by (rule that[OF m2(1) _ xs2 m2(2,3) fr]) simp_all
qed

lemma free_backward:
  assumes xs: "seg m pos pr cur (xs @ [(t, k, True)]) s q c" and nd: "node m q c (s, n, True)"
    and ys: "seg m (s + 48 + n) c (blk_next m c) ys e l 0" and used: "used_head ys"
  obtains m3 l3 where "kmem_coalesce_forward q m = Some m3"
    "seg m3 pos pr cur (xs @ (t, k + 48 + n, True) # ys) e l3 0"
    "\<And>a. a \<in> live_cells (xs @ ys) \<Longrightarrow> m3 a = m a"
proof -
  from xs obtain p where sx: "seg m pos pr cur xs t p q" and nq: "node m p q (t, k, True)"
    and st: "t + 48 + k = s" "blk_next m q = c" by (auto simp: seg_append)
  have rest: "seg m (t + 48 + k) q (blk_next m q) ((s, n, True) # ys) e l 0" using nd ys st by simp
  have ab: "absorb k ((s, n, True) # ys) = (k + 48 + n, ys)"
    using used by (cases ys) (auto simp: used_head_def split: bool.splits)
  from coalesce_spec[OF nq rest] obtain m3 l3 where
    m3: "kmem_coalesce_forward q m = Some m3" "node m3 p q (t, k + 48 + n, True)"
      "seg m3 (t + 48 + (k + 48 + n)) q (blk_next m3 q) ys e l3 0"
      "\<forall>a. a \<notin> hdrs ((t, k, True) # (s, n, True) # ys) \<longrightarrow> m3 a = m a"
    unfolding ab by auto
  have low: "m3 a = m a" if "unat a < t" for a
    using that st hdrs_bounds[OF ys, of a] by (intro m3(4)[rule_format]) (auto simp: hdrs_Cons)
  have sx3: "seg m3 pos pr cur xs t p q" by (rule seg_cong[OF sx]) (use low in blast)
  have fr: "m3 a = m a" if "a \<in> live_cells (xs @ ys)" for a
  proof (cases "a \<in> live_cells xs")
    case True
    then show ?thesis using live_not_hdrs[OF sx] low by blast
  next
    case False
    then have "a \<in> live_cells ys" using that by (simp add: live_cells_append)
    then show ?thesis using m3(4) live_not_hdrs[OF ys, of a] st by (auto simp: hdrs_Cons)
  qed
  have "seg m3 pos pr cur (xs @ (t, k + 48 + n, True) # ys) e l3 0"
    using sx3 m3(2,3) by (auto simp: seg_append)
  from that[OF m3(1) this fr] show ?thesis .
qed


lemma settled_snoc_resize: "settled (xs @ [(s, n, f)]) \<longleftrightarrow> settled (xs @ [(s', n', f)])"
proof (induction xs rule: settled_induct)
  case (one x)
  then show ?case by (cases x) auto
qed auto

lemma heap_okI:
  assumes "heap_ok k bs" "seg m (unat (g_heap_base k)) 0 (g_head k) bs' (unat (g_heap_end k)) l 0"
    and "settled bs'" "bs' \<noteq> []"
  shows "heap_ok (k\<lparr>heap := m\<rparr>) bs' \<and> kmem_validate (k\<lparr>heap := m\<rparr>) = 0"
proof -
  have "heap_ok (k\<lparr>heap := m\<rparr>) bs'" using assms by (auto simp: heap_ok_def heap_rel_def)
  then show ?thesis using validate_ok[of "k\<lparr>heap := m\<rparr>" bs'] by (simp add: heap_ok_def)
qed

lemma payload_ptr:
  assumes init: "g_initialized k" and nd: "node (heap k) q c (s, n, f)"
    and rng: "unat (g_heap_base k) \<le> s" "s + 48 + n \<le> unat (g_heap_end k)"
  shows "word_of_nat (s + 48) \<noteq> (0 :: u64)" "kmem_ptr_in_heap k (word_of_nat (s + 48))"
    "word_of_nat (s + 48) AND (KMEM_ALIGN - 1) = 0" "kmem_header_from_payload (word_of_nat (s + 48)) = c"
    "kmem_ptr_in_heap k c"
proof -
  let ?p = "word_of_nat (s + 48) :: u64"
  have c: "unat c = s" "s + 48 + n < 2 ^ 64" "16 \<le> n" "16 dvd s" "128 \<le> s" using nd by (auto simp: node_def)
  have p: "unat ?p = s + 48" using c by (simp only: unat_of_nat) simp
  have pc: "?p = c + 48" using c by auto
  have 15: "KMEM_ALIGN - 1 = mask 4" by (simp add: KMEM_ALIGN_def mask_eq_decr_exp)
  have "unat (?p AND mask 4) = 0" unfolding unat_and_mask p using c(4) by (auto simp: dvd_def)
  then show "?p AND (KMEM_ALIGN - 1) = 0" unfolding 15 by (simp add: word_unat_eq_iff)
  show "kmem_header_from_payload ?p = c" by (simp only: pc kmem_header_from_payload_def SIZEOF_BLOCK_def) simp
  show "kmem_ptr_in_heap k ?p" "kmem_ptr_in_heap k c"
    using init p c rng by (auto simp: kmem_ptr_in_heap_def word_le_nat_alt word_less_nat_alt)
  show "?p \<noteq> 0" using p by (metis add_is_0 unat_0 zero_neq_numeral)
qed

lemma free_call:
  assumes ok: "heap_ok k bs" and xs: "seg (heap k) (unat (g_heap_base k)) 0 (g_head k) xs s q c"
    and nd: "node (heap k) q c (s, n, False)" and e: "s + 48 + n \<le> unat (g_heap_end k)"
  shows "kmem_free_checked k (word_of_nat (s + 48)) =
           (case kmem_coalesce_forward c (set_free c 1 (heap k)) of
              None \<Rightarrow> None
            | Some m \<Rightarrow>
                (case (if blk_prev m c \<noteq> 0 \<and> blk_free m (blk_prev m c) \<noteq> 0
                       then kmem_coalesce_forward (blk_prev m c) m else Some m) of
                   None \<Rightarrow> None
                 | Some m \<Rightarrow> Some (kmem_validate (k\<lparr>heap := m\<rparr>), k\<lparr>heap := m\<rparr>)))"
proof -
  have init: "g_initialized k" using ok by (simp add: heap_ok_def heap_rel_def)
  have c: "blk_magic (heap k) c = KMEM_MAGIC" "blk_free (heap k) c = 0" using nd by (auto simp: node_def)
  show ?thesis
    unfolding kmem_free_checked_def Let_def using payload_ptr[OF init nd seg_le[OF xs] e] c
    by (simp split: option.split)
qed

lemma kmem_double_free:
  assumes ok: "heap_ok k bs" and b: "(s, n, True) \<in> set bs"
  shows "kmem_free_checked k (word_of_nat (s + 48)) = Some (-4, k)"
proof -
  obtain xs ys where bs: "bs = xs @ (s, n, True) # ys" using b by (auto simp: in_set_conv_decomp)
  obtain l where sg: "seg (heap k) (unat (g_heap_base k)) 0 (g_head k) bs (unat (g_heap_end k)) l 0"
    and h: "g_initialized k" using ok by (auto simp: heap_ok_def heap_rel_def)
  obtain q c where nd: "node (heap k) q c (s, n, True)" using sg by (auto simp: bs seg_append)
  have e: "unat (g_heap_base k) \<le> s" "s + 48 + n \<le> unat (g_heap_end k)" using seg_bounds[OF sg b] by blast+
  have c: "blk_magic (heap k) c = KMEM_MAGIC" "blk_free (heap k) c \<noteq> 0" using nd by (auto simp: node_def)
  show ?thesis
    unfolding kmem_free_checked_def Let_def using payload_ptr[OF h nd e] c by simp
qed

lemma kmem_free_spec:
  assumes ok: "heap_ok k bs" and b: "(s, n) \<in> live bs"
  shows "\<exists>m bs'. kmem_free_checked k (word_of_nat (s + 48)) = Some (0, k\<lparr>heap := m\<rparr>) \<and>
           heap_ok (k\<lparr>heap := m\<rparr>) bs' \<and> live bs' = live bs - {(s, n)} \<and>
           (\<forall>a \<in> live_cells bs'. m a = heap k a)"
proof -
  obtain xs ys where bs: "bs = xs @ (s, n, False) # ys"
    using b by (auto simp: live_def in_set_conv_decomp)
  obtain l where sg: "seg (heap k) (unat (g_heap_base k)) 0 (g_head k) bs (unat (g_heap_end k)) l 0"
    and h: "g_initialized k" "g_head k = g_heap_base k" and st: "settled bs"
    and small: "unat (g_heap_end k) \<le> unat (g_heap_base k) + 2 ^ 26"
    using ok by (auto simp: heap_ok_def heap_rel_def)
  obtain q c where xs: "seg (heap k) (unat (g_heap_base k)) 0 (g_head k) xs s q c"
    and nd: "node (heap k) q c (s, n, False)"
    and ys: "seg (heap k) (s + 48 + n) c (blk_next (heap k) c) ys (unat (g_heap_end k)) l 0"
    using sg by (auto simp: bs seg_append)
  have e: "s + 48 + n \<le> unat (g_heap_end k)" using seg_le[OF ys] .
  obtain m2 n2 ys2 l2 where m2: "kmem_coalesce_forward c (set_free c 1 (heap k)) = Some m2" "(n2, ys2) = absorb n ys"
      "seg m2 (unat (g_heap_base k)) 0 (g_head k) xs s q c" "node m2 q c (s, n2, True)"
      "seg m2 (s + 48 + n2) c (blk_next m2 c) ys2 (unat (g_heap_end k)) l2 0"
    and fr2: "\<And>a. unat a < s \<or> a \<in> live_cells ys \<Longrightarrow> m2 a = heap k a"
    using free_forward[OF xs nd ys] by metis
  have st': "settled xs" "settled ys" using st settled_prefix settled_append settled_tl unfolding bs by blast+
  have ab: "used_head ys2" "settled ys2" "live ys2 = live ys"
    using absorb_settled[OF st'(2), of n] m2(2) by (metis snd_conv)+
  have ycells: "live_cells ys2 = live_cells ys" using ab(3) by (simp add: live_cells_live)
  have lv: "live bs - {(s, n)} = live xs \<union> live ys"
  proof -
    have "(s, n) \<notin> live xs" "(s, n) \<notin> live ys"
      using seg_bounds[OF xs, of s n False] seg_bounds[OF ys, of s n False] by (auto simp: live_def)
    then show ?thesis by (auto simp: bs live_append live_Cons)
  qed
  have fr2': "m2 a = heap k a" if "a \<in> live_cells xs \<or> a \<in> live_cells ys" for a
    using that fr2 live_not_hdrs[OF xs, of a] by blast
  have pv: "blk_prev m2 c = q" using m2(4) by (simp add: node_def)
  note call = free_call[OF ok xs nd e, unfolded m2(1) option.case pv]
  show ?thesis
  proof (cases "\<exists>zs t k'. xs = zs @ [(t, k', True)]")
    case True
    then obtain zs t k' where zs: "xs = zs @ [(t, k', True)]" by blast
    from m2(3) have q: "q \<noteq> 0" "blk_free m2 q \<noteq> 0" by (auto simp: zs seg_append node_def)
    obtain m3 l3 where m3: "kmem_coalesce_forward q m2 = Some m3"
        "seg m3 (unat (g_heap_base k)) 0 (g_head k) (zs @ (t, k' + 48 + n2, True) # ys2) (unat (g_heap_end k)) l3 0"
      and fr3: "\<And>a. a \<in> live_cells (zs @ ys2) \<Longrightarrow> m3 a = m2 a"
      using free_backward[OF m2(3)[unfolded zs] m2(4,5) ab(1)] by metis
    let ?bs = "zs @ (t, k' + 48 + n2, True) # ys2"
    have "settled ?bs"
      using st'(1) ab settled_snoc_resize[of zs t k' True t "k' + 48 + n2"]
      by (simp add: zs settled_append[of zs _ ys2] settled_free)
    from heap_okI[OF ok m3(2) this] have ok3: "heap_ok (k\<lparr>heap := m3\<rparr>) ?bs" "kmem_validate (k\<lparr>heap := m3\<rparr>) = 0" by auto
    have "live ?bs = live bs - {(s, n)}" unfolding lv by (simp add: zs live_append live_Cons live_Nil ab)
    moreover have "\<forall>a \<in> live_cells ?bs. m3 a = heap k a"
      using fr3 fr2' by (auto simp: live_cells_append live_cells_Cons zs ycells)
    ultimately show ?thesis using call m3(1) ok3 q by auto
  next
    case False
    let ?bs = "xs @ (s, n2, True) # ys2"
    have q: "q = 0 \<or> blk_free m2 q = 0"
    proof (cases xs rule: rev_cases)
      case (snoc zs z)
      obtain t k' g where "z = (t, k', g)" by (cases z)
      with m2(3) snoc False show ?thesis by (auto simp: seg_append node_def)
    qed (use xs in simp)
    have "settled (xs @ [(s, n2, True)])"
    proof (cases xs rule: rev_cases)
      case (snoc zs z)
      obtain t k' g where "z = (t, k', g)" by (cases z)
      with snoc False st'(1) show ?thesis by (auto simp: settled_append[of zs _ "[(s, n2, True)]"])
    qed simp
    then have "settled ?bs" using ab by (simp add: settled_append[of xs _ ys2] settled_free)
    moreover have "seg m2 (unat (g_heap_base k)) 0 (g_head k) ?bs (unat (g_heap_end k)) l2 0"
      using m2(3-5) by (auto simp: seg_append)
    ultimately have ok2: "heap_ok (k\<lparr>heap := m2\<rparr>) ?bs" "kmem_validate (k\<lparr>heap := m2\<rparr>) = 0"
      using heap_okI[OF ok] by auto
    have "live ?bs = live bs - {(s, n)}" unfolding lv by (simp add: live_append live_Cons ab)
    moreover have "\<forall>a \<in> live_cells ?bs. m2 a = heap k a"
      using fr2' by (auto simp: live_cells_append live_cells_Cons ycells)
    ultimately show ?thesis using call ok2 q by auto
  qed
qed

lemma kmem_init_spec:
  assumes base: "128 \<le> unat base" and bytes: "111 \<le> unat bytes" "unat bytes \<le> 2 ^ 26"
    and fit: "unat base + unat bytes < 2 ^ 64"
  defines "start \<equiv> round16 (unat base)"
  defines "usable \<equiv> (unat base + unat bytes - start) div 16 * 16"
  shows "\<exists>k'. kmem_init k base bytes = (0, k') \<and> heap_ok k' [(start, usable - 48, True)] \<and>
           unat (g_heap_base k') = start \<and> unat (g_heap_end k') = start + usable \<and> 96 \<le> usable \<and>
           (\<forall>a. unat a < start \<or> start + 48 \<le> unat a \<longrightarrow> heap k' a = heap k a)"
proof -
  have r: "unat base \<le> start" "start < unat base + 16" "16 dvd start"
    using round16[of "unat base"] by (simp_all add: start_def)
  have u: "usable \<le> unat base + unat bytes - start" "96 \<le> usable" "16 dvd usable"
    using r bytes by (auto simp: usable_def)
  define st where "st = (base + 15) AND NOT 15"
  have st: "unat st = start" unfolding st_def start_def using fit bytes by (intro unat_round_up) simp
  have al: "kmem_align_up_ptr base KMEM_ALIGN = st"
    using fit bytes by (simp add: kmem_align_up_ptr_def KMEM_ALIGN_def st_def word_less_nat_alt)
  have lost: "unat (st - base) = start - unat base" using r st by (simp add: unat_sub word_le_nat_alt)
  define us where "us = (bytes - (st - base)) AND NOT (KMEM_ALIGN - 1)"
  have us: "unat us = usable"
  proof -
    have 15: "KMEM_ALIGN - 1 = mask 4" by (simp add: KMEM_ALIGN_def mask_eq_decr_exp)
    have "unat (bytes - (st - base)) = unat base + unat bytes - start"
      using lost r bytes by (simp add: unat_sub word_le_nat_alt)
    then show ?thesis unfolding us_def 15 unat_and_not_mask by (simp add: usable_def minus_mod_eq_div_mult)
  qed
  define m where "m = set_next st 0 (set_prev st 0 (set_free st 1 (set_size st (us - SIZEOF_BLOCK)
                       (set_magic st KMEM_MAGIC (heap k)))))"
  define k' where "k' = k\<lparr>heap := m, g_heap_base := st, g_heap_end := st + us, g_head := st, g_initialized := True\<rparr>"
  have guards: "base \<noteq> 0" "\<not> bytes < SIZEOF_BLOCK + KMEM_MIN_SPLIT" "st \<noteq> 0" "\<not> st < base"
      "\<not> bytes \<le> (st - base) + SIZEOF_BLOCK + KMEM_MIN_SPLIT" "\<not> us \<le> SIZEOF_BLOCK + KMEM_MIN_SPLIT"
    using base bytes r u st us lost
    by (auto simp: word_less_nat_alt word_le_nat_alt SIZEOF_BLOCK_def KMEM_MIN_SPLIT_def unat_word_ariths)
  have call: "kmem_init k base bytes = (kmem_validate k', k')"
    using guards by (simp add: kmem_init_def al Let_def us_def[symmetric] m_def k'_def)
  have e: "unat (st + us) = start + usable" using st us u r fit by (simp add: unat_word_ariths)
  have sz: "unat (us - SIZEOF_BLOCK) = usable - 48" using us u by (simp add: unat_sub word_le_nat_alt SIZEOF_BLOCK_def)
  have "node m 0 st (start, usable - 48, True)" "blk_next m st = 0"
    using st r base u fit sz by (auto simp: node_def m_def intro: dvd_diff_nat)
  then have rel: "heap_rel k' [(start, usable - 48, True)]"
    using st e u by (auto simp: heap_rel_def k'_def)
  have "heap_ok k' [(start, usable - 48, True)]"
    using rel st e u bytes r by (simp add: heap_ok_def k'_def)
  moreover have "kmem_validate k' = 0" using validate_ok[OF rel] st e u bytes r by (simp add: k'_def)
  moreover have "m a = heap k a" if "unat a < start \<or> start + 48 \<le> unat a" for a
    using that st r fit bytes by (auto simp: m_def in_header_def)
  ultimately show ?thesis using call st e u by (auto simp: k'_def)
qed

text \<open>Bytes inside words.\<close>

lemma byte_offset: "unat (p AND 7) < 8" for p :: u64
  using word_and_le1[of p 7] by (simp add: word_le_nat_alt)

lemma mask_8: "(0xFF :: u64) = mask 8"
  by (simp add: mask_eq_decr_exp)

lemma cell_byte_inj:
  fixes p q :: u64
  assumes "p AND NOT 7 = q AND NOT 7" "p AND 7 = q AND 7"
  shows "p = q"
proof -
  have "x = (x AND NOT k) OR (x AND k)" for x k :: u64
    unfolding bit_eq_iff by (auto simp: bit_or_iff bit_and_iff bit_not_iff)
  then show ?thesis using assms by metis
qed

lemma load8_store8: "load8 (store8 q v m) p = (if p = q then v else load8 m p)"
proof (rule bit_word_eqI)
  fix n
  assume n: "n < LENGTH(8)"
  let ?s = "8 * unat (p AND 7)" and ?t = "8 * unat (q AND 7)"
  have bnd: "?s + n < 64" using byte_offset[of p] n by simp
  have lhs: "bit (load8 m' p) n \<longleftrightarrow> bit (m' (p AND NOT 7)) (?s + n)" for m'
    using n by (simp add: load8_def bit_ucast_iff bit_drop_bit_eq)
  have cell: "bit (store8 q v m (q AND NOT 7)) j \<longleftrightarrow>
      (if ?t \<le> j \<and> j < ?t + 8 then bit v (j - ?t) else bit (m (q AND NOT 7)) j)" if "j < 64" for j
    using that unfolding store8_def Let_def mask_8
    by (auto simp: bit_simps dest: bit_imp_le_length)
  show "bit (load8 (store8 q v m) p) n = bit (if p = q then v else load8 m p) n"
  proof (cases "p AND NOT 7 = q AND NOT 7")
    case True
    show ?thesis
    proof (cases "p = q")
      case True
      then show ?thesis unfolding lhs using cell[OF bnd] n by simp
    next
      case False
      then have "p AND 7 \<noteq> q AND 7" using True cell_byte_inj by blast
      then have "unat (p AND 7) \<noteq> unat (q AND 7)" by (simp add: word_unat_eq_iff)
      then have "\<not> (?t \<le> ?s + n \<and> ?s + n < ?t + 8)" using n by simp
      then show ?thesis using False cell[OF bnd] True unfolding lhs by (simp only: if_False lhs)
    qed
  next
    case False
    moreover from this have "p \<noteq> q" by auto
    ultimately show ?thesis unfolding lhs by (simp add: lhs store8_def Let_def)
  qed
qed

lemma memset_spec:
  assumes "unat dst + unat n \<le> 2 ^ 64"
  shows "load8 (kmem_memset dst v n m) p =
           (if unat dst \<le> unat p \<and> unat p < unat dst + unat n then v else load8 m p)"
proof -
  have "load8 (fold (\<lambda>i. store8 (dst + word_of_nat i) v) [0..<j] m) p =
      (if unat dst \<le> unat p \<and> unat p < unat dst + j then v else load8 m p)" if "j \<le> unat n" for j
    using that
  proof (induction j)
    case (Suc j)
    have "unat (dst + word_of_nat j) = unat dst + j"
      using assms Suc.prems unat_less_length[of n] by (simp add: unat_word_ariths unat_of_nat)
    then have "p = dst + word_of_nat j \<longleftrightarrow> unat p = unat dst + j" by (simp add: word_unat_eq_iff)
    then show ?case using Suc by (auto simp: load8_store8)
  qed auto
  then show ?thesis by (simp add: kmem_memset_def)
qed

text \<open>The list depends on its headers only, so clients may write inside their blocks.\<close>

lemma seg_cong_hdrs:
  assumes "seg m pos pr cur bs pos' pr' cur'" "\<And>a. a \<in> hdrs bs \<Longrightarrow> m' a = m a"
  shows "seg m' pos pr cur bs pos' pr' cur'"
  using assms
proof (induction m pos pr cur bs pos' pr' cur' rule: seg.induct)
  case (2 m pos pr cur s n f bs pos' pr' cur')
  then have nd: "node m pr cur (s, n, f)" and s: "s = pos" and rest: "seg m (pos + 48 + n) cur (blk_next m cur) bs pos' pr' cur'"
    by auto
  have "m' a = m a" if "in_header cur a" for a
    using that nd 2(3)[of a] by (auto simp: in_header_def node_def hdrs_Cons)
  moreover have "unat cur + 48 \<le> 2 ^ 64" using nd by (simp add: node_def)
  ultimately have "node m' pr cur (s, n, f)" "blk_next m' cur = blk_next m cur" using node_cong nd by blast+
  moreover have "seg m' (pos + 48 + n) cur (blk_next m cur) bs pos' pr' cur'"
    by (rule 2(1)[OF rest]) (use 2(3) in \<open>auto simp: hdrs_Cons\<close>)
  ultimately show ?case using s by simp
qed simp

lemma heap_ok_payload:
  assumes "heap_ok k bs" "\<And>a. a \<notin> live_cells bs \<Longrightarrow> m a = heap k a"
  shows "heap_ok (k\<lparr>heap := m\<rparr>) bs"
proof -
  obtain l where sg: "seg (heap k) (unat (g_heap_base k)) 0 (g_head k) bs (unat (g_heap_end k)) l 0"
    and st: "settled bs" "bs \<noteq> []" using assms by (auto simp: heap_ok_def heap_rel_def)
  have "seg m (unat (g_heap_base k)) 0 (g_head k) bs (unat (g_heap_end k)) l 0"
    by (rule seg_cong_hdrs[OF sg]) (use assms(2) live_not_hdrs[OF sg] in blast)
  then show ?thesis using heap_okI[OF assms(1) _ st] by blast
qed

lemma cell_of_byte:
  fixes q dst :: u64
  assumes "16 dvd unat dst" "unat dst \<le> unat q"
  shows "unat dst \<le> unat (q AND NOT 7) \<and> unat (q AND NOT 7) \<le> unat q"
proof -
  have 7: "(7 :: u64) = mask 3" by (simp add: mask_eq_decr_exp)
  have q: "unat (q AND NOT 7) = unat q div 8 * 8"
    unfolding 7 unat_and_not_mask by (simp add: minus_mod_eq_div_mult)
  obtain j where "unat dst = 16 * j" using assms(1) by blast
  then show ?thesis unfolding q using assms(2) by simp
qed

lemma store8_cell:
  fixes dst :: u64
  assumes "16 dvd unat dst" "unat dst \<le> unat q" "unat q < unat dst + n"
    and "\<not> (unat dst \<le> unat a \<and> unat a < unat dst + n)"
  shows "store8 q v m a = m a"
proof -
  have "a \<noteq> q AND NOT 7" using cell_of_byte[OF assms(1,2)] assms(3,4) by auto
  then show ?thesis by (simp add: store8_def Let_def)
qed

lemma memset_cell:
  assumes "16 dvd unat dst" "unat dst + unat n \<le> 2 ^ 64" "\<not> (unat dst \<le> unat a \<and> unat a < unat dst + unat n)"
  shows "kmem_memset dst v n m a = m a"
proof -
  have "fold (\<lambda>i. store8 (dst + word_of_nat i) v) [0..<j] m a = m a" if "j \<le> unat n" for j
    using that
  proof (induction j)
    case (Suc j)
    have "unat (dst + word_of_nat j) = unat dst + j"
      using assms Suc.prems unat_less_length[of n] by (simp add: unat_word_ariths unat_of_nat)
    then show ?case using Suc store8_cell[OF assms(1) _ _ assms(3)] by simp
  qed simp
  then show ?thesis by (simp add: kmem_memset_def)
qed

lemma seg_disjoint:
  assumes "seg m pos pr cur bs pos' pr' cur'" "(s, n, f) \<in> set bs" "(t, k, g) \<in> set bs"
  shows "(s, n, f) = (t, k, g) \<or> s + 48 + n \<le> t \<or> t + 48 + k \<le> s"
  using assms
proof (induction m pos pr cur bs pos' pr' cur' rule: seg.induct)
  case (2 m pos pr cur s' n' f' bs pos' pr' cur')
  then have rest: "seg m (pos + 48 + n') cur (blk_next m cur) bs pos' pr' cur'" and "s' = pos" by auto
  then show ?case
    using 2(1)[OF rest] 2(3,4) seg_bounds[OF rest, of s n f] seg_bounds[OF rest, of t k g] by auto
qed simp

lemma first_fit_free: "first_fit w bs = Some (s, bs') \<Longrightarrow> \<exists>n. (s, n, True) \<in> set bs"
proof (induction bs arbitrary: bs')
  case (Cons b bs)
  then show ?case by (cases b) (auto split: if_splits)
qed simp

lemma kmem_alloc_live:
  assumes ok: "heap_ok k bs" and call: "kmem_alloc k bytes = Some (p, k')"
  shows "p = 0 \<and> k' = k \<or>
         (\<exists>bs' s n. p = word_of_nat (s + 48) \<and> unat p = s + 48 \<and> k' = k\<lparr>heap := heap k'\<rparr> \<and> heap_ok k' bs' \<and>
            live bs' = insert (s, n) (live bs) \<and> (s, n, False) \<in> set bs' \<and> (\<forall>n'. (s, n') \<notin> live bs) \<and>
            unat bytes \<le> n \<and> (\<forall>a \<in> live_cells bs. heap k' a = heap k a))"
proof (cases "bytes = 0 \<or> 2 ^ 64 - 16 < unat bytes \<or> first_fit (round16 (unat bytes)) bs = None")
  case True
  then show ?thesis using kmem_alloc_spec[OF ok, of bytes] call by (auto split: if_splits)
next
  case False
  then obtain s bs' where ff: "first_fit (round16 (unat bytes)) bs = Some (s, bs')" by auto
  with False kmem_alloc_spec[OF ok, of bytes] call obtain m where
    m: "p = word_of_nat (s + 48)" "k' = k\<lparr>heap := m\<rparr>" "heap_ok k' bs'" "\<forall>a \<in> live_cells bs. m a = heap k a"
    by auto
  have st: "settled bs" and sg: "\<exists>l. seg (heap k) (unat (g_heap_base k)) 0 (g_head k) bs (unat (g_heap_end k)) l 0"
    using ok by (auto simp: heap_ok_def heap_rel_def)
  from first_fit_settled[OF st ff] obtain n where
    n: "round16 (unat bytes) \<le> n" "live bs' = insert (s, n) (live bs)" "(s, n, False) \<in> set bs'" by blast
  obtain n0 where n0: "(s, n0, True) \<in> set bs" using first_fit_free[OF ff] by blast
  from sg obtain l where l: "seg (heap k) (unat (g_heap_base k)) 0 (g_head k) bs (unat (g_heap_end k)) l 0" by blast
  have "(s, n') \<notin> live bs" for n'
    using seg_disjoint[OF l n0, of s n' False] by (auto simp: live_def)
  moreover have "unat p = s + 48"
    using m(1) seg_bounds[OF l n0] by (simp only: unat_of_nat) simp
  ultimately show ?thesis
    using m n round16(1)[of "unat bytes"] by (intro disjI2 exI[of _ bs'] exI[of _ s] exI[of _ n]) auto
qed

lemma kmem_calloc_spec:
  assumes ok: "heap_ok k bs" and call: "kmem_calloc k count bytes = Some (p, k')"
  shows "p = 0 \<and> k' = k \<or>
         (\<exists>bs' s n. p = word_of_nat (s + 48) \<and> unat p = s + 48 \<and> heap_ok k' bs' \<and> live bs' = insert (s, n) (live bs) \<and>
            (\<forall>n'. (s, n') \<notin> live bs) \<and> unat count * unat bytes \<le> n \<and>
            (\<forall>a \<in> live_cells bs. heap k' a = heap k a) \<and>
            (\<forall>q. unat p \<le> unat q \<and> unat q < unat p + unat count * unat bytes \<longrightarrow> load8 (heap k') q = 0))"
proof (cases "count \<noteq> 0 \<and> bytes > 0xffffffffffffffff div count")
  case True
  then show ?thesis using call by (simp add: kmem_calloc_def)
next
  case False
  have mult: "unat (count * bytes) = unat count * unat bytes"
  proof (cases "count = 0")
    case nz: False
    then have "unat bytes \<le> (2 ^ 64 - 1) div unat count"
      using False by (simp add: word_less_nat_alt unat_div)
    then have "unat bytes * unat count \<le> 2 ^ 64 - 1" using nz by (simp add: less_eq_div_iff_mult_less_eq unat_gt_0)
    then show ?thesis by (simp add: unat_word_ariths mult.commute)
  qed simp
  obtain p1 k1 where a: "kmem_alloc k (count * bytes) = Some (p1, k1)"
    using call False by (auto simp: kmem_calloc_def Let_def split: option.splits)
  with call False have pk: "p = p1" "k' = (if p \<noteq> 0 then k1\<lparr>heap := kmem_memset p 0 (count * bytes) (heap k1)\<rparr> else k1)"
    by (auto simp: kmem_calloc_def Let_def)
  from kmem_alloc_live[OF ok a] show ?thesis
  proof
    assume "p1 = 0 \<and> k1 = k" then show ?thesis using pk by simp
  next
    assume "\<exists>bs' s n. p1 = word_of_nat (s + 48) \<and> unat p1 = s + 48 \<and> k1 = k\<lparr>heap := heap k1\<rparr> \<and> heap_ok k1 bs' \<and>
            live bs' = insert (s, n) (live bs) \<and> (s, n, False) \<in> set bs' \<and> (\<forall>n'. (s, n') \<notin> live bs) \<and>
            unat (count * bytes) \<le> n \<and> (\<forall>a \<in> live_cells bs. heap k1 a = heap k a)"
    then obtain bs' s n where r: "p1 = word_of_nat (s + 48)" "unat p1 = s + 48" "heap_ok k1 bs'"
        "live bs' = insert (s, n) (live bs)" "(s, n, False) \<in> set bs'" "\<forall>n'. (s, n') \<notin> live bs"
        "unat (count * bytes) \<le> n" "\<forall>a \<in> live_cells bs. heap k1 a = heap k a" by blast
    obtain l where sg: "seg (heap k1) (unat (g_heap_base k1)) 0 (g_head k1) bs' (unat (g_heap_end k1)) l 0"
      using r(3) by (auto simp: heap_ok_def heap_rel_def)
    note b = seg_bounds[OF sg r(5)]
    have pz: "p \<noteq> 0" using pk r(2) by auto
    let ?m = "kmem_memset p 0 (count * bytes) (heap k1)"
    have lim: "unat p + unat (count * bytes) \<le> 2 ^ 64" "16 dvd unat p" using pk r(2,7) b by auto
    have cells: "?m a = heap k1 a" if "\<not> (s + 48 \<le> unat a \<and> unat a < s + 48 + n)" for a
      using that pk r(2,7) by (intro memset_cell[OF lim(2,1)]) auto
    have "heap_ok (k1\<lparr>heap := ?m\<rparr>) bs'"
    proof (rule heap_ok_payload[OF r(3)])
      show "?m a = heap k1 a" if "a \<notin> live_cells bs'" for a
        using that r(5) by (intro cells) (auto simp: live_cells_def)
    qed
    moreover have "\<forall>a \<in> live_cells bs. ?m a = heap k a"
    proof
      fix a
      assume a: "a \<in> live_cells bs"
      then obtain t j where t: "(t, j) \<in> live bs" "t + 48 \<le> unat a" "unat a < t + 48 + j"
        by (auto simp: live_cells_live)
      then have "(t, j, False) \<in> set bs'" "t \<noteq> s" using r(4,6) by (auto simp: live_def)
      then have "\<not> (s + 48 \<le> unat a \<and> unat a < s + 48 + n)"
        using seg_disjoint[OF sg r(5), of t j False] t by auto
      then show "?m a = heap k a" using cells r(8) a by simp
    qed
    moreover have "load8 ?m q = 0" if "unat p \<le> unat q" "unat q < unat p + unat count * unat bytes" for q
      using that memset_spec[OF lim(1), of 0 "heap k1" q] mult by simp
    ultimately show ?thesis
      using pk pz r mult by (intro disjI2 exI[of _ bs'] exI[of _ s] exI[of _ n]) auto
  qed
qed

section \<open>Histories of clients\<close>

text \<open>
  A history of the heap: clients allocate, release what they hold and write bytes inside what they
  hold. The set holds the pointer and the requested size of every allocation not released yet.
\<close>

inductive kmem_history :: "kmem \<Rightarrow> (u64 \<times> u64) set \<Rightarrow> bool" where
  init: "128 \<le> unat base \<Longrightarrow> 111 \<le> unat bytes \<Longrightarrow> unat bytes \<le> 2 ^ 26 \<Longrightarrow> unat base + unat bytes < 2 ^ 64 \<Longrightarrow>
    kmem_init k0 base bytes = (rc, k) \<Longrightarrow> kmem_history k {}"
| alloc: "kmem_history k L \<Longrightarrow> kmem_alloc k bytes = Some (p, k') \<Longrightarrow>
    kmem_history k' (if p = 0 then L else insert (p, bytes) L)"
| free: "kmem_history k L \<Longrightarrow> (p, bytes) \<in> L \<Longrightarrow> kmem_free_checked k p = Some (rc, k') \<Longrightarrow>
    kmem_history k' (L - {(p, bytes)})"
| store: "kmem_history k L \<Longrightarrow> (p, bytes) \<in> L \<Longrightarrow> unat p \<le> unat q \<Longrightarrow> unat q < unat p + unat bytes \<Longrightarrow>
    kmem_history (k\<lparr>heap := store8 q v (heap k)\<rparr>) L"

text \<open>Every held pointer is the payload of its own live block.\<close>

definition holds :: "block list \<Rightarrow> (u64 \<times> u64) set \<Rightarrow> bool" where
  "holds bs L \<longleftrightarrow>
     (\<forall>(p, b) \<in> L. \<exists>s n. unat p = s + 48 \<and> (s, n) \<in> live bs \<and> unat b \<le> n) \<and> inj_on fst L"

lemma holdsE:
  assumes "holds bs L" "(p, b) \<in> L"
  obtains s n where "unat p = s + 48" "(s, n) \<in> live bs" "unat b \<le> n"
  using assms by (auto simp: holds_def)

lemma kmem_history_inv: "kmem_history k L \<Longrightarrow> \<exists>bs. heap_ok k bs \<and> holds bs L"
proof (induction rule: kmem_history.induct)
  case (init base bytes k0 rc k)
  then show ?case using kmem_init_spec[OF init(1-4), of k0] by (auto simp: holds_def)
next
  case (alloc k L bytes p k')
  then obtain bs where bs: "heap_ok k bs" "holds bs L" by blast
  from kmem_alloc_live[OF bs(1) alloc(2)] show ?case
  proof
    assume "p = 0 \<and> k' = k" then show ?thesis using bs by auto
  next
    assume "\<exists>bs' s n. p = word_of_nat (s + 48) \<and> unat p = s + 48 \<and> k' = k\<lparr>heap := heap k'\<rparr> \<and> heap_ok k' bs' \<and>
            live bs' = insert (s, n) (live bs) \<and> (s, n, False) \<in> set bs' \<and> (\<forall>n'. (s, n') \<notin> live bs) \<and>
            unat bytes \<le> n \<and> (\<forall>a \<in> live_cells bs. heap k' a = heap k a)"
    then obtain bs' s n where r: "unat p = s + 48" "heap_ok k' bs'" "live bs' = insert (s, n) (live bs)"
        "\<forall>n'. (s, n') \<notin> live bs" "unat bytes \<le> n" by blast
    have "p \<notin> fst ` L" using r(1,4) bs(2) by (fastforce elim: holdsE)
    with r bs(2) have "holds bs' (insert (p, bytes) L)" by (fastforce simp: holds_def)
    moreover have "p \<noteq> 0" using r(1) by auto
    ultimately show ?thesis using r(2) by auto
  qed
next
  case (free k L p bytes rc k')
  then obtain bs where bs: "heap_ok k bs" "holds bs L" by blast
  then obtain s n where s: "unat p = s + 48" "(s, n) \<in> live bs" using free(2) holdsE by metis
  have p: "word_of_nat (s + 48) = p" by (simp flip: s(1))
  from kmem_free_spec[OF bs(1) s(2), unfolded p] free(3) obtain bs' where
    r: "heap_ok k' bs'" "live bs' = live bs - {(s, n)}" by auto
  have "holds bs' (L - {(p, bytes)})"
    unfolding holds_def
  proof (intro conjI ballI)
    show "inj_on fst (L - {(p, bytes)})" using bs(2) by (auto simp: holds_def intro: inj_on_diff)
    fix x
    assume x: "x \<in> L - {(p, bytes)}"
    obtain q b where qb: "x = (q, b)" by (cases x)
    obtain t j where t: "unat q = t + 48" "(t, j) \<in> live bs" "unat b \<le> j"
      using holdsE[OF bs(2), of q b] x qb by auto
    have "inj_on fst L" using bs(2) by (simp add: holds_def)
    then have "q \<noteq> p" using x qb free(2) inj_onD[of fst L x "(p, bytes)"] by auto
    then have "t \<noteq> s" using t(1) s(1) by (metis word_unat_eq_iff)
    with t r(2) show "case x of (p, b) \<Rightarrow> \<exists>s n. unat p = s + 48 \<and> (s, n) \<in> live bs' \<and> unat b \<le> n"
      by (auto simp: qb)
  qed
  with r(1) show ?case by blast
next
  case (store k L p bytes q v)
  then obtain bs where bs: "heap_ok k bs" "holds bs L" by blast
  then obtain s n where s: "unat p = s + 48" "(s, n) \<in> live bs" "unat bytes \<le> n" using store(2) holdsE by metis
  obtain l where sg: "seg (heap k) (unat (g_heap_base k)) 0 (g_head k) bs (unat (g_heap_end k)) l 0"
    using bs(1) by (auto simp: heap_ok_def heap_rel_def)
  have al: "16 dvd unat p" using s seg_bounds[OF sg, of s n False] by (auto simp: live_def)
  have "heap_ok (k\<lparr>heap := store8 q v (heap k)\<rparr>) bs"
  proof (rule heap_ok_payload[OF bs(1)])
    show "store8 q v (heap k) a = heap k a" if "a \<notin> live_cells bs" for a
      using that s store(3,4) by (intro store8_cell[OF al, of q n]) (auto simp: live_cells_live)
  qed
  with bs(2) show ?case by blast
qed

text \<open>The statistics of a list of blocks.\<close>

definition used_total :: "block list \<Rightarrow> nat" where
  "used_total bs = (\<Sum>(s, n, f) \<leftarrow> bs. if f then 0 else n)"

definition free_total :: "block list \<Rightarrow> nat" where
  "free_total bs = (\<Sum>(s, n, f) \<leftarrow> bs. if f then n else 0)"

definition free_blocks :: "block list \<Rightarrow> nat" where
  "free_blocks bs = length (filter (\<lambda>(s, n, f). f) bs)"

definition largest :: "block list \<Rightarrow> nat \<Rightarrow> nat" where
  "largest = fold (\<lambda>(s, n, f) x. if f then max x n else x)"

lemma stats_from_spec:
  assumes "seg m pos pr cur bs e l 0"
  shows "\<exists>st'. stats_from m cur st = Some st' \<and> total_bytes st' = total_bytes st \<and>
     block_count st' = block_count st + word_of_nat (length bs) \<and>
     free_count st' = free_count st + word_of_nat (free_blocks bs) \<and>
     used_bytes st' = used_bytes st + word_of_nat (used_total bs) \<and>
     free_bytes st' = free_bytes st + word_of_nat (free_total bs) \<and>
     unat (largest_free st') = largest bs (unat (largest_free st))"
  using assms
proof (induction bs arbitrary: pos pr cur st)
  case Nil
  then show ?case
    by (subst stats_from.simps) (simp add: used_total_def free_total_def free_blocks_def largest_def)
next
  case (Cons b bs)
  obtain s n f where b: "b = (s, n, f)" by (cases b)
  from Cons.prems have nd: "node m pr cur (s, n, f)"
    and rest: "seg m (pos + 48 + n) cur (blk_next m cur) bs e l 0" by (auto simp: b)
  have c: "cur \<noteq> 0" "(blk_free m cur \<noteq> 0) = f" "unat (blk_size m cur) = n" using nd by (auto simp: node_def)
  have sz: "blk_size m cur = word_of_nat n" by (simp flip: c(3))
  define g where "g = (if blk_size m cur > largest_free st then blk_size m cur else largest_free st)"
  have big: "unat g = max (unat (largest_free st)) n"
    using c(3) by (auto simp: g_def word_less_nat_alt)
  show ?case
  proof (cases f)
    case True
    let ?st = "st\<lparr>block_count := block_count st + 1, free_count := free_count st + 1,
      free_bytes := free_bytes st + blk_size m cur,
      largest_free := g\<rparr>"
    have "stats_from m cur st = stats_from m (blk_next m cur) ?st"
      using c True by (subst stats_from.simps) (simp add: Let_def g_def)
    with Cons.IH[OF rest, of ?st] True show ?thesis
      by (auto simp: b used_total_def free_total_def free_blocks_def largest_def big sz)
  next
    case False
    let ?st = "st\<lparr>block_count := block_count st + 1, used_bytes := used_bytes st + blk_size m cur\<rparr>"
    have "stats_from m cur st = stats_from m (blk_next m cur) ?st"
      using c False by (subst stats_from.simps) (simp add: Let_def)
    with Cons.IH[OF rest, of ?st] False show ?thesis
      by (auto simp: b used_total_def free_total_def free_blocks_def largest_def sz)
  qed
qed

lemma seg_total: "seg m pos pr cur bs pos' pr' cur' \<Longrightarrow> pos' = pos + 48 * length bs + used_total bs + free_total bs"
  by (induction m pos pr cur bs pos' pr' cur' rule: seg.induct) (auto simp: used_total_def free_total_def)

lemma kmem_stats_spec:
  assumes "heap_ok k bs"
  shows "\<exists>st'. kmem_get_stats k (Some st) = Some (Some st') \<and>
           unat (block_count st') = length bs \<and> unat (free_count st') = free_blocks bs \<and>
           unat (used_bytes st') = used_total bs \<and> unat (free_bytes st') = free_total bs \<and>
           unat (largest_free st') = largest bs 0 \<and>
           unat (total_bytes st') = 48 * length bs + used_total bs + free_total bs"
proof -
  obtain l where sg: "seg (heap k) (unat (g_heap_base k)) 0 (g_head k) bs (unat (g_heap_end k)) l 0"
    and init: "g_initialized k" using assms by (auto simp: heap_ok_def heap_rel_def)
  have tot: "unat (g_heap_end k) = unat (g_heap_base k) + 48 * length bs + used_total bs + free_total bs"
    by (rule seg_total[OF sg])
  have lim: "unat (g_heap_end k) < 2 ^ 64" using unat_less_length[of "g_heap_end k"] by simp
  have fb: "free_blocks bs \<le> length bs" by (simp add: free_blocks_def)
  have word: "unat (word_of_nat x :: u64) = x" if "x \<le> unat (g_heap_end k)" for x
    using that lim by (simp add: unat_of_nat)
  let ?st = "st\<lparr>used_bytes := 0, free_bytes := 0, block_count := 0, free_count := 0, largest_free := 0,
                total_bytes := g_heap_end k - g_heap_base k\<rparr>"
  obtain st' where st': "stats_from (heap k) (g_head k) ?st = Some st'" "total_bytes st' = g_heap_end k - g_heap_base k"
      "block_count st' = word_of_nat (length bs)" "free_count st' = word_of_nat (free_blocks bs)"
      "used_bytes st' = word_of_nat (used_total bs)" "free_bytes st' = word_of_nat (free_total bs)"
      "unat (largest_free st') = largest bs 0"
    using stats_from_spec[OF sg, of ?st] by auto
  have "unat (g_heap_end k - g_heap_base k) = 48 * length bs + used_total bs + free_total bs"
    using tot by (simp add: unat_sub word_le_nat_alt)
  moreover have "kmem_get_stats k (Some st) = Some (Some st')"
    using init st'(1) by (simp add: kmem_get_stats_def Let_def)
  ultimately show ?thesis using st' tot fb by (auto simp: word)
qed


section \<open>Properties of the heap\<close>

text \<open>
  C12. \<open>kmem_alloc\<close> refines first fit on the list of blocks: it returns the null pointer exactly when
  the size is 0 or cannot be rounded up, or no free block is large enough, and then nothing changes;
  otherwise it takes the first free block that fits, splitting off the rest when more than 80 bytes
  remain, keeps the tiling, and leaves the contents of all live blocks untouched. It always returns.
\<close>

theorem kmem_alloc_first_fit:
  assumes "heap_ok k bs"
  shows "if bytes = 0 \<or> 2 ^ 64 - 16 < unat bytes then kmem_alloc k bytes = Some (0, k)
         else case first_fit (round16 (unat bytes)) bs of
             None \<Rightarrow> kmem_alloc k bytes = Some (0, k)
           | Some (s, bs') \<Rightarrow> \<exists>m. kmem_alloc k bytes = Some (word_of_nat (s + 48), k\<lparr>heap := m\<rparr>) \<and>
               heap_ok (k\<lparr>heap := m\<rparr>) bs' \<and> (\<forall>a \<in> live_cells bs. m a = heap k a)"
  by (rule kmem_alloc_spec[OF assms])

text \<open>
  C13. \<open>kmem_free_checked\<close> on the payload of a live block returns 0 (its own validation passes), removes
  exactly that allocation, merges free neighbours so that no two remain adjacent, and leaves the
  contents of the other live blocks untouched; on the payload of a free block it returns -4 and
  changes nothing.
\<close>

theorem kmem_free_exact:
  assumes "heap_ok k bs"
  shows "(\<forall>(s, n) \<in> live bs. \<exists>m bs'. kmem_free_checked k (word_of_nat (s + 48)) = Some (0, k\<lparr>heap := m\<rparr>) \<and>
            heap_ok (k\<lparr>heap := m\<rparr>) bs' \<and> live bs' = live bs - {(s, n)} \<and>
            (\<forall>a \<in> live_cells bs'. m a = heap k a)) \<and>
         (\<forall>(s, n, f) \<in> set bs. f \<longrightarrow> kmem_free_checked k (word_of_nat (s + 48)) = Some (-4, k))"
  using kmem_free_spec[OF assms] kmem_double_free[OF assms] by (auto simp del: of_nat_add)

text \<open>
  C14. \<open>kmem_calloc\<close> either returns the null pointer and changes nothing, or returns a new live block
  of at least \<open>count * bytes\<close> bytes, computed without overflow, all of which are zero, with the other
  live blocks untouched.
\<close>

theorem kmem_calloc_zeroed:
  assumes "heap_ok k bs" "kmem_calloc k count bytes = Some (p, k')"
  shows "p = 0 \<and> k' = k \<or>
         (\<exists>bs' s n. p = word_of_nat (s + 48) \<and> unat p = s + 48 \<and> heap_ok k' bs' \<and> live bs' = insert (s, n) (live bs) \<and>
            (\<forall>n'. (s, n') \<notin> live bs) \<and> unat count * unat bytes \<le> n \<and>
            (\<forall>a \<in> live_cells bs. heap k' a = heap k a) \<and>
            (\<forall>q. unat p \<le> unat q \<and> unat q < unat p + unat count * unat bytes \<longrightarrow> load8 (heap k') q = 0))"
  by (rule kmem_calloc_spec[OF assms])

text \<open>
  C15. Along every history of allocations, releases and writes inside held blocks the heap stays valid,
  held blocks are 16-byte aligned, pairwise disjoint and inside the heap, and releasing any of them
  succeeds.
\<close>

theorem kmem_history_safe:
  assumes "kmem_history k L"
  shows "kmem_validate k = 0 \<and>
         (\<forall>(p, b) \<in> L. 16 dvd unat p \<and> unat (g_heap_base k) + 48 \<le> unat p \<and>
            unat p + unat b \<le> unat (g_heap_end k) \<and> (\<exists>k'. kmem_free_checked k p = Some (0, k'))) \<and>
         (\<forall>(p, b) \<in> L. \<forall>(q, c) \<in> L. p = q \<or> unat p + unat b \<le> unat q \<or> unat q + unat c \<le> unat p)"
proof -
  obtain bs where bs: "heap_ok k bs" "holds bs L" using kmem_history_inv[OF assms] by blast
  then obtain l where sg: "seg (heap k) (unat (g_heap_base k)) 0 (g_head k) bs (unat (g_heap_end k)) l 0"
    by (auto simp: heap_ok_def heap_rel_def)
  have one: "16 dvd unat p \<and> unat (g_heap_base k) + 48 \<le> unat p \<and> unat p + unat b \<le> unat (g_heap_end k) \<and>
      (\<exists>k'. kmem_free_checked k p = Some (0, k'))" if pb: "(p, b) \<in> L" for p b
  proof -
    obtain s n where s: "unat p = s + 48" "(s, n) \<in> live bs" "unat b \<le> n" by (rule holdsE[OF bs(2) pb])
    have "word_of_nat (s + 48) = p" by (simp flip: s(1))
    then show ?thesis
      using s seg_bounds[OF sg, of s n False] kmem_free_spec[OF bs(1) s(2)]
      by (auto simp: live_def simp del: of_nat_add)
  qed
  have two: "p = q \<or> unat p + unat b \<le> unat q \<or> unat q + unat c \<le> unat p"
    if pb: "(p, b) \<in> L" and qc: "(q, c) \<in> L" for p b q c
  proof -
    obtain s n where s: "unat p = s + 48" "(s, n) \<in> live bs" "unat b \<le> n" by (rule holdsE[OF bs(2) pb])
    obtain t j where t: "unat q = t + 48" "(t, j) \<in> live bs" "unat c \<le> j" by (rule holdsE[OF bs(2) qc])
    show ?thesis
      using seg_disjoint[OF sg, of s n False t j False] s t by (auto simp: live_def word_unat_eq_iff)
  qed
  have "kmem_validate k = 0" using validate_ok[of k bs] bs(1) by (simp add: heap_ok_def)
  with one two show ?thesis by blast
qed

subsection \<open>A concrete heap\<close>

definition blank_kmem :: kmem where
  "blank_kmem = \<lparr>heap = (\<lambda>_. 0), g_heap_base = 0, g_heap_end = 0, g_head = 0, g_initialized = False\<rparr>"

definition sample_kmem :: kmem where
  "sample_kmem = snd (kmem_init blank_kmem 0x1000 4096)"

lemma sample_kmem: "kmem_init blank_kmem 0x1000 4096 = (0, sample_kmem)" "heap_ok sample_kmem [(4096, 4048, True)]"
proof -
  have r: "round16 4096 = 4096" by (simp add: round16_def)
  obtain k' where k': "kmem_init blank_kmem 0x1000 4096 = (0, k')" "heap_ok k' [(4096, 4048, True)]"
    using kmem_init_spec[of "0x1000" 4096 blank_kmem] by (auto simp: r)
  then show "kmem_init blank_kmem 0x1000 4096 = (0, sample_kmem)" "heap_ok sample_kmem [(4096, 4048, True)]"
    by (simp_all add: sample_kmem_def)
qed

lemma sample_alloc:
  obtains m where "kmem_alloc sample_kmem 100 = Some (0x1030, sample_kmem\<lparr>heap := m\<rparr>)"
    "heap_ok (sample_kmem\<lparr>heap := m\<rparr>) [(4096, 112, False), (4256, 3888, True)]"
  using kmem_alloc_spec[OF sample_kmem(2), of 100] by (auto simp: round16_def carve_def)

theorem kmem_alloc_first_fit_witness:
  "\<exists>m. kmem_alloc sample_kmem 100 = Some (0x1030, sample_kmem\<lparr>heap := m\<rparr>) \<and>
     heap_ok (sample_kmem\<lparr>heap := m\<rparr>) [(4096, 112, False), (4256, 3888, True)]"
  using kmem_alloc_first_fit[OF sample_kmem(2), of 100] by (auto simp: round16_def carve_def)

theorem kmem_free_exact_witness:
  "\<exists>k k' bs. kmem_free_checked k 0x1030 = Some (0, k') \<and> heap_ok k' bs \<and> live bs = {} \<and>
     kmem_free_checked sample_kmem 0x1030 = Some (-4, sample_kmem)"
proof -
  obtain m where "heap_ok (sample_kmem\<lparr>heap := m\<rparr>) [(4096, 112, False), (4256, 3888, True)]"
    by (rule sample_alloc)
  from kmem_free_exact[OF this] kmem_free_exact[OF sample_kmem(2)] show ?thesis
    by (fastforce simp: live_Cons live_Nil)
qed

theorem kmem_calloc_zeroed_witness:
  "\<exists>k'. kmem_calloc sample_kmem 25 4 = Some (0x1030, k') \<and>
     (\<forall>q. 0x1030 \<le> unat q \<and> unat q < 0x1030 + 100 \<longrightarrow> load8 (heap k') q = 0)"
proof -
  obtain m where "kmem_alloc sample_kmem 100 = Some (0x1030, sample_kmem\<lparr>heap := m\<rparr>)" by (rule sample_alloc)
  then have c: "kmem_calloc sample_kmem 25 4 =
      Some (0x1030, sample_kmem\<lparr>heap := kmem_memset 0x1030 0 100 m\<rparr>)"
    by (simp add: kmem_calloc_def)
  from kmem_calloc_zeroed[OF sample_kmem(2) c] c show ?thesis by auto
qed

theorem kmem_history_safe_witness:
  "\<exists>k. kmem_history k {(0x1030, 100)} \<and> kmem_validate k = 0 \<and> (\<exists>k'. kmem_free_checked k 0x1030 = Some (0, k'))"
proof -
  have h: "kmem_history sample_kmem {}" by (rule kmem_history.init[OF _ _ _ _ sample_kmem(1)]) simp_all
  obtain m where "kmem_alloc sample_kmem 100 = Some (0x1030, sample_kmem\<lparr>heap := m\<rparr>)" by (rule sample_alloc)
  from kmem_history.alloc[OF h this] have h1: "kmem_history (sample_kmem\<lparr>heap := m\<rparr>) {(0x1030, 100)}" by simp
  from kmem_history_safe[OF h1] h1 show ?thesis by blast
qed

end
