(* ===== verification/Kernel_Heap.thy ===== *)
theory Kernel_Heap
  imports Kernel_Mm Kmem
begin

text \<open>
  The heap bring-up of \<^verbatim>\<open>src/kernel.c\<close>: \<open>kernel_heap_init\<close> hands the 64 KiB array
  \<^verbatim>\<open>m8_boot_heap\<close> to the heap, probes one allocation and reports the statistics.
\<close>

definition M8_BOOT_HEAP_SIZE :: u64 where
  "M8_BOOT_HEAP_SIZE = 64 * 1024"

text \<open>
  The parameter is the address of \<^verbatim>\<open>m8_boot_heap\<close>. \<open>None\<close> stands for a loop of the heap that does
  not end. The statistics are read into a local variable, whose initial value is a parameter too.
\<close>

definition kernel_heap_init :: "u64 \<Rightarrow> kmem_stats \<Rightarrow> kmem \<Rightarrow> (console list \<times> kmem) option" where
  "kernel_heap_init m8_boot_heap st0 k =
     (case kmem_init k m8_boot_heap M8_BOOT_HEAP_SIZE of
        (rc, k) \<Rightarrow>
          if rc \<noteq> 0
          then Some ([Text ''[m8] ERROR: kmem_init failed rc='', Hex64 (ucast (word_of_int rc :: u32)), line []], k)
          else
            (case kmem_alloc k 128 of
               None \<Rightarrow> None
             | Some (probe, k) \<Rightarrow>
                 if probe = 0 then Some ([line ''[m8] ERROR: kmem_alloc probe failed''], k)
                 else
                   (case kmem_free_checked k probe of
                      None \<Rightarrow> None
                    | Some (rc, k) \<Rightarrow>
                        if rc \<noteq> 0 then Some ([line ''[m8] ERROR: kmem_free_checked probe failed''], k)
                        else
                          (case kmem_get_stats k (Some st0) of
                             None \<Rightarrow> None
                           | Some None \<Rightarrow> None
                           | Some (Some st) \<Rightarrow>
                               Some ([Text ''M8 kmem initialized: total='', Hex64 (total_bytes st),
                                      Text '' free='', Hex64 (free_bytes st),
                                      Text '' largest='', Hex64 (largest_free st), line []], k)))))"

lemma settled_all_free:
  assumes "settled bs" "bs \<noteq> []" "live bs = {}"
  shows "\<exists>s n. bs = [(s, n, True)]"
proof (cases bs)
  case (Cons b cs)
  obtain s n f where b: "b = (s, n, f)" by (cases b)
  have f: f using assms by (auto simp: Cons b live_Cons split: if_splits)
  have "cs = []"
  proof (cases cs)
    case (Cons c ds)
    obtain t k g where "c = (t, k, g)" by (cases c)
    with assms f \<open>bs = b # cs\<close> Cons b show ?thesis by (auto simp: live_Cons split: if_splits)
  qed simp
  with f b Cons show ?thesis by simp
qed (use assms in simp)

lemma boot_heap_probe:
  assumes "heap_ok k [(s, 65488, True)]"
  obtains p k1 k2 bs where "kmem_alloc k 128 = Some (p, k1)" "p \<noteq> 0"
    "kmem_free_checked k1 p = Some (0, k2)" "heap_ok k2 bs" "live bs = {}"
    "g_heap_base k2 = g_heap_base k" "g_heap_end k2 = g_heap_end k"
proof -
  let ?bs = "[(s, 128, False), (s + 176, 65312, True)]"
  obtain m where m: "kmem_alloc k 128 = Some (word_of_nat (s + 48), k\<lparr>heap := m\<rparr>)" "heap_ok (k\<lparr>heap := m\<rparr>) ?bs"
  proof -
    have "first_fit (round16 (unat (128 :: u64))) [(s, 65488, True)] = Some (s, ?bs)"
      by (simp add: round16_def carve_def)
    with kmem_alloc_spec[OF assms, of 128] show ?thesis using that by fastforce
  qed
  have lv: "(s, 128) \<in> live ?bs" "live ?bs = {(s, 128)}" by (simp_all add: live_Cons live_Nil)
  obtain l where sg: "seg m (unat (g_heap_base k)) 0 (g_head k) ?bs (unat (g_heap_end k)) l 0" and i: "g_initialized k"
    using m(2) by (auto simp: heap_ok_def heap_rel_def)
  then obtain q c where nd: "node m q c (s, 128, False)" by auto
  have "word_of_nat (s + 48) \<noteq> (0 :: u64)"
    by (rule payload_ptr(1)[of "k\<lparr>heap := m\<rparr>" q c s 128 False])
      (use i nd seg_bounds[OF sg, of s 128 False] in simp_all)
  moreover obtain m2 bs where "kmem_free_checked (k\<lparr>heap := m\<rparr>) (word_of_nat (s + 48)) = Some (0, k\<lparr>heap := m2\<rparr>)"
      "heap_ok (k\<lparr>heap := m2\<rparr>) bs" "live bs = {}"
    using kmem_free_spec[OF m(2) lv(1)] lv(2) by auto
  ultimately show ?thesis using that[OF m(1)] by simp
qed

text \<open>
  \<open>kernel_heap_init\<close> on a page-aligned array above the null page returns, reports a heap of
  65536 bytes of which 65488 are free in one block, and leaves a valid heap with nothing allocated.
\<close>

theorem kernel_heap_init_ready:
  assumes "4096 \<le> unat a" "4096 dvd unat a" "unat a + 0x10000 < 2 ^ 64"
  shows "\<exists>k' s. kernel_heap_init a st0 k =
           Some ([Text ''M8 kmem initialized: total='', Hex64 0x10000, Text '' free='', Hex64 65488,
                  Text '' largest='', Hex64 65488, line []], k') \<and> heap_ok k' [(s, 65488, True)]"
proof -
  have size: "unat M8_BOOT_HEAP_SIZE = 0x10000" by (simp add: M8_BOOT_HEAP_SIZE_def)
  have r: "round16 (unat a) = unat a" using assms(2) by (auto simp: round16_def)
  have u: "(unat a + unat M8_BOOT_HEAP_SIZE - round16 (unat a)) div 16 * 16 = 0x10000" by (simp add: r size)
  obtain k0 where k0: "kmem_init k a M8_BOOT_HEAP_SIZE = (0, k0)" "heap_ok k0 [(unat a, 65488, True)]"
      "unat (g_heap_base k0) = unat a" "unat (g_heap_end k0) = unat a + 0x10000"
    using kmem_init_spec[of a M8_BOOT_HEAP_SIZE k] assms unfolding u r by (auto simp: size)
  obtain p k1 k2 bs where p: "kmem_alloc k0 128 = Some (p, k1)" "p \<noteq> 0" "kmem_free_checked k1 p = Some (0, k2)"
      "heap_ok k2 bs" "live bs = {}" "g_heap_base k2 = g_heap_base k0" "g_heap_end k2 = g_heap_end k0"
    by (rule boot_heap_probe[OF k0(2)])
  obtain l where sg: "seg (heap k2) (unat a) 0 (g_head k2) bs (unat a + 0x10000) l 0"
    and st: "settled bs" "bs \<noteq> []"
    using p(4,6,7) k0(3,4) by (auto simp: heap_ok_def heap_rel_def)
  obtain s n where bs: "bs = [(s, n, True)]" using settled_all_free[OF st p(5)] by blast
  have n: "n = 65488" using seg_total[OF sg] by (simp add: bs used_total_def free_total_def)
  obtain st' where "kmem_get_stats k2 (Some st0) = Some (Some st')" "unat (total_bytes st') = 0x10000"
      "unat (free_bytes st') = 65488" "unat (largest_free st') = 65488"
    using kmem_stats_spec[OF p(4), of st0]
    by (auto simp: bs n used_total_def free_total_def largest_def)
  then have "kernel_heap_init a st0 k = Some ([Text ''M8 kmem initialized: total='', Hex64 0x10000, Text '' free='', Hex64 65488,
      Text '' largest='', Hex64 65488, line []], k2)"
    using k0(1) p(1-3) by (simp add: kernel_heap_init_def word_unat_eq_iff)
  with p(4) show ?thesis by (auto simp: bs n)
qed

theorem kernel_heap_init_ready_witness:
  "\<exists>k' s. kernel_heap_init 0x100000 \<lparr>total_bytes = 0, used_bytes = 0, free_bytes = 0, block_count = 0, free_count = 0,
       largest_free = 0\<rparr> blank_kmem =
     Some ([Text ''M8 kmem initialized: total='', Hex64 0x10000, Text '' free='', Hex64 65488,
            Text '' largest='', Hex64 65488, line []], k') \<and> heap_ok k' [(s, 65488, True)]"
  by (rule kernel_heap_init_ready) simp_all

end
