(* ===== verification/Console.thy ===== *)
theory Console
  imports Prelude "HOL-Library.Monad_Syntax"
begin

text \<open>
  Port input and output, and the two serial drivers: \<^verbatim>\<open>src/serial.c\<close>, which waits for the transmitter
  without a limit, and \<^verbatim>\<open>kernel/core/serial.c\<close>, which gives up after a number of polls.

  A device is an arbitrary function that gives the byte a port reads as, from the number of
  reads so far and the writes so far; the machine keeps that number and the list of writes. A driver function
  whose wait loop may run forever gives \<open>None\<close> when it does. Strings are the bytes before the terminator.

  Shown: the bounded driver always returns, within the bound, and sends the text when the device is ready; the
  unbounded one returns exactly when the device becomes ready; numbers are printed so that they read
  back, inside the digit buffer.
\<close>

section \<open>Model: ports\<close>

record io =
  reads :: nat
  outs :: "(u16 \<times> u8) list"

type_synonym device = "u16 \<Rightarrow> nat \<Rightarrow> (u16 \<times> u8) list \<Rightarrow> u8"

definition outb :: "u16 \<Rightarrow> u8 \<Rightarrow> io \<Rightarrow> io" where
  "outb port v m = m\<lparr>outs := outs m @ [(port, v)]\<rparr>"

definition inb :: "device \<Rightarrow> u16 \<Rightarrow> io \<Rightarrow> u8 \<times> io" where
  "inb dev port m = (dev port (reads m) (outs m), m\<lparr>reads := Suc (reads m)\<rparr>)"

definition io_wait :: "io \<Rightarrow> io" where
  "io_wait m = outb 0x80 0 m"

text \<open>The bytes of a string literal, and a loop over a list of values.\<close>

definition bytes :: "string \<Rightarrow> u8 list" where
  "bytes s = map of_char s"

fun each :: "('a \<Rightarrow> 's \<Rightarrow> 's option) \<Rightarrow> 'a list \<Rightarrow> 's \<Rightarrow> 's option" where
  "each f [] m = Some m"
| "each f (x # xs) m = Option.bind (f x m) (each f xs)"

section \<open>Model: the unbounded driver\<close>

definition COM1 :: u16 where "COM1 = 0x3F8"

definition serial_init :: "io \<Rightarrow> io" where
  "serial_init m =
     outb (COM1 + 4) 0x0B (outb (COM1 + 2) 0xC7 (outb (COM1 + 3) 0x03 (outb (COM1 + 1) 0x00
       (outb (COM1 + 0) 0x03 (outb (COM1 + 3) 0x80 (outb (COM1 + 1) 0x00 m))))))"

definition serial_transmit_empty :: "device \<Rightarrow> io \<Rightarrow> bool \<times> io" where
  "serial_transmit_empty dev m = (case inb dev (COM1 + 5) m of (v, m) \<Rightarrow> (v AND 0x20 \<noteq> 0, m))"

partial_function (option) serial_wait :: "device \<Rightarrow> io \<Rightarrow> io option" where
  "serial_wait dev m = (if fst (serial_transmit_empty dev m) then Some (snd (serial_transmit_empty dev m))
     else serial_wait dev (snd (serial_transmit_empty dev m)))"

definition serial_write_char :: "device \<Rightarrow> u8 \<Rightarrow> io \<Rightarrow> io option" where
  "serial_write_char dev c m = map_option (outb COM1 c) (serial_wait dev m)"

fun serial_write_string :: "device \<Rightarrow> u8 list \<Rightarrow> io \<Rightarrow> io option" where
  "serial_write_string dev [] m = Some m"
| "serial_write_string dev (c # s) m =
     do {
       m \<leftarrow> (if c = 0x0A then serial_write_char dev 0x0D m else Some m);
       m \<leftarrow> serial_write_char dev c m;
       serial_write_string dev s m
     }"

definition hex_digits :: "u8 list" where
  "hex_digits = bytes ''0123456789abcdef''"

text \<open>The values of \<^verbatim>\<open>i\<close> in \<^verbatim>\<open>for (int i = 60; i >= 0; i -= 4)\<close>.\<close>

definition nibble_shifts :: "nat list" where
  "nibble_shifts = [60, 56, 52, 48, 44, 40, 36, 32, 28, 24, 20, 16, 12, 8, 4, 0]"

definition serial_write_hex64 :: "device \<Rightarrow> u64 \<Rightarrow> io \<Rightarrow> io option" where
  "serial_write_hex64 dev value m =
     do {
       m \<leftarrow> serial_write_string dev (bytes ''0x'') m;
       each (\<lambda>i. serial_write_char dev (hex_digits ! unat (drop_bit i value AND 0xF))) nibble_shifts m
     }"

text \<open>The digits \<^verbatim>\<open>buf[i]\<close>, \<^verbatim>\<open>buf[i + 1]\<close>, ... that the division loop stores, least significant first.\<close>

function dec_digits :: "nat \<Rightarrow> 'a::len word \<Rightarrow> nat \<Rightarrow> u8 list" where
  "dec_digits n value i =
     (if value \<noteq> 0 \<and> i < n then (0x30 + ucast (value mod 10)) # dec_digits n (value div 10) (i + 1) else [])"
  by auto
termination by (relation "measure (\<lambda>(n, value, i). n - i)") auto

declare dec_digits.simps [simp del]

definition serial_write_dec64 :: "device \<Rightarrow> u64 \<Rightarrow> io \<Rightarrow> io option" where
  "serial_write_dec64 dev value m =
     (if value = 0 then serial_write_char dev 0x30 m
      else each (serial_write_char dev) (rev (dec_digits 21 value 0)) m)"

section \<open>Model: the bounded driver\<close>

definition SERIAL_TIMEOUT_LIMIT :: nat where "SERIAL_TIMEOUT_LIMIT = 100000"

definition core_serial_init :: "io \<Rightarrow> io" where
  "core_serial_init m =
     outb (COM1 + 4) 0x0B (outb (COM1 + 2) 0xC7 (outb (COM1 + 3) 0x03 (outb (COM1 + 1) 0x00
       (outb (COM1 + 0) 0x03 (outb (COM1 + 3) 0x80 (outb (COM1 + 1) 0x00 m))))))"

definition core_transmit_empty :: "device \<Rightarrow> io \<Rightarrow> bool \<times> io" where
  "core_transmit_empty dev m = (case inb dev (COM1 + 5) m of (v, m) \<Rightarrow> (v AND 0x20 \<noteq> 0, m))"

function core_wait :: "device \<Rightarrow> io \<Rightarrow> nat \<Rightarrow> bool \<times> io" where
  "core_wait dev m spin =
     (if fst (core_transmit_empty dev m) then (True, snd (core_transmit_empty dev m))
      else if spin + 1 \<ge> SERIAL_TIMEOUT_LIMIT then (False, snd (core_transmit_empty dev m))
      else core_wait dev (snd (core_transmit_empty dev m)) (spin + 1))"
  by auto
termination by (relation "measure (\<lambda>(dev, m, spin). SERIAL_TIMEOUT_LIMIT - spin)") auto

declare core_wait.simps [simp del]

definition core_send :: "device \<Rightarrow> u8 \<Rightarrow> io \<Rightarrow> io" where
  "core_send dev c m = (case core_wait dev m 0 of (ready, m) \<Rightarrow> if ready then outb COM1 c m else m)"

text \<open>The function calls itself once, with the carriage return.\<close>

definition serial_putc :: "device \<Rightarrow> u8 \<Rightarrow> io \<Rightarrow> io" where
  "serial_putc dev c m = core_send dev c (if c = 0x0A then core_send dev 0x0D m else m)"

definition serial_write :: "device \<Rightarrow> u8 list option \<Rightarrow> io \<Rightarrow> io" where
  "serial_write dev s m = (case s of None \<Rightarrow> m | Some s \<Rightarrow> fold (serial_putc dev) s m)"

section \<open>The transmitter\<close>

definition ready_at :: "device \<Rightarrow> nat \<Rightarrow> (u16 \<times> u8) list \<Rightarrow> bool" where
  "ready_at dev n os \<longleftrightarrow> dev (COM1 + 5) n os AND 0x20 \<noteq> 0"

text \<open>
  A transmitter that drains: whatever was sent and however often the port was read, polling long enough finds the
  holding register empty. Sending a byte may make it busy again.
\<close>

definition drains :: "device \<Rightarrow> bool" where
  "drains dev \<longleftrightarrow> (\<forall>n os. \<exists>k. ready_at dev (n + k) os)"

lemma transmit_empty_eq: "serial_transmit_empty dev m = (ready_at dev (reads m) (outs m), m\<lparr>reads := Suc (reads m)\<rparr>)"
    "core_transmit_empty dev m = (ready_at dev (reads m) (outs m), m\<lparr>reads := Suc (reads m)\<rparr>)"
  by (simp_all add: serial_transmit_empty_def core_transmit_empty_def inb_def ready_at_def)

lemma serial_wait_eq:
  "serial_wait dev m = (if ready_at dev (reads m) (outs m) then Some (m\<lparr>reads := Suc (reads m)\<rparr>)
     else serial_wait dev (m\<lparr>reads := Suc (reads m)\<rparr>))"
  by (subst serial_wait.simps) (simp add: transmit_empty_eq)

lemma serial_wait_ends:
  "ready_at dev (reads m + k) (outs m) \<Longrightarrow> \<forall>j < k. \<not> ready_at dev (reads m + j) (outs m) \<Longrightarrow>
     serial_wait dev m = Some (m\<lparr>reads := reads m + k + 1\<rparr>)"
proof (induction k arbitrary: m)
  case 0
  then show ?case by (simp add: serial_wait_eq[of dev m])
next
  case (Suc k)
  have "\<not> ready_at dev (reads m) (outs m)" using Suc.prems(2)[rule_format, of 0] by simp
  moreover have "serial_wait dev (m\<lparr>reads := Suc (reads m)\<rparr>) = Some (m\<lparr>reads := reads m + Suc k + 1\<rparr>)"
    using Suc.IH[of "m\<lparr>reads := Suc (reads m)\<rparr>"] Suc.prems by (auto simp: All_less_Suc2)
  ultimately show ?case by (simp add: serial_wait_eq[of dev m])
qed

lemma serial_wait_result:
  assumes "serial_wait dev m = Some m'"
  shows "\<exists>k. ready_at dev (reads m + k) (outs m)"
proof (rule serial_wait.raw_induct[where P = "\<lambda>dev m m'. \<exists>k. ready_at dev (reads m + k) (outs m)", OF _ assms])
  fix wait dev m m'
  assume IH: "\<And>dev m m'. wait dev m = Some m' \<Longrightarrow> \<exists>k. ready_at dev (reads m + k) (outs m)"
    and body: "(if fst (serial_transmit_empty dev m) then Some (snd (serial_transmit_empty dev m))
      else wait dev (snd (serial_transmit_empty dev m))) = Some m'"
  show "\<exists>k. ready_at dev (reads m + k) (outs m)"
  proof (cases "ready_at dev (reads m) (outs m)")
    case True
    then show ?thesis by (intro exI[of _ 0]) simp
  next
    case False
    then have "wait dev (m\<lparr>reads := Suc (reads m)\<rparr>) = Some m'" using body by (simp add: transmit_empty_eq)
    then obtain k where "ready_at dev (Suc (reads m) + k) (outs m)" using IH by fastforce
    then show ?thesis by (intro exI[of _ "Suc k"]) simp
  qed
qed

lemma serial_wait_iff: "serial_wait dev m \<noteq> None \<longleftrightarrow> (\<exists>k. ready_at dev (reads m + k) (outs m))"
proof
  assume "\<exists>k. ready_at dev (reads m + k) (outs m)"
  then obtain k where "ready_at dev (reads m + k) (outs m)" "\<forall>j < k. \<not> ready_at dev (reads m + j) (outs m)"
    using exists_least_iff[of "\<lambda>k. ready_at dev (reads m + k) (outs m)"] by blast
  then show "serial_wait dev m \<noteq> None" using serial_wait_ends by fastforce
qed (use serial_wait_result in auto)

lemma core_wait_spec:
  assumes "spin < SERIAL_TIMEOUT_LIMIT" "core_wait dev m spin = (r, m')"
  shows "\<exists>k. m' = m\<lparr>reads := reads m + k + 1\<rparr> \<and> k + spin < SERIAL_TIMEOUT_LIMIT \<and>
     (\<forall>j < k. \<not> ready_at dev (reads m + j) (outs m)) \<and>
     (r \<longleftrightarrow> ready_at dev (reads m + k) (outs m)) \<and> (\<not> r \<longrightarrow> k + spin + 1 = SERIAL_TIMEOUT_LIMIT)"
  using assms
proof (induction dev m spin rule: core_wait.induct)
  case (1 dev m spin)
  note eq = core_wait.simps[of dev m spin, unfolded transmit_empty_eq fst_conv snd_conv]
  show ?case
  proof (cases "ready_at dev (reads m) (outs m) \<or> spin + 1 \<ge> SERIAL_TIMEOUT_LIMIT")
    case True
    then show ?thesis using 1(2,3) unfolding eq by (intro exI[of _ 0]) (auto split: if_splits)
  next
    case False
    let ?m = "m\<lparr>reads := Suc (reads m)\<rparr>"
    have "core_wait dev ?m (spin + 1) = (r, m')" using False 1(3) unfolding eq by simp
    then obtain k where k: "m' = ?m\<lparr>reads := reads ?m + k + 1\<rparr>" "k + (spin + 1) < SERIAL_TIMEOUT_LIMIT"
      "\<forall>j < k. \<not> ready_at dev (reads ?m + j) (outs ?m)"
      "r \<longleftrightarrow> ready_at dev (reads ?m + k) (outs ?m)" "\<not> r \<longrightarrow> k + (spin + 1) + 1 = SERIAL_TIMEOUT_LIMIT"
      using 1(1) False by (auto simp: transmit_empty_eq)
    then show ?thesis using False by (intro exI[of _ "Suc k"]) (auto simp: All_less_Suc2 split: if_splits)
  qed
qed

lemma core_send_spec:
  "reads (core_send dev c m) \<le> reads m + 100000 \<and> outs (core_send dev c m) =
     outs m @ (if \<exists>k < 100000. ready_at dev (reads m + k) (outs m) then [(COM1, c)] else [])"
proof -
  obtain r m' where w: "core_wait dev m 0 = (r, m')" by (cases "core_wait dev m 0")
  obtain k where k: "m' = m\<lparr>reads := reads m + k + 1\<rparr>" "k < 100000" "\<forall>j < k. \<not> ready_at dev (reads m + j) (outs m)"
    "r \<longleftrightarrow> ready_at dev (reads m + k) (outs m)" "\<not> r \<longrightarrow> k + 1 = 100000"
    using core_wait_spec[OF _ w] by (auto simp: SERIAL_TIMEOUT_LIMIT_def)
  have "r \<longleftrightarrow> (\<exists>k < 100000. ready_at dev (reads m + k) (outs m))"
  proof
    assume "\<exists>k < 100000. ready_at dev (reads m + k) (outs m)"
    then obtain j where j: "j < 100000" "ready_at dev (reads m + j) (outs m)" by blast
    show r
    proof (rule ccontr)
      assume "\<not> r"
      then have "j \<le> k" using k(5) j(1) by simp
      then show False using j(2) k(3,4) \<open>\<not> r\<close> by (cases "j = k") auto
    qed
  qed (use k in blast)
  then show ?thesis using w k by (simp add: core_send_def outb_def)
qed

fun crlf :: "u8 list \<Rightarrow> u8 list" where
  "crlf [] = []"
| "crlf (c # s) = (if c = 0x0A then [0x0D, c] else [c]) @ crlf s"

lemma serial_putc_spec:
  "reads (serial_putc dev c m) \<le> reads m + 200000"
  "\<forall>n os. \<exists>k < 100000. ready_at dev (n + k) os \<Longrightarrow> outs (serial_putc dev c m) = outs m @ map (Pair COM1) (crlf [c])"
  "\<forall>n os. \<not> ready_at dev n os \<Longrightarrow> outs (serial_putc dev c m) = outs m"
proof -
  have s: "reads (core_send dev c m) \<le> reads m + 100000" for c m using core_send_spec by blast
  show "reads (serial_putc dev c m) \<le> reads m + 200000"
    using s[of c m] s[of c "core_send dev 0x0D m"] s[of "0x0D" m] by (cases "c = 0x0A") (simp_all add: serial_putc_def)
  show "\<forall>n os. \<exists>k < 100000. ready_at dev (n + k) os \<Longrightarrow> outs (serial_putc dev c m) = outs m @ map (Pair COM1) (crlf [c])"
    using core_send_spec by (simp add: serial_putc_def)
  show "\<forall>n os. \<not> ready_at dev n os \<Longrightarrow> outs (serial_putc dev c m) = outs m"
    using core_send_spec by (auto simp: serial_putc_def)
qed

lemma write_char_drains:
  assumes "drains dev"
  obtains n where "serial_write_char dev c m = Some (outb COM1 c (m\<lparr>reads := n\<rparr>))"
proof -
  obtain k where "ready_at dev (reads m + k) (outs m)" "\<forall>j < k. \<not> ready_at dev (reads m + j) (outs m)"
    using assms exists_least_iff[of "\<lambda>k. ready_at dev (reads m + k) (outs m)"] by (auto simp: drains_def)
  from serial_wait_ends[OF this] that show ?thesis by (simp add: serial_write_char_def)
qed

lemma write_string_drains:
  assumes d: "drains dev"
  shows "\<exists>m'. serial_write_string dev s m = Some m' \<and> outs m' = outs m @ map (Pair COM1) (crlf s)"
proof (induction s arbitrary: m)
  case (Cons c s)
  obtain n1 where n1: "serial_write_char dev 0x0D m = Some (outb COM1 0x0D (m\<lparr>reads := n1\<rparr>))" by (rule write_char_drains[OF d])
  define m1 where "m1 = (if c = 0x0A then outb COM1 0x0D (m\<lparr>reads := n1\<rparr>) else m)"
  obtain n2 where n2: "serial_write_char dev c m1 = Some (outb COM1 c (m1\<lparr>reads := n2\<rparr>))" by (rule write_char_drains[OF d])
  from Cons.IH[of "outb COM1 c (m1\<lparr>reads := n2\<rparr>)"] n1 n2 show ?case by (cases "c = 0x0A") (simp_all add: m1_def outb_def)
qed simp

lemma write_char_stuck: "\<forall>n os. \<not> ready_at dev n os \<Longrightarrow> serial_write_char dev c m = None"
  using serial_wait_iff[of dev m] by (auto simp: serial_write_char_def)

text \<open>
  C35. Writing a string through the bounded driver ends for every device, after at most 200000 polls for each
  character. With a transmitter that becomes ready within 100000 polls that driver sends the string, with a
  carriage return before each line feed; with one that becomes ready at some time the unbounded driver returns and
  sends the same. With one that is never ready the bounded driver returns having sent nothing, and
  the unbounded one does not return from a non-empty string.
\<close>

theorem serial_output_ends:
  "reads (serial_write dev (Some s) m) \<le> reads m + 200000 * length s \<and>
   ((\<forall>n os. \<exists>k < 100000. ready_at dev (n + k) os) \<longrightarrow> outs (serial_write dev (Some s) m) = outs m @ map (Pair COM1) (crlf s)) \<and>
   ((\<forall>n os. \<exists>k. ready_at dev (n + k) os) \<longrightarrow>
      (\<exists>m'. serial_write_string dev s m = Some m' \<and> outs m' = outs m @ map (Pair COM1) (crlf s))) \<and>
   ((\<forall>n os. \<not> ready_at dev n os) \<longrightarrow> outs (serial_write dev (Some s) m) = outs m \<and>
      (s \<noteq> [] \<longrightarrow> serial_write_string dev s m = None))"
proof -
  have "reads (fold (serial_putc dev) s m) \<le> reads m + 200000 * length s"
  proof (induction s arbitrary: m)
    case (Cons c s)
    have "reads (fold (serial_putc dev) s (serial_putc dev c m)) \<le> reads (serial_putc dev c m) + 200000 * length s"
      by (rule Cons)
    then show ?case using serial_putc_spec(1)[of dev c m] by simp
  qed simp
  moreover have "outs (fold (serial_putc dev) s m) = outs m @ map (Pair COM1) (crlf s)" if "\<forall>n os. \<exists>k < 100000. ready_at dev (n + k) os"
    by (induction s arbitrary: m) (auto simp: serial_putc_spec(2)[OF that])
  moreover have "outs (fold (serial_putc dev) s m) = outs m" if "\<forall>n os. \<not> ready_at dev n os"
    by (induction s arbitrary: m) (auto simp: serial_putc_spec(3)[OF that])
  moreover have "serial_write_string dev s m = None" if "\<forall>n os. \<not> ready_at dev n os" "s \<noteq> []"
    using that by (cases s) (simp_all add: write_char_stuck)
  ultimately show ?thesis using write_string_drains[of dev s m] by (auto simp: serial_write_def drains_def)
qed

theorem serial_output_ends_witness:
  "outs (serial_write (\<lambda>p n os. 0x20) (Some [0x68, 0x0A]) \<lparr>reads = 0, outs = []\<rparr>) =
     [(COM1, 0x68), (COM1, 0x0D), (COM1, 0x0A)] \<and>
   serial_write_string (\<lambda>p n os. 0) [0x68, 0x0A] \<lparr>reads = 0, outs = []\<rparr> = None"
proof -
  have "\<forall>n os. \<exists>k < 100000. ready_at (\<lambda>p n os. 0x20) (n + k) os" "\<forall>n os. \<not> ready_at (\<lambda>p n os. 0) n os"
    by (auto simp: ready_at_def intro!: exI[of _ 0])
  then show ?thesis
    using serial_output_ends[of "\<lambda>p n os. 0x20" "[0x68, 0x0A]" "\<lparr>reads = 0, outs = []\<rparr>"]
      serial_output_ends[of "\<lambda>p n os. 0" "[0x68, 0x0A]" "\<lparr>reads = 0, outs = []\<rparr>"] by auto
qed

section \<open>Numbers\<close>

text \<open>The number a digit string reads as, most significant digit first.\<close>

definition read_dec :: "u8 list \<Rightarrow> nat" where
  "read_dec ds = foldl (\<lambda>acc d. 10 * acc + (unat d - 0x30)) 0 ds"

definition read_hex :: "u8 list \<Rightarrow> nat" where
  "read_hex ds = foldl (\<lambda>acc d. 16 * acc + (if d < 0x3A then unat d - 0x30 else unat d - 0x57)) 0 ds"

lemma dec_digit:
  fixes v :: "'a::len word"
  assumes "4 \<le> LENGTH('a)"
  shows "unat (0x30 + ucast (v mod 10) :: u8) = 0x30 + unat v mod 10"
proof -
  have "(10 :: nat) < 2 ^ LENGTH('a)" using power_increasing[OF assms, of "2 :: nat"] by simp
  then have "unat (10 :: 'a word) = 10" using unat_of_nat_small[of 10, where 'a = 'a] by simp
  then have "unat (v mod 10) = unat v mod 10" by (simp add: unat_mod_distrib)
  then have "unat (ucast (v mod 10) :: u8) = unat v mod 10" by (simp add: unsigned_ucast_eq take_bit_eq_mod)
  then show ?thesis using unat_add_small[of "0x30 :: u8" "ucast (v mod 10)"] by simp
qed

lemma unat_div_10:
  fixes v :: "'a::len word"
  assumes "4 \<le> LENGTH('a)"
  shows "unat (v div 10) = unat v div 10"
proof -
  have "(10 :: nat) < 2 ^ LENGTH('a)" using power_increasing[OF assms, of "2 :: nat"] by simp
  then have "unat (10 :: 'a word) = 10" using unat_of_nat_small[of 10, where 'a = 'a] by simp
  then show ?thesis by (simp add: unat_div_distrib)
qed

lemma dec_digits_read:
  fixes v :: "'a::len word"
  assumes "4 \<le> LENGTH('a)" "unat v < 10 ^ k" "k + i \<le> n"
  shows "read_dec (rev (dec_digits n v i)) = unat v \<and> length (dec_digits n v i) \<le> k"
  using assms(2,3)
proof (induction k arbitrary: v i)
  case 0
  then have "v = 0" by (simp add: word_unat_eq_iff)
  then show ?case by (simp add: dec_digits.simps read_dec_def)
next
  case (Suc k)
  show ?case
  proof (cases "v = 0")
    case True
    then show ?thesis by (simp add: dec_digits.simps read_dec_def)
  next
    case False
    have "unat (v div 10) < 10 ^ k" using Suc.prems by (simp add: unat_div_10[OF assms(1)] div_less_iff_less_mult mult.commute)
    then have "read_dec (rev (dec_digits n (v div 10) (i + 1))) = unat (v div 10) \<and> length (dec_digits n (v div 10) (i + 1)) \<le> k"
      using Suc.prems by (intro Suc.IH) simp_all
    then show ?thesis using False Suc.prems(2)
      by (subst (1 2) dec_digits.simps) (simp add: read_dec_def dec_digit[OF assms(1)] unat_div_10[OF assms(1)])
  qed
qed

lemma each_char_drains:
  assumes "drains dev"
  shows "\<exists>m'. each (serial_write_char dev) cs m = Some m' \<and> outs m' = outs m @ map (Pair COM1) cs"
proof (induction cs arbitrary: m)
  case (Cons c cs)
  obtain n where "serial_write_char dev c m = Some (outb COM1 c (m\<lparr>reads := n\<rparr>))" by (rule write_char_drains[OF assms])
  then show ?case using Cons.IH[of "outb COM1 c (m\<lparr>reads := n\<rparr>)"] by (simp add: outb_def)
qed simp

lemma each_map: "each (\<lambda>i. f (g i)) xs = each f (map g xs)"
proof (induction xs)
  case (Cons x xs)
  show ?case by (rule ext) (simp add: Cons.IH)
qed (rule ext, simp)

text \<open>A decimal number is sent as at most 20 digits, one less than the buffer holds, that read back as it.\<close>

lemma write_dec64_drains:
  assumes "drains dev"
  shows "\<exists>m' ds. serial_write_dec64 dev v m = Some m' \<and> outs m' = outs m @ map (Pair COM1) ds \<and> read_dec ds = unat v \<and>
    length ds \<le> 20"
proof (cases "v = 0")
  case True
  obtain n where "serial_write_char dev 0x30 m = Some (outb COM1 0x30 (m\<lparr>reads := n\<rparr>))" by (rule write_char_drains[OF assms])
  then show ?thesis using True by (auto simp: serial_write_dec64_def outb_def read_dec_def intro!: exI[of _ "[0x30]"])
next
  case False
  have "unat v < 10 ^ 20" using unat_less_length[of v] by simp
  then have "read_dec (rev (dec_digits 21 v 0)) = unat v \<and> length (dec_digits 21 v 0) \<le> 20"
    by (intro dec_digits_read) simp_all
  then show ?thesis using False each_char_drains[OF assms, of "rev (dec_digits 21 v 0)" m]
    by (fastforce simp: serial_write_dec64_def)
qed

lemma hex_digit: "k < 16 \<Longrightarrow> (if hex_digits ! k < 0x3A then unat (hex_digits ! k) - 0x30 else unat (hex_digits ! k) - 0x57) = k"
proof -
  assume "k < 16"
  then have "k = 0 \<or> k = 1 \<or> k = 2 \<or> k = 3 \<or> k = 4 \<or> k = 5 \<or> k = 6 \<or> k = 7 \<or> k = 8 \<or> k = 9 \<or> k = 10 \<or> k = 11 \<or> k = 12 \<or>
    k = 13 \<or> k = 14 \<or> k = 15" by arith
  then show ?thesis by (elim disjE) (simp_all add: hex_digits_def bytes_def)
qed

lemma nibble: "unat (drop_bit i v AND 0xF) = unat v div 2 ^ i mod 16" for v :: u64
proof -
  have "unat (drop_bit i v AND mask 4) = unat (drop_bit i v) mod 2 ^ 4" by (rule unat_and_mask)
  moreover have "unat (drop_bit i v) = unat v div 2 ^ i" by (simp only: unat_drop_bit_eq) (simp only: drop_bit_eq_div)
  moreover have "(mask 4 :: u64) = 0xF" by (simp add: mask_numeral)
  ultimately show ?thesis by simp
qed

lemma read_hex_nibbles: "read_hex (map (\<lambda>i. hex_digits ! unat (drop_bit i v AND 0xF)) nibble_shifts) = unat v" for v :: u64
proof -
  let ?V = "unat v"
  have step: "16 * (?V div 2 ^ j) + ?V div 2 ^ i mod 16 = ?V div 2 ^ i" if "j = i + 4" for i j
    unfolding that by (simp add: power_add div_mult2_eq)
  have d: "(if hex_digits ! (n mod 16) < 0x3A then unat (hex_digits ! (n mod 16)) - 0x30 else unat (hex_digits ! (n mod 16)) - 0x57) = n mod 16" for n
    by (rule hex_digit) simp
  have top: "16 * 0 + ?V div 2 ^ 60 mod 16 = ?V div 2 ^ 60" using unat_less_length[of v] by (simp add: div_less_iff_less_mult)
  have s:
    "16 * (?V div 2 ^ 60) + ?V div 2 ^ 56 mod 16 = ?V div 2 ^ 56"
    "16 * (?V div 2 ^ 56) + ?V div 2 ^ 52 mod 16 = ?V div 2 ^ 52"
    "16 * (?V div 2 ^ 52) + ?V div 2 ^ 48 mod 16 = ?V div 2 ^ 48"
    "16 * (?V div 2 ^ 48) + ?V div 2 ^ 44 mod 16 = ?V div 2 ^ 44"
    "16 * (?V div 2 ^ 44) + ?V div 2 ^ 40 mod 16 = ?V div 2 ^ 40"
    "16 * (?V div 2 ^ 40) + ?V div 2 ^ 36 mod 16 = ?V div 2 ^ 36"
    "16 * (?V div 2 ^ 36) + ?V div 2 ^ 32 mod 16 = ?V div 2 ^ 32"
    "16 * (?V div 2 ^ 32) + ?V div 2 ^ 28 mod 16 = ?V div 2 ^ 28"
    "16 * (?V div 2 ^ 28) + ?V div 2 ^ 24 mod 16 = ?V div 2 ^ 24"
    "16 * (?V div 2 ^ 24) + ?V div 2 ^ 20 mod 16 = ?V div 2 ^ 20"
    "16 * (?V div 2 ^ 20) + ?V div 2 ^ 16 mod 16 = ?V div 2 ^ 16"
    "16 * (?V div 2 ^ 16) + ?V div 2 ^ 12 mod 16 = ?V div 2 ^ 12"
    "16 * (?V div 2 ^ 12) + ?V div 2 ^ 8 mod 16 = ?V div 2 ^ 8"
    "16 * (?V div 2 ^ 8) + ?V div 2 ^ 4 mod 16 = ?V div 2 ^ 4"
    "16 * (?V div 2 ^ 4) + ?V div 2 ^ 0 mod 16 = ?V div 2 ^ 0"
    by (rule step, simp)+
  show ?thesis
    unfolding read_hex_def nibble_shifts_def nibble list.map foldl_Cons foldl_Nil d top s by simp
qed

text \<open>A hexadecimal number is sent as \<^verbatim>\<open>0x\<close> and 16 digits that read back as it.\<close>

lemma write_hex64_drains:
  assumes "drains dev"
  shows "\<exists>m' ds. serial_write_hex64 dev v m = Some m' \<and> outs m' = outs m @ map (Pair COM1) (0x30 # 0x78 # ds) \<and>
    read_hex ds = unat v \<and> length ds = 16"
proof -
  let ?ds = "map (\<lambda>i. hex_digits ! unat (drop_bit i v AND 0xF)) nibble_shifts"
  obtain m1 where m1: "serial_write_string dev (bytes ''0x'') m = Some m1" "outs m1 = outs m @ map (Pair COM1) [0x30, 0x78]"
    using write_string_drains[OF assms, of "bytes ''0x''" m] by (auto simp: bytes_def)
  obtain m2 where "each (serial_write_char dev) ?ds m1 = Some m2" "outs m2 = outs m1 @ map (Pair COM1) ?ds"
    using each_char_drains[OF assms] by blast
  then have "serial_write_hex64 dev v m = Some m2"
    unfolding serial_write_hex64_def m1(1) each_map[of "serial_write_char dev" "\<lambda>i. hex_digits ! unat (drop_bit i v AND 0xF)"] by simp
  moreover have "length ?ds = 16" by (simp add: nibble_shifts_def)
  moreover have "outs m2 = outs m @ map (Pair COM1) (0x30 # 0x78 # ?ds)" unfolding \<open>outs m2 = _\<close> m1(2) by simp
  ultimately show ?thesis using read_hex_nibbles[of v] by blast
qed

end
