(* ===== verification/Ramfs.thy ===== *)
theory Ramfs
  imports Prelude
begin

text \<open>
  The RAM file system of \<^verbatim>\<open>kernel/vfs/ramfs.c\<close>, with the types of \<^verbatim>\<open>include/mcs_vfs.h\<close>.

  A C string is the list of the bytes before its terminator; reading at or after its end gives the
  terminator. A pointer to a node is the index of the node in the file system; a pointer into a path is a
  position in it. Status codes are the integers of the code, because the descriptor layer returns them
  beside descriptors.

  Shown: the file system is a finite map from file names to files with separate data areas; creating a
  file adds exactly its name, and looking a path up finds exactly the files that were created.
\<close>

section \<open>Model: constants and types\<close>

definition MCS_MAX_NAME :: nat where "MCS_MAX_NAME = 32"
definition MCS_MAX_PATH :: nat where "MCS_MAX_PATH = 128"
definition MCS_MAX_NODES :: nat where "MCS_MAX_NODES = 64"
definition MCS_RAMFS_DATA_BYTES :: u64 where "MCS_RAMFS_DATA_BYTES = 8192"

definition MCS_OK :: int where "MCS_OK = 0"
definition MCS_ENOENT :: int where "MCS_ENOENT = -2"
definition MCS_EBADF :: int where "MCS_EBADF = -9"
definition MCS_EACCES :: int where "MCS_EACCES = -13"
definition MCS_ENOTDIR :: int where "MCS_ENOTDIR = -20"
definition MCS_EISDIR :: int where "MCS_EISDIR = -21"
definition MCS_EINVAL :: int where "MCS_EINVAL = -22"
definition MCS_ENFILE :: int where "MCS_ENFILE = -23"
definition MCS_ENOSPC :: int where "MCS_ENOSPC = -28"
definition MCS_ENAMETOOLONG :: int where "MCS_ENAMETOOLONG = -36"

lemmas vfs_codes = MCS_OK_def MCS_ENOENT_def MCS_EBADF_def MCS_EACCES_def MCS_ENOTDIR_def MCS_EISDIR_def
  MCS_EINVAL_def MCS_ENFILE_def MCS_ENOSPC_def MCS_ENAMETOOLONG_def

datatype mcs_vnode_type = MCS_VNODE_DIR | MCS_VNODE_FILE

type_synonym cstring = "u8 list"

record mcs_vnode =
  vn_used :: u32
  vn_id :: u32
  vn_parent :: u32
  vn_type :: mcs_vnode_type
  vn_name :: "u8 list"
  vn_size :: u64
  vn_data_offset :: u64
  vn_data_capacity :: u64

record mcs_ramfs =
  nodes :: "mcs_vnode list"
  node_count :: u64
  fs_data :: "u8 list"
  data_used :: u64

section \<open>Model: strings\<close>

definition chr_at :: "cstring \<Rightarrow> nat \<Rightarrow> u8" where
  "chr_at s i = (if i < length s then s ! i else 0)"

abbreviation slash :: u8 where "slash \<equiv> 0x2f"

function strlen_from :: "cstring \<Rightarrow> nat \<Rightarrow> nat" where
  "strlen_from s n = (if chr_at s n \<noteq> 0 then strlen_from s (n + 1) else n)"
  by auto
termination by (relation "measure (\<lambda>(s, n). length s - n)") (auto simp: chr_at_def split: if_splits)

declare strlen_from.simps [simp del]

definition mcs_strlen :: "cstring option \<Rightarrow> nat" where
  "mcs_strlen s = (case s of None \<Rightarrow> 0 | Some s \<Rightarrow> strlen_from s 0)"

text \<open>The first argument is the pointer \<open>path + seg\<close>.\<close>

definition mcs_streq_n :: "cstring \<Rightarrow> nat \<Rightarrow> u8 list \<Rightarrow> nat \<Rightarrow> bool" where
  "mcs_streq_n path seg b n \<longleftrightarrow> list_all (\<lambda>i. chr_at path (seg + i) = b ! i) [0..<n] \<and> b ! n = 0"

definition mcs_copy_bytes :: "u8 list \<Rightarrow> nat \<Rightarrow> u8 list \<Rightarrow> nat \<Rightarrow> u8 list" where
  "mcs_copy_bytes dst off src n = fold (\<lambda>i d. d[off + i := src ! i]) [0..<n] dst"

definition mcs_copy_name :: "u8 list \<Rightarrow> cstring \<Rightarrow> nat \<Rightarrow> nat \<Rightarrow> u8 list" where
  "mcs_copy_name dst path seg n =
     fold (\<lambda>i d. d[i := chr_at path (seg + i)]) [0..<min n (MCS_MAX_NAME - 1)]
       (fold (\<lambda>i d. d[i := 0]) [0..<MCS_MAX_NAME] dst)"

section \<open>Model: walking a path\<close>

text \<open>A null file system, path or out pointer is \<open>None\<close> in the operations of the interface below.\<close>

definition mcs_find_child :: "mcs_ramfs \<Rightarrow> u32 \<Rightarrow> cstring \<Rightarrow> nat \<Rightarrow> nat \<Rightarrow> int \<times> nat option" where
  "mcs_find_child fs parent path seg name_len =
     (if name_len = 0 \<or> name_len \<ge> MCS_MAX_NAME then (MCS_EINVAL, None)
      else
        (case find (\<lambda>i. let n = nodes fs ! i
                        in vn_used n \<noteq> 0 \<and> vn_parent n = parent \<and> mcs_streq_n path seg (vn_name n) name_len)
                [0..<unat (node_count fs)] of
           Some i \<Rightarrow> (MCS_OK, Some i)
         | None \<Rightarrow> (MCS_ENOENT, None)))"

function seg_end :: "cstring \<Rightarrow> nat \<Rightarrow> nat" where
  "seg_end path nxt = (if chr_at path nxt \<noteq> slash \<and> chr_at path nxt \<noteq> 0 then seg_end path (nxt + 1) else nxt)"
  by auto
termination by (relation "measure (\<lambda>(s, n). length s - n)") (auto simp: chr_at_def split: if_splits)

declare seg_end.simps [simp del]

lemma seg_end_ge: "n \<le> seg_end path n"
  by (induction path n rule: seg_end.induct) (metis seg_end.simps order_refl Suc_eq_plus1 Suc_leD)

lemma chr_at_nonzero: "chr_at s n \<noteq> 0 \<Longrightarrow> n < length s"
  by (auto simp: chr_at_def split: if_splits)

function split_from :: "mcs_ramfs \<Rightarrow> cstring \<Rightarrow> nat \<Rightarrow> nat \<Rightarrow> int \<times> (nat \<times> nat \<times> nat) option" where
  "split_from fs path cur seg =
     (let nxt = seg_end path seg; seg_len = nxt - seg
      in if seg_len = 0 \<or> seg_len \<ge> MCS_MAX_NAME then (MCS_EINVAL, None)
         else if chr_at path nxt = 0 then (MCS_OK, Some (cur, seg, seg_len))
         else
           (case mcs_find_child fs (vn_id (nodes fs ! cur)) path seg seg_len of
              (rc, Some cur') \<Rightarrow>
                if vn_type (nodes fs ! cur') \<noteq> MCS_VNODE_DIR then (MCS_ENOTDIR, None)
                else split_from fs path cur' (nxt + 1)
            | (rc, None) \<Rightarrow> (rc, None)))"
  by auto
termination
proof (relation "measure (\<lambda>(fs, path, cur, seg). length path - seg)")
  fix fs path cur seg nxt seg_len rc y cur'
  assume a: "nxt = seg_end path seg" "\<not> chr_at path nxt = 0"
  then show "((fs, path, cur', nxt + 1), fs, path, cur, seg) \<in> measure (\<lambda>(fs, path, cur, seg). length path - seg)"
    using seg_end_ge[of seg path] chr_at_nonzero[of path nxt] by auto
qed simp

declare split_from.simps [simp del]

definition mcs_split_parent_leaf :: "mcs_ramfs \<Rightarrow> cstring \<Rightarrow> int \<times> (nat \<times> nat \<times> nat) option" where
  "mcs_split_parent_leaf fs path =
     (if chr_at path 0 \<noteq> slash then (MCS_EINVAL, None)
      else if chr_at path 1 = 0 then (MCS_EINVAL, None)
      else if mcs_strlen (Some path) \<ge> MCS_MAX_PATH then (MCS_ENAMETOOLONG, None)
      else split_from fs path 0 1)"

section \<open>Model: nodes\<close>

definition mcs_alloc_node ::
  "mcs_ramfs \<Rightarrow> u32 \<Rightarrow> mcs_vnode_type \<Rightarrow> cstring \<Rightarrow> nat \<Rightarrow> nat \<Rightarrow> u64 \<Rightarrow> int \<times> nat option \<times> mcs_ramfs" where
  "mcs_alloc_node fs parent ty path seg name_len capacity =
     (if name_len = 0 \<or> name_len \<ge> MCS_MAX_NAME then (MCS_EINVAL, None, fs)
      else if node_count fs \<ge> of_nat MCS_MAX_NODES then (MCS_ENOSPC, None, fs)
      else if ty = MCS_VNODE_FILE \<and> data_used fs + capacity > MCS_RAMFS_DATA_BYTES then (MCS_ENOSPC, None, fs)
      else
        (let i = unat (node_count fs);
             node = (nodes fs ! i)\<lparr>vn_used := 1, vn_id := ucast (node_count fs), vn_parent := parent, vn_type := ty,
                      vn_name := mcs_copy_name (vn_name (nodes fs ! i)) path seg name_len,
                      vn_size := 0, vn_data_offset := 0, vn_data_capacity := 0\<rparr>;
             (node, fs) =
               (if ty = MCS_VNODE_FILE
                then (node\<lparr>vn_data_offset := data_used fs, vn_data_capacity := capacity\<rparr>,
                      fs\<lparr>data_used := data_used fs + capacity\<rparr>)
                else (node, fs))
         in (MCS_OK, Some i, fs\<lparr>nodes := (nodes fs)[i := node], node_count := node_count fs + 1\<rparr>)))"

definition mcs_ramfs_init :: "mcs_ramfs option \<Rightarrow> mcs_ramfs option" where
  "mcs_ramfs_init fs =
     map_option (\<lambda>fs.
       let fs = fold (\<lambda>i fs. fs\<lparr>nodes := (nodes fs)[i := (nodes fs ! i)\<lparr>vn_used := 0, vn_id := 0, vn_parent := 0,
                   vn_type := MCS_VNODE_FILE, vn_name := (vn_name (nodes fs ! i))[0 := 0], vn_size := 0,
                   vn_data_offset := 0, vn_data_capacity := 0\<rparr>]\<rparr>) [0..<MCS_MAX_NODES] fs;
           fs = fold (\<lambda>i fs. fs\<lparr>fs_data := (fs_data fs)[i := 0]\<rparr>) [0..<unat MCS_RAMFS_DATA_BYTES] fs
       in fs\<lparr>node_count := 1, data_used := 0,
             nodes := (nodes fs)[0 := (nodes fs ! 0)\<lparr>vn_used := 1, vn_id := 0, vn_parent := 0,
               vn_type := MCS_VNODE_DIR, vn_name := (vn_name (nodes fs ! 0))[0 := slash, 1 := 0]\<rparr>]\<rparr>) fs"

function lookup_from :: "mcs_ramfs \<Rightarrow> cstring \<Rightarrow> nat \<Rightarrow> nat \<Rightarrow> int \<times> nat option" where
  "lookup_from fs path cur seg =
     (if chr_at path seg = 0 then (MCS_EINVAL, None)
      else
        (let nxt = seg_end path seg; seg_len = nxt - seg
         in if seg_len = 0 \<or> seg_len \<ge> MCS_MAX_NAME then (MCS_EINVAL, None)
            else
              (case mcs_find_child fs (vn_id (nodes fs ! cur)) path seg seg_len of
                 (rc, None) \<Rightarrow> (rc, None)
               | (rc, Some cur') \<Rightarrow>
                   if chr_at path nxt = 0 then (MCS_OK, Some cur')
                   else if vn_type (nodes fs ! cur') \<noteq> MCS_VNODE_DIR then (MCS_ENOTDIR, None)
                   else lookup_from fs path cur' (nxt + 1))))"
  by auto
termination
proof (relation "measure (\<lambda>(fs, path, cur, seg). length path - seg)")
  fix fs path cur seg nxt seg_len rc y cur'
  assume a: "nxt = seg_end path seg" "\<not> chr_at path nxt = 0"
  then show "((fs, path, cur', nxt + 1), fs, path, cur, seg) \<in> measure (\<lambda>(fs, path, cur, seg). length path - seg)"
    using seg_end_ge[of seg path] chr_at_nonzero[of path nxt] by auto
qed simp

declare lookup_from.simps [simp del]

definition mcs_ramfs_lookup :: "mcs_ramfs option \<Rightarrow> cstring option \<Rightarrow> int \<times> nat option" where
  "mcs_ramfs_lookup fs path =
     (case (fs, path) of
        (Some fs, Some path) \<Rightarrow>
          if chr_at path 0 \<noteq> slash then (MCS_EINVAL, None)
          else if mcs_strlen (Some path) \<ge> MCS_MAX_PATH then (MCS_ENAMETOOLONG, None)
          else if chr_at path 1 = 0 then (MCS_OK, Some 0)
          else lookup_from fs path 0 1
      | _ \<Rightarrow> (MCS_EINVAL, None))"

definition mcs_ramfs_create_file ::
  "mcs_ramfs option \<Rightarrow> cstring option \<Rightarrow> int \<times> nat option \<times> mcs_ramfs option" where
  "mcs_ramfs_create_file fs path =
     (case (fs, path) of
        (Some f, Some p) \<Rightarrow>
          (case mcs_ramfs_lookup fs path of
             (_, Some existing) \<Rightarrow>
               if vn_type (nodes f ! existing) \<noteq> MCS_VNODE_FILE then (MCS_EISDIR, None, fs)
               else (MCS_OK, Some existing, fs)
           | (_, None) \<Rightarrow>
               (case mcs_split_parent_leaf f p of
                  (rc, None) \<Rightarrow> (rc, None, fs)
                | (rc, Some (parent, leaf, leaf_len)) \<Rightarrow>
                    if vn_type (nodes f ! parent) \<noteq> MCS_VNODE_DIR then (MCS_ENOTDIR, None, fs)
                    else
                      (case mcs_alloc_node f (vn_id (nodes f ! parent)) MCS_VNODE_FILE p leaf leaf_len 256 of
                         (rc, out, f') \<Rightarrow> (rc, out, Some f'))))
      | _ \<Rightarrow> (MCS_EINVAL, None, fs))"

definition mcs_ramfs_seed_file ::
  "mcs_ramfs option \<Rightarrow> cstring option \<Rightarrow> u8 list option \<Rightarrow> u64 \<Rightarrow> int \<times> mcs_ramfs option" where
  "mcs_ramfs_seed_file fs path src len =
     (if fs = None \<or> path = None \<or> (src = None \<and> len \<noteq> 0) then (MCS_EINVAL, fs)
      else
        (case mcs_ramfs_create_file fs path of
           (rc, Some i, Some f) \<Rightarrow>
             if len > vn_data_capacity (nodes f ! i) then (MCS_ENOSPC, Some f)
             else
               (MCS_OK,
                Some (f\<lparr>fs_data := mcs_copy_bytes (fs_data f) (unat (vn_data_offset (nodes f ! i))) (the src) (unat len),
                        nodes := (nodes f)[i := (nodes f ! i)\<lparr>vn_size := len\<rparr>]\<rparr>))
         | (rc, _, fs') \<Rightarrow> (rc, fs')))"

section \<open>The directory a file system holds\<close>

definition file_name :: "u8 list \<Rightarrow> bool" where
  "file_name nm \<longleftrightarrow> nm \<noteq> [] \<and> length nm < 32 \<and> slash \<notin> set nm \<and> 0 \<notin> set nm"

definition padded :: "u8 list \<Rightarrow> u8 list" where
  "padded nm = nm @ replicate (32 - length nm) 0"

definition file_node :: "nat \<Rightarrow> u8 list \<Rightarrow> mcs_vnode \<Rightarrow> bool" where
  "file_node k nm n \<longleftrightarrow> vn_used n = 1 \<and> vn_id n = of_nat (Suc k) \<and> vn_parent n = 0 \<and> vn_type n = MCS_VNODE_FILE \<and>
     vn_name n = padded nm \<and> unat (vn_size n) \<le> 256 \<and> vn_data_offset n = of_nat (256 * k) \<and> vn_data_capacity n = 256"

definition root_node :: "mcs_vnode \<Rightarrow> bool" where
  "root_node n \<longleftrightarrow> vn_id n = 0 \<and> vn_type n = MCS_VNODE_DIR \<and> vn_name n ! 0 = slash"

definition fs_ok :: "mcs_ramfs \<Rightarrow> u8 list list \<Rightarrow> bool" where
  "fs_ok fs names \<longleftrightarrow>
     length (nodes fs) = 64 \<and> (\<forall>n \<in> set (nodes fs). length (vn_name n) = 32) \<and> length (fs_data fs) = 8192 \<and>
     length names \<le> 32 \<and> node_count fs = of_nat (Suc (length names)) \<and> data_used fs = of_nat (256 * length names) \<and>
     distinct names \<and> (\<forall>nm \<in> set names. file_name nm) \<and> root_node (nodes fs ! 0) \<and>
     (\<forall>k < length names. file_node k (names ! k) (nodes fs ! Suc k))"

lemma strlen_cstring: "0 \<notin> set s \<Longrightarrow> n \<le> length s \<Longrightarrow> strlen_from s n = length s"
proof (induction s n rule: strlen_from.induct)
  case (1 s n)
  show ?case
  proof (cases "n < length s")
    case True
    then have "chr_at s n \<noteq> 0" using 1(2) by (metis chr_at_def nth_mem)
    with 1 True show ?thesis by (subst strlen_from.simps) simp
  next
    case False
    then show ?thesis using 1(3) by (subst strlen_from.simps) (simp add: chr_at_def)
  qed
qed

lemma strlen_Some [simp]: "0 \<notin> set s \<Longrightarrow> mcs_strlen (Some s) = length s"
  by (simp add: mcs_strlen_def strlen_cstring)

lemma seg_end_takeWhile: "0 \<notin> set s \<Longrightarrow> n \<le> length s \<Longrightarrow> seg_end s n = n + length (takeWhile (\<lambda>c. c \<noteq> slash) (drop n s))"
proof (induction s n rule: seg_end.induct)
  case (1 s n)
  show ?case
  proof (cases "n < length s")
    case True
    then have nz: "s ! n \<noteq> 0" using 1(2) by (metis nth_mem)
    show ?thesis using 1 True nz by (subst seg_end.simps) (auto simp: chr_at_def Cons_nth_drop_Suc[symmetric])
  next
    case False
    then show ?thesis by (subst seg_end.simps) (simp add: chr_at_def)
  qed
qed

lemma streq_padded:
  assumes nm: "0 \<notin> set nm" "length nm < 32" and nm': "0 \<notin> set nm'" "length nm' < 32"
    and seg: "\<And>i. i < length nm \<Longrightarrow> chr_at path (seg + i) = nm ! i"
  shows "mcs_streq_n path seg (padded nm') (length nm) \<longleftrightarrow> nm = nm'"
proof
  assume "nm = nm'"
  then show "mcs_streq_n path seg (padded nm') (length nm)"
    using nm seg by (auto simp: mcs_streq_n_def padded_def nth_append list_all_iff)
next
  assume "mcs_streq_n path seg (padded nm') (length nm)"
  then have eq: "\<And>i. i < length nm \<Longrightarrow> nm ! i = padded nm' ! i" and z: "padded nm' ! length nm = 0"
    using seg by (auto simp: mcs_streq_n_def list_all_iff)
  have a: "\<not> length nm < length nm'"
  proof
    assume l: "length nm < length nm'"
    then have "nm' ! length nm = 0" using z by (simp add: padded_def nth_append)
    then show False using nm'(1) l by (metis nth_mem)
  qed
  have b: "\<not> length nm' < length nm"
  proof
    assume l: "length nm' < length nm"
    then have "nm ! length nm' = 0" using eq[OF l] nm(2) by (simp add: padded_def nth_append)
    then show False using nm(1) l by (metis nth_mem)
  qed
  from a b have "length nm = length nm'" by simp
  then show "nm = nm'" using eq by (intro nth_equalityI) (auto simp: padded_def nth_append)
qed

lemma fs_ok_count: "fs_ok fs names \<Longrightarrow> unat (node_count fs) = Suc (length names)"
  unfolding fs_ok_def by (elim conjE) (simp only: unat_of_nat, simp)

text \<open>The node of a file: its position in the list of names, after the root.\<close>

definition node_of :: "u8 list list \<Rightarrow> u8 list \<Rightarrow> nat option" where
  "node_of names nm = find (\<lambda>i. 0 < i \<and> names ! (i - 1) = nm) [0..<Suc (length names)]"

lemma find_child_spec:
  assumes ok: "fs_ok fs names" and nm: "0 \<notin> set nm" "slash \<notin> set nm"
    and seg: "\<And>i. i < length nm \<Longrightarrow> chr_at path (seg + i) = nm ! i"
  shows "mcs_find_child fs 0 path seg (length nm) =
    (if nm = [] \<or> 32 \<le> length nm then (MCS_EINVAL, None)
     else case node_of names nm of Some i \<Rightarrow> (MCS_OK, Some i) | None \<Rightarrow> (MCS_ENOENT, None))"
proof (cases "nm = [] \<or> 32 \<le> length nm")
  case True
  then show ?thesis by (auto simp: mcs_find_child_def MCS_MAX_NAME_def)
next
  case False
  let ?P = "\<lambda>i. let n = nodes fs ! i in vn_used n \<noteq> 0 \<and> vn_parent n = 0 \<and> mcs_streq_n path seg (vn_name n) (length nm)"
  have len: "length nm < 32" "nm \<noteq> []" using False by auto
  have P: "?P i \<longleftrightarrow> 0 < i \<and> names ! (i - 1) = nm" if i: "i < Suc (length names)" for i
  proof (cases i)
    case 0
    have "chr_at path (seg + 0) \<noteq> slash" using seg[of 0] len nm(2) by (cases nm) auto
    moreover have "vn_name (nodes fs ! 0) ! 0 = slash" using ok by (simp add: fs_ok_def root_node_def)
    ultimately have "\<not> mcs_streq_n path seg (vn_name (nodes fs ! 0)) (length nm)"
      using len by (auto simp: mcs_streq_n_def list_all_iff intro!: bexI[of _ 0])
    then show ?thesis using 0 by simp
  next
    case (Suc k)
    have f: "file_node k (names ! k) (nodes fs ! Suc k)" "file_name (names ! k)"
      using ok i Suc by (auto simp: fs_ok_def)
    then have "mcs_streq_n path seg (vn_name (nodes fs ! Suc k)) (length nm) \<longleftrightarrow> nm = names ! k"
      using streq_padded[OF nm(1) len(1) _ _ seg, of "names ! k"] by (simp add: file_node_def file_name_def)
    then show ?thesis using f Suc by (auto simp: file_node_def)
  qed
  have "find ?P [0..<Suc (length names)] = node_of names nm"
    unfolding node_of_def by (rule find_cong) (use P in \<open>auto simp del: upt_Suc\<close>)
  then show ?thesis using False len by (simp add: mcs_find_child_def MCS_MAX_NAME_def fs_ok_count[OF ok] del: upt_Suc)
qed

lemma node_of_Some: "node_of names nm = Some i \<Longrightarrow> 0 < i \<and> i \<le> length names \<and> names ! (i - 1) = nm"
  by (auto simp: node_of_def find_Some_iff simp del: upt_Suc)

lemma node_of_None: "node_of names nm = None \<longleftrightarrow> nm \<notin> set names"
proof -
  have "node_of names nm = None \<longleftrightarrow> (\<forall>i \<in> {0..<Suc (length names)}. \<not> (0 < i \<and> names ! (i - 1) = nm))"
    by (auto simp: node_of_def find_None_iff simp del: upt_Suc)
  also have "\<dots> \<longleftrightarrow> (\<forall>k < length names. names ! k \<noteq> nm)"
  proof
    assume a: "\<forall>i \<in> {0..<Suc (length names)}. \<not> (0 < i \<and> names ! (i - 1) = nm)"
    show "\<forall>k < length names. names ! k \<noteq> nm"
    proof (intro allI impI)
      fix k
      assume "k < length names"
      then show "names ! k \<noteq> nm" using bspec[OF a, of "Suc k"] by simp
    qed
  next
    assume a: "\<forall>k < length names. names ! k \<noteq> nm"
    show "\<forall>i \<in> {0..<Suc (length names)}. \<not> (0 < i \<and> names ! (i - 1) = nm)"
    proof
      fix i
      assume "i \<in> {0..<Suc (length names)}"
      then show "\<not> (0 < i \<and> names ! (i - 1) = nm)" using a by (cases i) auto
    qed
  qed
  also have "\<dots> \<longleftrightarrow> nm \<notin> set names" by (auto simp: in_set_conv_nth)
  finally show ?thesis .
qed

lemma first_segment:
  assumes p: "0 \<notin> set (slash # rest)"
  defines "nm \<equiv> takeWhile (\<lambda>c. c \<noteq> slash) rest"
  shows "seg_end (slash # rest) 1 = 1 + length nm" "\<And>i. i < length nm \<Longrightarrow> chr_at (slash # rest) (1 + i) = nm ! i"
    "0 \<notin> set nm" "slash \<notin> set nm" "chr_at (slash # rest) (1 + length nm) = 0 \<longleftrightarrow> nm = rest"
proof -
  show "seg_end (slash # rest) 1 = 1 + length nm" using seg_end_takeWhile[OF p, of 1] by (simp add: nm_def)
  have le: "length nm \<le> length rest" by (simp add: nm_def length_takeWhile_le)
  show "\<And>i. i < length nm \<Longrightarrow> chr_at (slash # rest) (1 + i) = nm ! i"
    using le by (simp add: chr_at_def) (simp add: nm_def takeWhile_nth)
  show "0 \<notin> set nm" using p by (auto simp: nm_def dest: set_takeWhileD)
  show "slash \<notin> set nm" by (auto simp: nm_def dest: set_takeWhileD)
  show "chr_at (slash # rest) (1 + length nm) = 0 \<longleftrightarrow> nm = rest"
  proof (cases "length nm < length rest")
    case True
    then have "rest ! length nm = slash" unfolding nm_def using nth_length_takeWhile[of "\<lambda>c. c \<noteq> slash" rest] by simp
    then show ?thesis using True by (auto simp: chr_at_def)
  next
    case False
    then have "nm = rest" unfolding nm_def by (metis length_takeWhile_le le_neq_implies_less takeWhile_eq_take take_all not_less)
    then show ?thesis by (simp add: chr_at_def)
  qed
qed

lemma lookup_spec:
  assumes ok: "fs_ok fs names" and p: "0 \<notin> set (slash # rest)"
  shows "mcs_ramfs_lookup (Some fs) (Some (slash # rest)) =
    (if 127 \<le> length rest then (MCS_ENAMETOOLONG, None)
     else if rest = [] then (MCS_OK, Some 0)
     else let nm = takeWhile (\<lambda>c. c \<noteq> slash) rest
          in if nm = [] \<or> 32 \<le> length nm then (MCS_EINVAL, None)
             else case node_of names nm of
                    None \<Rightarrow> (MCS_ENOENT, None)
                  | Some i \<Rightarrow> if nm = rest then (MCS_OK, Some i) else (MCS_ENOTDIR, None))"
proof -
  let ?nm = "takeWhile (\<lambda>c. c \<noteq> slash) rest"
  note fsg = first_segment[OF p]
  have c: "chr_at (slash # rest) 1 = 0 \<longleftrightarrow> rest = []" using p by (cases rest) (auto simp: chr_at_def)
  have root: "vn_id (nodes fs ! 0) = 0" using ok by (simp add: fs_ok_def root_node_def)
  have fc: "mcs_find_child fs 0 (slash # rest) 1 (length ?nm) =
    (if ?nm = [] \<or> 32 \<le> length ?nm then (MCS_EINVAL, None)
     else case node_of names ?nm of Some i \<Rightarrow> (MCS_OK, Some i) | None \<Rightarrow> (MCS_ENOENT, None))"
    by (rule find_child_spec[OF ok fsg(3,4,2)])
  have ty: "vn_type (nodes fs ! i) = MCS_VNODE_FILE" if "node_of names nm = Some i" for nm i
    using node_of_Some[OF that] ok by (cases i) (auto simp: fs_ok_def file_node_def)
  have "lookup_from fs (slash # rest) 0 1 =
      (if ?nm = [] \<or> 32 \<le> length ?nm then (MCS_EINVAL, None)
       else case node_of names ?nm of
              None \<Rightarrow> (MCS_ENOENT, None)
            | Some i \<Rightarrow> if ?nm = rest then (MCS_OK, Some i) else (MCS_ENOTDIR, None))" if "rest \<noteq> []"
  proof (cases "?nm = [] \<or> 32 \<le> length ?nm")
    case True
    then show ?thesis using that by (subst lookup_from.simps) (auto simp: c fsg(1) Let_def MCS_MAX_NAME_def simp del: One_nat_def)
  next
    case False
    then have l: "\<not> (length ?nm = 0 \<or> MCS_MAX_NAME \<le> length ?nm)" by (auto simp: MCS_MAX_NAME_def)
    show ?thesis
    proof (cases "node_of names ?nm")
      case None
      then show ?thesis using that False l by (subst lookup_from.simps) (simp add: c fsg(1) Let_def root fc del: One_nat_def)
    next
      case (Some i)
      then show ?thesis using that False l fsg(5) ty[OF Some]
        by (subst lookup_from.simps) (simp add: c fsg(1) Let_def root fc del: One_nat_def takeWhile_eq_all_conv)
    qed
  qed
  moreover have "chr_at (slash # rest) 0 = slash" by (simp add: chr_at_def)
  ultimately show ?thesis using p c by (simp add: mcs_ramfs_lookup_def MCS_MAX_PATH_def Let_def del: One_nat_def)
qed

lemma lookup_bad: "path = [] \<or> hd path \<noteq> slash \<Longrightarrow> mcs_ramfs_lookup (Some fs) (Some path) = (MCS_EINVAL, None)"
  by (cases path) (auto simp: mcs_ramfs_lookup_def chr_at_def)

lemma split_spec:
  assumes ok: "fs_ok fs names" and p: "0 \<notin> set (slash # rest)"
  shows "mcs_split_parent_leaf fs (slash # rest) =
    (if rest = [] then (MCS_EINVAL, None)
     else if 127 \<le> length rest then (MCS_ENAMETOOLONG, None)
     else let nm = takeWhile (\<lambda>c. c \<noteq> slash) rest
          in if nm = [] \<or> 32 \<le> length nm then (MCS_EINVAL, None)
             else if nm = rest then (MCS_OK, Some (0, 1, length nm))
             else if nm \<in> set names then (MCS_ENOTDIR, None) else (MCS_ENOENT, None))"
proof -
  let ?nm = "takeWhile (\<lambda>c. c \<noteq> slash) rest"
  note fsg = first_segment[OF p]
  have c: "chr_at (slash # rest) 1 = 0 \<longleftrightarrow> rest = []" using p by (cases rest) (auto simp: chr_at_def)
  have root: "vn_id (nodes fs ! 0) = 0" using ok by (simp add: fs_ok_def root_node_def)
  have fc: "mcs_find_child fs 0 (slash # rest) 1 (length ?nm) =
    (if ?nm = [] \<or> 32 \<le> length ?nm then (MCS_EINVAL, None)
     else case node_of names ?nm of Some i \<Rightarrow> (MCS_OK, Some i) | None \<Rightarrow> (MCS_ENOENT, None))"
    by (rule find_child_spec[OF ok fsg(3,4,2)])
  have "split_from fs (slash # rest) 0 1 =
      (if ?nm = [] \<or> 32 \<le> length ?nm then (MCS_EINVAL, None)
       else if ?nm = rest then (MCS_OK, Some (0, 1, length ?nm))
       else if ?nm \<in> set names then (MCS_ENOTDIR, None) else (MCS_ENOENT, None))"
  proof (cases "?nm = [] \<or> 32 \<le> length ?nm")
    case True
    then show ?thesis by (subst split_from.simps) (auto simp: fsg(1) Let_def MCS_MAX_NAME_def simp del: One_nat_def)
  next
    case False
    then have l: "\<not> (length ?nm = 0 \<or> MCS_MAX_NAME \<le> length ?nm)" by (auto simp: MCS_MAX_NAME_def)
    show ?thesis
    proof (cases "node_of names ?nm")
      case None
      then show ?thesis using False l fsg(5) node_of_None[of names ?nm]
        by (subst split_from.simps) (simp add: fsg(1) Let_def root fc del: One_nat_def takeWhile_eq_all_conv)
    next
      case (Some i)
      then have "vn_type (nodes fs ! i) = MCS_VNODE_FILE"
        using node_of_Some[OF Some] ok by (cases i) (auto simp: fs_ok_def file_node_def)
      moreover have "?nm \<in> set names" using Some node_of_None[of names ?nm] by auto
      ultimately show ?thesis using False l fsg(5) Some
        by (subst split_from.simps) (simp add: fsg(1) Let_def root fc del: One_nat_def takeWhile_eq_all_conv)
    qed
  qed
  moreover have "chr_at (slash # rest) 0 = slash" by (simp add: chr_at_def)
  ultimately show ?thesis using p c by (simp add: mcs_split_parent_leaf_def MCS_MAX_PATH_def Let_def del: One_nat_def)
qed

lemma copy_name_padded:
  assumes len: "length dst = 32" and nm: "length nm < 32" and seg: "\<And>i. i < length nm \<Longrightarrow> chr_at path (seg + i) = nm ! i"
  shows "mcs_copy_name dst path seg (length nm) = padded nm"
proof -
  have z: "n \<le> 32 \<Longrightarrow> fold (\<lambda>i d. d[i := 0]) [0..<n] dst = replicate n 0 @ drop n dst" for n
  proof (induction n)
    case (Suc n)
    then show ?case using len
      by (simp add: list_update_append Cons_nth_drop_Suc[symmetric] replicate_append_same)
  qed simp
  have c: "n \<le> length nm \<Longrightarrow> fold (\<lambda>i d. d[i := chr_at path (seg + i)]) [0..<n] (replicate 32 0) = take n nm @ replicate (32 - n) 0" for n
  proof (induction n)
    case (Suc n)
    have "32 - n = Suc (31 - n)" using Suc.prems nm by simp
    then show ?case using Suc seg[of n] by (simp add: list_update_append take_Suc_conv_app_nth)
  qed simp
  show ?thesis using z[of 32] c[of "length nm"] nm len
    by (simp add: mcs_copy_name_def MCS_MAX_NAME_def padded_def)
qed

lemma alloc_spec:
  assumes ok: "fs_ok fs names" and nm: "file_name nm" "nm \<notin> set names"
    and seg: "\<And>i. i < length nm \<Longrightarrow> chr_at path (seg + i) = nm ! i"
  shows "if length names = 32 then mcs_alloc_node fs 0 MCS_VNODE_FILE path seg (length nm) 256 = (MCS_ENOSPC, None, fs)
    else \<exists>fs'. mcs_alloc_node fs 0 MCS_VNODE_FILE path seg (length nm) 256 = (MCS_OK, Some (Suc (length names)), fs') \<and>
      fs_ok fs' (names @ [nm]) \<and> fs_data fs' = fs_data fs \<and> vn_size (nodes fs' ! Suc (length names)) = 0 \<and>
      (\<forall>i \<le> length names. nodes fs' ! i = nodes fs ! i)"
proof -
  let ?n = "length names"
  have n: "?n \<le> 32" "node_count fs = of_nat (Suc ?n)" "data_used fs = of_nat (256 * ?n)"
    using ok by (auto simp: fs_ok_def)
  have cnt: "unat (node_count fs) = Suc ?n" by (rule fs_ok_count[OF ok])
  have nl: "\<not> node_count fs \<ge> of_nat MCS_MAX_NODES" using n(1) by (simp add: word_le_nat_alt cnt MCS_MAX_NODES_def)
  have du: "data_used fs + 256 = of_nat (256 * Suc ?n)" using n(3) by simp
  have un: "unat (of_nat (256 * Suc ?n) :: u64) = 256 * Suc ?n" using n(1) by (simp only: unat_of_nat) simp
  have full: "data_used fs + 256 > MCS_RAMFS_DATA_BYTES \<longleftrightarrow> ?n = 32"
    unfolding du word_less_nat_alt un MCS_RAMFS_DATA_BYTES_def using n(1) by auto
  have nlen: "length nm < 32" "length nm \<noteq> 0" using nm by (auto simp: file_name_def)
  show ?thesis
  proof (cases "?n = 32")
    case True
    then show ?thesis using nl full nlen by (simp add: mcs_alloc_node_def MCS_MAX_NAME_def)
  next
    case False
    let ?old = "nodes fs ! Suc ?n"
    have ln: "length (nodes fs) = 64" "length (vn_name ?old) = 32" using ok n(1) by (auto simp: fs_ok_def)
    let ?new = "?old\<lparr>vn_used := 1, vn_id := ucast (node_count fs), vn_parent := 0, vn_type := MCS_VNODE_FILE,
         vn_name := padded nm, vn_size := 0, vn_data_offset := data_used fs, vn_data_capacity := 256\<rparr>"
    let ?fs = "fs\<lparr>data_used := data_used fs + 256, nodes := (nodes fs)[Suc ?n := ?new], node_count := node_count fs + 1\<rparr>"
    have a: "mcs_alloc_node fs 0 MCS_VNODE_FILE path seg (length nm) 256 = (MCS_OK, Some (Suc ?n), ?fs)"
      using nl full nlen False copy_name_padded[OF ln(2) nlen(1) seg]
      by (simp add: mcs_alloc_node_def MCS_MAX_NAME_def Let_def cnt)
    have idw: "ucast (node_count fs) = (of_nat (Suc ?n) :: u32)"
    proof -
      have "unat (ucast (node_count fs) :: u32) = Suc ?n"
        using n(1) by (simp add: unsigned_ucast_eq cnt take_bit_nat_eq_self)
      moreover have "unat (of_nat (Suc ?n) :: u32) = Suc ?n" using n(1) by (simp only: unat_of_nat) simp
      ultimately show ?thesis by (simp add: word_unat_eq_iff del: of_nat_Suc)
    qed
    have lp: "length (padded nm) = 32" using nlen by (simp add: padded_def)
    have "fs_ok ?fs (names @ [nm])"
      unfolding fs_ok_def
    proof (intro conjI)
      show "\<forall>x \<in> set (nodes ?fs). length (vn_name x) = 32"
        using ok lp set_update_subset_insert[of "nodes fs" "Suc ?n" ?new] by (auto simp: fs_ok_def)
      show "\<forall>k < length (names @ [nm]). file_node k ((names @ [nm]) ! k) (nodes ?fs ! Suc k)"
      proof (intro allI impI)
        fix k
        assume k: "k < length (names @ [nm])"
        show "file_node k ((names @ [nm]) ! k) (nodes ?fs ! Suc k)"
        proof (cases "k = ?n")
          case True
          then show ?thesis using ln idw n(1,3) by (simp add: file_node_def)
        next
          case F: False
          then show ?thesis using k ok by (simp add: fs_ok_def nth_append)
        qed
      qed
    qed (use ok nm n False in \<open>auto simp: fs_ok_def\<close>)
    then show ?thesis using a False ln n(1) by auto
  qed
qed

lemma create_spec:
  assumes ok: "fs_ok fs names" and p: "0 \<notin> set path"
  shows "if \<exists>nm. path = slash # nm \<and> file_name nm \<and> nm \<notin> set names \<and> length names < 32
    then \<exists>fs'. mcs_ramfs_create_file (Some fs) (Some path) = (MCS_OK, Some (Suc (length names)), Some fs') \<and>
      fs_ok fs' (names @ [tl path]) \<and> fs_data fs' = fs_data fs \<and> vn_size (nodes fs' ! Suc (length names)) = 0 \<and>
      (\<forall>i \<le> length names. nodes fs' ! i = nodes fs ! i)
    else \<exists>rc i. mcs_ramfs_create_file (Some fs) (Some path) = (rc, i, Some fs) \<and>
      (i = None \<longleftrightarrow> rc \<noteq> MCS_OK) \<and> (i \<noteq> None \<longleftrightarrow> (\<exists>nm \<in> set names. path = slash # nm)) \<and>
      (i \<noteq> None \<longrightarrow> i = node_of names (tl path))"
proof (cases path)
  case Nil
  then show ?thesis
    by (simp add: mcs_ramfs_create_file_def lookup_bad mcs_split_parent_leaf_def chr_at_def vfs_codes)
next
  case (Cons c rest)
  let ?nm = "takeWhile (\<lambda>c. c \<noteq> slash) rest"
  show ?thesis
  proof (cases "c = slash")
    case False
    then show ?thesis using Cons
      by (simp add: mcs_ramfs_create_file_def lookup_bad mcs_split_parent_leaf_def chr_at_def vfs_codes)
  next
    case True
    then have path: "path = slash # rest" and p': "0 \<notin> set (slash # rest)" using Cons p by auto
    note lk = lookup_spec[OF ok p'] and sp = split_spec[OF ok p'] and fsg = first_segment[OF p']
    have root: "vn_id (nodes fs ! 0) = 0" "vn_type (nodes fs ! 0) = MCS_VNODE_DIR" using ok by (auto simp: fs_ok_def root_node_def)
    have fnm: "file_name rest \<longleftrightarrow> ?nm = rest \<and> ?nm \<noteq> [] \<and> length ?nm < 32"
    proof -
      have "?nm = rest \<longleftrightarrow> slash \<notin> set rest" by (auto simp: takeWhile_eq_all_conv)
      then show ?thesis using p' unfolding file_name_def by (metis list.set_intros(2))
    qed
    have inn: "rest \<in> set names \<Longrightarrow> file_name rest" using ok by (auto simp: fs_ok_def)
    consider (new) "file_name rest" "rest \<notin> set names" | (old) "rest \<in> set names" | (bad) "\<not> file_name rest" by blast
    then show ?thesis
    proof cases
      case old
      then obtain i where i: "node_of names rest = Some i" using node_of_None[of names rest] by auto
      have "vn_type (nodes fs ! i) = MCS_VNODE_FILE"
        using node_of_Some[OF i] ok by (cases i) (auto simp: fs_ok_def file_node_def)
      moreover have "mcs_ramfs_lookup (Some fs) (Some path) = (MCS_OK, Some i)"
      proof -
        have nm: "?nm = rest" "rest \<noteq> []" "length rest < 32" using inn[OF old] fnm by (auto simp: file_name_def)
        show ?thesis unfolding path lk nm(1) Let_def using nm(2,3) i by simp
      qed
      ultimately show ?thesis using old i path by (simp add: mcs_ramfs_create_file_def vfs_codes)
    next
      case new
      then have nm: "?nm = rest" "?nm \<noteq> []" "length ?nm < 32" unfolding fnm by auto
      have l: "length rest < 127" using new(1) by (simp add: file_name_def)
      have lk': "mcs_ramfs_lookup (Some fs) (Some path) = (MCS_ENOENT, None)"
        unfolding path lk nm(1) Let_def using new node_of_None[of names rest] l by (auto simp: file_name_def)
      have sp': "mcs_split_parent_leaf fs path = (MCS_OK, Some (0, 1, length rest))"
        unfolding path sp nm(1) Let_def using new(1) l by (auto simp: file_name_def)
      have seg: "\<And>i. i < length rest \<Longrightarrow> chr_at path (1 + i) = rest ! i" using fsg(2) nm(1) path by simp
      have c: "mcs_ramfs_create_file (Some fs) (Some path) =
          (case mcs_alloc_node fs 0 MCS_VNODE_FILE path 1 (length rest) 256 of (rc, out, f') \<Rightarrow> (rc, out, Some f'))"
        by (simp add: mcs_ramfs_create_file_def lk' sp' root)
      have pt: "(\<exists>nm. path = slash # nm \<and> file_name nm \<and> nm \<notin> set names \<and> length names < 32) \<longleftrightarrow> length names \<noteq> 32"
        "\<not> (\<exists>nm \<in> set names. path = slash # nm)" "tl path = rest"
        using new path ok by (auto simp: fs_ok_def)
      show ?thesis using alloc_spec[OF ok new seg] pt(2) unfolding c pt(1,3)
        by (cases "length names = 32") (auto simp: vfs_codes)
    next
      case bad
      have "\<exists>rc. rc \<noteq> MCS_OK \<and> mcs_ramfs_create_file (Some fs) (Some path) = (rc, None, Some fs)"
      proof (cases "rest = []")
        case True
        then show ?thesis unfolding path using lk root(2)
          by (simp add: mcs_ramfs_create_file_def True vfs_codes)
      next
        case ne: False
        have "\<exists>rc. rc \<noteq> MCS_OK \<and> mcs_split_parent_leaf fs path = (rc, None)" "\<exists>rc. mcs_ramfs_lookup (Some fs) (Some path) = (rc, None)"
          using bad ne unfolding path lk sp fnm by (auto simp: Let_def vfs_codes split: option.splits)
        then show ?thesis by (auto simp: mcs_ramfs_create_file_def)
      qed
      then show ?thesis using bad path inn by auto
    qed
  qed
qed

lemma node_of_snoc: "node_of (names @ [nm]) x = (if x \<in> set names then node_of names x else if x = nm then Some (Suc (length names)) else None)"
proof -
  have "find (\<lambda>i. 0 < i \<and> (names @ [nm]) ! (i - 1) = x) [0..<Suc (length names)] = node_of names x"
    unfolding node_of_def
  proof (rule find_cong)
    fix i
    assume "i \<in> set [0..<Suc (length names)]"
    then have "i < Suc (length names)" by auto
    then show "(0 < i \<and> (names @ [nm]) ! (i - 1) = x) = (0 < i \<and> names ! (i - 1) = x)"
      by (cases "i = 0") (auto simp: nth_append)
  qed simp
  moreover have "find P (xs @ ys) = (case find P xs of Some i \<Rightarrow> Some i | None \<Rightarrow> find P ys)" for P and xs ys :: "nat list"
    by (induction xs) auto
  moreover have "[0..<Suc (length (names @ [nm]))] = [0..<Suc (length names)] @ [Suc (length names)]" by simp
  ultimately have "node_of (names @ [nm]) x = (case node_of names x of Some i \<Rightarrow> Some i
      | None \<Rightarrow> find (\<lambda>i. 0 < i \<and> (names @ [nm]) ! (i - 1) = x) [Suc (length names)])"
    unfolding node_of_def[of "names @ [nm]"] by (simp only:)
  then show ?thesis using node_of_None[of names x] by (cases "node_of names x") auto
qed

definition found :: "mcs_ramfs \<Rightarrow> cstring \<Rightarrow> nat option" where
  "found fs path = snd (mcs_ramfs_lookup (Some fs) (Some path))"

lemma found_spec:
  assumes ok: "fs_ok fs names" and p: "0 \<notin> set path"
  shows "found fs path = (if path = [slash] then Some 0 else if path \<noteq> [] \<and> hd path = slash then node_of names (tl path) else None)"
    and "fst (mcs_ramfs_lookup (Some fs) (Some path)) = MCS_OK \<longleftrightarrow> found fs path \<noteq> None"
proof -
  have "found fs path = (if path = [slash] then Some 0 else if path \<noteq> [] \<and> hd path = slash then node_of names (tl path) else None) \<and>
    (fst (mcs_ramfs_lookup (Some fs) (Some path)) = MCS_OK \<longleftrightarrow> found fs path \<noteq> None)"
  proof (cases "path = [] \<or> hd path \<noteq> slash")
    case True
    then show ?thesis using lookup_bad[OF True, of fs] by (auto simp: found_def vfs_codes)
  next
    case False
    then obtain rest where path: "path = slash # rest" by (cases path) auto
    let ?nm = "takeWhile (\<lambda>c. c \<noteq> slash) rest"
    have lk: "mcs_ramfs_lookup (Some fs) (Some path) = (if 127 \<le> length rest then (MCS_ENAMETOOLONG, None)
     else if rest = [] then (MCS_OK, Some 0)
     else if ?nm = [] \<or> 32 \<le> length ?nm then (MCS_EINVAL, None)
     else case node_of names ?nm of None \<Rightarrow> (MCS_ENOENT, None)
        | Some i \<Rightarrow> if ?nm = rest then (MCS_OK, Some i) else (MCS_ENOTDIR, None))"
      using lookup_spec[OF ok, of rest] p unfolding path Let_def by simp
    show ?thesis
    proof (cases "rest \<in> set names")
      case True
      then have f: "file_name rest" using ok by (auto simp: fs_ok_def)
      then have nm: "?nm = rest" by (auto simp: takeWhile_eq_all_conv file_name_def)
      obtain i where i: "node_of names rest = Some i" using True node_of_None[of names rest] by auto
      have "mcs_ramfs_lookup (Some fs) (Some path) = (MCS_OK, Some i)"
        using lk[unfolded nm] f i by (simp add: file_name_def)
      then show ?thesis using i f path by (simp add: found_def file_name_def)
    next
      case False
      then have n: "node_of names rest = None" using node_of_None by blast
      show ?thesis
      proof (cases "rest = []")
        case True
        then show ?thesis using path unfolding found_def lk by simp
      next
        case ne: False
        have "\<exists>rc. rc \<noteq> MCS_OK \<and> mcs_ramfs_lookup (Some fs) (Some path) = (rc, None)"
        proof (cases "?nm = rest")
          case True
          show ?thesis unfolding lk unfolding True n by (simp add: ne vfs_codes)
        next
          case F: False
          show ?thesis unfolding lk using ne F by (cases "node_of names ?nm") (simp_all add: vfs_codes del: takeWhile_eq_all_conv)
        qed
        then obtain rc where "rc \<noteq> MCS_OK" "mcs_ramfs_lookup (Some fs) (Some path) = (rc, None)" by blast
        then show ?thesis using n ne unfolding found_def path by simp
      qed
    qed
  qed
  then show "found fs path = (if path = [slash] then Some 0 else if path \<noteq> [] \<and> hd path = slash then node_of names (tl path) else None)"
    "fst (mcs_ramfs_lookup (Some fs) (Some path)) = MCS_OK \<longleftrightarrow> found fs path \<noteq> None" by blast+
qed

lemma create_new:
  assumes ok: "fs_ok fs names" and p: "0 \<notin> set path"
    and nm: "path = slash # nm" "file_name nm" "nm \<notin> set names" "length names < 32"
  shows "\<exists>fs'. mcs_ramfs_create_file (Some fs) (Some path) = (MCS_OK, Some (Suc (length names)), Some fs') \<and>
    fs_ok fs' (names @ [nm]) \<and> mcs_ramfs_lookup (Some fs') (Some path) = (MCS_OK, Some (Suc (length names))) \<and>
    vn_type (nodes fs' ! Suc (length names)) = MCS_VNODE_FILE \<and>
    (\<forall>other. 0 \<notin> set other \<longrightarrow> other \<noteq> path \<longrightarrow> found fs' other = found fs other)"
proof -
  have "\<exists>nm. path = slash # nm \<and> file_name nm \<and> nm \<notin> set names \<and> length names < 32" using nm by blast
  then obtain fs' where c: "mcs_ramfs_create_file (Some fs) (Some path) = (MCS_OK, Some (Suc (length names)), Some fs')"
    and ok': "fs_ok fs' (names @ [nm])"
    using create_spec[OF ok p] unfolding nm(1) list.sel by auto
  have ne: "nm \<noteq> []" using nm(2) by (simp add: file_name_def)
  have f: "found fs' path = Some (Suc (length names))"
    using found_spec(1)[OF ok' p] nm ne by (simp add: node_of_snoc)
  then have lk: "mcs_ramfs_lookup (Some fs') (Some path) = (MCS_OK, Some (Suc (length names)))"
    using found_spec(2)[OF ok' p] by (simp add: found_def prod_eq_iff)
  have ty: "vn_type (nodes fs' ! Suc (length names)) = MCS_VNODE_FILE"
    using ok' by (auto simp: fs_ok_def file_node_def)
  have "found fs' other = found fs other" if "0 \<notin> set other" "other \<noteq> path" for other
  proof (cases "other \<noteq> [] \<and> hd other = slash")
    case True
    then have "tl other \<noteq> nm" using that(2) nm(1) by (cases other) auto
    then show ?thesis using True node_of_None[of names "tl other"]
      unfolding found_spec(1)[OF ok' that(1)] found_spec(1)[OF ok that(1)] node_of_snoc by auto
  next
    case False
    then show ?thesis unfolding found_spec(1)[OF ok' that(1)] found_spec(1)[OF ok that(1)] by auto
  qed
  with c ok' lk ty show ?thesis by blast
qed

lemma create_old:
  assumes ok: "fs_ok fs names" and p: "0 \<notin> set path"
    and none: "\<not> (\<exists>nm. path = slash # nm \<and> file_name nm \<and> nm \<notin> set names \<and> length names < 32)"
  shows "\<exists>rc i. mcs_ramfs_create_file (Some fs) (Some path) = (rc, i, Some fs) \<and>
    (rc = MCS_OK \<longleftrightarrow> (\<exists>nm \<in> set names. path = slash # nm)) \<and>
    (rc = MCS_OK \<longrightarrow> mcs_ramfs_lookup (Some fs) (Some path) = (MCS_OK, i) \<and> vn_type (nodes fs ! the i) = MCS_VNODE_FILE)"
proof -
  obtain rc i where c: "mcs_ramfs_create_file (Some fs) (Some path) = (rc, i, Some fs)"
    and i: "i = None \<longleftrightarrow> rc \<noteq> MCS_OK" "i \<noteq> None \<longleftrightarrow> (\<exists>nm \<in> set names. path = slash # nm)" "i \<noteq> None \<longrightarrow> i = node_of names (tl path)"
    using create_spec[OF ok p] unfolding if_not_P[OF none] by (elim exE conjE) (rule that)
  have names: "\<And>nm. nm \<in> set names \<Longrightarrow> file_name nm" using ok by (auto simp: fs_ok_def)
  have "mcs_ramfs_lookup (Some fs) (Some path) = (MCS_OK, i) \<and> vn_type (nodes fs ! the i) = MCS_VNODE_FILE" if rc: "rc = MCS_OK"
  proof -
    obtain nm where nm: "nm \<in> set names" "path = slash # nm" using i rc by blast
    then have ne: "nm \<noteq> []" using names by (auto simp: file_name_def)
    obtain k where k: "i = Some k" "node_of names nm = Some k" using i rc nm by auto
    have fd: "found fs path = i" using nm ne k unfolding found_spec(1)[OF ok p] by simp
    then have "mcs_ramfs_lookup (Some fs) (Some path) = (MCS_OK, i)"
      using found_spec(2)[OF ok p] k(1) by (simp add: found_def prod_eq_iff)
    moreover have "vn_type (nodes fs ! the i) = MCS_VNODE_FILE"
      using node_of_Some[OF k(2)] ok k(1) by (cases k) (auto simp: fs_ok_def file_node_def)
    ultimately show ?thesis by blast
  qed
  then show ?thesis using c i by blast
qed

text \<open>
  C30. Looking a path up after creating a file at it finds that file, and no other path changes what
  it finds. Creation succeeds exactly for \<open>/name\<close> with a name of 1 to 31 bytes without slash that exists
  already or for which one of the 32 data areas is left; otherwise the file system is unchanged.
\<close>

theorem ramfs_create_lookup:
  assumes ok: "fs_ok fs names" and p: "0 \<notin> set path"
  shows "\<exists>rc i fs'. mcs_ramfs_create_file (Some fs) (Some path) = (rc, i, Some fs') \<and>
    (rc = MCS_OK \<longleftrightarrow> (\<exists>nm. path = slash # nm \<and> file_name nm \<and> (nm \<in> set names \<or> length names < 32))) \<and>
    (rc = MCS_OK \<longrightarrow> fs_ok fs' (if tl path \<in> set names then names else names @ [tl path]) \<and>
       mcs_ramfs_lookup (Some fs') (Some path) = (MCS_OK, i) \<and> vn_type (nodes fs' ! the i) = MCS_VNODE_FILE \<and>
       (\<forall>other. 0 \<notin> set other \<longrightarrow> other \<noteq> path \<longrightarrow>
          snd (mcs_ramfs_lookup (Some fs') (Some other)) = snd (mcs_ramfs_lookup (Some fs) (Some other)))) \<and>
    (rc \<noteq> MCS_OK \<longrightarrow> fs' = fs)"
proof (cases "\<exists>nm. path = slash # nm \<and> file_name nm \<and> nm \<notin> set names \<and> length names < 32")
  case True
  then obtain nm where nm: "path = slash # nm" "file_name nm" "nm \<notin> set names" "length names < 32" by blast
  obtain fs' where c: "mcs_ramfs_create_file (Some fs) (Some path) = (MCS_OK, Some (Suc (length names)), Some fs')"
    "fs_ok fs' (names @ [nm])" "mcs_ramfs_lookup (Some fs') (Some path) = (MCS_OK, Some (Suc (length names)))"
    "vn_type (nodes fs' ! Suc (length names)) = MCS_VNODE_FILE"
    "\<forall>other. 0 \<notin> set other \<longrightarrow> other \<noteq> path \<longrightarrow> found fs' other = found fs other"
    using create_new[OF ok p nm] by blast
  have "fs_ok fs' (if tl path \<in> set names then names else names @ [tl path])" using c(2) nm by simp
  then show ?thesis
    by (intro exI[of _ MCS_OK] exI[of _ "Some (Suc (length names))"] exI[of _ fs'])
      (use c nm in \<open>unfold found_def option.sel, blast\<close>)
next
  case False
  obtain rc i where c: "mcs_ramfs_create_file (Some fs) (Some path) = (rc, i, Some fs)"
    and rc: "rc = MCS_OK \<longleftrightarrow> (\<exists>nm \<in> set names. path = slash # nm)"
    and lk: "rc = MCS_OK \<longrightarrow> mcs_ramfs_lookup (Some fs) (Some path) = (MCS_OK, i) \<and> vn_type (nodes fs ! the i) = MCS_VNODE_FILE"
    using create_old[OF ok p False] by (elim exE conjE) (rule that)
  have "\<And>nm. nm \<in> set names \<Longrightarrow> file_name nm" using ok by (auto simp: fs_ok_def)
  then have "(\<exists>nm \<in> set names. path = slash # nm) \<longleftrightarrow>
      (\<exists>nm. path = slash # nm \<and> file_name nm \<and> (nm \<in> set names \<or> length names < 32))" using False by blast
  moreover have "fs_ok fs (if tl path \<in> set names then names else names @ [tl path])" if "rc = MCS_OK"
    using that rc ok by auto
  ultimately show ?thesis using c rc lk by (intro exI[of _ rc] exI[of _ i] exI[of _ fs]) blast
qed

definition raw_ramfs :: mcs_ramfs where
  "raw_ramfs = \<lparr>nodes = replicate 64 \<lparr>vn_used = 9, vn_id = 9, vn_parent = 9, vn_type = MCS_VNODE_DIR,
     vn_name = replicate 32 7, vn_size = 9, vn_data_offset = 9, vn_data_capacity = 9\<rparr>,
     node_count = 9, fs_data = replicate 8192 7, data_used = 9\<rparr>"

lemma fold_clear_shape:
  assumes "length (nodes f) = 64" "\<forall>n \<in> set (nodes f). length (vn_name n) = 32" "set is \<subseteq> {..<64}"
  defines "g \<equiv> fold (\<lambda>i fs. fs\<lparr>nodes := (nodes fs)[i := (nodes fs ! i)\<lparr>vn_used := 0, vn_id := 0, vn_parent := 0,
                   vn_type := MCS_VNODE_FILE, vn_name := (vn_name (nodes fs ! i))[0 := 0], vn_size := 0,
                   vn_data_offset := 0, vn_data_capacity := 0\<rparr>]\<rparr>) is f"
  shows "length (nodes g) = 64 \<and> (\<forall>n \<in> set (nodes g). length (vn_name n) = 32) \<and> fs_data g = fs_data f"
  using assms(1-3) unfolding g_def
proof (induction "is" arbitrary: f)
  case (Cons i "is")
  let ?n = "(nodes f ! i)\<lparr>vn_used := 0, vn_id := 0, vn_parent := 0,
                   vn_type := MCS_VNODE_FILE, vn_name := (vn_name (nodes f ! i))[0 := 0], vn_size := 0,
                   vn_data_offset := 0, vn_data_capacity := 0\<rparr>"
  have "nodes f ! i \<in> set (nodes f)" using Cons.prems by simp
  then have "\<forall>n \<in> insert ?n (set (nodes f)). length (vn_name n) = 32" using Cons.prems(2) by simp
  then have "\<forall>n \<in> set ((nodes f)[i := ?n]). length (vn_name n) = 32"
    using set_update_subset_insert[of "nodes f" i ?n] by blast
  then show ?case using Cons.IH[of "f\<lparr>nodes := (nodes f)[i := ?n]\<rparr>"] Cons.prems by simp
qed simp

lemma fold_zero_shape:
  "nodes (fold (\<lambda>i fs. fs\<lparr>fs_data := (fs_data fs)[i := 0]\<rparr>) is f) = nodes f \<and>
   length (fs_data (fold (\<lambda>i fs. fs\<lparr>fs_data := (fs_data fs)[i := 0]\<rparr>) is f)) = length (fs_data f)"
  by (induction "is" arbitrary: f) auto

lemma ramfs_init_ok:
  assumes raw: "length (nodes raw) = 64" "\<forall>n \<in> set (nodes raw). length (vn_name n) = 32" "length (fs_data raw) = 8192"
  shows "\<exists>fs. mcs_ramfs_init (Some raw) = Some fs \<and> fs_ok fs []"
proof -
  have "set [0..<MCS_MAX_NODES] \<subseteq> {..<64 :: nat}" by (auto simp: MCS_MAX_NODES_def)
  note a = fold_clear_shape[OF raw(1,2) this]
  define b where "b = fold (\<lambda>i fs. fs\<lparr>fs_data := (fs_data fs)[i := 0]\<rparr>) [0..<unat MCS_RAMFS_DATA_BYTES]
    (fold (\<lambda>i fs. fs\<lparr>nodes := (nodes fs)[i := (nodes fs ! i)\<lparr>vn_used := 0, vn_id := 0, vn_parent := 0,
                   vn_type := MCS_VNODE_FILE, vn_name := (vn_name (nodes fs ! i))[0 := 0], vn_size := 0,
                   vn_data_offset := 0, vn_data_capacity := 0\<rparr>]\<rparr>) [0..<MCS_MAX_NODES] raw)"
  have b: "length (nodes b) = 64" "\<forall>n \<in> set (nodes b). length (vn_name n) = 32" "length (fs_data b) = 8192"
    unfolding b_def using a raw(3) by (simp_all only: fold_zero_shape) blast+
  let ?r = "(nodes b ! 0)\<lparr>vn_used := 1, vn_id := 0, vn_parent := 0, vn_type := MCS_VNODE_DIR,
      vn_name := (vn_name (nodes b ! 0))[0 := slash, 1 := 0]\<rparr>"
  have init: "mcs_ramfs_init (Some raw) = Some (b\<lparr>node_count := 1, data_used := 0, nodes := (nodes b)[0 := ?r]\<rparr>)"
    unfolding mcs_ramfs_init_def option.map Let_def b_def[symmetric] by (rule refl)
  have "nodes b ! 0 \<in> set (nodes b)" using b(1) by simp
  then have n0: "length (vn_name (nodes b ! 0)) = 32" using b(2) by blast
  have "\<forall>n \<in> insert ?r (set (nodes b)). length (vn_name n) = 32" using n0 b(2) by simp
  then have "\<forall>n \<in> set ((nodes b)[0 := ?r]). length (vn_name n) = 32"
    using set_update_subset_insert[of "nodes b" 0 ?r] by blast
  moreover have "vn_name ?r ! 0 = slash" using n0 by simp
  ultimately have "fs_ok (b\<lparr>node_count := 1, data_used := 0, nodes := (nodes b)[0 := ?r]\<rparr>) []"
    using b unfolding fs_ok_def root_node_def by simp
  with init show ?thesis by blast
qed

lemma raw_ramfs_shape: "length (nodes raw_ramfs) = 64" "\<forall>n \<in> set (nodes raw_ramfs). length (vn_name n) = 32"
    "length (fs_data raw_ramfs) = 8192"
  unfolding raw_ramfs_def by (simp_all only: mcs_ramfs.simps length_replicate) (use in_set_replicate in fastforce)

theorem ramfs_create_lookup_witness:
  "\<exists>fs fs' i. mcs_ramfs_init (Some raw_ramfs) = Some fs \<and>
     mcs_ramfs_create_file (Some fs) (Some [slash, 0x61]) = (MCS_OK, i, Some fs') \<and>
     mcs_ramfs_lookup (Some fs') (Some [slash, 0x61]) = (MCS_OK, i)"
proof -
  obtain fs where fs: "mcs_ramfs_init (Some raw_ramfs) = Some fs" "fs_ok fs []"
    using ramfs_init_ok[OF raw_ramfs_shape] by blast
  have f: "file_name [0x61]" and p: "0 \<notin> set [slash, 0x61 :: u8]" by (simp_all add: file_name_def)
  have "\<exists>nm. [slash, 0x61] = slash # nm \<and> file_name nm \<and> (nm \<in> set [] \<or> length ([] :: u8 list list) < 32)"
    using f by simp
  with ramfs_create_lookup[OF fs(2) p] fs(1) show ?thesis by blast
qed

end
