(* ===== verification/Vfs.thy ===== *)
theory Vfs
  imports Ramfs
begin

text \<open>
  The descriptor layer of \<^verbatim>\<open>kernel/vfs/fd.c\<close> over the RAM file system, and the process-level
  wrappers of the same file.

  File systems live in a store from addresses to file systems (address 0 is the null pointer); a node
  pointer is the address of its file system and its index in it. A null table or process is \<open>None\<close>. User
  buffers are addresses of a byte memory that is separate from tables and file systems. A system call
  result is the integer of the code; \<open>mcs_vfs_lseek\<close> gives \<open>None\<close> where its signed addition overflows, which
  C leaves undefined.

  Shown: any sequence of calls keeps every open descriptor on a live node of the file system, and reads
  and writes act on one file's bytes exactly, with the bytes of every other file untouched.
\<close>

section \<open>Model: types\<close>

definition MCS_MAX_OPEN_FILES :: nat where "MCS_MAX_OPEN_FILES = 16"

definition MCS_O_RDONLY :: u32 where "MCS_O_RDONLY = 0x0001"
definition MCS_O_WRONLY :: u32 where "MCS_O_WRONLY = 0x0002"
definition MCS_O_RDWR :: u32 where "MCS_O_RDWR = 0x0004"
definition MCS_O_CREAT :: u32 where "MCS_O_CREAT = 0x0100"
definition MCS_O_TRUNC :: u32 where "MCS_O_TRUNC = 0x0200"
definition MCS_O_APPEND :: u32 where "MCS_O_APPEND = 0x0400"

lemmas open_flags = MCS_O_RDONLY_def MCS_O_WRONLY_def MCS_O_RDWR_def MCS_O_CREAT_def MCS_O_TRUNC_def MCS_O_APPEND_def

definition MCS_SEEK_SET :: int where "MCS_SEEK_SET = 0"
definition MCS_SEEK_CUR :: int where "MCS_SEEK_CUR = 1"
definition MCS_SEEK_END :: int where "MCS_SEEK_END = 2"

lemmas seek_codes = MCS_SEEK_SET_def MCS_SEEK_CUR_def MCS_SEEK_END_def

type_synonym ramfs_store = "u64 \<Rightarrow> mcs_ramfs"
type_synonym byte_memory = "u64 \<Rightarrow> u8"

record mcs_file =
  f_used :: u32
  f_flags :: u32
  f_offset :: u64
  f_node :: "(u64 \<times> nat) option"
  f_fs :: u64

record mcs_fd_table =
  files :: "mcs_file list"

record mcs_process =
  pid :: u32
  fd_table :: mcs_fd_table

definition node_at :: "ramfs_store \<Rightarrow> u64 \<times> nat \<Rightarrow> mcs_vnode" where
  "node_at st p = nodes (st (fst p)) ! snd p"

definition set_size :: "ramfs_store \<Rightarrow> u64 \<times> nat \<Rightarrow> u64 \<Rightarrow> ramfs_store" where
  "set_size st p n = st(fst p := (st (fst p))\<lparr>nodes := (nodes (st (fst p)))[snd p := (node_at st p)\<lparr>vn_size := n\<rparr>]\<rparr>)"

definition set_file :: "mcs_fd_table \<Rightarrow> nat \<Rightarrow> mcs_file \<Rightarrow> mcs_fd_table" where
  "set_file t i f = t\<lparr>files := (files t)[i := f]\<rparr>"

section \<open>Model: helpers\<close>

definition mcs_min_size :: "u64 \<Rightarrow> u64 \<Rightarrow> u64" where
  "mcs_min_size a b = (if a < b then a else b)"

definition mcs_copy_to_user :: "byte_memory \<Rightarrow> u64 \<Rightarrow> u8 list \<Rightarrow> nat \<Rightarrow> nat \<Rightarrow> byte_memory" where
  "mcs_copy_to_user mem dst src off n = fold (\<lambda>i m. m(dst + of_nat i := src ! (off + i))) [0..<n] mem"

definition mcs_copy_from_user :: "u8 list \<Rightarrow> nat \<Rightarrow> byte_memory \<Rightarrow> u64 \<Rightarrow> nat \<Rightarrow> u8 list" where
  "mcs_copy_from_user dst off mem src n = fold (\<lambda>i d. d[off + i := mem (src + of_nat i)]) [0..<n] dst"

definition mcs_can_read :: "u32 \<Rightarrow> bool" where
  "mcs_can_read flags \<longleftrightarrow> flags AND MCS_O_RDONLY \<noteq> 0 \<or> flags AND MCS_O_RDWR \<noteq> 0"

definition mcs_can_write :: "u32 \<Rightarrow> bool" where
  "mcs_can_write flags \<longleftrightarrow> flags AND MCS_O_WRONLY \<noteq> 0 \<or> flags AND MCS_O_RDWR \<noteq> 0"

section \<open>Model: descriptors\<close>

definition mcs_fd_table_init :: "mcs_fd_table option \<Rightarrow> mcs_fd_table option" where
  "mcs_fd_table_init table =
     map_option (fold (\<lambda>i t. set_file t i ((files t ! i)\<lparr>f_used := 0, f_flags := 0, f_offset := 0, f_node := None, f_fs := 0\<rparr>))
       [0..<MCS_MAX_OPEN_FILES]) table"

definition mcs_fd_get :: "mcs_fd_table option \<Rightarrow> int \<Rightarrow> nat option" where
  "mcs_fd_get table fd =
     (case table of
        None \<Rightarrow> None
      | Some t \<Rightarrow>
          if fd < 0 \<or> nat fd \<ge> MCS_MAX_OPEN_FILES then None
          else if f_used (files t ! nat fd) = 0 then None
          else Some (nat fd))"

definition mcs_fd_alloc :: "mcs_fd_table option \<Rightarrow> int \<times> mcs_fd_table option" where
  "mcs_fd_alloc table =
     (case table of
        None \<Rightarrow> (MCS_EINVAL, None)
      | Some t \<Rightarrow>
          (case find (\<lambda>i. f_used (files t ! i) = 0) [0..<MCS_MAX_OPEN_FILES] of
             Some i \<Rightarrow> (int i, Some (set_file t i ((files t ! i)\<lparr>f_used := 1\<rparr>)))
           | None \<Rightarrow> (MCS_ENFILE, Some t)))"

text \<open>Lines 79 to 88: find the node of the path, creating it when asked to.\<close>

definition open_node :: "ramfs_store \<Rightarrow> u64 \<Rightarrow> cstring \<Rightarrow> u32 \<Rightarrow> int \<times> nat option \<times> ramfs_store" where
  "open_node st fs path flags =
     (case mcs_ramfs_lookup (Some (st fs)) (Some path) of
        (rc, Some node) \<Rightarrow> (rc, Some node, st)
      | (rc, None) \<Rightarrow>
          if flags AND MCS_O_CREAT = 0 then (rc, None, st)
          else
            (case mcs_ramfs_create_file (Some (st fs)) (Some path) of
               (rc, node, fs') \<Rightarrow> (rc, node, st(fs := the fs'))))"

definition mcs_vfs_open ::
  "mcs_fd_table option \<Rightarrow> ramfs_store \<Rightarrow> u64 \<Rightarrow> cstring option \<Rightarrow> u32 \<Rightarrow> int \<times> mcs_fd_table option \<times> ramfs_store" where
  "mcs_vfs_open table st fs path flags =
     (if table = None \<or> fs = 0 \<or> path = None then (MCS_EINVAL, table, st)
      else
        (let flags = (if flags AND (MCS_O_RDONLY OR MCS_O_WRONLY OR MCS_O_RDWR) = 0 then flags OR MCS_O_RDONLY else flags)
         in (case open_node st fs (the path) flags of
               (rc, None, st) \<Rightarrow> (rc, table, st)
             | (rc, Some i, st) \<Rightarrow>
                 (let node = (fs, i)
                  in if vn_type (node_at st node) = MCS_VNODE_DIR \<and> mcs_can_write flags then (MCS_EISDIR, table, st)
                     else
                       (case mcs_fd_alloc table of
                          (fd, table) \<Rightarrow>
                            if fd < 0 then (fd, table, st)
                            else
                              (let t = the table; k = nat fd;
                                   f = (files t ! k)\<lparr>f_flags := flags, f_node := Some node, f_fs := fs,
                                         f_offset := (if flags AND MCS_O_APPEND \<noteq> 0 then vn_size (node_at st node) else 0)\<rparr>
                               in if flags AND MCS_O_TRUNC \<noteq> 0
                                  then if \<not> mcs_can_write flags
                                       then (MCS_EACCES, Some (set_file t k (f\<lparr>f_used := 0, f_node := None, f_fs := 0\<rparr>)), st)
                                       else (fd, Some (set_file t k (f\<lparr>f_offset := 0\<rparr>)), set_size st node 0)
                                  else (fd, Some (set_file t k f), st)))))))"

definition mcs_vfs_read ::
  "mcs_fd_table option \<Rightarrow> ramfs_store \<Rightarrow> byte_memory \<Rightarrow> int \<Rightarrow> u64 \<Rightarrow> u64 \<Rightarrow> int \<times> mcs_fd_table option \<times> byte_memory" where
  "mcs_vfs_read table st mem fd buf len =
     (if buf = 0 \<and> len \<noteq> 0 then (MCS_EINVAL, table, mem)
      else
        (case mcs_fd_get table fd of
           None \<Rightarrow> (MCS_EBADF, table, mem)
         | Some k \<Rightarrow>
             (let t = the table; file = files t ! k
              in if \<not> mcs_can_read (f_flags file) then (MCS_EACCES, table, mem)
                 else if f_node file = None \<or> f_fs file = 0 then (MCS_EINVAL, table, mem)
                 else
                   (let node = node_at st (the (f_node file))
                    in if vn_type node = MCS_VNODE_DIR then (MCS_EISDIR, table, mem)
                       else if f_offset file \<ge> vn_size node then (0, table, mem)
                       else
                         (let remain = vn_size node - f_offset file; n = mcs_min_size len remain
                          in (sint n, Some (set_file t k (file\<lparr>f_offset := f_offset file + n\<rparr>)),
                              mcs_copy_to_user mem buf (fs_data (st (f_fs file)))
                                (unat (vn_data_offset node + f_offset file)) (unat n)))))))"

definition mcs_vfs_write ::
  "mcs_fd_table option \<Rightarrow> ramfs_store \<Rightarrow> byte_memory \<Rightarrow> int \<Rightarrow> u64 \<Rightarrow> u64 \<Rightarrow> int \<times> mcs_fd_table option \<times> ramfs_store" where
  "mcs_vfs_write table st mem fd buf len =
     (if buf = 0 \<and> len \<noteq> 0 then (MCS_EINVAL, table, st)
      else
        (case mcs_fd_get table fd of
           None \<Rightarrow> (MCS_EBADF, table, st)
         | Some k \<Rightarrow>
             (let t = the table; file = files t ! k
              in if \<not> mcs_can_write (f_flags file) then (MCS_EACCES, table, st)
                 else if f_node file = None \<or> f_fs file = 0 then (MCS_EINVAL, table, st)
                 else
                   (let p = the (f_node file); node = node_at st p
                    in if vn_type node = MCS_VNODE_DIR then (MCS_EISDIR, table, st)
                       else
                         (let file = (if f_flags file AND MCS_O_APPEND \<noteq> 0 then file\<lparr>f_offset := vn_size node\<rparr> else file)
                          in if f_offset file > vn_data_capacity node then (MCS_EINVAL, Some (set_file t k file), st)
                             else
                               (let n = mcs_min_size len (vn_data_capacity node - f_offset file)
                                in if n < len then (MCS_ENOSPC, Some (set_file t k file), st)
                                   else
                                     (let fs = st (f_fs file);
                                          st = st(f_fs file := fs\<lparr>fs_data := mcs_copy_from_user (fs_data fs)
                                                 (unat (vn_data_offset node + f_offset file)) mem buf (unat n)\<rparr>);
                                          file = file\<lparr>f_offset := f_offset file + n\<rparr>
                                      in (sint n, Some (set_file t k file),
                                          if f_offset file > vn_size node then set_size st p (f_offset file) else st))))))))"

definition mcs_vfs_lseek ::
  "mcs_fd_table option \<Rightarrow> ramfs_store \<Rightarrow> int \<Rightarrow> int \<Rightarrow> int \<Rightarrow> (int \<times> mcs_fd_table option) option" where
  "mcs_vfs_lseek table st fd offset whence =
     (case mcs_fd_get table fd of
        None \<Rightarrow> Some (MCS_EBADF, table)
      | Some k \<Rightarrow>
          (let t = the table; file = files t ! k
           in if f_node file = None \<or> vn_type (node_at st (the (f_node file))) = MCS_VNODE_DIR then Some (MCS_EISDIR, table)
              else
                (case (if whence = MCS_SEEK_SET then Some 0
                       else if whence = MCS_SEEK_CUR then Some (sint (f_offset file))
                       else if whence = MCS_SEEK_END then Some (sint (vn_size (node_at st (the (f_node file)))))
                       else None) of
                   None \<Rightarrow> Some (MCS_EINVAL, table)
                 | Some base \<Rightarrow>
                     (let nxt = base + offset
                      in if nxt < - (2 ^ 63) \<or> 2 ^ 63 \<le> nxt then None
                         else if nxt < 0 then Some (MCS_EINVAL, table)
                         else Some (sint (ucast (word_of_int nxt :: u64) :: u32),
                                    Some (set_file t k (file\<lparr>f_offset := word_of_int nxt\<rparr>)))))))"

definition mcs_vfs_close :: "mcs_fd_table option \<Rightarrow> int \<Rightarrow> int \<times> mcs_fd_table option" where
  "mcs_vfs_close table fd =
     (case mcs_fd_get table fd of
        None \<Rightarrow> (MCS_EBADF, table)
      | Some k \<Rightarrow>
          (MCS_OK, Some (set_file (the table) k
             ((files (the table) ! k)\<lparr>f_used := 0, f_flags := 0, f_offset := 0, f_node := None, f_fs := 0\<rparr>))))"

definition mcs_vfs_dup :: "mcs_fd_table option \<Rightarrow> int \<Rightarrow> int \<times> mcs_fd_table option" where
  "mcs_vfs_dup table fd =
     (case mcs_fd_get table fd of
        None \<Rightarrow> (MCS_EBADF, table)
      | Some k \<Rightarrow>
          (case mcs_fd_alloc table of
             (newfd, table) \<Rightarrow>
               if newfd < 0 then (newfd, table)
               else
                 (let t = the table; file = files t ! k; n = nat newfd
                  in (newfd, Some (set_file t n ((files t ! n)\<lparr>f_flags := f_flags file, f_offset := f_offset file,
                        f_node := f_node file, f_fs := f_fs file\<rparr>))))))"

section \<open>Model: the calls of a process\<close>

definition mcs_sys_open ::
  "mcs_process option \<Rightarrow> ramfs_store \<Rightarrow> u64 \<Rightarrow> cstring option \<Rightarrow> u32 \<Rightarrow> int \<times> mcs_process option \<times> ramfs_store" where
  "mcs_sys_open proc st fs user_path flags =
     (if proc = None \<or> fs = 0 \<or> user_path = None then (MCS_EINVAL, proc, st)
      else
        (case mcs_vfs_open (Some (fd_table (the proc))) st fs user_path flags of
           (rc, t, st) \<Rightarrow> (rc, Some ((the proc)\<lparr>fd_table := the t\<rparr>), st)))"

definition mcs_sys_read ::
  "mcs_process option \<Rightarrow> ramfs_store \<Rightarrow> byte_memory \<Rightarrow> int \<Rightarrow> u64 \<Rightarrow> u64 \<Rightarrow> int \<times> mcs_process option \<times> byte_memory" where
  "mcs_sys_read proc st mem fd user_buf len =
     (if proc = None \<or> (user_buf = 0 \<and> len \<noteq> 0) then (MCS_EINVAL, proc, mem)
      else
        (case mcs_vfs_read (Some (fd_table (the proc))) st mem fd user_buf len of
           (rc, t, mem) \<Rightarrow> (rc, Some ((the proc)\<lparr>fd_table := the t\<rparr>), mem)))"

definition mcs_sys_write ::
  "mcs_process option \<Rightarrow> ramfs_store \<Rightarrow> byte_memory \<Rightarrow> int \<Rightarrow> u64 \<Rightarrow> u64 \<Rightarrow> int \<times> mcs_process option \<times> ramfs_store" where
  "mcs_sys_write proc st mem fd user_buf len =
     (if proc = None \<or> (user_buf = 0 \<and> len \<noteq> 0) then (MCS_EINVAL, proc, st)
      else
        (case mcs_vfs_write (Some (fd_table (the proc))) st mem fd user_buf len of
           (rc, t, st) \<Rightarrow> (rc, Some ((the proc)\<lparr>fd_table := the t\<rparr>), st)))"

definition mcs_sys_close :: "mcs_process option \<Rightarrow> int \<Rightarrow> int \<times> mcs_process option" where
  "mcs_sys_close proc fd =
     (case proc of
        None \<Rightarrow> (MCS_EINVAL, None)
      | Some p \<Rightarrow> (case mcs_vfs_close (Some (fd_table p)) fd of (rc, t) \<Rightarrow> (rc, Some (p\<lparr>fd_table := the t\<rparr>))))"

definition mcs_sys_lseek ::
  "mcs_process option \<Rightarrow> ramfs_store \<Rightarrow> int \<Rightarrow> int \<Rightarrow> int \<Rightarrow> (int \<times> mcs_process option) option" where
  "mcs_sys_lseek proc st fd offset whence =
     (case proc of
        None \<Rightarrow> Some (MCS_EINVAL, None)
      | Some p \<Rightarrow>
          map_option (\<lambda>(rc, t). (rc, Some (p\<lparr>fd_table := the t\<rparr>))) (mcs_vfs_lseek (Some (fd_table p)) st fd offset whence))"

section \<open>Descriptors stay on live nodes\<close>

definition file_ok :: "u64 \<Rightarrow> u8 list list \<Rightarrow> mcs_file \<Rightarrow> bool" where
  "file_ok a names f \<longleftrightarrow> (f_used f \<noteq> 0 \<longrightarrow> f_fs f = a \<and>
     (\<exists>i \<le> length names. f_node f = Some (a, i) \<and> (i = 0 \<longrightarrow> \<not> mcs_can_write (f_flags f))))"

definition table_ok :: "u64 \<Rightarrow> u8 list list \<Rightarrow> mcs_fd_table \<Rightarrow> bool" where
  "table_ok a names t \<longleftrightarrow> length (files t) = 16 \<and> (\<forall>f \<in> set (files t). file_ok a names f)"

definition vfs_ok :: "u64 \<Rightarrow> u8 list list \<Rightarrow> mcs_fd_table \<Rightarrow> ramfs_store \<Rightarrow> bool" where
  "vfs_ok a names t st \<longleftrightarrow> a \<noteq> 0 \<and> fs_ok (st a) names \<and> table_ok a names t"

lemma files_set_file [simp]: "files (set_file t k f) = (files t)[k := f]"
  by (simp add: set_file_def)

lemma table_ok_set: "table_ok a names t \<Longrightarrow> file_ok a names f \<Longrightarrow> table_ok a names (set_file t k f)"
  using set_update_subset_insert[of "files t" k f] by (auto simp: table_ok_def)

lemma table_ok_mono: "table_ok a names t \<Longrightarrow> table_ok a (names @ ms) t"
  unfolding table_ok_def file_ok_def by fastforce

lemma table_ok_nth: "table_ok a names t \<Longrightarrow> k < 16 \<Longrightarrow> file_ok a names (files t ! k)"
  by (simp add: table_ok_def)

lemma fd_get_Some: "mcs_fd_get (Some t) fd = Some k \<longleftrightarrow> 0 \<le> fd \<and> k = nat fd \<and> k < 16 \<and> f_used (files t ! k) \<noteq> 0"
  by (auto simp: mcs_fd_get_def MCS_MAX_OPEN_FILES_def)

lemma fd_get_file:
  assumes "table_ok a names t" "mcs_fd_get (Some t) fd = Some k"
  obtains i where "k < length (files t)" "f_fs (files t ! k) = a" "i \<le> length names" "f_node (files t ! k) = Some (a, i)"
    "i = 0 \<longrightarrow> \<not> mcs_can_write (f_flags (files t ! k))"
  using assms table_ok_nth[OF assms(1), of k] by (auto simp: fd_get_Some file_ok_def table_ok_def)

lemma fd_alloc_spec:
  assumes "mcs_fd_alloc (Some t) = (r, t')"
  shows "(\<exists>k < 16. f_used (files t ! k) = 0 \<and> (\<forall>j < k. f_used (files t ! j) \<noteq> 0) \<and> r = int k \<and>
           t' = Some (set_file t k ((files t ! k)\<lparr>f_used := 1\<rparr>)))
       \<or> (r = MCS_ENFILE \<and> t' = Some t \<and> (\<forall>j < 16. f_used (files t ! j) \<noteq> 0))"
proof (cases "find (\<lambda>i. f_used (files t ! i) = 0) [0..<16]")
  case None
  then have "\<forall>j < 16. f_used (files t ! j) \<noteq> 0" by (auto simp: find_None_iff)
  then show ?thesis using assms None by (simp add: mcs_fd_alloc_def MCS_MAX_OPEN_FILES_def)
next
  case (Some k)
  then have "k < 16" "f_used (files t ! k) = 0" "\<forall>j < k. f_used (files t ! j) \<noteq> 0"
    by (auto simp: find_Some_iff)
  then show ?thesis using assms Some by (auto simp: mcs_fd_alloc_def MCS_MAX_OPEN_FILES_def)
qed

lemma fs_ok_file:
  assumes "fs_ok fs names" "0 < i" "i \<le> length names"
  shows "file_node (i - 1) (names ! (i - 1)) (nodes fs ! i)" "i < length (nodes fs)"
proof -
  have "i - 1 < length names" "Suc (i - 1) = i" "length names \<le> 32" using assms by (auto simp: fs_ok_def)
  then show "file_node (i - 1) (names ! (i - 1)) (nodes fs ! i)" "i < length (nodes fs)"
    using assms by (auto simp: fs_ok_def)
qed

lemma fs_ok_node_type:
  assumes "fs_ok fs names" "i \<le> length names"
  shows "vn_type (nodes fs ! i) = MCS_VNODE_DIR \<longleftrightarrow> i = 0"
  using assms fs_ok_file(1)[OF assms(1), of i] by (cases "i = 0") (auto simp: fs_ok_def root_node_def file_node_def)

lemma fs_ok_set_size:
  assumes ok: "fs_ok fs names" and i: "0 < i" "i \<le> length names" and n: "unat n \<le> 256"
  shows "fs_ok (fs\<lparr>nodes := (nodes fs)[i := (nodes fs ! i)\<lparr>vn_size := n\<rparr>]\<rparr>) names"
proof -
  note f = fs_ok_file[OF ok i]
  have "length (vn_name (nodes fs ! i)) = 32" using ok f(2) by (auto simp: fs_ok_def)
  then have "\<forall>m \<in> insert ((nodes fs ! i)\<lparr>vn_size := n\<rparr>) (set (nodes fs)). length (vn_name m) = 32"
    using ok by (simp add: fs_ok_def)
  then have names: "\<forall>m \<in> set ((nodes fs)[i := (nodes fs ! i)\<lparr>vn_size := n\<rparr>]). length (vn_name m) = 32"
    using set_update_subset_insert[of "nodes fs" i] by blast
  have "file_node k (names ! k) ((nodes fs)[i := (nodes fs ! i)\<lparr>vn_size := n\<rparr>] ! Suc k)" if "k < length names" for k
  proof (cases "Suc k = i")
    case True
    then show ?thesis using f n by (auto simp: file_node_def)
  next
    case False
    then show ?thesis using ok that by (simp add: fs_ok_def)
  qed
  then show ?thesis using ok names i by (simp add: fs_ok_def)
qed

lemma fs_ok_data: "fs_ok fs names \<Longrightarrow> length d = 8192 \<Longrightarrow> fs_ok (fs\<lparr>fs_data := d\<rparr>) names"
  by (simp add: fs_ok_def)

lemma lookup_node:
  assumes ok: "fs_ok fs names" and p: "0 \<notin> set path" and l: "mcs_ramfs_lookup (Some fs) (Some path) = (rc, Some i)"
  shows "i \<le> length names"
proof -
  have "found fs path = Some i" using l by (simp add: found_def)
  then show ?thesis using node_of_Some[of names "tl path" i]
    unfolding found_spec(1)[OF ok p] by (auto split: if_splits)
qed

lemma open_node_spec:
  assumes ok: "fs_ok (st a) names" and p: "0 \<notin> set path" and o: "open_node st a path flags = (rc, n, st')"
  obtains ms where "fs_ok (st' a) (names @ ms)" "\<forall>x. x \<noteq> a \<longrightarrow> st' x = st x" "\<forall>i. n = Some i \<longrightarrow> i \<le> length (names @ ms)"
proof (cases "mcs_ramfs_lookup (Some (st a)) (Some path)")
  case (Pair rc0 n0)
  show ?thesis
  proof (cases "n0 = None \<and> flags AND MCS_O_CREAT \<noteq> 0")
    case False
    then have "st' = st" "n = n0" using o Pair by (auto simp: open_node_def split: option.splits)
    then show ?thesis using that[of "[]"] ok lookup_node[OF ok p] Pair by auto
  next
    case True
    then have c: "mcs_ramfs_create_file (Some (st a)) (Some path) = (rc, n, Some (st' a))" "\<forall>x. x \<noteq> a \<longrightarrow> st' x = st x"
      using o Pair create_spec[OF ok p] by (auto simp: open_node_def split: if_splits)
    show ?thesis
    proof (cases "\<exists>nm. path = slash # nm \<and> file_name nm \<and> nm \<notin> set names \<and> length names < 32")
      case True
      have "fs_ok (st' a) (names @ [tl path])" "n = Some (Suc (length names))"
        using create_spec[OF ok p] c unfolding if_P[OF True] by auto
      then show ?thesis using that[of "[tl path]"] c by auto
    next
      case False
      then have "st' a = st a" "n \<noteq> None \<longrightarrow> n = node_of names (tl path)"
        using create_spec[OF ok p] c unfolding if_not_P[OF False] by auto
      then show ?thesis using that[of "[]"] c ok node_of_Some[of names "tl path"] by auto
    qed
  qed
qed

lemma node_at_pair [simp]: "node_at st (a, i) = nodes (st a) ! i"
  by (simp add: node_at_def)

lemma set_size_other [simp]: "x \<noteq> fst p \<Longrightarrow> set_size st p n x = st x"
  by (simp add: set_size_def)

lemma set_size_same: "set_size st (a, i) n a = (st a)\<lparr>nodes := (nodes (st a))[i := (nodes (st a) ! i)\<lparr>vn_size := n\<rparr>]\<rparr>"
  by (simp add: set_size_def)

text \<open>The mode a descriptor is opened with: reading, unless the flags ask for writing.\<close>

definition open_mode :: "u32 \<Rightarrow> u32" where
  "open_mode flags = (if flags AND (MCS_O_RDONLY OR MCS_O_WRONLY OR MCS_O_RDWR) = 0 then flags OR MCS_O_RDONLY else flags)"

text \<open>The descriptor, table and file system after a slot was found.\<close>

definition opened :: "u64 \<Rightarrow> nat \<Rightarrow> u32 \<Rightarrow> ramfs_store \<Rightarrow> mcs_file \<Rightarrow> mcs_file" where
  "opened a i fl st f = f\<lparr>f_used := 1, f_flags := fl, f_node := Some (a, i), f_fs := a,
     f_offset := (if fl AND MCS_O_APPEND \<noteq> 0 then vn_size (nodes (st a) ! i) else 0)\<rparr>"

lemma vfs_open_slot:
  assumes a: "a \<noteq> 0" and on: "open_node st a path (open_mode flags) = (rc, Some i, st1)"
    and d: "\<not> (vn_type (nodes (st1 a) ! i) = MCS_VNODE_DIR \<and> mcs_can_write (open_mode flags))"
    and k: "k < length (files t)" and al: "mcs_fd_alloc (Some t) = (int k, Some (set_file t k ((files t ! k)\<lparr>f_used := 1\<rparr>)))"
  shows "mcs_vfs_open (Some t) st a (Some path) flags =
    (let fl = open_mode flags; f = opened a i fl st1 (files t ! k)
     in if fl AND MCS_O_TRUNC \<noteq> 0
        then if \<not> mcs_can_write fl then (MCS_EACCES, Some (set_file t k (f\<lparr>f_used := 0, f_node := None, f_fs := 0\<rparr>)), st1)
             else (int k, Some (set_file t k (f\<lparr>f_offset := 0\<rparr>)), set_size st1 (a, i) 0)
        else (int k, Some (set_file t k f), st1))"
proof -
  have s: "set_file (set_file t k g) k f = set_file t k f" for f g by (simp add: set_file_def)
  have d': "(vn_type (nodes (st1 a) ! i) = MCS_VNODE_DIR \<and> mcs_can_write (open_mode flags)) = False" using d by blast
  show ?thesis
    using on k unfolding mcs_vfs_open_def open_mode_def[symmetric]
    by (simp add: a al s opened_def Let_def d' del: de_Morgan_conj)
qed

lemma opened_ok:
  assumes "table_ok a ns t" "i \<le> length ns" "\<not> (i = 0 \<and> mcs_can_write fl)"
  shows "table_ok a ns (set_file t k (opened a i fl st f))" "table_ok a ns (set_file t k ((opened a i fl st f)\<lparr>f_offset := 0\<rparr>))"
    "table_ok a ns (set_file t k ((opened a i fl st f)\<lparr>f_used := 0, f_node := None, f_fs := 0\<rparr>))"
  using assms by (auto intro!: table_ok_set simp: file_ok_def opened_def)

lemma open_keeps:
  assumes ok: "vfs_ok a names t st" and p: "0 \<notin> set path"
    and o: "mcs_vfs_open (Some t) st a (Some path) flags = (r, t', st')"
  shows "\<exists>t2 ms. t' = Some t2 \<and> vfs_ok a (names @ ms) t2 st'"
proof -
  define fl where "fl = open_mode flags"
  obtain rc n st1 where on: "open_node st a path fl = (rc, n, st1)" by (cases "open_node st a path fl")
  have a: "a \<noteq> 0" "fs_ok (st a) names" "table_ok a names t" using ok by (auto simp: vfs_ok_def)
  obtain ms where ms: "fs_ok (st1 a) (names @ ms)" "\<forall>i. n = Some i \<longrightarrow> i \<le> length (names @ ms)"
    using open_node_spec[OF a(2) p on] by blast
  have t: "table_ok a (names @ ms) t" by (rule table_ok_mono[OF a(3)])
  have fin: "?thesis" if "t' = Some t2" "table_ok a (names @ ms) t2" "fs_ok (st' a) (names @ ms)" for t2
    using that a(1) by (auto simp: vfs_ok_def)
  obtain fd tb where al: "mcs_fd_alloc (Some t) = (fd, tb)" by (cases "mcs_fd_alloc (Some t)")
  show ?thesis
  proof (cases "n = None \<or> (vn_type (nodes (st1 a) ! the n) = MCS_VNODE_DIR \<and> mcs_can_write fl) \<or> (fd = MCS_ENFILE \<and> tb = Some t)")
    case True
    then have "t' = Some t \<and> st' = st1" using o on a(1) al
      by (cases n) (auto simp: mcs_vfs_open_def open_mode_def[symmetric] fl_def[symmetric] Let_def vfs_codes split: if_splits)
    then show ?thesis using fin[OF _ t] ms by simp
  next
    case False
    then obtain i where i: "n = Some i" by auto
    from False obtain k where k: "k < 16" "fd = int k" "tb = Some (set_file t k ((files t ! k)\<lparr>f_used := 1\<rparr>))"
      using fd_alloc_spec[OF al] by blast
    have i': "i \<le> length (names @ ms)" using ms(2) i by blast
    have wr: "\<not> (i = 0 \<and> mcs_can_write fl)" using False i fs_ok_node_type[OF ms(1) i'] by auto
    have len: "k < length (files t)" using t k(1) by (simp add: table_ok_def)
    have d: "\<not> (vn_type (nodes (st1 a) ! i) = MCS_VNODE_DIR \<and> mcs_can_write fl)" using False i by simp
    note eq = vfs_open_slot[OF a(1) on[unfolded i fl_def] d[unfolded fl_def] len al[unfolded k(2,3)], folded fl_def, unfolded Let_def]
    note tabs = opened_ok[OF t i' wr, of k st1 "files t ! k"]
    have "fs_ok (set_size st1 (a, i) 0 a) (names @ ms)" if "mcs_can_write fl"
      unfolding set_size_same using fs_ok_set_size[OF ms(1) _ i'] wr that by simp
    then show ?thesis using o[unfolded eq] fin[OF _ tabs(1)] fin[OF _ tabs(2)] fin[OF _ tabs(3)] ms(1)
      by (cases "fl AND MCS_O_TRUNC \<noteq> 0"; cases "mcs_can_write fl") auto
  qed
qed

section \<open>Reads and writes act on one file\<close>

definition area :: "mcs_ramfs \<Rightarrow> nat \<Rightarrow> u8 list" where
  "area fs i = take 256 (drop (256 * (i - 1)) (fs_data fs))"

definition file_content :: "mcs_ramfs \<Rightarrow> nat \<Rightarrow> u8 list" where
  "file_content fs i = take (unat (vn_size (nodes fs ! i))) (area fs i)"

lemma length_area: "fs_ok fs names \<Longrightarrow> 0 < i \<Longrightarrow> i \<le> length names \<Longrightarrow> length (area fs i) = 256"
  by (auto simp: area_def fs_ok_def)

lemma file_facts:
  assumes ok: "fs_ok fs names" and i: "0 < i" "i \<le> length names"
  shows "vn_type (nodes fs ! i) = MCS_VNODE_FILE" "vn_data_offset (nodes fs ! i) = of_nat (256 * (i - 1))"
    "vn_data_capacity (nodes fs ! i) = 256" "unat (vn_size (nodes fs ! i)) \<le> 256" "256 * (i - 1) + 256 \<le> 8192"
    "length (file_content fs i) = unat (vn_size (nodes fs ! i))"
proof -
  note f = fs_ok_file(1)[OF ok i]
  show "vn_type (nodes fs ! i) = MCS_VNODE_FILE" "vn_data_offset (nodes fs ! i) = of_nat (256 * (i - 1))"
    "vn_data_capacity (nodes fs ! i) = 256" and s: "unat (vn_size (nodes fs ! i)) \<le> 256" using f by (auto simp: file_node_def)
  show "256 * (i - 1) + 256 \<le> 8192" using ok i by (auto simp: fs_ok_def)
  show "length (file_content fs i) = unat (vn_size (nodes fs ! i))"
    using s length_area[OF ok i] by (simp add: file_content_def)
qed

lemma copy_to_user_eq:
  "n \<le> 2 ^ 64 \<Longrightarrow> mcs_copy_to_user mem dst src off n = (\<lambda>x. if unat (x - dst) < n then src ! (off + unat (x - dst)) else mem x)"
  unfolding mcs_copy_to_user_def by (subst fold_store) auto

lemma copy_from_user_eq:
  "off + n \<le> length d \<Longrightarrow>
    mcs_copy_from_user d off mem src n = take off d @ map (\<lambda>i. mem (src + of_nat i)) [0..<n] @ drop (off + n) d"
  unfolding mcs_copy_from_user_def by (rule fold_write)

lemma read_spec:
  assumes ok: "vfs_ok a names t st" and k: "mcs_fd_get (Some t) fd = Some k" and f: "f = files t ! k"
    and i: "f_node f = Some (a, i)" "0 < i" and r: "mcs_can_read (f_flags f)" and b: "buf \<noteq> 0 \<or> len = 0"
  defines "c \<equiv> drop (unat (f_offset f)) (file_content (st a) i)"
  defines "n \<equiv> min (unat len) (length c)"
  shows "mcs_vfs_read (Some t) st mem fd buf len =
    (int n, Some (set_file t k (f\<lparr>f_offset := f_offset f + of_nat n\<rparr>)), \<lambda>x. if unat (x - buf) < n then c ! unat (x - buf) else mem x)"
proof -
  have a: "a \<noteq> 0" "fs_ok (st a) names" "table_ok a names t" using ok by (auto simp: vfs_ok_def)
  obtain i' where i': "k < length (files t)" "f_fs f = a" "i' \<le> length names" "f_node f = Some (a, i')"
    using fd_get_file[OF a(3) k] f by blast
  then have il: "i \<le> length names" using i by simp
  note ff = file_facts[OF a(2) i(2) il]
  let ?nd = "nodes (st a) ! i"
  have b': "(buf = 0 \<and> len \<noteq> 0) = False" using b by blast
  have rd: "mcs_vfs_read (Some t) st mem fd buf len = (if vn_size ?nd \<le> f_offset f then (0, Some t, mem)
      else (sint (mcs_min_size len (vn_size ?nd - f_offset f)),
            Some (set_file t k (f\<lparr>f_offset := f_offset f + mcs_min_size len (vn_size ?nd - f_offset f)\<rparr>)),
            mcs_copy_to_user mem buf (fs_data (st a)) (unat (vn_data_offset ?nd + f_offset f))
              (unat (mcs_min_size len (vn_size ?nd - f_offset f)))))"
    unfolding mcs_vfs_read_def b' using i r a(1) i'(2) ff(1) by (simp add: k Let_def f[symmetric])
  show ?thesis
  proof (cases "f_offset f \<ge> vn_size ?nd")
    case True
    then have "n = 0" using ff(6) by (simp add: n_def c_def word_le_nat_alt)
    moreover have "set_file t k f = t" using f by (simp add: set_file_def)
    ultimately show ?thesis using True unfolding rd by simp
  next
    case False
    then have o: "unat (f_offset f) < unat (vn_size ?nd)" by (simp add: word_le_nat_alt)
    have sub: "unat (vn_size ?nd - f_offset f) = unat (vn_size ?nd) - unat (f_offset f)"
      using o by (intro unat_sub) (simp add: word_le_nat_alt)
    have n: "unat (mcs_min_size len (vn_size ?nd - f_offset f)) = n"
      using ff(6) sub by (auto simp: n_def c_def mcs_min_size_def word_less_nat_alt)
    have n256: "n \<le> unat (vn_size ?nd) - unat (f_offset f)" "n \<le> 256" using ff(4,6) by (auto simp: n_def c_def)
    have w: "mcs_min_size len (vn_size ?nd - f_offset f) = of_nat n" unfolding n[symmetric] by simp
    have d: "unat (vn_data_offset ?nd) = 256 * (i - 1)" unfolding ff(2) by (rule unat_of_nat_small) (use ff(5) in simp)
    have off: "unat (vn_data_offset ?nd + f_offset f) = 256 * (i - 1) + unat (f_offset f)"
      using unat_add_small[of "vn_data_offset ?nd" "f_offset f"] d ff(4,5) o by simp
    have "fs_data (st a) ! (256 * (i - 1) + unat (f_offset f) + j) = c ! j" if "j < n" for j
      using that n256 ff(4,5) o a(2) by (simp add: c_def file_content_def area_def fs_ok_def add.assoc)
    then have mem: "mcs_copy_to_user mem buf (fs_data (st a)) (256 * (i - 1) + unat (f_offset f)) n =
        (\<lambda>x. if unat (x - buf) < n then c ! unat (x - buf) else mem x)"
      using n256(2) by (auto simp: copy_to_user_eq fun_eq_iff)
    have u: "unat (of_nat n :: u64) = n" by (rule unat_of_nat_small) (use n256(2) in simp)
    have s: "sint (of_nat n :: u64) = int n" using sint_small[of "of_nat n"] n256(2) unfolding u by simp
    show ?thesis unfolding rd if_not_P[OF False] w off u mem s by (rule refl)
  qed
qed

lemma area_write:
  assumes D: "length D = 8192" and i: "256 * (i - 1) + 256 \<le> 8192" "0 < i" and p: "p + length bs \<le> 256"
  defines "m \<equiv> 256 * (i - 1) + p"
  defines "d \<equiv> take m D @ bs @ drop (m + length bs) D"
  shows "take 256 (drop (256 * (i - 1)) d) =
      take p (take 256 (drop (256 * (i - 1)) D)) @ bs @ drop (p + length bs) (take 256 (drop (256 * (i - 1)) D))"
    and "0 < j \<Longrightarrow> j \<noteq> i \<Longrightarrow> take 256 (drop (256 * (j - 1)) d) = take 256 (drop (256 * (j - 1)) D)"
    and "length d = 8192"
proof -
  have b: "m + length bs \<le> 8192" using p i(1) unfolding m_def by linarith
  then show ld: "length d = 8192" using D by (simp add: d_def)
  have d: "d ! x = (if x < m then D ! x else if x < m + length bs then bs ! (x - m) else D ! x)" for x
    using b D by (cases "x < m"; cases "x < m + length bs") (auto simp: d_def nth_append)
  define A where "A = take 256 (drop (256 * (i - 1)) D)"
  have A: "length A = 256" "\<And>q. q < 256 \<Longrightarrow> A ! q = D ! (256 * (i - 1) + q)" using D i(1) by (simp_all add: A_def)
  have "take 256 (drop (256 * (i - 1)) d) = take p A @ bs @ drop (p + length bs) A"
  proof (rule nth_equalityI)
    show "length (take 256 (drop (256 * (i - 1)) d)) = length (take p A @ bs @ drop (p + length bs) A)"
      using ld i(1) p A(1) by simp
    fix q
    assume "q < length (take 256 (drop (256 * (i - 1)) d))"
    then have "q < 256" by simp
    then show "take 256 (drop (256 * (i - 1)) d) ! q = (take p A @ bs @ drop (p + length bs) A) ! q"
      using ld i(1) p A by (auto simp: d nth_append m_def)
  qed
  then show "take 256 (drop (256 * (i - 1)) d) =
      take p (take 256 (drop (256 * (i - 1)) D)) @ bs @ drop (p + length bs) (take 256 (drop (256 * (i - 1)) D))"
    unfolding A_def .
  assume j: "0 < j" "j \<noteq> i"
  show "take 256 (drop (256 * (j - 1)) d) = take 256 (drop (256 * (j - 1)) D)"
  proof (rule nth_equalityI)
    show "length (take 256 (drop (256 * (j - 1)) d)) = length (take 256 (drop (256 * (j - 1)) D))" using ld D by simp
    fix q
    assume q: "q < length (take 256 (drop (256 * (j - 1)) d))"
    then have "256 * (j - 1) + q < 256 * (i - 1) \<or> 256 * (i - 1) + 256 \<le> 256 * (j - 1) + q"
      using j i(2) by (cases i; cases j) auto
    then have "d ! (256 * (j - 1) + q) = D ! (256 * (j - 1) + q)" unfolding d m_def using p by auto
    moreover have "256 * (j - 1) \<le> 8192" "q < 256" using q ld by auto
    ultimately show "take 256 (drop (256 * (j - 1)) d) ! q = take 256 (drop (256 * (j - 1)) D) ! q" using ld D by simp
  qed
qed

definition write_pos :: "ramfs_store \<Rightarrow> u64 \<Rightarrow> nat \<Rightarrow> mcs_file \<Rightarrow> u64" where
  "write_pos st a i f = (if f_flags f AND MCS_O_APPEND \<noteq> 0 then vn_size (nodes (st a) ! i) else f_offset f)"

text \<open>The bytes of a user buffer, and bytes written over part of a list.\<close>

definition user_bytes :: "byte_memory \<Rightarrow> u64 \<Rightarrow> nat \<Rightarrow> u8 list" where
  "user_bytes mem buf n = map (\<lambda>j. mem (buf + of_nat j)) [0..<n]"

definition overwrite :: "nat \<Rightarrow> u8 list \<Rightarrow> u8 list \<Rightarrow> u8 list" where
  "overwrite p bs xs = take p xs @ bs @ drop (p + length bs) xs"

lemma length_user_bytes [simp]: "length (user_bytes mem buf n) = n"
  by (simp add: user_bytes_def)

definition put_data :: "ramfs_store \<Rightarrow> u64 \<Rightarrow> nat \<Rightarrow> u64 \<Rightarrow> byte_memory \<Rightarrow> u64 \<Rightarrow> u64 \<Rightarrow> ramfs_store" where
  "put_data st a i w mem buf n = (let nd = nodes (st a) ! i;
      s = st(a := (st a)\<lparr>fs_data := mcs_copy_from_user (fs_data (st a)) (unat (vn_data_offset nd + w)) mem buf (unat n)\<rparr>)
    in if vn_size nd < w + n then set_size s (a, i) (w + n) else s)"

lemma write_eq:
  assumes ok: "vfs_ok a names t st" and k: "mcs_fd_get (Some t) fd = Some k" and f: "f = files t ! k"
    and i: "f_node f = Some (a, i)" and wr: "mcs_can_write (f_flags f)" and b: "buf \<noteq> 0 \<or> len = 0"
  defines "w \<equiv> write_pos st a i f"
  defines "n \<equiv> mcs_min_size len (256 - w)"
  shows "0 < i \<and> i \<le> length names \<and>
    mcs_vfs_write (Some t) st mem fd buf len = (if 256 < w then (MCS_EINVAL, Some (set_file t k (f\<lparr>f_offset := w\<rparr>)), st)
     else if n < len then (MCS_ENOSPC, Some (set_file t k (f\<lparr>f_offset := w\<rparr>)), st)
     else (sint n, Some (set_file t k (f\<lparr>f_offset := w + n\<rparr>)), put_data st a i w mem buf n))"
proof -
  have a: "a \<noteq> 0" "fs_ok (st a) names" "table_ok a names t" using ok by (auto simp: vfs_ok_def)
  obtain i' where i': "k < length (files t)" "f_fs f = a" "i' \<le> length names" "f_node f = Some (a, i')" "i' = 0 \<longrightarrow> \<not> mcs_can_write (f_flags f)"
    using fd_get_file[OF a(3) k] f by blast
  then have il: "0 < i" "i \<le> length names" using i wr by auto
  note ff = file_facts[OF a(2) il]
  have b': "(buf = 0 \<and> len \<noteq> 0) = False" using b by blast
  show ?thesis unfolding mcs_vfs_write_def b' using il i wr a(1) i'(2) ff(1)
    by (cases "f_flags f AND MCS_O_APPEND = 0")
      (simp_all add: k Let_def f[symmetric] ff(3) n_def put_data_def w_def write_pos_def)
qed

lemma put_data_spec:
  fixes mem buf
  assumes ok: "fs_ok (st a) names" and i: "0 < i" "i \<le> length names" and p: "unat w + unat n \<le> 256"
  defines "st' \<equiv> put_data st a i w mem buf n"
  shows "fs_ok (st' a) names" "x \<noteq> a \<Longrightarrow> st' x = st x"
    "file_content (st' a) i = take (max (length (file_content (st a) i)) (unat w + unat n))
       (overwrite (unat w) (user_bytes mem buf (unat n)) (area (st a) i))"
    "0 < j \<Longrightarrow> j \<noteq> i \<Longrightarrow> file_content (st' a) j = file_content (st a) j"
proof -
  note ff = file_facts[OF ok i]
  define nd where "nd = nodes (st a) ! i"
  define bs where "bs = user_bytes mem buf (unat n)"
  have bs: "length bs = unat n" by (simp add: bs_def)
  let ?m = "256 * (i - 1) + unat w"
  have D: "length (fs_data (st a)) = 8192" using ok by (simp add: fs_ok_def)
  have off: "unat (vn_data_offset nd) = 256 * (i - 1)" unfolding nd_def ff(2) by (rule unat_of_nat_small) (use ff(5) in simp)
  have m: "unat (vn_data_offset nd + w) = ?m"
    using unat_add_small[of "vn_data_offset nd" w] off ff(5) p by simp
  define d where "d = take ?m (fs_data (st a)) @ bs @ drop (?m + length bs) (fs_data (st a))"
  have d: "mcs_copy_from_user (fs_data (st a)) (unat (vn_data_offset nd + w)) mem buf (unat n) = d"
    unfolding m d_def bs unfolding bs_def user_bytes_def using p D ff(5) by (intro copy_from_user_eq) simp
  have p': "unat w + length bs \<le> 256" using p bs by simp
  note aw = area_write[OF D ff(5) i(1) p', folded d_def]
  let ?s = "st(a := (st a)\<lparr>fs_data := d\<rparr>)"
  have wn: "unat (w + n) = unat w + unat n" by (rule unat_add_small) (use p in simp)
  have st': "st' = (if vn_size nd < w + n then set_size ?s (a, i) (w + n) else ?s)"
    by (simp add: st'_def put_data_def Let_def nd_def[symmetric] d)
  have s: "fs_ok (?s a) names" using fs_ok_data[OF ok aw(3)] by simp
  show "fs_ok (st' a) names"
    using s fs_ok_set_size[OF s i, of "w + n"] p wn by (auto simp: st' set_size_same)
  show "x \<noteq> a \<Longrightarrow> st' x = st x" by (simp add: st')
  have ar: "area (st' a) i = overwrite (unat w) bs (area (st a) i)"
    using aw(1) by (simp add: st' set_size_same area_def overwrite_def)
  have "i < length (nodes (st a))" using fs_ok_file(2)[OF ok i] .
  then have "unat (vn_size (nodes (st' a) ! i)) = max (unat (vn_size nd)) (unat w + unat n)"
    using wn by (auto simp: st' set_size_same nd_def[symmetric] word_less_nat_alt max_def)
  then show "file_content (st' a) i = take (max (length (file_content (st a) i)) (unat w + unat n))
       (overwrite (unat w) (user_bytes mem buf (unat n)) (area (st a) i))"
    by (simp add: file_content_def[of "st' a"] ar ff(6) nd_def bs_def)
  show "0 < j \<Longrightarrow> j \<noteq> i \<Longrightarrow> file_content (st' a) j = file_content (st a) j"
  proof -
    assume j: "0 < j" "j \<noteq> i"
    then have "area (st' a) j = area (st a) j" using aw(2) by (simp add: st' set_size_same area_def)
    then show ?thesis using j by (simp add: file_content_def st' set_size_same)
  qed
qed

lemma write_cases:
  fixes mem
  assumes ok: "vfs_ok a names t st" and k: "mcs_fd_get (Some t) fd = Some k" and f: "f = files t ! k"
    and i: "f_node f = Some (a, i)" and wr: "mcs_can_write (f_flags f)" and b: "buf \<noteq> 0 \<or> len = 0"
  defines "w \<equiv> write_pos st a i f"
  shows "0 < i \<and> i \<le> length names \<and>
    mcs_vfs_write (Some t) st mem fd buf len =
      (if 256 < unat w then (MCS_EINVAL, Some (set_file t k (f\<lparr>f_offset := w\<rparr>)), st)
       else if 256 < unat w + unat len then (MCS_ENOSPC, Some (set_file t k (f\<lparr>f_offset := w\<rparr>)), st)
       else (int (unat len), Some (set_file t k (f\<lparr>f_offset := w + len\<rparr>)), put_data st a i w mem buf len))"
proof (cases "256 < w")
  case True
  then have "256 < unat w" by (simp add: word_less_nat_alt)
  then show ?thesis using write_eq[OF ok k f i wr b, of mem] True unfolding w_def[symmetric] by simp
next
  case False
  then have w: "unat w \<le> 256" by (simp add: word_less_nat_alt)
  then have sub: "unat (256 - w) = 256 - unat w" by (subst unat_sub) (simp_all add: word_le_nat_alt)
  have lt: "mcs_min_size len (256 - w) < len \<longleftrightarrow> 256 < unat w + unat len"
    using sub w by (auto simp: mcs_min_size_def word_less_nat_alt)
  have eq: "mcs_min_size len (256 - w) = len \<and> sint len = int (unat len)" if "\<not> 256 < unat w + unat len"
    using that sub sint_small[of len] by (auto simp: mcs_min_size_def word_less_nat_alt word_unat_eq_iff)
  show ?thesis using write_eq[OF ok k f i wr b, of mem, folded w_def] False w lt eq by (auto simp: if_not_P)
qed

lemma file_ok_offset: "file_ok a names f \<Longrightarrow> file_ok a names (f\<lparr>f_offset := x\<rparr>)"
  by (simp add: file_ok_def)

lemma vfs_ok_offset: "vfs_ok a names t st \<Longrightarrow> mcs_fd_get (Some t) fd = Some k \<Longrightarrow>
    vfs_ok a names (set_file t k ((files t ! k)\<lparr>f_offset := x\<rparr>)) st"
  unfolding vfs_ok_def by (auto simp: fd_get_Some intro!: table_ok_set file_ok_offset table_ok_nth)

lemma read_keeps:
  assumes ok: "vfs_ok a names t st" and r: "mcs_vfs_read (Some t) st mem fd buf len = (r, t', mem')"
  shows "\<exists>t2. t' = Some t2 \<and> vfs_ok a names t2 st"
proof -
  have "t' = Some t \<or> (\<exists>k x. mcs_fd_get (Some t) fd = Some k \<and> t' = Some (set_file t k ((files t ! k)\<lparr>f_offset := x\<rparr>)))"
    using r by (auto simp: mcs_vfs_read_def Let_def split: option.splits if_splits)
  then show ?thesis using ok vfs_ok_offset[OF ok] by blast
qed

lemma lseek_keeps:
  assumes ok: "vfs_ok a names t st" and r: "mcs_vfs_lseek (Some t) st fd off wh = Some (r, t')"
  shows "\<exists>t2. t' = Some t2 \<and> vfs_ok a names t2 st"
proof -
  have "t' = Some t \<or> (\<exists>k x. mcs_fd_get (Some t) fd = Some k \<and> t' = Some (set_file t k ((files t ! k)\<lparr>f_offset := x\<rparr>)))"
    using r by (auto simp: mcs_vfs_lseek_def Let_def split: option.splits if_splits)
  then show ?thesis using ok vfs_ok_offset[OF ok] by blast
qed

lemma write_keeps:
  assumes ok: "vfs_ok a names t st" and r: "mcs_vfs_write (Some t) st mem fd buf len = (r, t', st')"
  shows "\<exists>t2. t' = Some t2 \<and> vfs_ok a names t2 st'"
proof (cases "mcs_fd_get (Some t) fd = None \<or> \<not> mcs_can_write (f_flags (files t ! the (mcs_fd_get (Some t) fd))) \<or> (buf = 0 \<and> len \<noteq> 0)")
  case True
  then have "t' = Some t \<and> st' = st"
    using r by (auto simp: mcs_vfs_write_def split: option.splits if_splits)
  then show ?thesis using ok by simp
next
  case False
  then obtain k where k: "mcs_fd_get (Some t) fd = Some k" and wr: "mcs_can_write (f_flags (files t ! k))" and b: "buf \<noteq> 0 \<or> len = 0"
    by auto
  have tb: "table_ok a names t" using ok by (simp add: vfs_ok_def)
  obtain i where i: "f_node (files t ! k) = Some (a, i)" by (rule fd_get_file[OF tb k])
  let ?w = "write_pos st a i (files t ! k)"
  note wc = write_cases[OF ok k refl i wr b, of mem]
  have "vfs_ok a names (set_file t k ((files t ! k)\<lparr>f_offset := ?w + len\<rparr>)) (put_data st a i ?w mem buf len)"
    if "\<not> 256 < unat ?w + unat len"
    using vfs_ok_offset[OF ok k, of "?w + len"] put_data_spec(1)[of st a names i ?w len] wc that
    by (simp add: vfs_ok_def)
  then show ?thesis using wc r vfs_ok_offset[OF ok k] by (auto split: if_splits)
qed

lemma close_keeps:
  assumes ok: "vfs_ok a names t st" and r: "mcs_vfs_close (Some t) fd = (r, t')"
  shows "\<exists>t2. t' = Some t2 \<and> vfs_ok a names t2 st"
proof -
  have "t' = Some t \<or> (\<exists>k. t' = Some (set_file t k ((files t ! k)\<lparr>f_used := 0, f_flags := 0, f_offset := 0, f_node := None, f_fs := 0\<rparr>)))"
    using r by (auto simp: mcs_vfs_close_def split: option.splits)
  then show ?thesis using ok by (auto simp: vfs_ok_def file_ok_def intro!: table_ok_set)
qed

lemma dup_keeps:
  assumes ok: "vfs_ok a names t st" and r: "mcs_vfs_dup (Some t) fd = (r, t')"
  shows "\<exists>t2. t' = Some t2 \<and> vfs_ok a names t2 st"
proof (cases "mcs_fd_get (Some t) fd")
  case None
  then show ?thesis using r ok by (auto simp: mcs_vfs_dup_def)
next
  case (Some k)
  have tb: "table_ok a names t" using ok by (simp add: vfs_ok_def)
  have k: "file_ok a names (files t ! k)" "f_used (files t ! k) \<noteq> 0" "k < 16"
    using table_ok_nth[OF tb] Some by (auto simp: fd_get_Some)
  obtain n tn where al: "mcs_fd_alloc (Some t) = (n, tn)" by (cases "mcs_fd_alloc (Some t)")
  show ?thesis
  proof (cases "n = MCS_ENFILE \<and> tn = Some t")
    case True
    then show ?thesis using r ok Some al by (auto simp: mcs_vfs_dup_def vfs_codes)
  next
    case False
    then obtain j where j: "j < 16" "f_used (files t ! j) = 0" "n = int j" "tn = Some (set_file t j ((files t ! j)\<lparr>f_used := 1\<rparr>))"
      using fd_alloc_spec[OF al] by blast
    have jk: "j \<noteq> k" using j(2) k(2) by auto
    define f where "f = (files t ! j)\<lparr>f_used := 1, f_flags := f_flags (files t ! k), f_offset := f_offset (files t ! k),
        f_node := f_node (files t ! k), f_fs := f_fs (files t ! k)\<rparr>"
    have "t' = Some (set_file t j f)"
      using r Some al j jk tb by (simp add: mcs_vfs_dup_def Let_def f_def table_ok_def set_file_def)
    moreover have "file_ok a names f" using k by (simp add: file_ok_def f_def)
    ultimately show ?thesis using ok table_ok_set[OF tb] by (simp add: vfs_ok_def)
  qed
qed

lemma table_init_ok:
  assumes "length (files t) = 16"
  shows "\<exists>t'. mcs_fd_table_init (Some t) = Some t' \<and> table_ok a names t' \<and> (\<forall>fd. mcs_fd_get (Some t') fd = None)"
proof -
  let ?c = "\<lambda>i t. set_file t i ((files t ! i)\<lparr>f_used := 0, f_flags := 0, f_offset := 0, f_node := None, f_fs := 0\<rparr>)"
  have "length (files (fold ?c [0..<n] t)) = 16 \<and> (\<forall>j < n. f_used (files (fold ?c [0..<n] t) ! j) = 0)" if "n \<le> 16" for n
    using that assms by (induction n) (auto simp: nth_list_update less_Suc_eq)
  then have n: "length (files (fold ?c [0..<16] t)) = 16" "\<forall>j < 16. f_used (files (fold ?c [0..<16] t) ! j) = 0"
    by (blast intro: order_refl)+
  define t' where "t' = fold ?c [0..<16] t"
  note n = n[folded t'_def]
  have "\<forall>f \<in> set (files t'). f_used f = 0" using n by (metis in_set_conv_nth)
  then have "table_ok a names t'" using n(1) by (simp add: table_ok_def file_ok_def)
  moreover have "mcs_fd_get (Some t') fd = None" for fd using n by (simp add: mcs_fd_get_def MCS_MAX_OPEN_FILES_def)
  moreover have "mcs_fd_table_init (Some t) = Some t'"
    unfolding mcs_fd_table_init_def MCS_MAX_OPEN_FILES_def t'_def option.map by (rule refl)
  ultimately show ?thesis by blast
qed

lemma seed_keeps:
  assumes ok: "fs_ok fs names" and p: "0 \<notin> set path" and len: "unat len \<le> length src"
    and s: "mcs_ramfs_seed_file (Some fs) (Some path) (Some src) len = (r, fs')"
  shows "\<exists>fs2 ms. fs' = Some fs2 \<and> fs_ok fs2 (names @ ms)"
proof -
  obtain rc n f where c: "mcs_ramfs_create_file (Some fs) (Some path) = (rc, n, Some f)" and
    f: "\<exists>ms. fs_ok f (names @ ms) \<and> (\<forall>i. n = Some i \<longrightarrow> 0 < i \<and> i \<le> length (names @ ms))"
  proof (cases "\<exists>nm. path = slash # nm \<and> file_name nm \<and> nm \<notin> set names \<and> length names < 32")
    case True
    then obtain f where "mcs_ramfs_create_file (Some fs) (Some path) = (MCS_OK, Some (Suc (length names)), Some f)"
      "fs_ok f (names @ [tl path])" using create_spec[OF ok p] unfolding if_P[OF True] by blast
    then show ?thesis using that by fastforce
  next
    case False
    then obtain rc n where "mcs_ramfs_create_file (Some fs) (Some path) = (rc, n, Some fs)"
      and n: "n \<noteq> None \<longrightarrow> n = node_of names (tl path)"
      using create_spec[OF ok p] unfolding if_not_P[OF False] by (elim exE conjE) (rule that)
    moreover have "\<forall>i. n = Some i \<longrightarrow> 0 < i \<and> i \<le> length names" using n node_of_Some[of names "tl path"] by auto
    ultimately show ?thesis using that[of rc n fs] ok by (metis append_Nil2)
  qed
  obtain ms where ms: "fs_ok f (names @ ms)" "\<forall>i. n = Some i \<longrightarrow> 0 < i \<and> i \<le> length (names @ ms)" using f by blast
  show ?thesis
  proof (cases "n = None \<or> len > vn_data_capacity (nodes f ! the n)")
    case True
    then have "fs' = Some f" using s c by (cases n) (auto simp: mcs_ramfs_seed_file_def)
    then show ?thesis using ms by blast
  next
    case False
    then obtain i where i: "n = Some i" "0 < i" "i \<le> length (names @ ms)" "\<not> len > vn_data_capacity (nodes f ! i)" using ms(2) by auto
    note ff = file_facts[OF ms(1) i(2,3)]
    let ?d = "mcs_copy_bytes (fs_data f) (unat (vn_data_offset (nodes f ! i))) src (unat len)"
    have "length (fold (\<lambda>j d. d[g j := h j]) js d) = length d" for g js and h :: "nat \<Rightarrow> u8" and d
      by (induction js arbitrary: d) auto
    then have d: "length ?d = 8192" using ms(1) by (simp add: mcs_copy_bytes_def fs_ok_def)
    have l: "unat len \<le> 256" using i(4) ff(3) by (simp add: word_less_nat_alt)
    have "fs' = Some (f\<lparr>fs_data := ?d, nodes := (nodes f)[i := (nodes f ! i)\<lparr>vn_size := len\<rparr>]\<rparr>)"
      using s c i by (simp add: mcs_ramfs_seed_file_def)
    then show ?thesis using fs_ok_set_size[OF fs_ok_data[OF ms(1) d] i(2,3) l] by (auto simp: simp_thms)
  qed
qed

section \<open>Histories of calls\<close>

text \<open>Start-up of a file system at address \<open>a\<close> and of a table, then any calls in any order.\<close>

inductive vfs_history :: "u64 \<Rightarrow> mcs_fd_table \<Rightarrow> ramfs_store \<Rightarrow> bool" for a where
  boot: "a \<noteq> 0 \<Longrightarrow> length (nodes raw) = 64 \<Longrightarrow> \<forall>n \<in> set (nodes raw). length (vn_name n) = 32 \<Longrightarrow> length (fs_data raw) = 8192 \<Longrightarrow>
    mcs_ramfs_init (Some raw) = Some (st a) \<Longrightarrow> length (files t0) = 16 \<Longrightarrow> mcs_fd_table_init (Some t0) = Some t \<Longrightarrow>
    vfs_history a t st"
| seed: "vfs_history a t st \<Longrightarrow> 0 \<notin> set path \<Longrightarrow> unat len \<le> length src \<Longrightarrow>
    mcs_ramfs_seed_file (Some (st a)) (Some path) (Some src) len = (r, Some fs') \<Longrightarrow> vfs_history a t (st(a := fs'))"
| openf: "vfs_history a t st \<Longrightarrow> 0 \<notin> set path \<Longrightarrow> mcs_vfs_open (Some t) st a (Some path) flags = (r, Some t', st') \<Longrightarrow>
    vfs_history a t' st'"
| read: "vfs_history a t st \<Longrightarrow> mcs_vfs_read (Some t) st mem fd buf len = (r, Some t', mem') \<Longrightarrow> vfs_history a t' st"
| writef: "vfs_history a t st \<Longrightarrow> mcs_vfs_write (Some t) st mem fd buf len = (r, Some t', st') \<Longrightarrow> vfs_history a t' st'"
| lseek: "vfs_history a t st \<Longrightarrow> mcs_vfs_lseek (Some t) st fd offset whence = Some (r, Some t') \<Longrightarrow> vfs_history a t' st"
| close: "vfs_history a t st \<Longrightarrow> mcs_vfs_close (Some t) fd = (r, Some t') \<Longrightarrow> vfs_history a t' st"
| dup: "vfs_history a t st \<Longrightarrow> mcs_vfs_dup (Some t) fd = (r, Some t') \<Longrightarrow> vfs_history a t' st"

lemma vfs_history_ok: "vfs_history a t st \<Longrightarrow> \<exists>names. vfs_ok a names t st"
proof (induction rule: vfs_history.induct)
  case (boot raw st t0 t)
  then show ?case using ramfs_init_ok[of raw] table_init_ok[of t0 a "[]"] by (auto simp: vfs_ok_def)
next
  case (seed t st path len src r fs')
  then obtain names where "vfs_ok a names t st" by blast
  moreover from this obtain ms where "fs_ok fs' (names @ ms)"
    using seed_keeps[of "st a" names path len src r "Some fs'"] seed.hyps by (auto simp: vfs_ok_def)
  ultimately show ?case using table_ok_mono[of a names t ms] by (auto simp: vfs_ok_def)
next
  case (openf t st path flags r t' st')
  then show ?case using open_keeps by blast
next
  case (read t st mem fd buf len r t' mem')
  then show ?case using read_keeps by blast
next
  case (writef t st mem fd buf len r t' st')
  then show ?case using write_keeps by blast
next
  case (lseek t st fd offset whence r t')
  then show ?case using lseek_keeps by blast
next
  case (close t st fd r t')
  then show ?case using close_keeps by blast
next
  case (dup t st fd r t')
  then show ?case using dup_keeps by blast
qed

lemma overwrite_take:
  assumes "length A = m" "s \<le> m" "w + length bs \<le> m"
  shows "w \<le> s \<Longrightarrow> take (max s (w + length bs)) (overwrite w bs A) = overwrite w bs (take s A)"
    and "s < w \<Longrightarrow> take (max s (w + length bs)) (overwrite w bs A) = take s A @ drop s (take w A) @ bs"
proof -
  assume w: "w \<le> s"
  show "take (max s (w + length bs)) (overwrite w bs A) = overwrite w bs (take s A)"
  proof (cases "w + length bs \<le> s")
    case True
    then have "take s (overwrite w bs A) = take w A @ bs @ take (s - (w + length bs)) (drop (w + length bs) A)"
      using assms w by (auto simp: overwrite_def min_def diff_diff_add dest: le_antisym)
    moreover have "take w (take s A) = take w A" using w by (simp add: min.absorb1)
    ultimately show ?thesis using True by (simp only: max.absorb1 overwrite_def drop_take)
  next
    case False
    then show ?thesis using assms w by (simp add: overwrite_def max_def min_def)
  qed
next
  assume w: "s < w"
  have "take w A = take s A @ drop s (take w A)"
    using w by (metis append_take_drop_id min.absorb3 take_take min.commute)
  then show "take (max s (w + length bs)) (overwrite w bs A) = take s A @ drop s (take w A) @ bs"
    using assms w by (simp add: overwrite_def max_def)
qed

lemma read_content:
  assumes ok: "vfs_ok a names t st" and k: "mcs_fd_get (Some t) fd = Some k" and f: "f = files t ! k"
    and i: "f_node f = Some (a, i)" "0 < i" and b: "buf \<noteq> 0 \<or> len = 0" and r: "mcs_can_read (f_flags f)"
    and c: "c = file_content (st a) i" and n: "n = min (unat len) (length c - unat (f_offset f))"
  shows "mcs_vfs_read (Some t) st mem fd buf len = (int n, Some (set_file t k (f\<lparr>f_offset := f_offset f + of_nat n\<rparr>)),
       \<lambda>x. if unat (x - buf) < n then c ! (unat (f_offset f) + unat (x - buf)) else mem x)"
proof -
  have "drop (unat (f_offset f)) c ! j = c ! (unat (f_offset f) + j)" if "j < n" for j
    using that by (intro nth_drop) (auto simp: n)
  then have "(\<lambda>x. if unat (x - buf) < n then drop (unat (f_offset f)) c ! unat (x - buf) else mem x) =
      (\<lambda>x. if unat (x - buf) < n then c ! (unat (f_offset f) + unat (x - buf)) else mem x)" by auto
  then show ?thesis
    using read_spec[OF ok k f i r b, of mem] unfolding length_drop c[symmetric] n[symmetric] by (simp only:)
qed

lemma write_content:
  assumes ok: "vfs_ok a names t st" and k: "mcs_fd_get (Some t) fd = Some k" and f: "f = files t ! k"
    and i: "f_node f = Some (a, i)" "0 < i" and b: "buf \<noteq> 0 \<or> len = 0" and wr: "mcs_can_write (f_flags f)"
    and c: "c = file_content (st a) i" and w: "w = unat (write_pos st a i f)" and fits: "w + unat len \<le> 256"
  shows "\<exists>st'. mcs_vfs_write (Some t) st mem fd buf len =
        (int (unat len), Some (set_file t k (f\<lparr>f_offset := of_nat (w + unat len)\<rparr>)), st') \<and>
      file_content (st' a) i = (if w \<le> length c then overwrite w (user_bytes mem buf (unat len)) c
        else c @ drop (length c) (take w (area (st a) i)) @ user_bytes mem buf (unat len)) \<and>
      (\<forall>j. 0 < j \<longrightarrow> j \<noteq> i \<longrightarrow> file_content (st' a) j = file_content (st a) j)"
proof -
  note wc = write_cases[OF ok k f i(1) wr b, of mem, folded w]
  have il: "i \<le> length names" "fs_ok (st a) names" using wc ok by (auto simp: vfs_ok_def)
  note pd = put_data_spec[of st a names i "write_pos st a i f" len, folded w, OF il(2) i(2) il(1) fits]
  have A: "length (area (st a) i) = 256" by (rule length_area[OF il(2) i(2) il(1)])
  have c': "c = take (length c) (area (st a) i)" "length c \<le> 256"
    using file_facts(4,6)[OF il(2) i(2) il(1)] by (simp_all add: c file_content_def)
  have "file_content (put_data st a i (write_pos st a i f) mem buf len a) i =
      (if w \<le> length c then overwrite w (user_bytes mem buf (unat len)) c
       else c @ drop (length c) (take w (area (st a) i)) @ user_bytes mem buf (unat len))"
    using pd(3)[of mem buf, folded c] overwrite_take[OF A c'(2), of w "user_bytes mem buf (unat len)"] c'(1) fits by auto
  moreover have "write_pos st a i f + len = of_nat (w + unat len)" by (simp add: w)
  ultimately show ?thesis using wc fits pd(4)
    by (intro exI[of _ "put_data st a i (write_pos st a i f) mem buf len"]) auto
qed

section \<open>Properties\<close>

text \<open>
  C31. After any sequence of calls the state is well typed: the file system is a well-formed directory,
  and every open descriptor has a non-null file system and points at a live node of it; the root directory is
  open for reading only; a file's bytes lie inside the data area, at most 256 of them from its own
  256-byte slot. So no call follows a null or stale pointer or leaves the data area.
\<close>

theorem vfs_history_typed:
  assumes "vfs_history a t st"
  shows "\<exists>names. fs_ok (st a) names \<and> length (files t) = 16 \<and>
    (\<forall>fd k. mcs_fd_get (Some t) fd = Some k \<longrightarrow> k < 16 \<and> f_fs (files t ! k) = a \<and> a \<noteq> 0 \<and>
      (\<exists>i. f_node (files t ! k) = Some (a, i) \<and> i < unat (node_count (st a)) \<and> i < length (nodes (st a)) \<and>
         (vn_type (nodes (st a) ! i) = MCS_VNODE_DIR \<longleftrightarrow> i = 0) \<and> (i = 0 \<longrightarrow> \<not> mcs_can_write (f_flags (files t ! k))) \<and>
         (0 < i \<longrightarrow> unat (vn_data_offset (nodes (st a) ! i)) = 256 * (i - 1) \<and> vn_data_capacity (nodes (st a) ! i) = 256 \<and>
            vn_size (nodes (st a) ! i) \<le> 256 \<and> 256 * i \<le> length (fs_data (st a)))))"
proof -
  obtain names where ok: "a \<noteq> 0" "fs_ok (st a) names" "table_ok a names t"
    using vfs_history_ok[OF assms] by (auto simp: vfs_ok_def)
  have "k < 16 \<and> f_fs (files t ! k) = a \<and> a \<noteq> 0 \<and>
      (\<exists>i. f_node (files t ! k) = Some (a, i) \<and> i < unat (node_count (st a)) \<and> i < length (nodes (st a)) \<and>
         (vn_type (nodes (st a) ! i) = MCS_VNODE_DIR \<longleftrightarrow> i = 0) \<and> (i = 0 \<longrightarrow> \<not> mcs_can_write (f_flags (files t ! k))) \<and>
         (0 < i \<longrightarrow> unat (vn_data_offset (nodes (st a) ! i)) = 256 * (i - 1) \<and> vn_data_capacity (nodes (st a) ! i) = 256 \<and>
            vn_size (nodes (st a) ! i) \<le> 256 \<and> 256 * i \<le> length (fs_data (st a))))"
    if g: "mcs_fd_get (Some t) fd = Some k" for fd k
  proof -
    obtain i where i: "k < length (files t)" "f_fs (files t ! k) = a" "i \<le> length names" "f_node (files t ! k) = Some (a, i)"
      "i = 0 \<longrightarrow> \<not> mcs_can_write (f_flags (files t ! k))" by (rule fd_get_file[OF ok(3) g])
    have n: "i < unat (node_count (st a))" "i < length (nodes (st a))" "length (fs_data (st a)) = 8192"
      using fs_ok_count[OF ok(2)] i(3) ok(2) by (auto simp: fs_ok_def)
    have "unat (vn_data_offset (nodes (st a) ! i)) = 256 * (i - 1) \<and> vn_data_capacity (nodes (st a) ! i) = 256 \<and>
            vn_size (nodes (st a) ! i) \<le> 256 \<and> 256 * i \<le> 8192" if "0 < i"
    proof -
      note ff = file_facts[OF ok(2) that i(3)]
      have "unat (vn_data_offset (nodes (st a) ! i)) = 256 * (i - 1)" unfolding ff(2) by (rule unat_of_nat_small) (use ff(5) in simp)
      then show ?thesis using ff(3,4,5) that by (simp add: word_le_nat_alt)
    qed
    then show ?thesis using i n ok(1,3) fs_ok_node_type[OF ok(2) i(3)] by (simp add: table_ok_def)
  qed
  then show ?thesis using ok by (auto simp: table_ok_def)
qed

text \<open>
  C32. Reading and writing an open file act on its contents. A read copies the bytes at the descriptor's
  offset, as many as asked for and as there are, into the user buffer, touches nothing else and advances the
  offset. A write that fits the 256-byte slot puts the buffer at its position (the end for an
  appending descriptor) and leaves every other file as it was; a write that does not fit changes no file.
  A position past the end exposes whatever the slot held between the end and the position.
\<close>

theorem vfs_file_contents:
  assumes h: "vfs_history a t st" and k: "mcs_fd_get (Some t) fd = Some k" and i: "f_node (files t ! k) = Some (a, i)" "0 < i"
    and b: "buf \<noteq> 0 \<or> len = 0"
  shows "let f = files t ! k; c = file_content (st a) i; w = unat (write_pos st a i f);
      n = min (unat len) (length c - unat (f_offset f)); bs = user_bytes mem buf (unat len)
    in (mcs_can_read (f_flags f) \<longrightarrow> mcs_vfs_read (Some t) st mem fd buf len =
          (int n, Some (set_file t k (f\<lparr>f_offset := f_offset f + of_nat n\<rparr>)),
           \<lambda>x. if unat (x - buf) < n then c ! (unat (f_offset f) + unat (x - buf)) else mem x)) \<and>
       (mcs_can_write (f_flags f) \<and> w + unat len \<le> 256 \<longrightarrow>
          (\<exists>st'. mcs_vfs_write (Some t) st mem fd buf len =
              (int (unat len), Some (set_file t k (f\<lparr>f_offset := of_nat (w + unat len)\<rparr>)), st') \<and>
            file_content (st' a) i = (if w \<le> length c then overwrite w bs c
              else c @ drop (length c) (take w (area (st a) i)) @ bs) \<and>
            (\<forall>j. 0 < j \<longrightarrow> j \<noteq> i \<longrightarrow> file_content (st' a) j = file_content (st a) j))) \<and>
       (mcs_can_write (f_flags f) \<and> 256 < w + unat len \<longrightarrow>
          (\<exists>r t'. r \<in> {MCS_EINVAL, MCS_ENOSPC} \<and> mcs_vfs_write (Some t) st mem fd buf len = (r, Some t', st)))"
proof -
  obtain names where ok: "vfs_ok a names t st" using vfs_history_ok[OF h] by blast
  show ?thesis unfolding Let_def
    using read_content[OF ok k refl i b _ refl refl, of mem] write_content[OF ok k refl i b _ refl refl, of mem]
      write_cases[OF ok k refl i(1) _ b, of mem] by fastforce
qed

section \<open>Witnesses\<close>

definition raw_table :: mcs_fd_table where
  "raw_table = \<lparr>files = replicate 16 \<lparr>f_used = 7, f_flags = 7, f_offset = 7, f_node = Some (7, 7), f_fs = 7\<rparr>\<rparr>"

lemma sample_open:
  assumes h: "vfs_history a t st" and ok: "fs_ok (st a) []" and t: "\<forall>fd. mcs_fd_get (Some t) fd = None"
  shows "\<exists>t' st'. vfs_history a t' st' \<and> mcs_fd_get (Some t') 0 = Some 0 \<and> f_node (files t' ! 0) = Some (a, 1) \<and>
    f_flags (files t' ! 0) = 0x104 \<and> f_offset (files t' ! 0) = 0 \<and> file_content (st' a) 1 = []"
proof -
  let ?p = "[slash, 0x61 :: u8]"
  obtain names where v: "vfs_ok a names t st" using vfs_history_ok[OF h] by blast
  then have a: "a \<noteq> 0" and len: "length (files t) = 16" by (auto simp: vfs_ok_def table_ok_def)
  have m: "open_mode 0x104 = 0x104" by (simp add: open_mode_def open_flags)
  have p: "0 \<notin> set ?p" "file_name (tl ?p)" by (simp_all add: file_name_def)
  have "found (st a) ?p = None" using found_spec(1)[OF ok p(1)] node_of_None[of "[]" "[0x61]"] by simp
  then obtain rc where lk: "mcs_ramfs_lookup (Some (st a)) (Some ?p) = (rc, None)"
    by (cases "mcs_ramfs_lookup (Some (st a)) (Some ?p)") (simp add: found_def)
  have ex: "\<exists>nm. ?p = slash # nm \<and> file_name nm \<and> nm \<notin> set [] \<and> length ([] :: u8 list list) < 32" using p(2) by simp
  obtain fs where c: "mcs_ramfs_create_file (Some (st a)) (Some ?p) = (MCS_OK, Some 1, Some fs)" "fs_ok fs [[0x61]]" "vn_size (nodes fs ! 1) = 0"
    using create_spec[OF ok p(1)] unfolding if_P[OF ex] by auto
  let ?st = "st(a := fs)"
  have on: "open_node st a ?p (open_mode 0x104) = (MCS_OK, Some 1, ?st)"
    unfolding m by (simp add: open_node_def lk c(1) open_flags)
  have "vn_type (nodes (?st a) ! 1) \<noteq> MCS_VNODE_DIR" using fs_ok_node_type[OF c(2), of 1] by simp
  then have d: "\<not> (vn_type (nodes (?st a) ! 1) = MCS_VNODE_DIR \<and> mcs_can_write (open_mode 0x104))" by blast
  have free: "f_used (files t ! 0) = 0" using t[rule_format, of 0] by (auto simp: mcs_fd_get_def MCS_MAX_OPEN_FILES_def split: if_splits)
  have al: "mcs_fd_alloc (Some t) = (int 0, Some (set_file t 0 ((files t ! 0)\<lparr>f_used := 1\<rparr>)))"
    by (simp add: mcs_fd_alloc_def MCS_MAX_OPEN_FILES_def free upt_conv_Cons)
  let ?t = "set_file t 0 (opened a 1 0x104 ?st (files t ! 0))"
  have "mcs_vfs_open (Some t) st a (Some ?p) 0x104 = (0, Some ?t, ?st)"
    using vfs_open_slot[OF a on d _ al] len unfolding m by (simp add: open_flags fun_upd_def)
  then have "vfs_history a ?t ?st" by (rule vfs_history.openf[OF h p(1)])
  moreover have "file_content (?st a) 1 = []" using c(3) by (simp add: file_content_def)
  ultimately show ?thesis using len
    by (intro exI[of _ ?t] exI[of _ ?st]) (simp add: opened_def fd_get_Some open_flags)
qed

lemma sample_boot: "\<exists>t st. vfs_history 0x1000 t st \<and> fs_ok (st 0x1000) [] \<and> (\<forall>fd. mcs_fd_get (Some t) fd = None)"
proof -
  obtain fs where fs: "mcs_ramfs_init (Some raw_ramfs) = Some fs" "fs_ok fs []"
    using ramfs_init_ok[OF raw_ramfs_shape] by blast
  have len: "length (files raw_table) = 16" unfolding raw_table_def by (simp only: mcs_fd_table.simps length_replicate)
  obtain t where t: "mcs_fd_table_init (Some raw_table) = Some t" "\<forall>fd. mcs_fd_get (Some t) fd = None"
    using table_init_ok[OF len] by blast
  have "vfs_history 0x1000 t (\<lambda>_. fs)" using fs t len raw_ramfs_shape by (intro vfs_history.boot) auto
  then show ?thesis using fs t by blast
qed

theorem vfs_history_typed_witness:
  "\<exists>t st names. vfs_history 0x1000 t st \<and> mcs_fd_get (Some t) 0 = Some 0 \<and> fs_ok (st 0x1000) names \<and> f_fs (files t ! 0) = 0x1000"
proof -
  obtain t st where h: "vfs_history 0x1000 t st" "mcs_fd_get (Some t) 0 = Some 0"
    using sample_boot sample_open by blast
  then show ?thesis using vfs_history_typed[OF h(1)] by blast
qed

theorem vfs_file_contents_witness:
  "\<exists>t st t' st'. vfs_history 0x1000 t st \<and> mcs_vfs_write (Some t) st (\<lambda>_. 0x42) 0 0x2000 3 = (3, Some t', st') \<and>
     file_content (st' 0x1000) 1 = [0x42, 0x42, 0x42]"
proof -
  obtain t st where h: "vfs_history 0x1000 t st" "mcs_fd_get (Some t) 0 = Some 0" "f_node (files t ! 0) = Some (0x1000, 1)"
    "f_flags (files t ! 0) = 0x104" "f_offset (files t ! 0) = 0" "file_content (st 0x1000) 1 = []"
    using sample_boot sample_open by blast
  have w: "write_pos st 0x1000 1 (files t ! 0) = 0" "mcs_can_write 0x104"
    using h(4,5) by (simp_all add: write_pos_def mcs_can_write_def open_flags)
  have "user_bytes (\<lambda>_. 0x42) 0x2000 3 = [0x42, 0x42, 0x42]" by (simp add: user_bytes_def numeral_3_eq_3)
  then have "overwrite 0 (user_bytes (\<lambda>_. 0x42) 0x2000 3) [] = [0x42, 0x42, 0x42]" by (simp add: overwrite_def)
  then obtain t' st' where "mcs_vfs_write (Some t) st (\<lambda>_. 0x42) 0 0x2000 3 = (3, Some t', st')" "file_content (st' 0x1000) 1 = [0x42, 0x42, 0x42]"
    using vfs_file_contents[OF h(1,2,3), of "0x2000" 3 "\<lambda>_. 0x42"] h w by (auto simp: Let_def)
  then show ?thesis using h(1) by blast
qed

end
