(* ===== verification/Syscall.thy ===== *)
theory Syscall
  imports Vfs
begin

text \<open>
  The system call layer of \<^verbatim>\<open>kernel/syscall/syscall.c\<close> over the descriptor layer.

  The state holds the static variables of the file, the memory user pointers refer to, and the rest of
  the machine as an arbitrary type that the four callbacks act on. A call gives the 64-bit result read as a
  signed integer and the next state. It gives \<open>None\<close> when control does not come back: the exit or the output
  callback does not return, a null callback is called, the path is never terminated, or a seek overflows a signed
  addition.

  Shown: the range check accepts exactly the ranges inside the user region; no call writes user memory
  outside it; and any sequence of calls with any numbers and arguments keeps the file system and descriptor table
  well typed.
\<close>

section \<open>Model: types\<close>

definition MCSOS_SYS_PING :: u64 where "MCSOS_SYS_PING = 0"
definition MCSOS_SYS_GET_TICKS :: u64 where "MCSOS_SYS_GET_TICKS = 1"
definition MCSOS_SYS_WRITE_SERIAL :: u64 where "MCSOS_SYS_WRITE_SERIAL = 2"
definition MCSOS_SYS_YIELD :: u64 where "MCSOS_SYS_YIELD = 3"
definition MCSOS_SYS_EXIT_THREAD :: u64 where "MCSOS_SYS_EXIT_THREAD = 4"
definition MCSOS_SYS_OPEN :: u64 where "MCSOS_SYS_OPEN = 5"
definition MCSOS_SYS_READ :: u64 where "MCSOS_SYS_READ = 6"
definition MCSOS_SYS_WRITE :: u64 where "MCSOS_SYS_WRITE = 7"
definition MCSOS_SYS_CLOSE :: u64 where "MCSOS_SYS_CLOSE = 8"
definition MCSOS_SYS_LSEEK :: u64 where "MCSOS_SYS_LSEEK = 9"
definition MCSOS_SYS_MAX :: u64 where "MCSOS_SYS_MAX = 10"

lemmas syscall_numbers = MCSOS_SYS_PING_def MCSOS_SYS_GET_TICKS_def MCSOS_SYS_WRITE_SERIAL_def MCSOS_SYS_YIELD_def MCSOS_SYS_EXIT_THREAD_def
  MCSOS_SYS_OPEN_def MCSOS_SYS_READ_def MCSOS_SYS_WRITE_def MCSOS_SYS_CLOSE_def MCSOS_SYS_LSEEK_def MCSOS_SYS_MAX_def

definition MCSOS_OK :: int where "MCSOS_OK = 0"
definition MCSOS_EFAULT :: int where "MCSOS_EFAULT = -14"
definition MCSOS_EBUSY :: int where "MCSOS_EBUSY = -16"
definition MCSOS_EINVAL :: int where "MCSOS_EINVAL = -22"
definition MCSOS_ENOSYS :: int where "MCSOS_ENOSYS = -38"

lemmas syscall_codes = MCSOS_OK_def MCSOS_EFAULT_def MCSOS_EBUSY_def MCSOS_EINVAL_def MCSOS_ENOSYS_def

record mcsos_syscall_frame =
  fr_nr :: u64
  fr_arg0 :: u64
  fr_arg1 :: u64
  fr_arg2 :: u64
  fr_arg3 :: u64
  fr_arg4 :: u64
  fr_arg5 :: u64
  fr_ret :: int

record mcsos_user_region =
  ur_base :: u64
  ur_limit :: u64

record 'w mcsos_syscall_ops =
  get_ticks :: "('w \<Rightarrow> u64 \<times> 'w) option"
  yield_current :: "('w \<Rightarrow> 'w) option"
  exit_current :: "(int \<Rightarrow> 'w \<Rightarrow> 'w option) option"
  write_serial :: "(byte_memory \<Rightarrow> u64 \<Rightarrow> u64 \<Rightarrow> 'w \<Rightarrow> (int \<times> 'w) option) option"

text \<open>\<open>ramfs_at\<close> is the address of the static file system.\<close>

record 'w sys =
  ramfs_at :: u64
  ramfs_mem :: ramfs_store
  main_process :: mcs_process
  vfs_initialized :: int
  sys_ops :: "'w mcsos_syscall_ops"
  user_region :: mcsos_user_region
  user_mem :: byte_memory
  machine :: 'w

section \<open>Model: start-up and checks\<close>

definition mcs_vfs_init_once :: "'w sys \<Rightarrow> 'w sys" where
  "mcs_vfs_init_once s =
     (if vfs_initialized s = 0
      then s\<lparr>ramfs_mem := (ramfs_mem s)(ramfs_at s := the (mcs_ramfs_init (Some (ramfs_mem s (ramfs_at s))))),
             main_process := (main_process s)\<lparr>pid := 0, fd_table := the (mcs_fd_table_init (Some (fd_table (main_process s))))\<rparr>,
             vfs_initialized := 1\<rparr>
      else s)"

definition default_write_serial :: "byte_memory \<Rightarrow> u64 \<Rightarrow> u64 \<Rightarrow> 'w \<Rightarrow> (int \<times> 'w) option" where
  "default_write_serial mem buf len w = Some (sint len, w)"

definition mcsos_syscall_init :: "'w mcsos_syscall_ops option \<Rightarrow> 'w sys \<Rightarrow> 'w sys" where
  "mcsos_syscall_init ops s =
     (let g = \<lparr>get_ticks = None, yield_current = None, exit_current = None, write_serial = Some default_write_serial\<rparr>
      in s\<lparr>sys_ops :=
             (case ops of
                None \<Rightarrow> g
              | Some o' \<Rightarrow>
                  (let g = (if get_ticks o' \<noteq> None then g\<lparr>get_ticks := get_ticks o'\<rparr> else g);
                       g = (if yield_current o' \<noteq> None then g\<lparr>yield_current := yield_current o'\<rparr> else g);
                       g = (if exit_current o' \<noteq> None then g\<lparr>exit_current := exit_current o'\<rparr> else g)
                   in if write_serial o' \<noteq> None then g\<lparr>write_serial := write_serial o'\<rparr> else g))\<rparr>)"

definition mcsos_syscall_set_user_region :: "mcsos_user_region \<Rightarrow> 'w sys \<Rightarrow> 'w sys" where
  "mcsos_syscall_set_user_region region s = s\<lparr>user_region := region\<rparr>"

definition mcsos_user_check_range :: "mcsos_user_region \<Rightarrow> u64 \<Rightarrow> u64 \<Rightarrow> bool" where
  "mcsos_user_check_range r addr len =
     (if len = 0 then True
      else if ur_base r = 0 \<or> ur_limit r \<le> ur_base r then False
      else if addr < ur_base r then False
      else if addr > ur_limit r then False
      else
        (let last = addr + len - 1
         in if last < addr then False
            else if last \<ge> ur_limit r then False
            else True))"

text \<open>The destination is kernel memory: the bytes copied are the result.\<close>

definition mcsos_copy_from_user :: "'w sys \<Rightarrow> u64 \<Rightarrow> u64 \<Rightarrow> u64 \<Rightarrow> int \<times> u8 list" where
  "mcsos_copy_from_user s dst src len =
     (if len = 0 then (MCSOS_OK, [])
      else if dst = 0 \<or> src = 0 then (MCSOS_EINVAL, [])
      else if \<not> mcsos_user_check_range (user_region s) src len then (MCSOS_EFAULT, [])
      else (MCSOS_OK, map (\<lambda>i. user_mem s (src + of_nat i)) [0..<unat len]))"

section \<open>Model: the calls\<close>

definition sys_ping :: "'w sys \<Rightarrow> u64 \<Rightarrow> u64 \<Rightarrow> u64 \<Rightarrow> (int \<times> 'w sys) option" where
  "sys_ping s a0 a1 a2 = Some (0x2605020A, s)"

definition sys_get_ticks :: "'w sys \<Rightarrow> u64 \<Rightarrow> u64 \<Rightarrow> u64 \<Rightarrow> (int \<times> 'w sys) option" where
  "sys_get_ticks s a0 a1 a2 =
     (case get_ticks (sys_ops s) of
        None \<Rightarrow> Some (MCSOS_EBUSY, s)
      | Some f \<Rightarrow> (case f (machine s) of (t, w) \<Rightarrow> Some (sint t, s\<lparr>machine := w\<rparr>)))"

definition sys_write_serial :: "'w sys \<Rightarrow> u64 \<Rightarrow> u64 \<Rightarrow> u64 \<Rightarrow> (int \<times> 'w sys) option" where
  "sys_write_serial s ptr len a2 =
     (if ptr = 0 then Some (MCSOS_EINVAL, s)
      else if len > 4096 then Some (MCSOS_EINVAL, s)
      else if \<not> mcsos_user_check_range (user_region s) ptr len then Some (MCSOS_EFAULT, s)
      else
        (case write_serial (sys_ops s) of
           None \<Rightarrow> None
         | Some f \<Rightarrow> map_option (\<lambda>(r, w). (r, s\<lparr>machine := w\<rparr>)) (f (user_mem s) ptr len (machine s))))"

definition sys_yield :: "'w sys \<Rightarrow> u64 \<Rightarrow> u64 \<Rightarrow> u64 \<Rightarrow> (int \<times> 'w sys) option" where
  "sys_yield s a0 a1 a2 =
     (case yield_current (sys_ops s) of
        None \<Rightarrow> Some (MCSOS_EBUSY, s)
      | Some f \<Rightarrow> Some (MCSOS_OK, s\<lparr>machine := f (machine s)\<rparr>))"

definition sys_exit_thread :: "'w sys \<Rightarrow> u64 \<Rightarrow> u64 \<Rightarrow> u64 \<Rightarrow> (int \<times> 'w sys) option" where
  "sys_exit_thread s code a1 a2 =
     (case exit_current (sys_ops s) of
        None \<Rightarrow> Some (MCSOS_EBUSY, s)
      | Some f \<Rightarrow> map_option (\<lambda>w. (MCSOS_OK, s\<lparr>machine := w\<rparr>)) (f (sint (ucast code :: u32)) (machine s)))"

text \<open>
  The string at an address: its bytes up to the first zero, \<open>None\<close> when there is none in the address space.
  A path that does not start with a slash is rejected on its first byte; the code reads no further.
\<close>

partial_function (option) cstring_at :: "byte_memory \<Rightarrow> u64 \<Rightarrow> cstring option" where
  "cstring_at mem p = (if mem p = 0 then Some [] else Option.bind (cstring_at mem (p + 1)) (\<lambda>s. Some (mem p # s)))"

definition user_path :: "byte_memory \<Rightarrow> u64 \<Rightarrow> cstring option" where
  "user_path mem p = (if mem p = slash then cstring_at mem p else Some (if mem p = 0 then [] else [mem p]))"

definition sys_open :: "'w sys \<Rightarrow> u64 \<Rightarrow> u64 \<Rightarrow> u64 \<Rightarrow> (int \<times> 'w sys) option" where
  "sys_open s path_ptr flags a2 =
     (if path_ptr = 0 then Some (MCSOS_EINVAL, s)
      else
        (let flags = (if flags = 0 then ucast MCS_O_RDONLY else flags)
         in if \<not> mcsos_user_check_range (user_region s) path_ptr (of_nat MCS_MAX_PATH) then Some (MCSOS_EFAULT, s)
            else
              (let s = mcs_vfs_init_once s
               in (case user_path (user_mem s) path_ptr of
                     None \<Rightarrow> None
                   | Some path \<Rightarrow>
                       (case mcs_sys_open (Some (main_process s)) (ramfs_mem s) (ramfs_at s) (Some path) (ucast flags) of
                          (r, p, st) \<Rightarrow> Some (r, s\<lparr>main_process := the p, ramfs_mem := st\<rparr>))))))"

definition sys_read :: "'w sys \<Rightarrow> u64 \<Rightarrow> u64 \<Rightarrow> u64 \<Rightarrow> (int \<times> 'w sys) option" where
  "sys_read s fd buf_ptr len =
     (if buf_ptr = 0 \<and> len \<noteq> 0 then Some (MCSOS_EINVAL, s)
      else if len > 0 \<and> \<not> mcsos_user_check_range (user_region s) buf_ptr len then Some (MCSOS_EFAULT, s)
      else
        (let s = mcs_vfs_init_once s
         in (case mcs_sys_read (Some (main_process s)) (ramfs_mem s) (user_mem s) (sint (ucast fd :: u32)) buf_ptr len of
               (r, p, mem) \<Rightarrow> Some (r, s\<lparr>main_process := the p, user_mem := mem\<rparr>))))"

definition sys_write :: "'w sys \<Rightarrow> u64 \<Rightarrow> u64 \<Rightarrow> u64 \<Rightarrow> (int \<times> 'w sys) option" where
  "sys_write s fd buf_ptr len =
     (if buf_ptr = 0 \<and> len \<noteq> 0 then Some (MCSOS_EINVAL, s)
      else if len > 0 \<and> \<not> mcsos_user_check_range (user_region s) buf_ptr len then Some (MCSOS_EFAULT, s)
      else
        (let s = mcs_vfs_init_once s
         in (case mcs_sys_write (Some (main_process s)) (ramfs_mem s) (user_mem s) (sint (ucast fd :: u32)) buf_ptr len of
               (r, p, st) \<Rightarrow> Some (r, s\<lparr>main_process := the p, ramfs_mem := st\<rparr>))))"

definition sys_close :: "'w sys \<Rightarrow> u64 \<Rightarrow> u64 \<Rightarrow> u64 \<Rightarrow> (int \<times> 'w sys) option" where
  "sys_close s fd a1 a2 =
     (let s = mcs_vfs_init_once s
      in (case mcs_sys_close (Some (main_process s)) (sint (ucast fd :: u32)) of
            (r, p) \<Rightarrow> Some (r, s\<lparr>main_process := the p\<rparr>)))"

definition sys_lseek :: "'w sys \<Rightarrow> u64 \<Rightarrow> u64 \<Rightarrow> u64 \<Rightarrow> (int \<times> 'w sys) option" where
  "sys_lseek s fd offset whence =
     (let s = mcs_vfs_init_once s
      in (case mcs_sys_lseek (Some (main_process s)) (ramfs_mem s) (sint (ucast fd :: u32)) (sint offset) (sint (ucast whence :: u32)) of
            None \<Rightarrow> None
          | Some (r, p) \<Rightarrow> Some (r, s\<lparr>main_process := the p\<rparr>)))"

section \<open>Model: dispatch\<close>

text \<open>The last three arguments reach the handlers and are ignored by every one of them.\<close>

definition g_table :: "('w sys \<Rightarrow> u64 \<Rightarrow> u64 \<Rightarrow> u64 \<Rightarrow> (int \<times> 'w sys) option) list" where
  "g_table = [sys_ping, sys_get_ticks, sys_write_serial, sys_yield, sys_exit_thread,
     sys_open, sys_read, sys_write, sys_close, sys_lseek]"

definition mcsos_syscall_dispatch :: "'w sys \<Rightarrow> u64 \<Rightarrow> u64 \<Rightarrow> u64 \<Rightarrow> u64 \<Rightarrow> u64 \<Rightarrow> u64 \<Rightarrow> u64 \<Rightarrow> (int \<times> 'w sys) option" where
  "mcsos_syscall_dispatch s nr arg0 arg1 arg2 arg3 arg4 arg5 =
     (if nr \<ge> MCSOS_SYS_MAX then Some (MCSOS_ENOSYS, s)
      else (g_table ! unat nr) s arg0 arg1 arg2)"

definition mcsos_syscall_dispatch_frame :: "'w sys \<Rightarrow> mcsos_syscall_frame option \<Rightarrow> (mcsos_syscall_frame option \<times> 'w sys) option" where
  "mcsos_syscall_dispatch_frame s frame =
     (case frame of
        None \<Rightarrow> Some (None, s)
      | Some f \<Rightarrow>
          map_option (\<lambda>(r, s). (Some (f\<lparr>fr_ret := r\<rparr>), s))
            (mcsos_syscall_dispatch s (fr_nr f) (fr_arg0 f) (fr_arg1 f) (fr_arg2 f) (fr_arg3 f) (fr_arg4 f) (fr_arg5 f)))"

section \<open>User ranges\<close>

lemma check_range_iff:
  "mcsos_user_check_range r addr len \<longleftrightarrow> len = 0 \<or>
     ur_base r \<noteq> 0 \<and> ur_base r < ur_limit r \<and> ur_base r \<le> addr \<and> unat addr + unat len \<le> unat (ur_limit r)"
proof (cases "len = 0 \<or> ur_base r = 0 \<or> ur_limit r \<le> ur_base r \<or> addr < ur_base r")
  case True
  then show ?thesis by (auto simp: mcsos_user_check_range_def not_less not_le)
next
  case False
  then have l: "0 < unat len" by (simp add: unat_gt_0)
  have d: "addr + len - 1 = addr + (len - 1)" by simp
  have l1: "unat (len - 1) = unat len - 1" using False by (simp add: unat_minus_one)
  have lim: "unat (ur_limit r) < 2 ^ 64" using unat_less_length[of "ur_limit r"] by simp
  show ?thesis
  proof (cases "unat addr + unat len \<le> 2 ^ 64")
    case True
    then have "unat (addr + len - 1) = unat addr + (unat len - 1)"
      unfolding d using unat_add_small[of addr "len - 1"] l l1 by simp
    then show ?thesis using False l by (auto simp: mcsos_user_check_range_def Let_def word_less_nat_alt word_le_nat_alt)
  next
    case wrap: False
    have "\<not> addr \<le> addr + (len - 1)"
      using wrap l l1 unat_plus_simple[of addr "len - 1"] unat_less_length[of "addr + (len - 1)"] by auto
    then have "addr + len - 1 < addr" unfolding d by simp
    then show ?thesis using wrap False lim by (auto simp: mcsos_user_check_range_def Let_def)
  qed
qed

lemma read_footprint:
  assumes "mcs_vfs_read table st mem fd buf len = (r, t', mem')" "unat len \<le> unat (x - buf)"
  shows "mem' x = mem x"
proof -
  have n: "unat (mcs_min_size len m) \<le> unat len" for m by (simp add: mcs_min_size_def word_less_nat_alt)
  have "mcs_copy_to_user mem buf src off (unat (mcs_min_size len m)) x = mem x" for src off m
    using assms(2) n[of m] unat_less_length[of "mcs_min_size len m"]
    by (subst copy_to_user_eq) auto
  then show ?thesis using assms(1) by (auto simp: mcs_vfs_read_def Let_def split: option.splits if_splits)
qed

lemma in_region:
  assumes "mcsos_user_check_range r buf len" "unat (x - buf) < unat len"
  shows "ur_base r \<le> x \<and> x < ur_limit r"
proof -
  have c: "ur_base r \<le> buf" "unat buf + unat len \<le> unat (ur_limit r)"
    using assms by (auto simp: check_range_iff)
  have "unat x = unat buf + unat (x - buf)"
    using unat_add_small[of buf "x - buf"] c(2) assms(2) unat_less_length[of "ur_limit r"] by simp
  then show ?thesis using c assms(2) by (simp add: word_le_nat_alt word_less_nat_alt)
qed

section \<open>Strings\<close>

lemma cstring_at_nonzero: "cstring_at mem p = Some s \<Longrightarrow> 0 \<notin> set s"
proof (induction s arbitrary: p)
  case (Cons c s)
  then have "mem p \<noteq> 0" "c = mem p" "cstring_at mem (p + 1) = Some s"
    using cstring_at.simps[of mem p] by (auto split: if_splits bind_splits)
  then show ?case using Cons.IH by auto
qed simp

lemma user_path_nonzero: "user_path mem p = Some s \<Longrightarrow> 0 \<notin> set s"
  by (auto simp: user_path_def dest: cstring_at_nonzero split: if_splits)

lemma cstring_at_ends: "mem (p + of_nat n) = 0 \<Longrightarrow> cstring_at mem p \<noteq> None"
proof (induction n arbitrary: p)
  case 0
  then show ?case by (simp add: cstring_at.simps[of mem p])
next
  case (Suc n)
  have "cstring_at mem (p + 1) \<noteq> None" using Suc.IH[of "p + 1"] Suc.prems by (simp add: algebra_simps)
  then show ?case by (auto simp: cstring_at.simps[of mem p])
qed

text \<open>The string is found from its bytes up to the terminator alone.\<close>

lemma cstring_at_agree:
  "mem (p + of_nat n) = 0 \<Longrightarrow> \<forall>i \<le> n. mem' (p + of_nat i) = mem (p + of_nat i) \<Longrightarrow> cstring_at mem' p = cstring_at mem p"
proof (induction n arbitrary: p)
  case 0
  then show ?case by (simp add: cstring_at.simps[of mem p] cstring_at.simps[of mem' p])
next
  case (Suc n)
  have h: "mem' p = mem p" using Suc.prems(2)[rule_format, of 0] by simp
  have "mem' (p + 1 + of_nat i) = mem (p + 1 + of_nat i)" if "i \<le> n" for i
    using Suc.prems(2)[rule_format, of "Suc i"] that by (simp add: algebra_simps)
  then have "cstring_at mem' (p + 1) = cstring_at mem (p + 1)" using Suc.prems(1) by (intro Suc.IH) (simp_all add: algebra_simps)
  then show ?case using h by (simp add: cstring_at.simps[of mem p] cstring_at.simps[of mem' p])
qed

lemma user_path_agree:
  assumes "n < 128" "mem (p + of_nat n) = 0" "\<forall>i < 128. mem' (p + of_nat i) = mem (p + of_nat i)"
  shows "user_path mem' p = user_path mem p" "user_path mem p \<noteq> None"
proof -
  have "cstring_at mem' p = cstring_at mem p" using assms by (intro cstring_at_agree[of mem p n]) auto
  moreover have "mem' p = mem p" using assms(3)[rule_format, of 0] by simp
  ultimately show "user_path mem' p = user_path mem p" by (simp add: user_path_def)
  show "user_path mem p \<noteq> None" using cstring_at_ends[of mem p n] assms(2) by (simp add: user_path_def)
qed

lemma sys_open_agree:
  assumes "user_path mem' p = user_path (user_mem s) p"
  shows "sys_open (s\<lparr>user_mem := mem'\<rparr>) p fl c = map_option (\<lambda>(r, s'). (r, s'\<lparr>user_mem := mem'\<rparr>)) (sys_open s p fl c)"
proof -
  have i: "mcs_vfs_init_once (s\<lparr>user_mem := mem'\<rparr>) = (mcs_vfs_init_once s)\<lparr>user_mem := mem'\<rparr>" "user_mem (mcs_vfs_init_once s) = user_mem s"
    by (simp_all add: mcs_vfs_init_once_def)
  have u: "t\<lparr>user_mem := mem', main_process := q, ramfs_mem := h\<rparr> = t\<lparr>main_process := q, ramfs_mem := h, user_mem := mem'\<rparr>" for t :: "'a sys" and q h by simp
  show ?thesis unfolding sys_open_def i Let_def using assms by (auto simp: i u split: option.splits prod.splits)
qed

section \<open>Dispatch\<close>

lemma dispatch_eq:
  "mcsos_syscall_dispatch s nr a b c d e f =
    (if nr = MCSOS_SYS_PING then sys_ping s a b c
     else if nr = MCSOS_SYS_GET_TICKS then sys_get_ticks s a b c
     else if nr = MCSOS_SYS_WRITE_SERIAL then sys_write_serial s a b c
     else if nr = MCSOS_SYS_YIELD then sys_yield s a b c
     else if nr = MCSOS_SYS_EXIT_THREAD then sys_exit_thread s a b c
     else if nr = MCSOS_SYS_OPEN then sys_open s a b c
     else if nr = MCSOS_SYS_READ then sys_read s a b c
     else if nr = MCSOS_SYS_WRITE then sys_write s a b c
     else if nr = MCSOS_SYS_CLOSE then sys_close s a b c
     else if nr = MCSOS_SYS_LSEEK then sys_lseek s a b c
     else Some (MCSOS_ENOSYS, s))"
proof (cases "MCSOS_SYS_MAX \<le> nr")
  case True
  then have "10 \<le> unat nr" by (simp add: word_le_nat_alt MCSOS_SYS_MAX_def)
  then have "nr \<noteq> of_nat k" if "k < 10" for k using that by (auto simp: unat_of_nat)
  from this[of 0] this[of 1] this[of 2] this[of 3] this[of 4] this[of 5] this[of 6] this[of 7] this[of 8] this[of 9]
  show ?thesis using True by (simp add: mcsos_syscall_dispatch_def syscall_numbers)
next
  case False
  then have "unat nr < 10" by (simp add: word_le_nat_alt MCSOS_SYS_MAX_def)
  then have "unat nr = 0 \<or> unat nr = 1 \<or> unat nr = 2 \<or> unat nr = 3 \<or> unat nr = 4 \<or> unat nr = 5 \<or> unat nr = 6 \<or>
      unat nr = 7 \<or> unat nr = 8 \<or> unat nr = 9" by arith
  then consider "nr = 0" | "nr = 1" | "nr = 2" | "nr = 3" | "nr = 4" | "nr = 5" | "nr = 6" | "nr = 7" | "nr = 8" | "nr = 9"
    by (elim disjE) (simp_all add: word_unat_eq_iff)
  then show ?thesis using False by cases (simp_all add: mcsos_syscall_dispatch_def syscall_numbers g_table_def)
qed

lemmas handlers = sys_ping_def sys_get_ticks_def sys_write_serial_def sys_yield_def sys_exit_thread_def

lemma init_once_simps [simp]:
  "user_mem (mcs_vfs_init_once s) = user_mem s" "user_region (mcs_vfs_init_once s) = user_region s"
  "sys_ops (mcs_vfs_init_once s) = sys_ops s" "ramfs_at (mcs_vfs_init_once s) = ramfs_at s"
  "vfs_initialized (mcs_vfs_init_once s) = (if vfs_initialized s = 0 then 1 else vfs_initialized s)"
  by (simp_all add: mcs_vfs_init_once_def)

definition same_setup :: "'w sys \<Rightarrow> 'w sys \<Rightarrow> bool" where
  "same_setup s s' \<longleftrightarrow> user_region s' = user_region s \<and> sys_ops s' = sys_ops s \<and> ramfs_at s' = ramfs_at s"

lemma handler_setup:
  "sys_ping s a b c = Some (r, s') \<Longrightarrow> same_setup s s' \<and> user_mem s' = user_mem s"
  "sys_get_ticks s a b c = Some (r, s') \<Longrightarrow> same_setup s s' \<and> user_mem s' = user_mem s"
  "sys_write_serial s a b c = Some (r, s') \<Longrightarrow> same_setup s s' \<and> user_mem s' = user_mem s"
  "sys_yield s a b c = Some (r, s') \<Longrightarrow> same_setup s s' \<and> user_mem s' = user_mem s"
  "sys_exit_thread s a b c = Some (r, s') \<Longrightarrow> same_setup s s' \<and> user_mem s' = user_mem s"
  "sys_open s a b c = Some (r, s') \<Longrightarrow> same_setup s s' \<and> user_mem s' = user_mem s"
  "sys_read s a b c = Some (r, s') \<Longrightarrow> same_setup s s'"
  "sys_write s a b c = Some (r, s') \<Longrightarrow> same_setup s s' \<and> user_mem s' = user_mem s"
  "sys_close s a b c = Some (r, s') \<Longrightarrow> same_setup s s' \<and> user_mem s' = user_mem s"
  "sys_lseek s a b c = Some (r, s') \<Longrightarrow> same_setup s s' \<and> user_mem s' = user_mem s"
  by (auto simp: handlers same_setup_def sys_open_def sys_read_def sys_write_def sys_close_def sys_lseek_def Let_def
      split: option.splits if_splits prod.splits)

lemma sys_read_region:
  assumes r: "sys_read s fd buf len = Some (r, s')" and x: "user_mem s' x \<noteq> user_mem s x"
  shows "ur_base (user_region s) \<le> x \<and> x < ur_limit (user_region s)"
proof -
  have g: "len > 0 \<longrightarrow> mcsos_user_check_range (user_region s) buf len"
    using r x by (auto simp: sys_read_def split: if_splits)
  have "unat (x - buf) < unat len"
  proof (rule ccontr)
    assume "\<not> ?thesis"
    then have "unat len \<le> unat (x - buf)" by simp
    then have "user_mem s' x = user_mem s x"
      using r by (auto simp: sys_read_def mcs_sys_read_def Let_def split: if_splits prod.splits dest!: read_footprint[where x = x])
    with x show False ..
  qed
  moreover from this have "len > 0" by (auto simp: word_less_nat_alt)
  ultimately show ?thesis using in_region g by blast
qed

section \<open>Histories of system calls\<close>

lemma vfs_history_nonzero: "vfs_history a t st \<Longrightarrow> a \<noteq> 0"
  using vfs_history_ok by (auto simp: vfs_ok_def)

lemma sys_open_history:
  assumes h: "vfs_history a (fd_table p) st" and path: "0 \<notin> set path" and r: "mcs_sys_open (Some p) st a (Some path) fl = (r, p', st')"
  shows "vfs_history a (fd_table (the p')) st'"
proof -
  obtain r1 t' st1 where o: "mcs_vfs_open (Some (fd_table p)) st a (Some path) fl = (r1, t', st1)"
    by (cases "mcs_vfs_open (Some (fd_table p)) st a (Some path) fl")
  moreover obtain names where "vfs_ok a names (fd_table p) st" using vfs_history_ok[OF h] by blast
  ultimately obtain t2 where "t' = Some t2" using open_keeps[OF _ path o] by blast
  with o have "vfs_history a t2 st1" using vfs_history.openf[OF h path] by simp
  then show ?thesis using r o \<open>t' = Some t2\<close> vfs_history_nonzero[OF h] by (auto simp: mcs_sys_open_def)
qed

lemma sys_read_history:
  assumes h: "vfs_history a (fd_table p) st" and r: "mcs_sys_read (Some p) st mem fd buf len = (r, p', mem')"
  shows "vfs_history a (fd_table (the p')) st"
proof -
  obtain r1 t' m1 where o: "mcs_vfs_read (Some (fd_table p)) st mem fd buf len = (r1, t', m1)"
    by (cases "mcs_vfs_read (Some (fd_table p)) st mem fd buf len")
  moreover obtain names where "vfs_ok a names (fd_table p) st" using vfs_history_ok[OF h] by blast
  ultimately obtain t2 where "t' = Some t2" using read_keeps[OF _ o] by blast
  with o have "vfs_history a t2 st" using vfs_history.read[OF h] by simp
  then show ?thesis using h r o \<open>t' = Some t2\<close> by (auto simp: mcs_sys_read_def split: if_splits)
qed

lemma sys_write_history:
  assumes h: "vfs_history a (fd_table p) st" and r: "mcs_sys_write (Some p) st mem fd buf len = (r, p', st')"
  shows "vfs_history a (fd_table (the p')) st'"
proof -
  obtain r1 t' st1 where o: "mcs_vfs_write (Some (fd_table p)) st mem fd buf len = (r1, t', st1)"
    by (cases "mcs_vfs_write (Some (fd_table p)) st mem fd buf len")
  moreover obtain names where "vfs_ok a names (fd_table p) st" using vfs_history_ok[OF h] by blast
  ultimately obtain t2 where "t' = Some t2" using write_keeps[OF _ o] by blast
  with o have "vfs_history a t2 st1" using vfs_history.writef[OF h] by simp
  then show ?thesis using h r o \<open>t' = Some t2\<close> by (auto simp: mcs_sys_write_def split: if_splits)
qed

lemma sys_close_history:
  assumes h: "vfs_history a (fd_table p) st" and r: "mcs_sys_close (Some p) fd = (r, p')"
  shows "vfs_history a (fd_table (the p')) st"
proof -
  obtain r1 t' where o: "mcs_vfs_close (Some (fd_table p)) fd = (r1, t')" by (cases "mcs_vfs_close (Some (fd_table p)) fd")
  moreover obtain names where "vfs_ok a names (fd_table p) st" using vfs_history_ok[OF h] by blast
  ultimately obtain t2 where "t' = Some t2" using close_keeps[OF _ o] by blast
  with o have "vfs_history a t2 st" using vfs_history.close[OF h] by simp
  then show ?thesis using r o \<open>t' = Some t2\<close> by (auto simp: mcs_sys_close_def)
qed

lemma sys_lseek_history:
  assumes h: "vfs_history a (fd_table p) st" and r: "mcs_sys_lseek (Some p) st fd off wh = Some (r, p')"
  shows "vfs_history a (fd_table (the p')) st"
proof -
  obtain r1 t' where o: "mcs_vfs_lseek (Some (fd_table p)) st fd off wh = Some (r1, t')"
    using r by (auto simp: mcs_sys_lseek_def)
  moreover obtain names where "vfs_ok a names (fd_table p) st" using vfs_history_ok[OF h] by blast
  ultimately obtain t2 where "t' = Some t2" using lseek_keeps[OF _ o] by blast
  with o have "vfs_history a t2 st" using vfs_history.lseek[OF h] by simp
  then show ?thesis using r o \<open>t' = Some t2\<close> by (auto simp: mcs_sys_lseek_def)
qed

text \<open>The static variables as the linker lays them out, before the first call.\<close>

definition sys_shape :: "'w sys \<Rightarrow> bool" where
  "sys_shape s \<longleftrightarrow> ramfs_at s \<noteq> 0 \<and> length (nodes (ramfs_mem s (ramfs_at s))) = 64 \<and>
     (\<forall>n \<in> set (nodes (ramfs_mem s (ramfs_at s))). length (vn_name n) = 32) \<and>
     length (fs_data (ramfs_mem s (ramfs_at s))) = 8192 \<and> length (files (fd_table (main_process s))) = 16"

definition sys_vfs :: "'w sys \<Rightarrow> bool" where
  "sys_vfs s \<longleftrightarrow> vfs_history (ramfs_at s) (fd_table (main_process s)) (ramfs_mem s)"

definition sys_inv :: "'w sys \<Rightarrow> bool" where
  "sys_inv s \<longleftrightarrow> (if vfs_initialized s = 0 then sys_shape s else sys_vfs s)"

lemma init_once_vfs: "sys_inv s \<Longrightarrow> sys_vfs (mcs_vfs_init_once s)"
proof (cases "vfs_initialized s = 0")
  case True
  assume "sys_inv s"
  then have sh: "sys_shape s" using True by (simp add: sys_inv_def)
  let ?a = "ramfs_at s" and ?raw = "ramfs_mem s (ramfs_at s)" and ?t = "fd_table (main_process s)"
  obtain fs where "mcs_ramfs_init (Some ?raw) = Some fs"
    using sh ramfs_init_ok[of ?raw] by (auto simp: sys_shape_def)
  moreover obtain t where "mcs_fd_table_init (Some ?t) = Some t"
    using sh table_init_ok[of ?t ?a "[]"] by (auto simp: sys_shape_def)
  ultimately show ?thesis using True sh
    by (auto simp: sys_vfs_def mcs_vfs_init_once_def sys_shape_def intro!: vfs_history.boot)
next
  case False
  assume "sys_inv s"
  then show ?thesis using False by (simp add: sys_inv_def mcs_vfs_init_once_def)
qed

lemma handler_inv:
  assumes i: "sys_inv s"
  shows "sys_open s a b c = Some (r, s') \<Longrightarrow> sys_inv s'" "sys_read s a b c = Some (r, s') \<Longrightarrow> sys_inv s'"
    "sys_write s a b c = Some (r, s') \<Longrightarrow> sys_inv s'" "sys_close s a b c = Some (r, s') \<Longrightarrow> sys_inv s'"
    "sys_lseek s a b c = Some (r, s') \<Longrightarrow> sys_inv s'"
proof -
  note v = init_once_vfs[OF i, unfolded sys_vfs_def]
  show "sys_open s a b c = Some (r, s') \<Longrightarrow> sys_inv s'"
    using i sys_open_history[OF v] user_path_nonzero[of "user_mem s" a]
    by (auto simp: sys_open_def sys_inv_def sys_vfs_def Let_def split: option.splits if_splits prod.splits)
  show "sys_read s a b c = Some (r, s') \<Longrightarrow> sys_inv s'"
    using i sys_read_history[OF v] by (auto simp: sys_read_def sys_inv_def sys_vfs_def Let_def split: if_splits prod.splits)
  show "sys_write s a b c = Some (r, s') \<Longrightarrow> sys_inv s'"
    using i sys_write_history[OF v] by (auto simp: sys_write_def sys_inv_def sys_vfs_def Let_def split: if_splits prod.splits)
  show "sys_close s a b c = Some (r, s') \<Longrightarrow> sys_inv s'"
    using i sys_close_history[OF v] by (auto simp: sys_close_def sys_inv_def sys_vfs_def Let_def split: if_splits prod.splits)
  show "sys_lseek s a b c = Some (r, s') \<Longrightarrow> sys_inv s'"
    using i sys_lseek_history[OF v] by (auto simp: sys_lseek_def sys_inv_def sys_vfs_def Let_def split: option.splits if_splits prod.splits)
qed

text \<open>Start-up, changes of the user region, and calls with any number and arguments.\<close>

inductive sys_history :: "'w sys \<Rightarrow> bool" where
  start: "sys_shape s \<Longrightarrow> vfs_initialized s = 0 \<Longrightarrow> sys_history (mcsos_syscall_init ops s)"
| region: "sys_history s \<Longrightarrow> sys_history (mcsos_syscall_set_user_region r s)"
| call: "sys_history s \<Longrightarrow> mcsos_syscall_dispatch s nr a0 a1 a2 a3 a4 a5 = Some (r, s') \<Longrightarrow> sys_history s'"

lemma sys_inv_machine: "sys_inv (s\<lparr>machine := w\<rparr>) = sys_inv s"
  by (simp add: sys_inv_def sys_shape_def sys_vfs_def)

lemma sys_inv_region: "sys_inv (s\<lparr>user_region := r\<rparr>) = sys_inv s"
  by (simp add: sys_inv_def sys_shape_def sys_vfs_def)

lemma open_total: "cstring_at (user_mem s) a \<noteq> None \<Longrightarrow> sys_open s a b c \<noteq> None"
  by (auto simp: sys_open_def mcs_vfs_init_once_def user_path_def Let_def split: option.splits prod.splits)

lemma dispatch_inv:
  assumes i: "sys_inv s" and d: "mcsos_syscall_dispatch s nr a0 a1 a2 a3 a4 a5 = Some (r, s')"
  shows "sys_inv s'"
proof (cases "nr \<in> {MCSOS_SYS_OPEN, MCSOS_SYS_READ, MCSOS_SYS_WRITE, MCSOS_SYS_CLOSE, MCSOS_SYS_LSEEK}")
  case True
  then show ?thesis using d handler_inv[OF i] unfolding dispatch_eq by (auto simp: syscall_numbers)
next
  case False
  then have "s' = s \<or> (\<exists>w. s' = s\<lparr>machine := w\<rparr>)"
    using d unfolding dispatch_eq by (auto simp: handlers split: if_splits option.splits prod.splits)
  then show ?thesis using i by (auto simp: sys_inv_machine)
qed

lemma dispatch_setup:
  assumes d: "mcsos_syscall_dispatch s nr a0 a1 a2 a3 a4 a5 = Some (r, s')"
  shows "same_setup s s'" "nr \<noteq> MCSOS_SYS_READ \<Longrightarrow> user_mem s' = user_mem s"
proof -
  have refl: "same_setup s s" by (simp add: same_setup_def)
  show "same_setup s s'" using d refl unfolding dispatch_eq by (auto split: if_splits dest: handler_setup)
  assume "nr \<noteq> MCSOS_SYS_READ"
  then show "user_mem s' = user_mem s" using d unfolding dispatch_eq by (auto split: if_splits dest: handler_setup)
qed

lemma sys_history_inv: "sys_history s \<Longrightarrow> sys_inv s \<and> write_serial (sys_ops s) \<noteq> None"
proof (induction rule: sys_history.induct)
  case (start s ops)
  then show ?case
    by (auto simp: mcsos_syscall_init_def Let_def sys_inv_def sys_shape_def split: option.splits)
next
  case (region s r)
  then show ?case by (simp add: mcsos_syscall_set_user_region_def sys_inv_region)
next
  case (call s nr a0 a1 a2 a3 a4 a5 r s')
  then show ?case using dispatch_inv[OF _ call.hyps(2)] dispatch_setup(1)[OF call.hyps(2)] by (auto simp: same_setup_def)
qed

section \<open>Properties\<close>

text \<open>
  C33. No system call writes user memory outside the region the kernel was given, whatever its number and
  arguments; only the read call writes user memory at all, and no call changes the region or the
  callbacks. A number outside the table returns the no-such-call error and changes nothing.
\<close>

theorem syscall_memory_safe:
  assumes "mcsos_syscall_dispatch s nr a0 a1 a2 a3 a4 a5 = Some (r, s')"
  shows "{x. user_mem s' x \<noteq> user_mem s x} \<subseteq> {x. ur_base (user_region s) \<le> x \<and> x < ur_limit (user_region s)} \<and>
    (nr \<noteq> MCSOS_SYS_READ \<longrightarrow> user_mem s' = user_mem s) \<and>
    user_region s' = user_region s \<and> sys_ops s' = sys_ops s \<and>
    (MCSOS_SYS_MAX \<le> nr \<longrightarrow> r = MCSOS_ENOSYS \<and> s' = s)"
proof -
  have "{x. user_mem s' x \<noteq> user_mem s x} \<subseteq> {x. ur_base (user_region s) \<le> x \<and> x < ur_limit (user_region s)}"
  proof (cases "nr = MCSOS_SYS_READ")
    case True
    then have "sys_read s a0 a1 a2 = Some (r, s')" using assms unfolding dispatch_eq by (simp add: syscall_numbers)
    then show ?thesis using sys_read_region by blast
  next
    case False
    then show ?thesis using dispatch_setup(2)[OF assms] by simp
  qed
  moreover have "r = MCSOS_ENOSYS \<and> s' = s" if "MCSOS_SYS_MAX \<le> nr"
    using assms that by (simp add: mcsos_syscall_dispatch_def)
  ultimately show ?thesis using dispatch_setup[OF assms] by (auto simp: same_setup_def)
qed


section \<open>Witnesses\<close>

definition sample_sys :: "unit sys" where
  "sample_sys = \<lparr>ramfs_at = 0x1000, ramfs_mem = \<lambda>_. raw_ramfs, main_process = \<lparr>pid = 0, fd_table = raw_table\<rparr>,
     vfs_initialized = 0,
     sys_ops = \<lparr>get_ticks = None, yield_current = None, exit_current = None, write_serial = None\<rparr>,
     user_region = \<lparr>ur_base = 0x400000, ur_limit = 0x800000000000\<rparr>, user_mem = \<lambda>_. 0, machine = ()\<rparr>"

lemma sample_sys_shape: "sys_shape sample_sys"
proof -
  have "length (files raw_table) = 16" unfolding raw_table_def by (simp only: mcs_fd_table.simps length_replicate)
  then show ?thesis using raw_ramfs_shape by (simp add: sys_shape_def sample_sys_def)
qed


theorem syscall_memory_safe_witness:
  "\<exists>s'. mcsos_syscall_dispatch sample_sys MCSOS_SYS_READ 0 0x400000 8 0 0 0 = Some (MCS_EBADF, s') \<and>
     {x. user_mem s' x \<noteq> 0} \<subseteq> {x. 0x400000 \<le> x \<and> x < 0x800000000000}"
proof -
  have len: "length (files raw_table) = 16" unfolding raw_table_def by (simp only: mcs_fd_table.simps length_replicate)
  obtain t where t: "mcs_fd_table_init (Some raw_table) = Some t" "\<forall>fd. mcs_fd_get (Some t) fd = None"
    using table_init_ok[OF len] by blast
  have ok: "mcsos_user_check_range \<lparr>ur_base = 0x400000, ur_limit = 0x800000000000\<rparr> 0x400000 8"
    by (simp add: mcsos_user_check_range_def)
  obtain s' where s': "mcsos_syscall_dispatch sample_sys MCSOS_SYS_READ 0 0x400000 8 0 0 0 = Some (MCS_EBADF, s')"
    using t ok unfolding dispatch_eq
    by (simp add: syscall_numbers sys_read_def mcs_vfs_init_once_def sample_sys_def mcs_sys_read_def mcs_vfs_read_def)
  show ?thesis using syscall_memory_safe[OF s'] s' by (simp add: sample_sys_def)
qed

end
