(* ===== verification/Sched.thy ===== *)
theory Sched
  imports Prelude
begin

text \<open>
  The cooperative scheduler of \<^verbatim>\<open>kernel/mcsos_thread.c\<close>, \<^verbatim>\<open>include/mcsos_thread.h\<close> and
  \<^verbatim>\<open>arch/x86_64/context_switch.S\<close>.

  Thread control blocks live in a store indexed by their address; address 0 is the null pointer. The
  ready queue is the singly linked list from \<open>ready_head\<close> through the field \<open>th_next\<close>, as in the code.
  The callee-saved registers of the processor are one context; a context switch stores them in the
  old block and loads the new one. A loop over the list may run forever on a corrupt list; its value
  is then \<open>None\<close>.

  The ready list is shown to implement the contract of a first-in first-out queue, and on top of that
  contract yielding is round robin: every ready thread runs after as many yields as its position.
\<close>

section \<open>Model\<close>

definition MCSOS_THREAD_MAGIC :: u64 where
  "MCSOS_THREAD_MAGIC = 0x4d435448524541"

definition MCSOS_MIN_KERNEL_STACK :: u64 where
  "MCSOS_MIN_KERNEL_STACK = 4096"

definition MCSOS_STACK_ALIGN :: u64 where
  "MCSOS_STACK_ALIGN = 16"

datatype sched_status =
  MCSOS_SCHED_OK | MCSOS_SCHED_EINVAL | MCSOS_SCHED_ESTACK | MCSOS_SCHED_ESTATE |
  MCSOS_SCHED_ECORRUPT | MCSOS_SCHED_ENOMEM

datatype thread_state =
  MCSOS_THREAD_NEW | MCSOS_THREAD_READY | MCSOS_THREAD_RUNNING | MCSOS_THREAD_BLOCKED | MCSOS_THREAD_ZOMBIE

record mcsos_context =
  rsp :: u64
  rbp :: u64
  rbx :: u64
  r12 :: u64
  r13 :: u64
  r14 :: u64
  r15 :: u64
  rip :: u64

record mcsos_thread =
  th_magic :: u64
  th_id :: u64
  th_name :: u64
  th_state :: thread_state
  th_context :: mcsos_context
  th_entry :: u64
  th_arg :: u64
  th_stack_base :: u64
  th_stack_size :: u64
  th_next :: u64
  th_switches :: u64
  th_ticks :: u64
  th_exit_code :: int

record mcsos_scheduler =
  sc_initialized :: bool
  current :: u64
  idle :: u64
  ready_head :: u64
  ready_tail :: u64
  runnable_count :: u64
  context_switches :: u64
  sc_ticks :: u64
  next_id :: u64

text \<open>
  The memory the scheduler works on: the control blocks, the words of the stacks, the registers of
  the processor, and the address at which a switched-out thread resumes.
\<close>

record threads =
  tcb :: "u64 \<Rightarrow> mcsos_thread"
  stack_words :: "u64 \<Rightarrow> u64"
  cpu :: mcsos_context
  resume_label :: u64

definition upd :: "u64 \<Rightarrow> (mcsos_thread \<Rightarrow> mcsos_thread) \<Rightarrow> threads \<Rightarrow> threads" where
  "upd t f w = w\<lparr>tcb := (tcb w)(t := f (tcb w t))\<rparr>"

definition align_down_uintptr :: "u64 \<Rightarrow> u64 \<Rightarrow> u64" where
  "align_down_uintptr val alignment = val AND NOT (alignment - 1)"

definition valid_thread_object :: "threads \<Rightarrow> u64 \<Rightarrow> bool" where
  "valid_thread_object w t \<longleftrightarrow> t \<noteq> 0 \<and> th_magic (tcb w t) = MCSOS_THREAD_MAGIC"

definition zero_context :: mcsos_context where
  "zero_context = \<lparr>rsp = 0, rbp = 0, rbx = 0, r12 = 0, r13 = 0, r14 = 0, r15 = 0, rip = 0\<rparr>"

text \<open>The name of the boot thread is the address of a string literal, a parameter.\<close>

definition mcsos_scheduler_init ::
  "u64 \<Rightarrow> threads \<Rightarrow> mcsos_scheduler option \<Rightarrow> u64 \<Rightarrow> sched_status \<times> threads \<times> mcsos_scheduler option" where
  "mcsos_scheduler_init boot_name w sched boot_thread =
     (case sched of
        None \<Rightarrow> (MCSOS_SCHED_EINVAL, w, None)
      | Some s \<Rightarrow>
          if boot_thread = 0 then (MCSOS_SCHED_EINVAL, w, sched)
          else
            (MCSOS_SCHED_OK,
             upd boot_thread
               (\<lambda>t. t\<lparr>th_magic := MCSOS_THREAD_MAGIC, th_id := 0, th_name := boot_name,
                      th_state := MCSOS_THREAD_RUNNING, th_entry := 0, th_arg := 0, th_stack_base := 0,
                      th_stack_size := 0, th_next := 0, th_switches := 0, th_ticks := 0, th_exit_code := 0,
                      th_context := zero_context\<rparr>) w,
             Some (s\<lparr>current := boot_thread, idle := boot_thread, ready_head := 0, ready_tail := 0,
                     next_id := 1, runnable_count := 0, context_switches := 0, sc_ticks := 0,
                     sc_initialized := True\<rparr>)))"

definition mcsos_thread_prepare ::
  "threads \<Rightarrow> u64 \<Rightarrow> u64 \<Rightarrow> u64 \<Rightarrow> u64 \<Rightarrow> u64 \<Rightarrow> u64 \<Rightarrow> u64 \<Rightarrow> sched_status \<times> threads" where
  "mcsos_thread_prepare w thread name entry arg stack_base stack_size tid =
     (if thread = 0 \<or> entry = 0 \<or> stack_base = 0 then (MCSOS_SCHED_EINVAL, w)
      else if stack_size < MCSOS_MIN_KERNEL_STACK then (MCSOS_SCHED_ESTACK, w)
      else
        (let low = stack_base; high = low + stack_size
         in if high \<le> low then (MCSOS_SCHED_ESTACK, w)
            else
              (let top = align_down_uintptr high MCSOS_STACK_ALIGN
               in if top \<le> low + 128 then (MCSOS_SCHED_ESTACK, w)
                  else
                    (let top = top - 8;
                         w = w\<lparr>stack_words := (stack_words w)(top := 0)\<rparr>
                     in (MCSOS_SCHED_OK,
                         upd thread
                           (\<lambda>t. t\<lparr>th_magic := MCSOS_THREAD_MAGIC, th_id := tid, th_name := name,
                                  th_state := MCSOS_THREAD_NEW,
                                  th_context := zero_context\<lparr>rsp := top, rip := entry\<rparr>,
                                  th_entry := entry, th_arg := arg, th_stack_base := stack_base,
                                  th_stack_size := stack_size, th_next := 0, th_switches := 0,
                                  th_ticks := 0, th_exit_code := 0\<rparr>) w)))))"

definition mcsos_sched_enqueue ::
  "threads \<Rightarrow> mcsos_scheduler option \<Rightarrow> u64 \<Rightarrow> sched_status \<times> threads \<times> mcsos_scheduler option" where
  "mcsos_sched_enqueue w sched thread =
     (case sched of
        None \<Rightarrow> (MCSOS_SCHED_EINVAL, w, None)
      | Some s \<Rightarrow>
          if \<not> sc_initialized s \<or> \<not> valid_thread_object w thread then (MCSOS_SCHED_EINVAL, w, sched)
          else if th_state (tcb w thread) \<noteq> MCSOS_THREAD_NEW \<and>
                  th_state (tcb w thread) \<noteq> MCSOS_THREAD_READY \<and>
                  th_state (tcb w thread) \<noteq> MCSOS_THREAD_BLOCKED then (MCSOS_SCHED_ESTATE, w, sched)
          else
            (let w = upd thread (\<lambda>t. t\<lparr>th_state := MCSOS_THREAD_READY, th_next := 0\<rparr>) w;
                 (w, s) =
                   (if ready_tail s = 0 then (w, s\<lparr>ready_head := thread, ready_tail := thread\<rparr>)
                    else (upd (ready_tail s) (\<lambda>t. t\<lparr>th_next := thread\<rparr>) w, s\<lparr>ready_tail := thread\<rparr>))
             in (MCSOS_SCHED_OK, w, Some (s\<lparr>runnable_count := runnable_count s + 1\<rparr>))))"

definition mcsos_sched_pick_next ::
  "threads \<Rightarrow> mcsos_scheduler option \<Rightarrow> u64 \<times> threads \<times> mcsos_scheduler option" where
  "mcsos_sched_pick_next w sched =
     (case sched of
        None \<Rightarrow> (0, w, None)
      | Some s \<Rightarrow>
          if \<not> sc_initialized s then (0, w, sched)
          else
            (let thread = ready_head s
             in if thread = 0 then (idle s, w, sched)
                else
                  (let s = s\<lparr>ready_head := th_next (tcb w thread)\<rparr>;
                       s = (if ready_head s = 0 then s\<lparr>ready_tail := 0\<rparr> else s);
                       w = upd thread (\<lambda>t. t\<lparr>th_next := 0\<rparr>) w;
                       s = (if runnable_count s > 0 then s\<lparr>runnable_count := runnable_count s - 1\<rparr> else s)
                   in (thread, w, Some s))))"

definition mcsos_context_switch :: "u64 \<Rightarrow> u64 \<Rightarrow> threads \<Rightarrow> threads" where
  "mcsos_context_switch old new w =
     (let w = upd old (\<lambda>t. t\<lparr>th_context := (cpu w)\<lparr>rip := resume_label w\<rparr>\<rparr>) w
      in w\<lparr>cpu := th_context (tcb w new)\<rparr>)"

definition mcsos_sched_yield ::
  "threads \<Rightarrow> mcsos_scheduler option \<Rightarrow> sched_status \<times> threads \<times> mcsos_scheduler option" where
  "mcsos_sched_yield w sched =
     (case sched of
        None \<Rightarrow> (MCSOS_SCHED_EINVAL, w, None)
      | Some s \<Rightarrow>
          if \<not> sc_initialized s \<or> \<not> valid_thread_object w (current s) then (MCSOS_SCHED_EINVAL, w, sched)
          else
            (let old_thread = current s;
                 (next_thread, w, sched) = mcsos_sched_pick_next w sched
             in if \<not> valid_thread_object w next_thread then (MCSOS_SCHED_ECORRUPT, w, sched)
                else if next_thread = old_thread then
                  (MCSOS_SCHED_OK, upd old_thread (\<lambda>t. t\<lparr>th_state := MCSOS_THREAD_RUNNING\<rparr>) w, sched)
                else
                  (let (rc, w, sched) =
                         (if th_state (tcb w old_thread) = MCSOS_THREAD_RUNNING \<and> old_thread \<noteq> idle (the sched)
                          then mcsos_sched_enqueue (upd old_thread (\<lambda>t. t\<lparr>th_state := MCSOS_THREAD_READY\<rparr>) w)
                                 sched old_thread
                          else (MCSOS_SCHED_OK, w, sched))
                   in if rc \<noteq> MCSOS_SCHED_OK then (rc, w, sched)
                      else
                        (let w = upd next_thread (\<lambda>t. t\<lparr>th_state := MCSOS_THREAD_RUNNING\<rparr>) w;
                             s = (the sched)\<lparr>current := next_thread\<rparr>;
                             w = upd old_thread (\<lambda>t. t\<lparr>th_switches := th_switches t + 1\<rparr>) w;
                             w = upd next_thread (\<lambda>t. t\<lparr>th_switches := th_switches t + 1\<rparr>) w;
                             s = s\<lparr>context_switches := context_switches s + 1\<rparr>;
                             w = mcsos_context_switch old_thread next_thread w
                         in (MCSOS_SCHED_OK, w, Some s)))))"

definition mcsos_sched_tick ::
  "threads \<Rightarrow> mcsos_scheduler option \<Rightarrow> sched_status \<times> threads \<times> mcsos_scheduler option" where
  "mcsos_sched_tick w sched =
     (case sched of
        None \<Rightarrow> (MCSOS_SCHED_EINVAL, w, None)
      | Some s \<Rightarrow>
          if \<not> sc_initialized s \<or> \<not> valid_thread_object w (current s) then (MCSOS_SCHED_EINVAL, w, sched)
          else (MCSOS_SCHED_OK, upd (current s) (\<lambda>t. t\<lparr>th_ticks := th_ticks t + 1\<rparr>) w,
                Some (s\<lparr>sc_ticks := sc_ticks s + 1\<rparr>)))"

definition mcsos_thread_block_current ::
  "threads \<Rightarrow> mcsos_scheduler option \<Rightarrow> sched_status \<times> threads \<times> mcsos_scheduler option" where
  "mcsos_thread_block_current w sched =
     (case sched of
        None \<Rightarrow> (MCSOS_SCHED_EINVAL, w, None)
      | Some s \<Rightarrow>
          if \<not> sc_initialized s \<or> \<not> valid_thread_object w (current s) then (MCSOS_SCHED_EINVAL, w, sched)
          else if current s = idle s then (MCSOS_SCHED_ESTATE, w, sched)
          else mcsos_sched_yield (upd (current s) (\<lambda>t. t\<lparr>th_state := MCSOS_THREAD_BLOCKED\<rparr>) w) sched)"

definition mcsos_thread_mark_ready ::
  "threads \<Rightarrow> mcsos_scheduler option \<Rightarrow> u64 \<Rightarrow> sched_status \<times> threads \<times> mcsos_scheduler option" where
  "mcsos_thread_mark_ready w sched thread =
     (if \<not> valid_thread_object w thread then (MCSOS_SCHED_EINVAL, w, sched)
      else if th_state (tcb w thread) \<noteq> MCSOS_THREAD_BLOCKED then (MCSOS_SCHED_ESTATE, w, sched)
      else mcsos_sched_enqueue w sched thread)"

partial_function (option) count_from :: "threads \<Rightarrow> u64 \<Rightarrow> u64 \<Rightarrow> u64 option" where
  "count_from w cursor count =
     (if cursor = 0 then Some count else count_from w (th_next (tcb w cursor)) (count + 1))"

definition mcsos_sched_ready_count :: "threads \<Rightarrow> mcsos_scheduler option \<Rightarrow> u64 option" where
  "mcsos_sched_ready_count w sched =
     (case sched of
        None \<Rightarrow> Some 0
      | Some s \<Rightarrow> if \<not> sc_initialized s then Some 0 else count_from w (ready_head s) 0)"

text \<open>\<open>scan_from\<close> is the loop of \<open>mcsos_sched_validate\<close> and the two checks after it.\<close>

partial_function (option) scan_from ::
  "threads \<Rightarrow> mcsos_scheduler \<Rightarrow> u64 \<Rightarrow> u64 \<Rightarrow> u64 \<Rightarrow> sched_status option" where
  "scan_from w s cursor last_cursor count =
     (if cursor = 0 then
        Some (if last_cursor \<noteq> ready_tail s then MCSOS_SCHED_ECORRUPT
              else if count \<noteq> runnable_count s then MCSOS_SCHED_ECORRUPT
              else MCSOS_SCHED_OK)
      else if \<not> valid_thread_object w cursor \<or> th_state (tcb w cursor) \<noteq> MCSOS_THREAD_READY
      then Some MCSOS_SCHED_ECORRUPT
      else if cursor = current s then Some MCSOS_SCHED_ECORRUPT
      else if count + 1 > runnable_count s + 1 then Some MCSOS_SCHED_ECORRUPT
      else scan_from w s (th_next (tcb w cursor)) cursor (count + 1))"

definition mcsos_sched_validate :: "threads \<Rightarrow> mcsos_scheduler option \<Rightarrow> sched_status option" where
  "mcsos_sched_validate w sched =
     (case sched of
        None \<Rightarrow> Some MCSOS_SCHED_EINVAL
      | Some s \<Rightarrow>
          if \<not> sc_initialized s \<or> \<not> valid_thread_object w (current s) then Some MCSOS_SCHED_EINVAL
          else scan_from w s (ready_head s) 0 0)"

section \<open>The ready list is a queue\<close>

text \<open>
  The contract of a first-in first-out queue: \<open>repr s q\<close> says that the state \<open>s\<close> holds the elements
  \<open>q\<close>, \<open>fit s q x\<close> that \<open>x\<close> may be added to it.
\<close>

locale fifo =
  fixes repr :: "'s \<Rightarrow> 'a list \<Rightarrow> bool"
    and fit :: "'s \<Rightarrow> 'a list \<Rightarrow> 'a \<Rightarrow> bool"
    and enq :: "'a \<Rightarrow> 's \<Rightarrow> 's"
    and deq :: "'s \<Rightarrow> 'a \<times> 's"
  assumes enq_repr: "repr s q \<Longrightarrow> fit s q x \<Longrightarrow> repr (enq x s) (q @ [x])"
    and deq_repr: "repr s (x # q) \<Longrightarrow> deq s = (y, s') \<Longrightarrow> y = x \<and> repr s' q"
    and deq_fit: "repr s (x # q) \<Longrightarrow> deq s = (y, s') \<Longrightarrow> fit s (x # q) z \<Longrightarrow> fit s' q z"
begin

lemma exchange:
  assumes "repr s (x # q)" "fit s (x # q) z" "deq s = (y, s')"
  shows "y = x \<and> repr (enq z s') (q @ [z])"
  using assms deq_repr deq_fit enq_repr by blast

fun drain :: "nat \<Rightarrow> 's \<Rightarrow> 'a list" where
  "drain 0 s = []"
| "drain (Suc n) s = (case deq s of (y, s') \<Rightarrow> y # drain n s')"

lemma drain_in_order: "repr s q \<Longrightarrow> drain (length q) s = q"
proof (induction q arbitrary: s)
  case (Cons x q)
  obtain y s' where "deq s = (y, s')" by fastforce
  with Cons deq_repr[OF Cons.prems] show ?case by simp
qed simp

end

fun tpath :: "(u64 \<Rightarrow> mcsos_thread) \<Rightarrow> u64 \<Rightarrow> u64 list \<Rightarrow> bool" where
  "tpath h p [] \<longleftrightarrow> p = 0"
| "tpath h p (x # xs) \<longleftrightarrow> p = x \<and> x \<noteq> 0 \<and> tpath h (th_next (h x)) xs"

definition queue_rel :: "threads \<Rightarrow> mcsos_scheduler \<Rightarrow> u64 list \<Rightarrow> bool" where
  "queue_rel w s q \<longleftrightarrow>
     sc_initialized s \<and> tpath (tcb w) (ready_head s) q \<and> ready_tail s = (if q = [] then 0 else last q) \<and>
     distinct q \<and> (\<forall>x \<in> set q. valid_thread_object w x \<and> th_state (tcb w x) = MCSOS_THREAD_READY) \<and>
     runnable_count s = word_of_nat (length q)"

lemma tpath_cong: "(\<And>x. x \<in> set q \<Longrightarrow> th_next (h' x) = th_next (h x)) \<Longrightarrow> tpath h' p q = tpath h p q"
  by (induction q arbitrary: p) auto

lemma tpath_nonzero: "tpath h p q \<Longrightarrow> x \<in> set q \<Longrightarrow> x \<noteq> 0"
  by (induction q arbitrary: p) auto

lemma tpath_upd [simp]: "x \<notin> set q \<Longrightarrow> tpath (h(x := v)) p q = tpath h p q"
  by (rule tpath_cong) auto

lemma tpath_append:
  assumes "tpath h p q" "distinct q" "q \<noteq> []" "t \<notin> set q" "t \<noteq> 0" "th_next (h t) = 0"
    and "th_next v = t"
  shows "tpath (h(last q := v)) p (q @ [t])"
  using assms
proof (induction q arbitrary: p)
  case (Cons x q)
  then show ?case by (cases "q = []") auto
qed simp

lemma queue_length: "queue_rel w s q \<Longrightarrow> length q < 2 ^ 64"
proof -
  assume q: "queue_rel w s q"
  then have "set q \<subseteq> UNIV - {0}" using tpath_nonzero by (auto simp: queue_rel_def)
  then have "card (set q) \<le> card (UNIV - {0 :: u64})" by (intro card_mono) auto
  also have "\<dots> < 2 ^ 64" by (simp add: card_Diff_singleton card_word)
  finally show ?thesis using q by (simp add: queue_rel_def distinct_card)
qed

lemmas tcb_simps = upd_def valid_thread_object_def

lemma enqueue_spec:
  assumes q: "queue_rel w s q" and t: "valid_thread_object w t" "t \<notin> set q"
    "th_state (tcb w t) \<in> {MCSOS_THREAD_NEW, MCSOS_THREAD_READY, MCSOS_THREAD_BLOCKED}"
  obtains w' s' where "mcsos_sched_enqueue w (Some s) t = (MCSOS_SCHED_OK, w', Some s')"
    "queue_rel w' s' (q @ [t])" "current s' = current s" "idle s' = idle s" "sc_ticks s' = sc_ticks s"
    "cpu w' = cpu w" "resume_label w' = resume_label w"
    "\<And>x. th_magic (tcb w' x) = th_magic (tcb w x)" "\<And>x. th_context (tcb w' x) = th_context (tcb w x)"
    "\<And>x. th_state (tcb w' x) = (if x = t then MCSOS_THREAD_READY else th_state (tcb w x))"
proof -
  let ?t1 = "(tcb w t)\<lparr>th_state := MCSOS_THREAD_READY, th_next := 0\<rparr>"
  let ?w1 = "w\<lparr>tcb := (tcb w)(t := ?t1)\<rparr>"
  let ?w = "if q = [] then ?w1 else upd (last q) (\<lambda>x. x\<lparr>th_next := t\<rparr>) ?w1"
  let ?s = "s\<lparr>ready_head := (if q = [] then t else ready_head s), ready_tail := t,
              runnable_count := runnable_count s + 1\<rparr>"
  have tail: "ready_tail s = 0 \<longleftrightarrow> q = []"
    using q tpath_nonzero[of "tcb w" "ready_head s" q "last q"] by (auto simp: queue_rel_def)
  have lq: "q \<noteq> [] \<Longrightarrow> last q \<noteq> t" using t(2) by auto
  show ?thesis
  proof (rule that[of ?w ?s])
    show "mcsos_sched_enqueue w (Some s) t = (MCSOS_SCHED_OK, ?w, Some ?s)"
      using q t tail by (auto simp: mcsos_sched_enqueue_def queue_rel_def tcb_simps Let_def)
    have "tpath (tcb ?w) (ready_head ?s) (q @ [t])"
    proof (cases "q = []")
      case True then show ?thesis using t by (simp add: valid_thread_object_def)
    next
      case False
      have "tpath ((tcb ?w1)(last q := (tcb ?w1 (last q))\<lparr>th_next := t\<rparr>)) (ready_head s) (q @ [t])"
        by (rule tpath_append) (use q t False in \<open>auto simp: queue_rel_def valid_thread_object_def\<close>)
      then show ?thesis using False by (simp add: upd_def)
    qed
    then show "queue_rel ?w ?s (q @ [t])"
      using q t by (auto simp: queue_rel_def tcb_simps)
  qed (use lq in \<open>auto simp: upd_def\<close>)
qed

lemma pick_next_spec:
  assumes q: "queue_rel w s (x # q)"
  obtains w' s' where "mcsos_sched_pick_next w (Some s) = (x, w', Some s')" "queue_rel w' s' q"
    "current s' = current s" "idle s' = idle s" "sc_ticks s' = sc_ticks s"
    "cpu w' = cpu w" "resume_label w' = resume_label w"
    "\<And>y. th_magic (tcb w' y) = th_magic (tcb w y)" "\<And>y. th_context (tcb w' y) = th_context (tcb w y)"
    "\<And>y. th_state (tcb w' y) = th_state (tcb w y)"
proof -
  let ?w = "upd x (\<lambda>t. t\<lparr>th_next := 0\<rparr>) w"
  let ?s = "s\<lparr>ready_head := th_next (tcb w x), ready_tail := (if q = [] then 0 else ready_tail s),
              runnable_count := runnable_count s - 1\<rparr>"
  from q have h: "ready_head s = x" "x \<noteq> 0" "tpath (tcb w) (th_next (tcb w x)) q" "x \<notin> set q"
    "sc_initialized s" "runnable_count s = 1 + word_of_nat (length q)"
    by (auto simp: queue_rel_def)
  have nx: "th_next (tcb w x) = 0 \<longleftrightarrow> q = []" using h(3) by (cases q) auto
  have "unat (runnable_count s) = length (x # q)"
    using queue_length[OF q] q unfolding queue_rel_def by (simp only: unat_of_nat) simp
  then have "runnable_count s \<noteq> 0" by auto
  then have pos: "runnable_count s > 0" by (simp add: word_neq_0_conv)
  show ?thesis
  proof (rule that[of ?w ?s])
    show "mcsos_sched_pick_next w (Some s) = (x, ?w, Some ?s)"
      using h nx pos by (auto simp: mcsos_sched_pick_next_def Let_def)
    show "queue_rel ?w ?s q"
      using q h nx by (auto simp: queue_rel_def tcb_simps)
  qed (auto simp: upd_def)
qed

definition enq_ready :: "u64 \<Rightarrow> threads \<times> mcsos_scheduler \<Rightarrow> threads \<times> mcsos_scheduler" where
  "enq_ready t ws = (case mcsos_sched_enqueue (fst ws) (Some (snd ws)) t of (_, w', s') \<Rightarrow> (w', the s'))"

definition deq_ready :: "threads \<times> mcsos_scheduler \<Rightarrow> u64 \<times> threads \<times> mcsos_scheduler" where
  "deq_ready ws = (case mcsos_sched_pick_next (fst ws) (Some (snd ws)) of (t, w', s') \<Rightarrow> (t, w', the s'))"

definition may_enqueue :: "threads \<times> mcsos_scheduler \<Rightarrow> u64 list \<Rightarrow> u64 \<Rightarrow> bool" where
  "may_enqueue ws q t \<longleftrightarrow>
     valid_thread_object (fst ws) t \<and> t \<notin> set q \<and>
     th_state (tcb (fst ws) t) \<in> {MCSOS_THREAD_NEW, MCSOS_THREAD_READY, MCSOS_THREAD_BLOCKED}"

interpretation ready: fifo "\<lambda>(w, s). queue_rel w s" may_enqueue enq_ready deq_ready
proof
  fix ws ws' :: "threads \<times> mcsos_scheduler" and q x y z
  obtain w s where ws: "ws = (w, s)" by (cases ws)
  show "(case enq_ready x ws of (w, s) \<Rightarrow> queue_rel w s) (q @ [x])"
    if r: "(case ws of (w, s) \<Rightarrow> queue_rel w s) q" and f: "may_enqueue ws q x"
    by (rule enqueue_spec[of w s q x]) (use r f in \<open>auto simp: ws enq_ready_def may_enqueue_def\<close>)
  show "y = x \<and> (case ws' of (w, s) \<Rightarrow> queue_rel w s) q"
    if r: "(case ws of (w, s) \<Rightarrow> queue_rel w s) (x # q)" and d: "deq_ready ws = (y, ws')"
    by (rule pick_next_spec[of w s x q]) (use r d in \<open>auto simp: ws deq_ready_def\<close>)
  show "may_enqueue ws' q z"
    if r: "(case ws of (w, s) \<Rightarrow> queue_rel w s) (x # q)" and d: "deq_ready ws = (y, ws')" and f: "may_enqueue ws (x # q) z"
    by (rule pick_next_spec[of w s x q]) (use r d f in \<open>auto simp: ws deq_ready_def may_enqueue_def valid_thread_object_def\<close>)
qed

section \<open>What a yield does\<close>

text \<open>The invariant of the scheduler: \<open>q\<close> lists the ready threads in the order they will run.\<close>

definition settled :: "threads \<Rightarrow> mcsos_scheduler \<Rightarrow> u64 list \<Rightarrow> bool" where
  "settled w s q \<longleftrightarrow>
     queue_rel w s q \<and> valid_thread_object w (current s) \<and> valid_thread_object w (idle s) \<and>
     current s \<notin> set q \<and> idle s \<notin> set q \<and> th_state (tcb w (idle s)) = MCSOS_THREAD_RUNNING"

definition sched_ok :: "threads \<Rightarrow> mcsos_scheduler \<Rightarrow> u64 list \<Rightarrow> bool" where
  "sched_ok w s q \<longleftrightarrow> settled w s q \<and> th_state (tcb w (current s)) = MCSOS_THREAD_RUNNING"

definition elected :: "mcsos_scheduler \<Rightarrow> u64 list \<Rightarrow> u64" where
  "elected s q = (if q = [] then idle s else hd q)"

definition requeues :: "threads \<Rightarrow> mcsos_scheduler \<Rightarrow> bool" where
  "requeues w s \<longleftrightarrow> th_state (tcb w (current s)) = MCSOS_THREAD_RUNNING \<and> current s \<noteq> idle s"

lemma pick_next_any:
  assumes q: "queue_rel w s q"
  obtains w' s' where "mcsos_sched_pick_next w (Some s) = (elected s q, w', Some s')" "queue_rel w' s' (tl q)"
    "current s' = current s" "idle s' = idle s" "sc_ticks s' = sc_ticks s"
    "cpu w' = cpu w" "resume_label w' = resume_label w"
    "\<And>y. th_magic (tcb w' y) = th_magic (tcb w y)" "\<And>y. th_context (tcb w' y) = th_context (tcb w y)"
    "\<And>y. th_state (tcb w' y) = th_state (tcb w y)"
proof (cases q)
  case Nil
  show ?thesis
    by (rule that[of w s]) (use q Nil in \<open>auto simp: elected_def mcsos_sched_pick_next_def queue_rel_def\<close>)
next
  case (Cons x q')
  have q': "queue_rel w s (x # q')" and e: "elected s q = x" "tl q = q'"
    using q Cons by (auto simp: elected_def)
  show ?thesis
    apply (rule pick_next_spec[OF q'])
    subgoal for w' s' by (rule that[of w' s']) (simp_all add: e)
    done
qed

text \<open>The last step of a yield: the elected thread becomes the current one.\<close>

definition dispatch :: "u64 \<Rightarrow> u64 \<Rightarrow> threads \<Rightarrow> threads" where
  "dispatch old_thread next_thread w =
     mcsos_context_switch old_thread next_thread
       (upd next_thread (\<lambda>t. t\<lparr>th_switches := th_switches t + 1\<rparr>)
         (upd old_thread (\<lambda>t. t\<lparr>th_switches := th_switches t + 1\<rparr>)
           (upd next_thread (\<lambda>t. t\<lparr>th_state := MCSOS_THREAD_RUNNING\<rparr>) w)))"

lemma dispatch_simps [simp]:
  assumes "old_thread \<noteq> next_thread"
  shows "th_magic (tcb (dispatch old_thread next_thread w) y) = th_magic (tcb w y)"
    and "th_next (tcb (dispatch old_thread next_thread w) y) = th_next (tcb w y)"
    and "th_state (tcb (dispatch old_thread next_thread w) y) =
           (if y = next_thread then MCSOS_THREAD_RUNNING else th_state (tcb w y))"
    and "th_context (tcb (dispatch old_thread next_thread w) y) =
           (if y = old_thread then (cpu w)\<lparr>rip := resume_label w\<rparr> else th_context (tcb w y))"
    and "cpu (dispatch old_thread next_thread w) = th_context (tcb w next_thread)"
    and "resume_label (dispatch old_thread next_thread w) = resume_label w"
  using assms by (auto simp: dispatch_def mcsos_context_switch_def upd_def Let_def)

lemma dispatch_queue:
  assumes "queue_rel w s q" "old_thread \<noteq> next_thread" "next_thread \<notin> set q"
  shows "queue_rel (dispatch old_thread next_thread w) (s\<lparr>current := c, context_switches := n\<rparr>) q"
proof -
  have "tpath (tcb (dispatch old_thread next_thread w)) (ready_head s) q = tpath (tcb w) (ready_head s) q"
    by (rule tpath_cong) (simp add: assms)
  then show ?thesis using assms by (auto simp: queue_rel_def valid_thread_object_def)
qed

lemma requeue_spec:
  assumes q: "queue_rel w s r" and c: "valid_thread_object w c" "c \<notin> set r"
  obtains w' s' where
    "(if b then mcsos_sched_enqueue (upd c (\<lambda>t. t\<lparr>th_state := MCSOS_THREAD_READY\<rparr>) w) (Some s) c
      else (MCSOS_SCHED_OK, w, Some s)) = (MCSOS_SCHED_OK, w', Some s')"
    "queue_rel w' s' (r @ (if b then [c] else []))"
    "current s' = current s" "idle s' = idle s" "sc_ticks s' = sc_ticks s"
    "cpu w' = cpu w" "resume_label w' = resume_label w"
    "\<And>y. th_magic (tcb w' y) = th_magic (tcb w y)" "\<And>y. th_context (tcb w' y) = th_context (tcb w y)"
    "\<And>y. th_state (tcb w' y) = (if y = c \<and> b then MCSOS_THREAD_READY else th_state (tcb w y))"
proof (cases b)
  case True
  let ?w = "upd c (\<lambda>t. t\<lparr>th_state := MCSOS_THREAD_READY\<rparr>) w"
  have q': "queue_rel ?w s r" using q c by (auto simp: queue_rel_def tcb_simps)
  have v: "valid_thread_object ?w c" "th_state (tcb ?w c) = MCSOS_THREAD_READY" using c by (auto simp: tcb_simps)
  have u: "th_magic (tcb ?w y) = th_magic (tcb w y)" "th_context (tcb ?w y) = th_context (tcb w y)"
    "th_state (tcb ?w y) = (if y = c then MCSOS_THREAD_READY else th_state (tcb w y))"
    "cpu ?w = cpu w" "resume_label ?w = resume_label w" for y by (auto simp: upd_def)
  show ?thesis
    apply (rule enqueue_spec[OF q' v(1) c(2)])
    subgoal using v by simp
    subgoal for w' s' by (rule that[of w' s']) (simp_all add: True u)
    done
next
  case False
  show ?thesis by (rule that[of w s]) (use q False in auto)
qed

definition switched :: "threads \<Rightarrow> u64 \<Rightarrow> u64 \<Rightarrow> threads \<Rightarrow> bool" where
  "switched w old_thread next_thread w' \<longleftrightarrow>
     (if next_thread = old_thread then cpu w' = cpu w \<and> (\<forall>y. th_context (tcb w' y) = th_context (tcb w y))
      else cpu w' = th_context (tcb w next_thread) \<and>
           th_context (tcb w' old_thread) = (cpu w)\<lparr>rip := resume_label w\<rparr> \<and>
           (\<forall>y. y \<noteq> old_thread \<longrightarrow> th_context (tcb w' y) = th_context (tcb w y)))"

lemma yield_spec:
  assumes ok: "settled w s q"
    and st: "th_state (tcb w (current s)) \<in> {MCSOS_THREAD_RUNNING, MCSOS_THREAD_BLOCKED}"
  obtains w' s' where "mcsos_sched_yield w (Some s) = (MCSOS_SCHED_OK, w', Some s')"
    "sched_ok w' s' (tl q @ (if requeues w s then [current s] else []))"
    "current s' = elected s q" "idle s' = idle s" "sc_ticks s' = sc_ticks s"
    "switched w (current s) (elected s q) w'" "resume_label w' = resume_label w"
    "\<And>y. th_magic (tcb w' y) = th_magic (tcb w y)"
    "\<And>y. th_state (tcb w' y) = (if y = elected s q then MCSOS_THREAD_RUNNING
            else if y = current s \<and> requeues w s then MCSOS_THREAD_READY else th_state (tcb w y))"
proof -
  let ?n = "elected s q" and ?c = "current s"
  from ok have qr: "queue_rel w s q" and c: "valid_thread_object w ?c" "?c \<notin> set q"
    and i: "valid_thread_object w (idle s)" "idle s \<notin> set q" "th_state (tcb w (idle s)) = MCSOS_THREAD_RUNNING"
    by (auto simp: settled_def)
  obtain w1 s1 where p: "mcsos_sched_pick_next w (Some s) = (?n, w1, Some s1)" "queue_rel w1 s1 (tl q)"
    and f1: "current s1 = ?c" "idle s1 = idle s" "sc_ticks s1 = sc_ticks s" "cpu w1 = cpu w" "resume_label w1 = resume_label w"
    "\<And>y. th_magic (tcb w1 y) = th_magic (tcb w y)" "\<And>y. th_context (tcb w1 y) = th_context (tcb w y)"
    "\<And>y. th_state (tcb w1 y) = th_state (tcb w y)"
    using pick_next_any[OF qr] by metis
  have nx: "valid_thread_object w ?n" "?n \<notin> set (tl q)"
    using qr i by (cases q; auto simp: elected_def queue_rel_def)+
  have init: "sc_initialized s" using qr by (simp add: queue_rel_def)
  have tl: "?c \<notin> set (tl q)" "idle s \<notin> set (tl q)" using c i by (cases q; auto)+
  have v: "valid_thread_object w1 y = valid_thread_object w y" for y by (simp add: valid_thread_object_def f1)
  show ?thesis
  proof (cases "?n = ?c")
    case True
    then have qn: "q = []" and ic: "?c = idle s" using c(2) by (cases q; auto simp: elected_def)+
    let ?w = "upd ?c (\<lambda>t. t\<lparr>th_state := MCSOS_THREAD_RUNNING\<rparr>) w1"
    have y: "mcsos_sched_yield w (Some s) = (MCSOS_SCHED_OK, ?w, Some s1)"
      using p(1) nx(1) c(1) init True by (simp add: mcsos_sched_yield_def v)
    show ?thesis
      by (rule that[OF y])
        (use qn ic p(2) f1 i tl True in \<open>auto simp: sched_ok_def settled_def queue_rel_def requeues_def
            switched_def upd_def valid_thread_object_def elected_def\<close>)
  next
    case False
    let ?r = "tl q @ (if requeues w s then [?c] else [])"
    obtain w2 s2 where e: "(if requeues w s
           then mcsos_sched_enqueue (upd ?c (\<lambda>t. t\<lparr>th_state := MCSOS_THREAD_READY\<rparr>) w1) (Some s1) ?c
           else (MCSOS_SCHED_OK, w1, Some s1)) = (MCSOS_SCHED_OK, w2, Some s2)" "queue_rel w2 s2 ?r"
      and f2: "current s2 = ?c" "idle s2 = idle s" "sc_ticks s2 = sc_ticks s" "cpu w2 = cpu w"
      "resume_label w2 = resume_label w"
      "\<And>y. th_magic (tcb w2 y) = th_magic (tcb w y)" "\<And>y. th_context (tcb w2 y) = th_context (tcb w y)"
      "\<And>y. th_state (tcb w2 y) = (if y = ?c \<and> requeues w s then MCSOS_THREAD_READY else th_state (tcb w y))"
      using requeue_spec[OF p(2), of ?c "requeues w s"] c(1) tl(1) f1 v by metis
    let ?s = "s2\<lparr>current := ?n, context_switches := context_switches s2 + 1\<rparr>"
    have y: "mcsos_sched_yield w (Some s) = (MCSOS_SCHED_OK, dispatch ?c ?n w2, Some ?s)"
      using p(1) e(1) nx(1) c(1) init False
      by (simp add: mcsos_sched_yield_def v f1 dispatch_def requeues_def Let_def split: if_splits)
    have nr: "?n \<notin> set ?r" using nx False by auto
    have qr2: "queue_rel (dispatch ?c ?n w2) ?s ?r"
      by (rule dispatch_queue[OF e(2) _ nr]) (use False in simp)
    show ?thesis
      by (rule that[OF y])
        (use False qr2 f2 nx c i tl nr in \<open>auto simp: sched_ok_def settled_def switched_def
            valid_thread_object_def requeues_def\<close>)
  qed
qed

lemma block_spec:
  assumes ok: "sched_ok w s q" and ni: "current s \<noteq> idle s"
  obtains w' s' where "mcsos_thread_block_current w (Some s) = (MCSOS_SCHED_OK, w', Some s')"
    "sched_ok w' s' (tl q)" "current s' = elected s q" "idle s' = idle s"
    "\<And>y. th_magic (tcb w' y) = th_magic (tcb w y)"
    "\<And>y. th_state (tcb w' y) = (if y = elected s q then MCSOS_THREAD_RUNNING
            else if y = current s then MCSOS_THREAD_BLOCKED else th_state (tcb w y))"
proof -
  let ?w = "upd (current s) (\<lambda>t. t\<lparr>th_state := MCSOS_THREAD_BLOCKED\<rparr>) w"
  have st: "settled ?w s q" "th_state (tcb ?w (current s)) = MCSOS_THREAD_BLOCKED"
    using ok ni by (auto simp: sched_ok_def settled_def queue_rel_def tcb_simps)
  have nr: "\<not> requeues ?w s" using st(2) by (simp add: requeues_def)
  have b: "mcsos_thread_block_current w (Some s) = mcsos_sched_yield ?w (Some s)"
    using ok ni by (simp add: mcsos_thread_block_current_def sched_ok_def settled_def queue_rel_def)
  have u: "th_magic (tcb ?w y) = th_magic (tcb w y)"
    "th_state (tcb ?w y) = (if y = current s then MCSOS_THREAD_BLOCKED else th_state (tcb w y))" for y
    by (auto simp: upd_def)
  show ?thesis
    apply (rule yield_spec[OF st(1)])
    subgoal using st(2) by simp
    subgoal for w' s' by (rule that[of w' s']) (simp_all add: b nr u)
    done
qed

lemma mark_ready_spec:
  assumes ok: "sched_ok w s q" and t: "valid_thread_object w t" "th_state (tcb w t) = MCSOS_THREAD_BLOCKED"
  obtains w' s' where "mcsos_thread_mark_ready w (Some s) t = (MCSOS_SCHED_OK, w', Some s')"
    "sched_ok w' s' (q @ [t])" "current s' = current s" "idle s' = idle s"
    "\<And>y. th_magic (tcb w' y) = th_magic (tcb w y)"
    "\<And>y. th_state (tcb w' y) = (if y = t then MCSOS_THREAD_READY else th_state (tcb w y))"
proof -
  from ok t have q: "queue_rel w s q" and nt: "t \<notin> set q" "t \<noteq> current s" "t \<noteq> idle s"
    by (auto simp: sched_ok_def settled_def queue_rel_def)
  show ?thesis
    apply (rule enqueue_spec[OF q t(1) nt(1)])
    subgoal using t by simp
    subgoal for w' s'
      by (rule that[of w' s'])
        (use ok t nt in \<open>simp_all add: mcsos_thread_mark_ready_def sched_ok_def settled_def valid_thread_object_def\<close>)
    done
qed

section \<open>The checks the scheduler makes of itself\<close>

lemma count_from_path: "tpath (tcb w) p q \<Longrightarrow> count_from w p n = Some (n + word_of_nat (length q))"
  by (induction q arbitrary: p n) (simp_all add: count_from.simps ac_simps)

lemma ready_count_spec: "queue_rel w s q \<Longrightarrow> mcsos_sched_ready_count w (Some s) = Some (word_of_nat (length q))"
  using count_from_path[of w "ready_head s" q 0] by (simp add: mcsos_sched_ready_count_def queue_rel_def)

lemma scan_from_path:
  assumes "tpath (tcb w) p q" "\<forall>x \<in> set q. valid_thread_object w x \<and> th_state (tcb w x) = MCSOS_THREAD_READY"
    and "current s \<notin> set q" "runnable_count s = word_of_nat (n + length q)" "n + length q < 2 ^ 64 - 1"
    and "ready_tail s = (if q = [] then l else last q)"
  shows "scan_from w s p l (word_of_nat n) = Some MCSOS_SCHED_OK"
  using assms
proof (induction q arbitrary: p l n)
  case Nil
  then show ?case by (simp add: scan_from.simps)
next
  case (Cons x q)
  have le: "\<not> (word_of_nat n :: u64) + 1 > runnable_count s + 1"
  proof -
    have "(word_of_nat n :: u64) + 1 = word_of_nat (n + 1)" "runnable_count s + 1 = word_of_nat (n + length (x # q) + 1)"
      using Cons.prems by simp_all
    then show ?thesis using Cons.prems(5) by (simp only: not_less word_le_nat_alt unat_of_nat) simp
  qed
  have "scan_from w s (th_next (tcb w x)) x (word_of_nat (Suc n)) = Some MCSOS_SCHED_OK"
    by (rule Cons.IH) (use Cons.prems in \<open>auto simp: ac_simps\<close>)
  then show ?case using Cons.prems le
    by (subst scan_from.simps) (auto simp: ac_simps)
qed

lemma validate_spec:
  assumes ok: "sched_ok w s q"
  shows "mcsos_sched_validate w (Some s) = Some MCSOS_SCHED_OK"
proof -
  have q: "queue_rel w s q" and c: "valid_thread_object w (current s)" "current s \<notin> set q"
    using ok by (auto simp: sched_ok_def settled_def)
  have "set (current s # q) \<subseteq> UNIV - {0}"
    using q c tpath_nonzero by (auto simp: queue_rel_def valid_thread_object_def)
  then have "card (set (current s # q)) \<le> card (UNIV - {0 :: u64})" by (intro card_mono) auto
  moreover have "card (UNIV - {0 :: u64}) = 2 ^ 64 - 1" by (simp add: card_Diff_singleton card_word)
  moreover have "card (set (current s # q)) = length q + 1"
    using q c(2) by (simp add: queue_rel_def distinct_card)
  ultimately have "0 + length q < 2 ^ 64 - 1" by linarith
  from scan_from_path[of w "ready_head s" q s 0 0, OF _ _ _ _ this] show ?thesis
    using q c by (simp add: mcsos_sched_validate_def queue_rel_def)
qed

text \<open>The same check rejects a list that reaches the running thread.\<close>

lemma validate_current_queued:
  assumes "sc_initialized s" "valid_thread_object w (current s)" "ready_head s = current s"
  shows "mcsos_sched_validate w (Some s) = Some MCSOS_SCHED_ECORRUPT"
  using assms by (simp add: mcsos_sched_validate_def scan_from.simps valid_thread_object_def)

section \<open>Every history of the scheduler\<close>

inductive sched_history :: "threads \<Rightarrow> mcsos_scheduler \<Rightarrow> u64 set \<Rightarrow> bool" where
  boot: "mcsos_scheduler_init nm w (Some s) b = (MCSOS_SCHED_OK, w', Some s') \<Longrightarrow> sched_history w' s' {b}"
| spawn: "sched_history w s U \<Longrightarrow> t \<notin> U \<Longrightarrow>
    mcsos_thread_prepare w t nm entry arg base sz tid = (MCSOS_SCHED_OK, w') \<Longrightarrow>
    mcsos_sched_enqueue w' (Some s) t = (rc, w'', Some s'') \<Longrightarrow> sched_history w'' s'' (insert t U)"
| yield: "sched_history w s U \<Longrightarrow> mcsos_sched_yield w (Some s) = (rc, w', Some s') \<Longrightarrow> sched_history w' s' U"
| tick: "sched_history w s U \<Longrightarrow> mcsos_sched_tick w (Some s) = (rc, w', Some s') \<Longrightarrow> sched_history w' s' U"
| block: "sched_history w s U \<Longrightarrow> mcsos_thread_block_current w (Some s) = (rc, w', Some s') \<Longrightarrow>
    sched_history w' s' U"
| wake: "sched_history w s U \<Longrightarrow> t \<in> U \<Longrightarrow> mcsos_thread_mark_ready w (Some s) t = (rc, w', Some s') \<Longrightarrow>
    sched_history w' s' U"

lemma sched_ok_case:
  assumes "sched_ok w s q"
  shows "sc_initialized s" "valid_thread_object w (current s)" "th_state (tcb w (current s)) = MCSOS_THREAD_RUNNING"
    "settled w s q" "elected s q \<in> insert (idle s) (set q)" "elected s q \<notin> set (tl q)"
  using assms by (cases q; auto simp: sched_ok_def settled_def queue_rel_def elected_def)+

definition place :: "thread_state \<Rightarrow> u64 \<Rightarrow> mcsos_scheduler \<Rightarrow> u64 list \<Rightarrow> bool" where
  "place st t s q =
     (case st of
        MCSOS_THREAD_READY \<Rightarrow> t \<in> set q
      | MCSOS_THREAD_RUNNING \<Rightarrow> t = current s \<or> t = idle s
      | MCSOS_THREAD_BLOCKED \<Rightarrow> True
      | _ \<Rightarrow> False)"

definition accounted :: "threads \<Rightarrow> mcsos_scheduler \<Rightarrow> u64 list \<Rightarrow> u64 set \<Rightarrow> bool" where
  "accounted w s q U \<longleftrightarrow> current s \<in> U \<and> idle s \<in> U \<and> set q \<subseteq> U \<and>
     (\<forall>t \<in> U. valid_thread_object w t \<and> place (th_state (tcb w t)) t s q)"

lemma place_simps [simp]:
  "place MCSOS_THREAD_READY t s q = (t \<in> set q)"
  "place MCSOS_THREAD_RUNNING t s q = (t = current s \<or> t = idle s)"
  "place MCSOS_THREAD_BLOCKED t s q"
  by (auto simp: place_def)

lemma place_mono: "place st t s q \<Longrightarrow> set q \<subseteq> set q' \<Longrightarrow> current s' = current s \<Longrightarrow> idle s' = idle s \<Longrightarrow> place st t s' q'"
  by (auto simp: place_def split: thread_state.splits)

lemma place_next:
  assumes "place st t s q" "t \<noteq> elected s q" "t = current s \<Longrightarrow> current s = idle s" 
    "current s' = elected s q" "idle s' = idle s" 
  shows "place st t s' (tl q @ r)"
  using assms by (cases q) (auto simp: place_def elected_def split: thread_state.splits)

lemma account_next:
  assumes ok: "sched_ok w s q" and acc: "accounted w s q U"
    and m: "\<And>y. th_magic (tcb w' y) = th_magic (tcb w y)"
    and st: "\<And>y. th_state (tcb w' y) = (if y = elected s q then MCSOS_THREAD_RUNNING
            else if y = current s \<and> current s \<noteq> idle s then r else th_state (tcb w y))"
    and r: "r = (if b then MCSOS_THREAD_READY else MCSOS_THREAD_BLOCKED)" and b: "b \<Longrightarrow> current s \<noteq> idle s"
    and c: "current s' = elected s q" "idle s' = idle s"
  shows "accounted w' s' (tl q @ (if b then [current s] else [])) U"
proof -
  have U: "current s \<in> U" "idle s \<in> U" "set q \<subseteq> U"
    and each: "\<And>t. t \<in> U \<Longrightarrow> valid_thread_object w t \<and> place (th_state (tcb w t)) t s q"
    using acc by (auto simp: accounted_def)
  have "place (th_state (tcb w' t)) t s' (tl q @ (if b then [current s] else []))" if t: "t \<in> U" for t
  proof (cases "t = elected s q \<or> t = current s \<and> current s \<noteq> idle s")
    case True
    then show ?thesis by (auto simp: st r c)
  next
    case False
    then have "th_state (tcb w' t) = th_state (tcb w t)" by (auto simp: st)
    moreover have "place (th_state (tcb w t)) t s' (tl q @ (if b then [current s] else []))"
      by (rule place_next) (use False each[OF t] c in auto)
    ultimately show ?thesis by simp
  qed
  moreover have "elected s q \<in> U" using sched_ok_case(5)[OF ok] U by auto
  moreover have "set (tl q) \<subseteq> U" using U by (cases q) auto
  ultimately show ?thesis using U each c by (auto simp: accounted_def valid_thread_object_def m)
qed

lemma account_enqueue:
  assumes acc: "accounted w s q U" and c: "current s' = current s" "idle s' = idle s"
    and m: "\<And>y. y \<noteq> t \<Longrightarrow> th_magic (tcb w' y) = th_magic (tcb w y)" and v: "valid_thread_object w' t"
    and st: "\<And>y. th_state (tcb w' y) = (if y = t then MCSOS_THREAD_READY else th_state (tcb w y))"
  shows "accounted w' s' (q @ [t]) (insert t U)"
proof -
  have "place (th_state (tcb w' y)) y s' (q @ [t])" if y: "y \<in> insert t U" for y
  proof (cases "y = t")
    case False
    then have "place (th_state (tcb w y)) y s q" using acc y by (auto simp: accounted_def)
    then have "place (th_state (tcb w y)) y s' (q @ [t])" by (rule place_mono) (use c in auto)
    then show ?thesis using False by (simp add: st)
  qed (simp add: st)
  moreover have "valid_thread_object w' y" if "y \<in> insert t U" for y
    using that acc m[of y] v by (cases "y = t") (auto simp: accounted_def valid_thread_object_def)
  ultimately show ?thesis using acc c by (auto simp: accounted_def)
qed

lemma prepare_spec:
  assumes "mcsos_thread_prepare w t nm entry arg base sz tid = (MCSOS_SCHED_OK, w')"
  shows "t \<noteq> 0" "th_magic (tcb w' y) = (if y = t then MCSOS_THREAD_MAGIC else th_magic (tcb w y))"
    "th_state (tcb w' y) = (if y = t then MCSOS_THREAD_NEW else th_state (tcb w y))"
    "th_next (tcb w' y) = (if y = t then 0 else th_next (tcb w y))"
  using assms by (auto simp: mcsos_thread_prepare_def Let_def upd_def split: if_splits)

lemma spawn_keeps:
  assumes ok: "sched_ok w s q" and acc: "accounted w s q U" and t: "t \<notin> U"
    and p: "mcsos_thread_prepare w t nm entry arg base sz tid = (MCSOS_SCHED_OK, w1)"
    and e: "mcsos_sched_enqueue w1 (Some s) t = (rc, w', Some s')"
  shows "sched_ok w' s' (q @ [t]) \<and> accounted w' s' (q @ [t]) (insert t U)"
proof -
  note pf = prepare_spec[OF p]
  have nt: "t \<notin> set q" "t \<noteq> current s" "t \<noteq> idle s" using acc t by (auto simp: accounted_def)
  have "tpath (tcb w1) (ready_head s) q = tpath (tcb w) (ready_head s) q"
    by (rule tpath_cong) (use nt pf in auto)
  then have q1: "queue_rel w1 s q"
    using ok nt pf by (auto simp: sched_ok_def settled_def queue_rel_def valid_thread_object_def)
  have v: "valid_thread_object w1 t" "th_state (tcb w1 t) = MCSOS_THREAD_NEW" using pf by (auto simp: valid_thread_object_def)
  obtain q': "queue_rel w' s' (q @ [t])" and c: "current s' = current s" "idle s' = idle s"
    and m: "\<And>y. th_magic (tcb w' y) = th_magic (tcb w1 y)"
    and st: "\<And>y. th_state (tcb w' y) = (if y = t then MCSOS_THREAD_READY else th_state (tcb w1 y))"
    by (rule enqueue_spec[OF q1 v(1) nt(1)]) (use v(2) e in auto)
  have "sched_ok w' s' (q @ [t])"
    using ok q' c nt pf by (auto simp: sched_ok_def settled_def m st valid_thread_object_def)
  moreover have "accounted w' s' (q @ [t]) (insert t U)"
    by (rule account_enqueue[OF acc c]) (use pf m st v in \<open>auto simp: valid_thread_object_def\<close>)
  ultimately show ?thesis ..
qed

lemma yield_keeps:
  assumes ok: "sched_ok w s q" and acc: "accounted w s q U" 
    and e: "mcsos_sched_yield w (Some s) = (rc, w', Some s')"
  shows "\<exists>q'. sched_ok w' s' q' \<and> accounted w' s' q' U"
proof -
  note sc = sched_ok_case[OF ok]
  have rq: "requeues w s = (current s \<noteq> idle s)" using sc(3) by (simp add: requeues_def)
  obtain ok': "sched_ok w' s' (tl q @ (if requeues w s then [current s] else []))"
    and c: "current s' = elected s q" "idle s' = idle s"
    and m: "\<And>y. th_magic (tcb w' y) = th_magic (tcb w y)"
    and st: "\<And>y. th_state (tcb w' y) = (if y = elected s q then MCSOS_THREAD_RUNNING
            else if y = current s \<and> requeues w s then MCSOS_THREAD_READY else th_state (tcb w y))"
    by (rule yield_spec[OF sc(4)]) (use sc(3) e in simp_all)
  have "accounted w' s' (tl q @ (if requeues w s then [current s] else [])) U"
    by (rule account_next[OF ok acc m _ refl _ c]) (simp_all add: st rq)
  with ok' show ?thesis by blast
qed

lemma block_keeps:
  assumes ok: "sched_ok w s q" and acc: "accounted w s q U" 
    and e: "mcsos_thread_block_current w (Some s) = (rc, w', Some s')"
  shows "\<exists>q'. sched_ok w' s' q' \<and> accounted w' s' q' U"
proof (cases "current s = idle s")
  case True
  then show ?thesis using e ok acc by (auto simp: mcsos_thread_block_current_def split: if_splits)
next
  case False
  obtain ok': "sched_ok w' s' (tl q)" and c: "current s' = elected s q" "idle s' = idle s"
    and m: "\<And>y. th_magic (tcb w' y) = th_magic (tcb w y)"
    and st: "\<And>y. th_state (tcb w' y) = (if y = elected s q then MCSOS_THREAD_RUNNING
            else if y = current s then MCSOS_THREAD_BLOCKED else th_state (tcb w y))"
    by (rule block_spec[OF ok False]) (use e in simp_all)
  have "accounted w' s' (tl q @ (if False then [current s] else [])) U"
    by (rule account_next[OF ok acc m _ refl _ c]) (simp_all add: st False)
  with ok' show ?thesis by auto
qed

lemma wake_keeps:
  assumes ok: "sched_ok w s q" and acc: "accounted w s q U" and t: "t \<in> U"
    and e: "mcsos_thread_mark_ready w (Some s) t = (rc, w', Some s')"
  shows "\<exists>q'. sched_ok w' s' q' \<and> accounted w' s' q' U"
proof (cases "th_state (tcb w t) = MCSOS_THREAD_BLOCKED")
  case False
  then show ?thesis using e ok acc t by (auto simp: mcsos_thread_mark_ready_def accounted_def)
next
  case True
  have v: "valid_thread_object w t" using acc t by (simp add: accounted_def)
  obtain ok': "sched_ok w' s' (q @ [t])" and c: "current s' = current s" "idle s' = idle s"
    and m: "\<And>y. th_magic (tcb w' y) = th_magic (tcb w y)"
    and st: "\<And>y. th_state (tcb w' y) = (if y = t then MCSOS_THREAD_READY else th_state (tcb w y))"
    by (rule mark_ready_spec[OF ok v True]) (use e in simp_all)
  have "accounted w' s' (q @ [t]) (insert t U)"
    by (rule account_enqueue[OF acc c]) (use m st v in \<open>auto simp: valid_thread_object_def\<close>)
  with ok' t show ?thesis by (auto simp: insert_absorb)
qed

lemma tick_keeps:
  assumes ok: "sched_ok w s q" and acc: "accounted w s q U"
    and e: "mcsos_sched_tick w (Some s) = (rc, w', Some s')"
  shows "sched_ok w' s' q \<and> accounted w' s' q U"
proof -
  let ?w = "upd (current s) (\<lambda>t. t\<lparr>th_ticks := th_ticks t + 1\<rparr>) w"
  have w': "w' = ?w" and s': "s' = s\<lparr>sc_ticks := sc_ticks s + 1\<rparr>"
    using e sched_ok_case(1,2)[OF ok] by (auto simp: mcsos_sched_tick_def)
  have f: "th_state (tcb ?w y) = th_state (tcb w y)" "th_magic (tcb ?w y) = th_magic (tcb w y)"
    "th_next (tcb ?w y) = th_next (tcb w y)" for y by (auto simp: upd_def)
  have p: "tpath (tcb ?w) p q = tpath (tcb w) p q" for p by (rule tpath_cong) (simp add: f)
  have pl: "place st t s' q = place st t s q" for st t by (simp add: place_def s' split: thread_state.splits)
  show ?thesis using ok acc unfolding w'
    by (simp add: sched_ok_def settled_def queue_rel_def accounted_def valid_thread_object_def f p pl) (auto simp: s')
qed

lemma boot_establishes:
  assumes "mcsos_scheduler_init nm w (Some s) b = (MCSOS_SCHED_OK, w', Some s')"
  shows "sched_ok w' s' [] \<and> accounted w' s' [] {b}"
  using assms
  by (auto simp: mcsos_scheduler_init_def sched_ok_def settled_def queue_rel_def accounted_def tcb_simps split: if_splits)

lemma sched_history_inv: "sched_history w s U \<Longrightarrow> \<exists>q. sched_ok w s q \<and> accounted w s q U"
proof (induction rule: sched_history.induct)
  case (boot nm w s b w' s')
  from boot_establishes[OF this] show ?case by blast
next
  case (spawn w s U t nm entry arg base sz tid w' rc w'' s'')
  then obtain q where "sched_ok w s q" "accounted w s q U" by blast
  from spawn_keeps[OF this spawn.hyps(2-4)] show ?case by blast
next
  case (yield w s U rc w' s')
  then obtain q where "sched_ok w s q" "accounted w s q U" by blast
  from yield_keeps[OF this yield.hyps(2)] show ?case .
next
  case (tick w s U rc w' s')
  then obtain q where "sched_ok w s q" "accounted w s q U" by blast
  from tick_keeps[OF this tick.hyps(2)] show ?case by blast
next
  case (block w s U rc w' s')
  then obtain q where "sched_ok w s q" "accounted w s q U" by blast
  from block_keeps[OF this block.hyps(2)] show ?case .
next
  case (wake w s U t rc w' s')
  then obtain q where "sched_ok w s q" "accounted w s q U" by blast
  from wake_keeps[OF this wake.hyps(2-3)] show ?case .
qed

text \<open>The state after \<open>n\<close> consecutive yields, when each succeeds.\<close>

fun yields :: "nat \<Rightarrow> threads \<Rightarrow> mcsos_scheduler \<Rightarrow> (threads \<times> mcsos_scheduler) option" where
  "yields 0 w s = Some (w, s)"
| "yields (Suc n) w s =
     (case mcsos_sched_yield w (Some s) of
        (MCSOS_SCHED_OK, w', Some s') \<Rightarrow> yields n w' s'
      | _ \<Rightarrow> None)"

lemma yield_ok:
  assumes ok: "sched_ok w s q"
  shows "\<exists>w' s'. mcsos_sched_yield w (Some s) = (MCSOS_SCHED_OK, w', Some s') \<and>
           sched_ok w' s' (tl q @ (if requeues w s then [current s] else [])) \<and>
           current s' = elected s q \<and> switched w (current s) (elected s q) w'"
  apply (rule yield_spec[OF sched_ok_case(4)[OF ok]])
  subgoal using sched_ok_case(3)[OF ok] by simp
  subgoal for w' s' by blast
  done

lemma yields_reach:
  "sched_ok w s q \<Longrightarrow> k < length q \<Longrightarrow>
     \<exists>w' s' q'. yields (Suc k) w s = Some (w', s') \<and> sched_ok w' s' q' \<and> current s' = q ! k"
proof (induction k arbitrary: w s q)
  case 0
  obtain x r where q: "q = x # r" using 0(2) by (cases q) auto
  from yield_ok[OF 0(1)] obtain w1 s1 q1 where "mcsos_sched_yield w (Some s) = (MCSOS_SCHED_OK, w1, Some s1)"
    "sched_ok w1 s1 q1" "current s1 = x" unfolding q elected_def by auto
  then show ?case by (simp add: q) blast
next
  case (Suc k)
  obtain x r where q: "q = x # r" using Suc.prems by (cases q) auto
  from yield_ok[OF Suc.prems(1)] obtain w1 s1 where
    y: "mcsos_sched_yield w (Some s) = (MCSOS_SCHED_OK, w1, Some s1)"
    and ok: "sched_ok w1 s1 (r @ (if requeues w s then [current s] else []))" unfolding q by auto
  have k: "k < length r" using Suc.prems(2) q by simp
  from Suc.IH[OF ok] k show ?case by (simp only: yields.simps y q nth_Cons_Suc) (simp add: nth_append)
qed

text \<open>
  C16. After any history of boot, thread creation, yields, ticks, blocks and wake-ups (each call with
  whatever status it returns), the scheduler's own validation succeeds, the count of ready threads
  returns and is the length of the queue, and no thread is lost: a thread ever created is ready exactly
  when it is on the ready list, which holds it once; otherwise it is blocked, or it is running and is the current or the
  idle thread. The idle thread is never set back from \<^const>\<open>MCSOS_THREAD_RUNNING\<close>: while another thread is current, two threads
  are in that state.
\<close>

theorem sched_history_safe:
  assumes "sched_history w s U"
  shows "mcsos_sched_validate w (Some s) = Some MCSOS_SCHED_OK \<and>
    (\<exists>q. tpath (tcb w) (ready_head s) q \<and> distinct q \<and> current s \<notin> set q \<and>
         mcsos_sched_ready_count w (Some s) = Some (word_of_nat (length q)) \<and>
         set q = {t \<in> U. th_state (tcb w t) = MCSOS_THREAD_READY} \<and>
         {t \<in> U. th_state (tcb w t) \<notin> {MCSOS_THREAD_READY, MCSOS_THREAD_BLOCKED}} = {current s, idle s} \<and>
         {t \<in> U. th_state (tcb w t) = MCSOS_THREAD_RUNNING} = {current s, idle s})"
proof -
  obtain q where ok: "sched_ok w s q" and acc: "accounted w s q U" using sched_history_inv[OF assms] by blast
  have pl: "place (th_state (tcb w t)) t s q" if "t \<in> U" for t using acc that by (simp add: accounted_def)
  have q: "queue_rel w s q" using ok by (simp add: sched_ok_def settled_def)
  have "set q = {t \<in> U. th_state (tcb w t) = MCSOS_THREAD_READY}"
  proof (intro set_eqI iffI)
    show "t \<in> {t \<in> U. th_state (tcb w t) = MCSOS_THREAD_READY}" if "t \<in> set q" for t
      using that acc q by (auto simp: accounted_def queue_rel_def)
    show "t \<in> set q" if "t \<in> {t \<in> U. th_state (tcb w t) = MCSOS_THREAD_READY}" for t
      using that pl[of t] by auto
  qed
  moreover have "{t \<in> U. th_state (tcb w t) \<notin> {MCSOS_THREAD_READY, MCSOS_THREAD_BLOCKED}} = {current s, idle s}"
  proof (intro set_eqI iffI)
    show "t \<in> {current s, idle s}" if "t \<in> {t \<in> U. th_state (tcb w t) \<notin> {MCSOS_THREAD_READY, MCSOS_THREAD_BLOCKED}}" for t
      using that pl[of t] by (auto simp: place_def split: thread_state.splits)
    show "t \<in> {t \<in> U. th_state (tcb w t) \<notin> {MCSOS_THREAD_READY, MCSOS_THREAD_BLOCKED}}" if "t \<in> {current s, idle s}" for t
      using that acc ok by (auto simp: accounted_def sched_ok_def settled_def)
  qed
  moreover have "th_state (tcb w (current s)) = MCSOS_THREAD_RUNNING" "th_state (tcb w (idle s)) = MCSOS_THREAD_RUNNING"
    using ok by (auto simp: sched_ok_def settled_def)
  with calculation(2) have "{t \<in> U. th_state (tcb w t) = MCSOS_THREAD_RUNNING} = {current s, idle s}" by fastforce
  moreover have "tpath (tcb w) (ready_head s) q" "distinct q" "current s \<notin> set q"
    using ok by (auto simp: sched_ok_def settled_def queue_rel_def)
  ultimately show ?thesis using validate_spec[OF ok] ready_count_spec[OF q] by blast
qed

text \<open>
  C17. Scheduling is fair: after any history, a ready thread becomes the current thread after at most
  as many yields as the scheduler counts runnable threads, and every one of those yields succeeds.
\<close>

theorem sched_round_robin:
  assumes "sched_history w s U" "t \<in> U" "th_state (tcb w t) = MCSOS_THREAD_READY"
  shows "\<exists>n w' s'. n \<le> unat (runnable_count s) \<and> yields n w s = Some (w', s') \<and> current s' = t"
proof -
  obtain q where ok: "sched_ok w s q" and acc: "accounted w s q U" using sched_history_inv[OF assms(1)] by blast
  then have q: "queue_rel w s q" by (simp add: sched_ok_def settled_def)
  have "place (th_state (tcb w t)) t s q" using acc assms(2) by (simp add: accounted_def)
  then have "t \<in> set q" using assms(3) by simp
  then obtain k where k: "k < length q" "q ! k = t" by (auto simp: in_set_conv_nth)
  have "unat (runnable_count s) = length q"
    using queue_length[OF q] q unfolding queue_rel_def by (simp only: unat_of_nat) simp
  then have "Suc k \<le> unat (runnable_count s)" using k by simp
  with yields_reach[OF ok k(1)] k(2) show ?thesis by blast
qed

text \<open>
  C18. A yield after any history succeeds. The head of the ready list (the idle thread when the list
  is empty) becomes the current thread; when it is another thread than before, the processor holds the
  registers saved for it, the registers of the old thread are saved in its control block, and no other
  saved context changes.
\<close>

theorem sched_yield_switches:
  assumes "sched_history w s U"
  shows "\<exists>w' s'. mcsos_sched_yield w (Some s) = (MCSOS_SCHED_OK, w', Some s') \<and>
    current s' = (if ready_head s = 0 then idle s else ready_head s) \<and>
    (if current s' = current s
     then cpu w' = cpu w \<and> (\<forall>y. th_context (tcb w' y) = th_context (tcb w y))
     else cpu w' = th_context (tcb w (current s')) \<and>
          th_context (tcb w' (current s)) = (cpu w)\<lparr>rip := resume_label w\<rparr> \<and>
          (\<forall>y. y \<noteq> current s \<longrightarrow> th_context (tcb w' y) = th_context (tcb w y)))"
proof -
  obtain q where ok: "sched_ok w s q" using sched_history_inv[OF assms(1)] by blast
  have "elected s q = (if ready_head s = 0 then idle s else ready_head s)"
    using ok by (cases q) (auto simp: elected_def sched_ok_def settled_def queue_rel_def)
  with yield_ok[OF ok] show ?thesis unfolding switched_def by metis
qed

lemma prepare_fits:
  assumes nn: "thread \<noteq> 0" "entry \<noteq> 0" "stack_base \<noteq> 0"
    and fits: "unat stack_size \<ge> 4096" "unat stack_base + unat stack_size < 2 ^ 64"
  obtains w' where "mcsos_thread_prepare w thread nm entry arg stack_base stack_size tid = (MCSOS_SCHED_OK, w')"
    "unat stack_base + 120 < unat (rsp (th_context (tcb w' thread)))"
    "unat (rsp (th_context (tcb w' thread))) + 8 \<le> unat stack_base + unat stack_size"
    "unat (rsp (th_context (tcb w' thread))) mod 16 = 8" "stack_words w' (rsp (th_context (tcb w' thread))) = 0"
    "rip (th_context (tcb w' thread)) = entry" "th_state (tcb w' thread) = MCSOS_THREAD_NEW"
    "\<And>y. y \<noteq> thread \<Longrightarrow> tcb w' y = tcb w y" "cpu w' = cpu w"
    "unat stack_base + unat stack_size < unat (rsp (th_context (tcb w' thread))) + 24" "resume_label w' = resume_label w"
proof -
  let ?b = "unat stack_base" and ?z = "unat stack_size"
  let ?high = "stack_base + stack_size"
  let ?top = "align_down_uintptr ?high MCSOS_STACK_ALIGN"
  have high: "unat ?high = ?b + ?z" using fits by (simp add: unat_word_ariths)
  define t where "t = (?b + ?z) div 16"
  have t: "16 * t \<le> ?b + ?z" "?b + ?z < 16 * t + 16" unfolding t_def by simp_all
  have m: "MCSOS_STACK_ALIGN - 1 = mask 4" by (simp add: MCSOS_STACK_ALIGN_def mask_eq_exp_minus_1)
  have top: "unat ?top = 16 * t"
    unfolding align_down_uintptr_def m unat_and_not_mask high t_def by simp
  have low: "unat (stack_base + 128) = ?b + 128" using fits by (simp add: unat_word_ariths)
  have bd: "?b + 128 < 16 * t" using t fits by linarith
  have "8 \<le> ?top" using bd top by (simp add: word_le_nat_alt)
  then have sub: "unat (?top - 8) = 16 * (t - 1) + 8"
    using bd unfolding unat_sub[OF \<open>8 \<le> ?top\<close>] top by simp
  have ok: "\<not> ?high \<le> stack_base" "\<not> ?top \<le> stack_base + 128"
    unfolding word_le_nat_alt high low top using bd fits by simp_all
  have al: "?b + 120 < 16 * (t - 1) + 8" "16 * (t - 1) + 16 \<le> ?b + ?z" "(16 * (t - 1) + 8) mod 16 = 8"
      "?b + ?z < 16 * (t - 1) + 8 + 24"
    using bd t by (linarith, linarith, simp add: mod_add_eq, linarith)
  obtain w' where w: "mcsos_thread_prepare w thread nm entry arg stack_base stack_size tid = (MCSOS_SCHED_OK, w')"
    and c: "th_context (tcb w' thread) = zero_context\<lparr>rsp := ?top - 8, rip := entry\<rparr>"
    and st: "th_state (tcb w' thread) = MCSOS_THREAD_NEW" "stack_words w' (?top - 8) = 0"
      "\<And>y. y \<noteq> thread \<Longrightarrow> tcb w' y = tcb w y" "cpu w' = cpu w" "resume_label w' = resume_label w"
    using nn fits ok by (simp add: mcsos_thread_prepare_def Let_def upd_def MCSOS_MIN_KERNEL_STACK_def word_less_nat_alt)
  show ?thesis by (rule that[OF w]) (use al in \<open>simp_all add: c st sub\<close>)
qed

text \<open>
  C19. A kernel stack is accepted exactly when it has at least 4096 bytes and does not wrap around
  the address space. The initial stack pointer of a prepared thread then lies inside the stack, 8 bytes
  below a 16-byte boundary (the alignment a function is entered with), more than 120 bytes above its
  lower end, and the word it points to is the null return address.
\<close>

theorem thread_prepare_stack:
  assumes nn: "thread \<noteq> 0" "entry \<noteq> 0" "stack_base \<noteq> 0"
  shows "if unat stack_size < 4096 \<or> unat stack_base + unat stack_size \<ge> 2 ^ 64
         then mcsos_thread_prepare w thread nm entry arg stack_base stack_size tid = (MCSOS_SCHED_ESTACK, w)
         else \<exists>w'. mcsos_thread_prepare w thread nm entry arg stack_base stack_size tid = (MCSOS_SCHED_OK, w') \<and>
           (let sp = rsp (th_context (tcb w' thread))
            in unat stack_base + 120 < unat sp \<and> unat sp + 8 \<le> unat stack_base + unat stack_size \<and>
               unat sp mod 16 = 8 \<and> stack_words w' sp = 0 \<and>
               rip (th_context (tcb w' thread)) = entry \<and> th_state (tcb w' thread) = MCSOS_THREAD_NEW)"
proof -
  let ?b = "unat stack_base" and ?z = "unat stack_size"
  let ?high = "stack_base + stack_size"
  have small: "stack_size < MCSOS_MIN_KERNEL_STACK \<longleftrightarrow> ?z < 4096"
    by (simp add: MCSOS_MIN_KERNEL_STACK_def word_less_nat_alt)
  consider (short) "?z < 4096" | (wrap) "?z \<ge> 4096" "?b + ?z \<ge> 2 ^ 64" | (fits) "?z \<ge> 4096" "?b + ?z < 2 ^ 64"
    by linarith
  then show ?thesis
  proof cases
    case short
    then show ?thesis using nn small by (simp add: mcsos_thread_prepare_def)
  next
    case wrap
    have "unat ?high = (?b + ?z) mod 2 ^ 64" by (simp add: unat_word_ariths)
    also have "\<dots> = ?b + ?z - 2 ^ 64"
      using wrap unat_less_length[of stack_base] unat_less_length[of stack_size] by (simp add: mod_if)
    finally have "?high \<le> stack_base"
      using unat_less_length[of stack_size] by (simp add: word_le_nat_alt)
    then show ?thesis using nn small wrap by (simp add: mcsos_thread_prepare_def Let_def)
  next
    case fits
    from prepare_fits[OF nn fits, where w = w and nm = nm and arg = arg and tid = tid] obtain w' where
      "mcsos_thread_prepare w thread nm entry arg stack_base stack_size tid = (MCSOS_SCHED_OK, w')"
      "?b + 120 < unat (rsp (th_context (tcb w' thread)))" "unat (rsp (th_context (tcb w' thread))) + 8 \<le> ?b + ?z"
      "unat (rsp (th_context (tcb w' thread))) mod 16 = 8" "stack_words w' (rsp (th_context (tcb w' thread))) = 0"
      "rip (th_context (tcb w' thread)) = entry" "th_state (tcb w' thread) = MCSOS_THREAD_NEW" .
    then show ?thesis using fits by (simp add: Let_def)
  qed
qed

section \<open>A sample run\<close>

text \<open>The boot thread at 0x1000 and one more thread at 0x2000, whose stack is at 0x10000.\<close>

definition raw_thread :: mcsos_thread where
  "raw_thread = \<lparr>th_magic = 0, th_id = 0, th_name = 0, th_state = MCSOS_THREAD_NEW, th_context = zero_context,
     th_entry = 0, th_arg = 0, th_stack_base = 0, th_stack_size = 0, th_next = 0, th_switches = 0, th_ticks = 0,
     th_exit_code = 0\<rparr>"

definition raw_threads :: threads where
  "raw_threads = \<lparr>tcb = \<lambda>_. raw_thread, stack_words = \<lambda>_. 0, cpu = zero_context, resume_label = 0x500\<rparr>"

definition raw_sched :: mcsos_scheduler where
  "raw_sched = \<lparr>sc_initialized = False, current = 0, idle = 0, ready_head = 0, ready_tail = 0, runnable_count = 0,
     context_switches = 0, sc_ticks = 0, next_id = 0\<rparr>"

definition booted_threads :: threads where
  "booted_threads = fst (snd (mcsos_scheduler_init 0x900 raw_threads (Some raw_sched) 0x1000))"

definition booted_sched :: mcsos_scheduler where
  "booted_sched = the (snd (snd (mcsos_scheduler_init 0x900 raw_threads (Some raw_sched) 0x1000)))"

definition two_threads :: threads where
  "two_threads = fst (snd (mcsos_sched_enqueue
     (snd (mcsos_thread_prepare booted_threads 0x2000 0x910 0x400000 7 0x10000 0x1000 1)) (Some booted_sched) 0x2000))"

definition two_sched :: mcsos_scheduler where
  "two_sched = the (snd (snd (mcsos_sched_enqueue
     (snd (mcsos_thread_prepare booted_threads 0x2000 0x910 0x400000 7 0x10000 0x1000 1)) (Some booted_sched) 0x2000)))"

lemmas sample_run = raw_thread_def raw_threads_def raw_sched_def booted_threads_def booted_sched_def
  two_threads_def two_sched_def mcsos_scheduler_init_def mcsos_sched_enqueue_def mcsos_thread_prepare_def
  upd_def valid_thread_object_def MCSOS_THREAD_MAGIC_def MCSOS_MIN_KERNEL_STACK_def MCSOS_STACK_ALIGN_def
  align_down_uintptr_def zero_context_def

lemma sample_history: "sched_history two_threads two_sched {0x2000, 0x1000}"
proof (rule sched_history.spawn)
  show "sched_history booted_threads booted_sched {0x1000}"
    by (rule sched_history.boot[where nm = "0x900" and w = raw_threads and s = raw_sched]) (simp add: sample_run)
  show "mcsos_thread_prepare booted_threads 0x2000 0x910 0x400000 7 0x10000 0x1000 1 =
      (MCSOS_SCHED_OK, snd (mcsos_thread_prepare booted_threads 0x2000 0x910 0x400000 7 0x10000 0x1000 1))"
    by (simp add: sample_run)
  show "mcsos_sched_enqueue (snd (mcsos_thread_prepare booted_threads 0x2000 0x910 0x400000 7 0x10000 0x1000 1))
      (Some booted_sched) 0x2000 = (MCSOS_SCHED_OK, two_threads, Some two_sched)"
    by (simp add: sample_run Let_def)
qed simp

theorem sched_history_safe_witness: "mcsos_sched_validate two_threads (Some two_sched) = Some MCSOS_SCHED_OK"
  using sched_history_safe[OF sample_history] by blast

theorem sched_round_robin_witness:
  "\<exists>n w' s'. n \<le> unat (runnable_count two_sched) \<and> yields n two_threads two_sched = Some (w', s') \<and>
     current s' = 0x2000"
  by (rule sched_round_robin[OF sample_history]) (simp_all add: sample_run)

theorem sched_yield_switches_witness:
  "ready_head two_sched = 0x2000 \<and> current two_sched = 0x1000 \<and>
   (\<exists>w' s'. mcsos_sched_yield two_threads (Some two_sched) = (MCSOS_SCHED_OK, w', Some s') \<and> current s' = 0x2000 \<and>
       cpu w' = th_context (tcb two_threads 0x2000))"
proof -
  have h: "ready_head two_sched = 0x2000" "current two_sched = 0x1000" by (simp_all add: sample_run)
  then show ?thesis using sched_yield_switches[OF sample_history] by auto
qed

theorem thread_prepare_stack_witness:
  "\<exists>w'. mcsos_thread_prepare booted_threads 0x2000 0x910 0x400000 7 0x10000 0x1000 1 = (MCSOS_SCHED_OK, w') \<and>
     unat (rsp (th_context (tcb w' 0x2000))) mod 16 = 8"
  using thread_prepare_stack[where thread = "0x2000" and entry = "0x400000" and stack_base = "0x10000"
      and stack_size = "0x1000" and w = booted_threads and nm = "0x910" and arg = 7 and tid = 1]
  by (auto simp: Let_def)

text \<open>
  A ready thread may be given to \<^const>\<open>mcsos_sched_enqueue\<close> a second time: the call succeeds and links the
  thread to itself. Counting the ready threads then never returns, and validation reports the corruption.
\<close>

definition twice_threads :: threads where
  "twice_threads = fst (snd (mcsos_sched_enqueue two_threads (Some two_sched) 0x2000))"

definition twice_sched :: mcsos_scheduler where
  "twice_sched = the (snd (snd (mcsos_sched_enqueue two_threads (Some two_sched) 0x2000)))"

lemma double_enqueue_accepted:
  "mcsos_sched_enqueue two_threads (Some two_sched) 0x2000 = (MCSOS_SCHED_OK, twice_threads, Some twice_sched)"
  by (simp add: twice_threads_def twice_sched_def sample_run Let_def)

lemma count_from_self_loop:
  assumes loop: "th_next (tcb w p) = p" and p: "p \<noteq> 0"
  shows "count_from w p n = None"
proof -
  have "w' = w \<longrightarrow> p' \<noteq> p" if "count_from w' p' m = Some r" for w' p' m r
    using that
  proof (rule count_from.raw_induct[where P = "\<lambda>w' p' m r. w' = w \<longrightarrow> p' \<noteq> p", rotated])
    fix f w' p' m r
    assume IH: "\<And>w' p' m r. f w' p' m = Some r \<Longrightarrow> w' = w \<longrightarrow> p' \<noteq> p"
      and b: "(if p' = 0 then Some m else f w' (th_next (tcb w' p')) (m + 1)) = Some (r :: u64)"
    show "w' = w \<longrightarrow> p' \<noteq> p" using IH[of w' "th_next (tcb w' p')" "m + 1" r] b loop p by (auto split: if_splits)
  qed
  then show ?thesis by (cases "count_from w p n") auto
qed

lemma double_enqueue_hangs:
  "mcsos_sched_ready_count twice_threads (Some twice_sched) = None"
  "mcsos_sched_validate twice_threads (Some twice_sched) = Some MCSOS_SCHED_ECORRUPT"
proof -
  have f: "th_next (tcb twice_threads 0x2000) = 0x2000" "ready_head twice_sched = 0x2000" "sc_initialized twice_sched"
    by (simp_all add: twice_threads_def twice_sched_def sample_run Let_def)
  then show "mcsos_sched_ready_count twice_threads (Some twice_sched) = None"
    by (simp add: mcsos_sched_ready_count_def count_from_self_loop)
  have g: "valid_thread_object twice_threads 0x2000" "th_state (tcb twice_threads 0x2000) = MCSOS_THREAD_READY"
    "valid_thread_object twice_threads 0x1000" "current twice_sched = 0x1000" "runnable_count twice_sched = 2"
    by (simp_all add: twice_threads_def twice_sched_def sample_run Let_def)
  show "mcsos_sched_validate twice_threads (Some twice_sched) = Some MCSOS_SCHED_ECORRUPT"
    by (simp add: mcsos_sched_validate_def f g scan_from.simps[of twice_threads twice_sched "0x2000"])
qed

end
