(* ===== verification/Interrupts.thy ===== *)
theory Interrupts
  imports Console Syscall Sched
begin

text \<open>
  The interrupt layer: \<^verbatim>\<open>src/idt.c\<close> (descriptor table and trap dispatch), \<^verbatim>\<open>src/pic.c\<close>, \<^verbatim>\<open>src/pit.c\<close>,
  \<^verbatim>\<open>src/panic.c\<close>, and the system call callbacks of \<^verbatim>\<open>src/kernel.c\<close>.

  The rest of the machine, on which the system call layer is parametric, is here the ports, the tick
  counter, the descriptor table and the threads. A function that stops the processor for good gives
  \<open>Halted\<close> with the state it stops in. Printing waits for the serial transmitter, so a function that prints
  gives \<open>None\<close> when that never becomes ready. The code segment selector and the addresses of the entry stubs and
  of the table are parameters.

  Shown: a gate decodes to the handler it was given; an interrupt is acknowledged at the controllers it came
  through and only the timer counts; the timer divisor is the one the chip can hold; a system call changes
  only the result register of the trap frame.
\<close>

section \<open>Model: state\<close>

record idt_entry =
  offset_low :: u16
  selector :: u16
  ist :: u8
  type_attr :: u8
  offset_mid :: u16
  offset_high :: u32
  ie_zero :: u32

record idt_pointer =
  idt_limit :: u16
  idt_base :: u64

record trap_frame =
  tf_rax :: u64
  tf_rbx :: u64
  tf_rcx :: u64
  tf_rdx :: u64
  tf_rbp :: u64
  tf_rdi :: u64
  tf_rsi :: u64
  tf_r8 :: u64
  tf_r9 :: u64
  tf_r10 :: u64
  tf_r11 :: u64
  tf_r12 :: u64
  tf_r13 :: u64
  tf_r14 :: u64
  tf_r15 :: u64
  tf_vector :: u64
  tf_error_code :: u64
  tf_rip :: u64
  tf_cs :: u64
  tf_rflags :: u64

record mach =
  m_io :: io
  g_ticks :: u64
  g_idt :: "idt_entry list"
  idtr :: "idt_pointer option"
  m_threads :: threads
  g_sched :: mcsos_scheduler

datatype 'a outcome = Returned 'a | Halted 'a

definition with_io :: "(io \<Rightarrow> io option) \<Rightarrow> mach \<Rightarrow> mach option" where
  "with_io f m = map_option (\<lambda>x. m\<lparr>m_io := x\<rparr>) (f (m_io m))"

definition print_string :: "device \<Rightarrow> string \<Rightarrow> mach \<Rightarrow> mach option" where
  "print_string dev s = with_io (serial_write_string dev (bytes s))"

definition print_hex64 :: "device \<Rightarrow> u64 \<Rightarrow> mach \<Rightarrow> mach option" where
  "print_hex64 dev v = with_io (serial_write_hex64 dev v)"

definition print_dec64 :: "device \<Rightarrow> u64 \<Rightarrow> mach \<Rightarrow> mach option" where
  "print_dec64 dev v = with_io (serial_write_dec64 dev v)"

text \<open>A literal that ends in a line feed.\<close>

abbreviation nl :: "string \<Rightarrow> string" where
  "nl s \<equiv> s @ [CHR 0x0A]"

section \<open>Model: panic\<close>

definition kernel_panic :: "device \<Rightarrow> string \<Rightarrow> u64 \<Rightarrow> mach \<Rightarrow> mach option" where
  "kernel_panic dev reason code m =
     do {
       m \<leftarrow> print_string dev (CHR 0x0A # ''[MCSOS:PANIC] '') m;
       m \<leftarrow> print_string dev reason m;
       m \<leftarrow> print_string dev '' code='' m;
       m \<leftarrow> print_hex64 dev code m;
       print_string dev (nl '''') m
     }"

section \<open>Model: interrupt controllers\<close>

definition PIC1_COMMAND :: u16 where "PIC1_COMMAND = 0x20"
definition PIC1_DATA :: u16 where "PIC1_DATA = 0x21"
definition PIC2_COMMAND :: u16 where "PIC2_COMMAND = 0xA0"
definition PIC2_DATA :: u16 where "PIC2_DATA = 0xA1"
definition PIC_EOI :: u8 where "PIC_EOI = 0x20"
definition PIC_MASTER_OFFSET :: u8 where "PIC_MASTER_OFFSET = 0x20"
definition PIC_SLAVE_OFFSET :: u8 where "PIC_SLAVE_OFFSET = 0x28"

lemmas pic_ports = PIC1_COMMAND_def PIC1_DATA_def PIC2_COMMAND_def PIC2_DATA_def

definition pic_remap :: "device \<Rightarrow> u8 \<Rightarrow> u8 \<Rightarrow> io \<Rightarrow> io" where
  "pic_remap dev master_offset slave_offset m =
     (let (master_mask, m) = inb dev PIC1_DATA m;
          (slave_mask, m) = inb dev PIC2_DATA m;
          m = io_wait (outb PIC1_COMMAND 0x11 m);
          m = io_wait (outb PIC2_COMMAND 0x11 m);
          m = io_wait (outb PIC1_DATA master_offset m);
          m = io_wait (outb PIC2_DATA slave_offset m);
          m = io_wait (outb PIC1_DATA 0x04 m);
          m = io_wait (outb PIC2_DATA 0x02 m);
          m = io_wait (outb PIC1_DATA 0x01 m);
          m = io_wait (outb PIC2_DATA 0x01 m)
      in outb PIC2_DATA slave_mask (outb PIC1_DATA master_mask m))"

definition pic_mask_all :: "io \<Rightarrow> io" where
  "pic_mask_all m = outb PIC2_DATA 0xFF (outb PIC1_DATA 0xFF m)"

definition pic_unmask_irq :: "device \<Rightarrow> u8 \<Rightarrow> io \<Rightarrow> io" where
  "pic_unmask_irq dev irq m =
     (let (port, line) = (if irq < 8 then (PIC1_DATA, irq) else (PIC2_DATA, irq - 8));
          (mask, m) = inb dev port m;
          mask = mask AND ucast (NOT (push_bit (unat line) 1 :: u32))
      in outb port mask m)"

definition pic_send_eoi :: "u8 \<Rightarrow> io \<Rightarrow> io" where
  "pic_send_eoi irq m =
     (let m = (if irq \<ge> 8 then outb PIC2_COMMAND PIC_EOI m else m)
      in outb PIC1_COMMAND PIC_EOI m)"

definition pic_read_master_mask :: "device \<Rightarrow> io \<Rightarrow> u8 \<times> io" where
  "pic_read_master_mask dev m = inb dev PIC1_DATA m"

definition pic_read_slave_mask :: "device \<Rightarrow> io \<Rightarrow> u8 \<times> io" where
  "pic_read_slave_mask dev m = inb dev PIC2_DATA m"

section \<open>Model: timer\<close>

definition PIT_CHANNEL0 :: u16 where "PIT_CHANNEL0 = 0x40"
definition PIT_COMMAND :: u16 where "PIT_COMMAND = 0x43"
definition PIT_BASE_FREQUENCY_HZ :: u32 where "PIT_BASE_FREQUENCY_HZ = 1193182"

definition pit_divisor :: "u32 \<Rightarrow> u32" where
  "pit_divisor hz =
     (let hz = (if hz = 0 then 100 else hz);
          divisor = PIT_BASE_FREQUENCY_HZ div hz;
          divisor = (if divisor = 0 then 1 else divisor)
      in if divisor > 0xFFFF then 0xFFFF else divisor)"

definition pit_configure_hz :: "u32 \<Rightarrow> io \<Rightarrow> io" where
  "pit_configure_hz hz m =
     (let divisor = pit_divisor hz;
          m = outb PIT_COMMAND 0x36 m;
          m = outb PIT_CHANNEL0 (ucast (divisor AND 0xFF)) m
      in outb PIT_CHANNEL0 (ucast (drop_bit 8 divisor AND 0xFF)) m)"

definition timer_ticks :: "mach \<Rightarrow> u64" where
  "timer_ticks m = g_ticks m"

definition timer_on_irq0 :: "device \<Rightarrow> mach \<Rightarrow> mach option" where
  "timer_on_irq0 dev m =
     (let m = m\<lparr>g_ticks := g_ticks m + 1\<rparr>
      in if g_ticks m mod 100 = 0
         then do {
           m \<leftarrow> print_string dev ''[MCSOS:TIMER] ticks='' m;
           m \<leftarrow> print_dec64 dev (g_ticks m) m;
           print_string dev (nl '''') m
         }
         else Some m)"

section \<open>Model: descriptor table\<close>

definition idt_set_gate :: "u8 \<Rightarrow> u64 \<Rightarrow> u16 \<Rightarrow> u8 \<Rightarrow> idt_entry list \<Rightarrow> idt_entry list" where
  "idt_set_gate vector handler sel ty g =
     g[unat vector := \<lparr>offset_low = ucast (handler AND 0xFFFF), selector = sel, ist = 0, type_attr = ty,
        offset_mid = ucast (drop_bit 16 handler AND 0xFFFF), offset_high = ucast (drop_bit 32 handler AND 0xFFFFFFFF),
        ie_zero = 0\<rparr>]"

definition idt_install_gate :: "u16 \<Rightarrow> u8 \<Rightarrow> u64 \<Rightarrow> u8 \<Rightarrow> mach \<Rightarrow> mach" where
  "idt_install_gate cs vector handler ty m = m\<lparr>g_idt := idt_set_gate vector handler cs ty (g_idt m)\<rparr>"

definition idt_init :: "u16 \<Rightarrow> u64 list \<Rightarrow> u64 \<Rightarrow> mach \<Rightarrow> mach" where
  "idt_init cs isr_stub_table base m =
     m\<lparr>g_idt := fold (\<lambda>i. idt_set_gate (of_nat i) (isr_stub_table ! i) cs 0x8E) [0..<48] (g_idt m),
       idtr := Some \<lparr>idt_limit = 16 * 256 - 1, idt_base = base\<rparr>\<rparr>"

section \<open>Model: trap dispatch\<close>

definition on_machine :: "(mach \<Rightarrow> mach option) \<Rightarrow> mach sys \<Rightarrow> mach sys option" where
  "on_machine f s = map_option (\<lambda>m. s\<lparr>machine := m\<rparr>) (f (machine s))"

definition handle_irq :: "device \<Rightarrow> u8 \<Rightarrow> mach \<Rightarrow> mach option" where
  "handle_irq dev irq m =
     do {
       m \<leftarrow> (if irq = 0 then timer_on_irq0 dev m
             else do {
               m \<leftarrow> print_string dev ''[MCSOS:IRQ] unexpected irq='' m;
               m \<leftarrow> print_dec64 dev (ucast irq) m;
               print_string dev (nl '''') m
             });
       Some (m\<lparr>m_io := pic_send_eoi irq (m_io m)\<rparr>)
     }"

definition syscall_trap :: "trap_frame \<Rightarrow> mach sys \<Rightarrow> (trap_frame \<times> mach sys) option" where
  "syscall_trap f s =
     (case mcsos_syscall_dispatch_frame s (Some \<lparr>fr_nr = tf_rax f, fr_arg0 = tf_rdi f, fr_arg1 = tf_rsi f, fr_arg2 = tf_rdx f,
             fr_arg3 = tf_r10 f, fr_arg4 = tf_r8 f, fr_arg5 = tf_r9 f, fr_ret = 0\<rparr>) of
        None \<Rightarrow> None
      | Some (f80, s) \<Rightarrow> Some (f\<lparr>tf_rax := word_of_int (fr_ret (the f80))\<rparr>, s))"

definition unhandled_exception :: "device \<Rightarrow> trap_frame \<Rightarrow> mach \<Rightarrow> mach option" where
  "unhandled_exception dev f m =
     do {
       m \<leftarrow> print_string dev ''[MCSOS:EXCEPTION] vector='' m;
       m \<leftarrow> print_dec64 dev (tf_vector f) m;
       m \<leftarrow> print_string dev '' error='' m;
       m \<leftarrow> print_hex64 dev (tf_error_code f) m;
       m \<leftarrow> print_string dev '' rip='' m;
       m \<leftarrow> print_hex64 dev (tf_rip f) m;
       m \<leftarrow> print_string dev (nl '''') m;
       kernel_panic dev ''unhandled CPU exception'' (tf_vector f) m
     }"

definition x86_64_trap_dispatch :: "device \<Rightarrow> trap_frame option \<Rightarrow> mach sys \<Rightarrow> (trap_frame option \<times> mach sys) outcome option" where
  "x86_64_trap_dispatch dev frame s =
     (case frame of
        None \<Rightarrow> map_option (\<lambda>s. Halted (None, s)) (on_machine (kernel_panic dev ''null trap frame'' 0) s)
      | Some f \<Rightarrow>
          if ucast PIC_MASTER_OFFSET \<le> tf_vector f \<and> tf_vector f < ucast PIC_SLAVE_OFFSET + 8 then
            map_option (\<lambda>s. Returned (Some f, s))
              (on_machine (handle_irq dev (ucast (tf_vector f - ucast PIC_MASTER_OFFSET))) s)
          else if tf_vector f = 0x80 then
            map_option (\<lambda>(f, s). Returned (Some f, s)) (syscall_trap f s)
          else if tf_vector f = 3 then
            map_option (\<lambda>s. Returned (Some f, s))
              (on_machine (\<lambda>m. do {
                 m \<leftarrow> print_string dev ''[MCSOS:TRAP] breakpoint rip='' m;
                 m \<leftarrow> print_hex64 dev (tf_rip f) m;
                 print_string dev (nl '''') m
               }) s)
          else map_option (\<lambda>s. Halted (Some f, s)) (on_machine (unhandled_exception dev f) s))"

section \<open>Model: system call callbacks\<close>

definition k_get_ticks :: "mach \<Rightarrow> u64 \<times> mach" where
  "k_get_ticks m = (timer_ticks m, m)"

definition k_yield_current :: "mach \<Rightarrow> mach" where
  "k_yield_current m =
     (case mcsos_sched_yield (m_threads m) (Some (g_sched m)) of (_, w, sc) \<Rightarrow> m\<lparr>m_threads := w, g_sched := the sc\<rparr>)"

definition k_exit_output :: "device \<Rightarrow> int \<Rightarrow> mach \<Rightarrow> mach option" where
  "k_exit_output dev code m =
     do {
       m \<leftarrow> print_string dev ''[M10] exit_thread code='' m;
       m \<leftarrow> print_hex64 dev (ucast (word_of_int code :: u32)) m;
       print_string dev (nl '''') m
     }"

text \<open>After its output the callback stops the processor: it does not return.\<close>

definition k_exit_current :: "device \<Rightarrow> int \<Rightarrow> mach \<Rightarrow> mach option" where
  "k_exit_current dev code m = Option.bind (k_exit_output dev code m) (\<lambda>_. None)"

text \<open>Each byte is printed as a string of its own, which is empty for a zero byte.\<close>

definition k_write_serial :: "device \<Rightarrow> byte_memory \<Rightarrow> u64 \<Rightarrow> u64 \<Rightarrow> mach \<Rightarrow> (int \<times> mach) option" where
  "k_write_serial dev mem buf len m =
     map_option (\<lambda>m. (sint len, m))
       (with_io (each (\<lambda>i. serial_write_string dev (if mem (buf + of_nat i) = 0 then [] else [mem (buf + of_nat i)]))
          [0..<unat len]) m)"

definition kernel_syscall_ops :: "device \<Rightarrow> mach mcsos_syscall_ops" where
  "kernel_syscall_ops dev = \<lparr>get_ticks = Some k_get_ticks, yield_current = Some k_yield_current,
     exit_current = Some (k_exit_current dev), write_serial = Some (k_write_serial dev)\<rparr>"

definition m10_syscall_smoke :: "device \<Rightarrow> mach sys \<Rightarrow> mach sys outcome option" where
  "m10_syscall_smoke dev s =
     do {
       (r, s) \<leftarrow> mcsos_syscall_dispatch s MCSOS_SYS_PING 0 0 0 0 0 0;
       if r \<noteq> 0x2605020A then map_option Halted (on_machine (kernel_panic dev ''M10 ping failed'' (word_of_int r)) s)
       else do {
         s \<leftarrow> on_machine (print_string dev (nl ''[M10] syscall ping ok'')) s;
         (r, s) \<leftarrow> mcsos_syscall_dispatch s MCSOS_SYS_GET_TICKS 0 0 0 0 0 0;
         s \<leftarrow> on_machine (\<lambda>m. do {
           m \<leftarrow> print_string dev ''[M10] syscall get_ticks='' m;
           m \<leftarrow> print_hex64 dev (word_of_int r) m;
           m \<leftarrow> print_string dev (nl '''') m;
           print_string dev (nl ''[M10] syscall smoke done'') m
         }) s;
         Some (Returned s)
       }
     }"

section \<open>Gates\<close>

definition gate_target :: "idt_entry \<Rightarrow> u64" where
  "gate_target e = ucast (offset_low e) OR push_bit 16 (ucast (offset_mid e)) OR push_bit 32 (ucast (offset_high e))"

lemma split_address:
  "ucast (ucast (h AND 0xFFFF) :: u16) OR push_bit 16 (ucast (ucast (drop_bit 16 h AND 0xFFFF) :: u16)) OR
     push_bit 32 (ucast (ucast (drop_bit 32 h AND 0xFFFFFFFF) :: u32)) = h" for h :: u64
proof -
  have m: "(0xFFFF :: u64) = mask 16" "(0xFFFFFFFF :: u64) = mask 32" by (simp_all add: mask_numeral)
  show ?thesis unfolding m
  proof (rule bit_word_eqI)
    fix n
    assume "n < LENGTH(64)"
    then show "bit ((ucast (ucast (h AND mask 16) :: u16) :: u64) OR push_bit 16 (ucast (ucast (drop_bit 16 h AND mask 16) :: u16)) OR
        push_bit 32 (ucast (ucast (drop_bit 32 h AND mask 32) :: u32))) n = bit h n"
      by (cases "n < 16"; cases "n < 32") (auto simp: bit_simps)
  qed
qed

lemma set_gate_decode:
  assumes "unat v < length g"
  shows "gate_target (idt_set_gate v h sel ty g ! unat v) = h" "type_attr (idt_set_gate v h sel ty g ! unat v) = ty"
    "selector (idt_set_gate v h sel ty g ! unat v) = sel" "j \<noteq> unat v \<Longrightarrow> idt_set_gate v h sel ty g ! j = g ! j"
    "length (idt_set_gate v h sel ty g) = length g"
  using assms split_address[of h] by (simp_all add: idt_set_gate_def gate_target_def)

text \<open>After start-up the first 48 gates lead to their stubs as present interrupt gates; the others are as before.\<close>

lemma idt_init_gates:
  assumes "length (g_idt m) = 256"
  shows "i < 48 \<Longrightarrow> gate_target (g_idt (idt_init cs stubs base m) ! i) = stubs ! i \<and>
      type_attr (g_idt (idt_init cs stubs base m) ! i) = 0x8E \<and> selector (g_idt (idt_init cs stubs base m) ! i) = cs"
    "48 \<le> i \<Longrightarrow> g_idt (idt_init cs stubs base m) ! i = g_idt m ! i" "length (g_idt (idt_init cs stubs base m)) = 256"
proof -
  define g where "g n = fold (\<lambda>i. idt_set_gate (of_nat i) (stubs ! i) cs 0x8E) [0..<n] (g_idt m)" for n
  have g: "length (g n) = 256 \<and> (\<forall>i < n. gate_target (g n ! i) = stubs ! i \<and> type_attr (g n ! i) = 0x8E \<and> selector (g n ! i) = cs) \<and>
      (\<forall>i \<ge> n. g n ! i = g_idt m ! i)" if "n \<le> 48" for n
    using that
  proof (induction n)
    case 0
    then show ?case using assms by (simp add: g_def)
  next
    case (Suc n)
    have u: "unat (of_nat n :: u8) = n" by (rule unat_of_nat_small) (use Suc.prems in simp)
    have s: "g (Suc n) = idt_set_gate (of_nat n) (stubs ! n) cs 0x8E (g n)" by (simp add: g_def)
    have "unat (of_nat n :: u8) < length (g n)" using Suc u by simp
    note d = set_gate_decode[OF this, where h = "stubs ! n" and sel = cs and ty = "0x8E", folded s, unfolded u]
    show ?case using Suc d by (auto simp: less_Suc_eq)
  qed
  have "g_idt (idt_init cs stubs base m) = g 48" by (simp add: idt_init_def g_def)
  then show "i < 48 \<Longrightarrow> gate_target (g_idt (idt_init cs stubs base m) ! i) = stubs ! i \<and>
      type_attr (g_idt (idt_init cs stubs base m) ! i) = 0x8E \<and> selector (g_idt (idt_init cs stubs base m) ! i) = cs"
    "48 \<le> i \<Longrightarrow> g_idt (idt_init cs stubs base m) ! i = g_idt m ! i" "length (g_idt (idt_init cs stubs base m)) = 256"
    using g[of 48] by auto
qed

section \<open>Timer and controllers\<close>

lemma pit_divisor_range: "1 \<le> unat (pit_divisor hz) \<and> unat (pit_divisor hz) \<le> 0xFFFF"
  by (auto simp: pit_divisor_def Let_def word_less_nat_alt unat_eq_zero Suc_le_eq unat_gt_0)

lemma pit_divisor_exact: "19 \<le> unat hz \<Longrightarrow> unat hz \<le> 1193182 \<Longrightarrow> unat (pit_divisor hz) = 1193182 div unat hz"
proof -
  assume h: "19 \<le> unat hz" "unat hz \<le> 1193182"
  have d: "unat (PIT_BASE_FREQUENCY_HZ div hz) = 1193182 div unat hz" by (simp add: PIT_BASE_FREQUENCY_HZ_def unat_div_distrib)
  have "1193182 div unat hz \<le> 1193182 div 19" using h by (intro div_le_mono2) auto
  moreover have "0 < 1193182 div unat hz" using h by (simp add: div_greater_zero_iff)
  moreover have "hz \<noteq> 0" using h by auto
  ultimately show ?thesis using d
    by (auto simp: pit_divisor_def Let_def word_less_nat_alt word_unat_eq_iff)
qed

text \<open>The chip receives the divisor, low byte first, after the mode command.\<close>

lemma pit_configure_spec:
  "\<exists>lo hi. outs (pit_configure_hz hz m) = outs m @ [(PIT_COMMAND, 0x36), (PIT_CHANNEL0, lo), (PIT_CHANNEL0, hi)] \<and>
     unat lo + 256 * unat hi = unat (pit_divisor hz)"
proof -
  let ?d = "pit_divisor hz"
  have m: "(0xFF :: u32) = mask 8" by (simp add: mask_numeral)
  have lo: "unat (ucast (?d AND 0xFF) :: u8) = unat ?d mod 256"
    using unat_and_mask[of ?d 8] by (simp add: m unsigned_ucast_eq take_bit_eq_mod)
  have "unat (drop_bit 8 ?d) = unat ?d div 256" by (simp only: unat_drop_bit_eq) (simp add: drop_bit_eq_div)
  moreover have lt: "unat ?d div 256 < 256" using pit_divisor_range[of hz] by auto
  ultimately have hi: "unat (ucast (drop_bit 8 ?d AND 0xFF) :: u8) = unat ?d div 256"
    using unat_and_mask[of "drop_bit 8 ?d" 8] lt by (simp add: m unsigned_ucast_eq take_bit_eq_mod)
  show ?thesis
    by (intro exI[of _ "ucast (?d AND 0xFF)"] exI[of _ "ucast (drop_bit 8 ?d AND 0xFF)"])
      (simp add: pit_configure_hz_def Let_def outb_def lo hi)
qed

section \<open>The controllers\<close>

text \<open>
  The mask register of an 8259A interrupt controller as its data sheet describes it, with the number of initialisation words it still
  waits for. A byte with bit 4 sent to the command port is ICW1: it clears the mask and starts the initialisation. The next
  bytes sent to the data port are ICW2, ICW3 unless bit 1 of ICW1 is set, and ICW4 when bit 0 is set; they do not touch
  the mask. Any other byte sent to the data port is the new mask.
\<close>

fun chip_step :: "u16 \<Rightarrow> u16 \<Rightarrow> u16 \<times> u8 \<Rightarrow> u8 \<times> nat \<Rightarrow> u8 \<times> nat" where
  "chip_step cmd dat (p, v) (imr, icws) =
     (if p = cmd \<and> v AND 0x10 \<noteq> 0
      then (0, 1 + (if v AND 2 = 0 then 1 else 0) + (if v AND 1 \<noteq> 0 then 1 else 0))
      else if p = dat then (if icws > 0 then (imr, icws - 1) else (v, 0))
      else (imr, icws))"

definition chip :: "u16 \<Rightarrow> u16 \<Rightarrow> (u16 \<times> u8) list \<Rightarrow> u8 \<times> nat \<Rightarrow> u8 \<times> nat" where
  "chip cmd dat os st = fold (chip_step cmd dat) os st"

text \<open>No OCW3, which can make the next read a poll, was sent to a command port.\<close>

definition unpolled :: "(u16 \<times> u8) list \<Rightarrow> bool" where
  "unpolled os \<longleftrightarrow> (\<forall>(p, v) \<in> set os. p \<in> {PIC1_COMMAND, PIC2_COMMAND} \<longrightarrow> v AND 0x18 \<noteq> 0x08)"

text \<open>
  The device has two such controllers: outside an initialisation the data port reads as the mask. The state
  they are found in is arbitrary.
\<close>

definition pic_8259 :: "device \<Rightarrow> bool" where
  "pic_8259 dev \<longleftrightarrow> (\<forall>(cmd, dat) \<in> {(PIC1_COMMAND, PIC1_DATA), (PIC2_COMMAND, PIC2_DATA)}.
     \<exists>st. \<forall>n os. unpolled os \<longrightarrow> snd (chip cmd dat os st) = 0 \<longrightarrow> dev dat n os = fst (chip cmd dat os st))"

text \<open>After these bytes only the timer line is open, whatever the state the controllers were found in.\<close>

definition timer_open :: "(u16 \<times> u8) list \<Rightarrow> bool" where
  "timer_open os \<longleftrightarrow> unpolled os \<and>
     (\<forall>st. chip PIC1_COMMAND PIC1_DATA os st = (0xFE, 0) \<and> chip PIC2_COMMAND PIC2_DATA os st = (0xFF, 0))"

lemma unpolled_append [simp]: "unpolled (xs @ ys) \<longleftrightarrow> unpolled xs \<and> unpolled ys"
  by (auto simp: unpolled_def)

lemma chip_append [simp]: "chip cmd dat (xs @ ys) st = chip cmd dat ys (chip cmd dat xs st)"
  by (simp add: chip_def)

lemma chip_other: "\<forall>x \<in> set os. fst x \<noteq> cmd \<and> fst x \<noteq> dat \<Longrightarrow> chip cmd dat os st = st"
proof (induction os arbitrary: st)
  case (Cons x os)
  obtain p v where x: "x = (p, v)" by (cases x)
  obtain imr icws where st: "st = (imr, icws)" by (cases st)
  have "chip_step cmd dat x st = st" using Cons.prems by (simp add: x st)
  then show ?case using Cons by (simp add: chip_def)
qed (simp add: chip_def)

lemma timer_open_append:
  assumes "timer_open os" "\<forall>x \<in> set xs. fst x \<notin> {PIC1_COMMAND, PIC1_DATA, PIC2_COMMAND, PIC2_DATA}"
  shows "timer_open (os @ xs)"
proof -
  have "unpolled xs" using assms(2) by (force simp: unpolled_def)
  then show ?thesis using assms by (simp add: timer_open_def chip_other)
qed

lemma timer_open_masks:
  assumes dev: "pic_8259 dev" and os: "timer_open (outs m)"
  shows "fst (pic_read_master_mask dev m) = 0xFE" "fst (pic_read_slave_mask dev m) = 0xFF"
  using assms by (auto simp: pic_8259_def timer_open_def pic_read_master_mask_def pic_read_slave_mask_def inb_def)

text \<open>The sequence of \<^verbatim>\<open>kmain\<close> opens the timer line and no other.\<close>

lemma pic_remap_outs:
  "\<exists>v1 v2. outs (pic_remap dev a b m) = outs m @
     [(PIC1_COMMAND, 0x11), (0x80, 0), (PIC2_COMMAND, 0x11), (0x80, 0), (PIC1_DATA, a), (0x80, 0), (PIC2_DATA, b), (0x80, 0),
      (PIC1_DATA, 4), (0x80, 0), (PIC2_DATA, 2), (0x80, 0), (PIC1_DATA, 1), (0x80, 0), (PIC2_DATA, 1), (0x80, 0),
      (PIC1_DATA, v1), (PIC2_DATA, v2)]"
  by (simp add: pic_remap_def Let_def inb_def outb_def io_wait_def)

lemma remap_masked:
  assumes "unpolled (outs m)"
  shows "unpolled (outs (pic_mask_all (pic_remap dev a b m)))"
    "chip PIC1_COMMAND PIC1_DATA (outs (pic_mask_all (pic_remap dev a b m))) st = (0xFF, 0)"
    "chip PIC2_COMMAND PIC2_DATA (outs (pic_mask_all (pic_remap dev a b m))) st = (0xFF, 0)"
proof -
  obtain v1 v2 where o: "outs (pic_remap dev a b m) = outs m @
     [(PIC1_COMMAND, 0x11), (0x80, 0), (PIC2_COMMAND, 0x11), (0x80, 0), (PIC1_DATA, a), (0x80, 0), (PIC2_DATA, b), (0x80, 0),
      (PIC1_DATA, 4), (0x80, 0), (PIC2_DATA, 2), (0x80, 0), (PIC1_DATA, 1), (0x80, 0), (PIC2_DATA, 1), (0x80, 0),
      (PIC1_DATA, v1), (PIC2_DATA, v2)]" using pic_remap_outs by blast
  have m: "outs (pic_mask_all x) = outs x @ [(PIC1_DATA, 0xFF), (PIC2_DATA, 0xFF)]" for x by (simp add: pic_mask_all_def outb_def)
  show "unpolled (outs (pic_mask_all (pic_remap dev a b m)))"
    unfolding m o using assms by (simp add: unpolled_def pic_ports)
  obtain i1 k1 where c1: "chip PIC1_COMMAND PIC1_DATA (outs m) st = (i1, k1)" by fastforce
  obtain i2 k2 where c2: "chip PIC2_COMMAND PIC2_DATA (outs m) st = (i2, k2)" by fastforce
  show "chip PIC1_COMMAND PIC1_DATA (outs (pic_mask_all (pic_remap dev a b m))) st = (0xFF, 0)"
    unfolding m o chip_append c1 by (simp add: chip_def pic_ports)
  show "chip PIC2_COMMAND PIC2_DATA (outs (pic_mask_all (pic_remap dev a b m))) st = (0xFF, 0)"
    unfolding m o chip_append c2 by (simp add: chip_def pic_ports)
qed

lemma boot_masks:
  assumes dev: "pic_8259 dev" and os: "unpolled (outs m)"
  shows "timer_open (outs (pic_unmask_irq dev 0 (pic_mask_all (pic_remap dev a b m))))"
proof -
  let ?m = "pic_mask_all (pic_remap dev a b m)"
  note c = remap_masked[OF os, of dev a b]
  have "dev PIC1_DATA n (outs ?m) = 0xFF" for n using dev c by (auto simp: pic_8259_def)
  then have "outs (pic_unmask_irq dev 0 ?m) = outs ?m @ [(PIC1_DATA, 0xFE)]"
    by (simp add: pic_unmask_irq_def Let_def inb_def outb_def)
  moreover have "timer_open (outs ?m @ [(PIC1_DATA, 0xFE)])"
    unfolding timer_open_def chip_append c(2,3) using c(1) by (simp add: chip_def unpolled_def pic_ports)
  ultimately show ?thesis by simp
qed

section \<open>Dispatch\<close>

text \<open>Only the ports changed, by bytes sent to the serial line.\<close>

definition printed :: "mach \<Rightarrow> mach \<Rightarrow> bool" where
  "printed m m' \<longleftrightarrow> (\<exists>n cs. m' = m\<lparr>m_io := \<lparr>reads = n, outs = outs (m_io m) @ map (Pair COM1) cs\<rparr>\<rparr>)"

lemma printedE:
  assumes "printed m m'"
  obtains n cs where "m' = m\<lparr>m_io := \<lparr>reads = n, outs = outs (m_io m) @ map (Pair COM1) cs\<rparr>\<rparr>"
  using assms by (auto simp: printed_def)

lemma printed_refl: "printed m m"
  unfolding printed_def by (intro exI[of _ "reads (m_io m)"] exI[of _ "[]"]) simp

lemma printed_trans: "printed m m1 \<Longrightarrow> printed m1 m2 \<Longrightarrow> printed m m2"
  by (fastforce simp: printed_def simp flip: map_append)

lemma with_io_printed:
  assumes "\<exists>x. f (m_io m) = Some x \<and> (\<exists>cs. outs x = outs (m_io m) @ map (Pair COM1) cs)"
  shows "\<exists>m'. with_io f m = Some m' \<and> printed m m'"
proof -
  obtain x cs where x: "f (m_io m) = Some x" "outs x = outs (m_io m) @ map (Pair COM1) cs" using assms by blast
  have "x = \<lparr>reads = reads x, outs = outs (m_io m) @ map (Pair COM1) cs\<rparr>" using x(2) by (cases x) simp
  then have "printed m (m\<lparr>m_io := x\<rparr>)" unfolding printed_def by metis
  then show ?thesis using x(1) by (simp add: with_io_def)
qed

lemma print_printed:
  assumes "drains dev"
  shows "\<exists>m'. print_string dev str m = Some m' \<and> printed m m'" "\<exists>m'. print_hex64 dev v m = Some m' \<and> printed m m'"
    "\<exists>m'. print_dec64 dev v m = Some m' \<and> printed m m'"
  unfolding print_string_def print_hex64_def print_dec64_def
  using write_string_drains[OF assms] write_hex64_drains[OF assms] write_dec64_drains[OF assms]
  by (intro with_io_printed; metis)+

text \<open>Printing steps in sequence.\<close>

lemma printed_bind:
  assumes "\<exists>m'. f m = Some m' \<and> printed m m'" "\<And>m. \<exists>m'. g m = Some m' \<and> printed m m'"
  shows "\<exists>m'. Option.bind (f m) g = Some m' \<and> printed m m'"
  using assms printed_trans by fastforce

lemma panic_printed:
  assumes "drains dev"
  shows "\<exists>m'. kernel_panic dev reason code m = Some m' \<and> printed m m'"
  unfolding kernel_panic_def by (intro printed_bind print_printed[OF assms])

lemma unhandled_printed:
  assumes "drains dev"
  shows "\<exists>m'. unhandled_exception dev f m = Some m' \<and> printed m m'"
  unfolding unhandled_exception_def by (intro printed_bind print_printed[OF assms] panic_printed[OF assms])

lemma irq_spec:
  assumes r: "drains dev"
  shows "\<exists>m' n cs. handle_irq dev irq m = Some m' \<and>
    m' = m\<lparr>g_ticks := g_ticks m + (if irq = 0 then 1 else 0),
      m_io := \<lparr>reads = n, outs = outs (m_io m) @ map (Pair COM1) cs @
        (if 8 \<le> irq then [(PIC2_COMMAND, PIC_EOI)] else []) @ [(PIC1_COMMAND, PIC_EOI)]\<rparr>\<rparr>"
proof -
  let ?body = "if irq = 0 then timer_on_irq0 dev m
    else do { m \<leftarrow> print_string dev ''[MCSOS:IRQ] unexpected irq='' m; m \<leftarrow> print_dec64 dev (ucast irq) m; print_string dev (nl '''') m }"
  let ?m = "m\<lparr>g_ticks := g_ticks m + (if irq = 0 then 1 else 0)\<rparr>"
  have "\<exists>m'. ?body = Some m' \<and> printed ?m m'"
  proof (cases "irq = 0")
    case True
    have "\<exists>m'. timer_on_irq0 dev m = Some m' \<and> printed (m\<lparr>g_ticks := g_ticks m + 1\<rparr>) m'"
    proof (cases "g_ticks (m\<lparr>g_ticks := g_ticks m + 1\<rparr>) mod 100 = 0")
      case True
      show ?thesis unfolding timer_on_irq0_def Let_def if_P[OF True] by (intro printed_bind print_printed[OF r])
    next
      case False
      show ?thesis unfolding timer_on_irq0_def Let_def if_not_P[OF False] using printed_refl by blast
    qed
    then show ?thesis using True by simp
  next
    case False
    have "\<exists>m'. ?body = Some m' \<and> printed m m'"
      unfolding if_not_P[OF False] by (intro printed_bind print_printed[OF r])
    then show ?thesis using False by simp
  qed
  then obtain m1 where m1: "?body = Some m1" "printed ?m m1" by blast
  obtain n cs where "m1 = ?m\<lparr>m_io := \<lparr>reads = n, outs = outs (m_io ?m) @ map (Pair COM1) cs\<rparr>\<rparr>" by (rule printedE[OF m1(2)])
  then show ?thesis unfolding handle_irq_def m1(1)
    by (intro exI[of _ "m1\<lparr>m_io := pic_send_eoi irq (m_io m1)\<rparr>"] exI[of _ n] exI[of _ cs]) (simp add: pic_send_eoi_def outb_def Let_def)
qed

lemma vector_offsets: "ucast PIC_MASTER_OFFSET = (0x20 :: u64)" "ucast PIC_SLAVE_OFFSET + 8 = (0x30 :: u64)"
  by (simp_all add: PIC_MASTER_OFFSET_def PIC_SLAVE_OFFSET_def)

lemma irq_line:
  fixes v :: u64
  assumes "0x20 \<le> v" "v < 0x30"
  shows "(ucast (v - 0x20) :: u8) = 0 \<longleftrightarrow> v = 0x20" "8 \<le> (ucast (v - 0x20) :: u8) \<longleftrightarrow> 0x28 \<le> v"
proof -
  have "unat (v - 0x20) = unat v - 0x20" using assms(1) by (subst unat_sub) simp_all
  moreover have n: "0x20 \<le> unat v" "unat v < 0x30" using assms by (simp_all add: word_le_nat_alt word_less_nat_alt)
  ultimately have "unat (ucast (v - 0x20) :: u8) = unat v - 0x20" by (simp add: unsigned_ucast_eq take_bit_eq_mod)
  then show "(ucast (v - 0x20) :: u8) = 0 \<longleftrightarrow> v = 0x20" "8 \<le> (ucast (v - 0x20) :: u8) \<longleftrightarrow> 0x28 \<le> v"
    using n by (auto simp: word_unat_eq_iff word_le_nat_alt)
qed

lemma trap_irq:
  assumes r: "drains dev" and v: "0x20 \<le> tf_vector f" "tf_vector f < 0x30"
  shows "\<exists>m' n cs. x86_64_trap_dispatch dev (Some f) s = Some (Returned (Some f, s\<lparr>machine := m'\<rparr>)) \<and>
        m' = (machine s)\<lparr>g_ticks := g_ticks (machine s) + (if tf_vector f = 0x20 then 1 else 0),
          m_io := \<lparr>reads = n, outs = outs (m_io (machine s)) @ map (Pair COM1) cs @
            (if 0x28 \<le> tf_vector f then [(PIC2_COMMAND, PIC_EOI)] else []) @ [(PIC1_COMMAND, PIC_EOI)]\<rparr>\<rparr>"
proof -
  obtain m' n cs where h: "handle_irq dev (ucast (tf_vector f - 0x20)) (machine s) = Some m'"
    "m' = (machine s)\<lparr>g_ticks := g_ticks (machine s) + (if tf_vector f = 0x20 then 1 else 0),
          m_io := \<lparr>reads = n, outs = outs (m_io (machine s)) @ map (Pair COM1) cs @
            (if 0x28 \<le> tf_vector f then [(PIC2_COMMAND, PIC_EOI)] else []) @ [(PIC1_COMMAND, PIC_EOI)]\<rparr>\<rparr>"
    using irq_spec[OF r, of "ucast (tf_vector f - 0x20)" "machine s"] unfolding irq_line[OF v] by blast
  have "x86_64_trap_dispatch dev (Some f) s = Some (Returned (Some f, s\<lparr>machine := m'\<rparr>))"
    unfolding x86_64_trap_dispatch_def vector_offsets using v by (simp add: on_machine_def h(1))
  then show ?thesis using h(2) by blast
qed

lemma trap_syscall:
  assumes "tf_vector f = 0x80"
  shows "x86_64_trap_dispatch dev (Some f) s =
      map_option (\<lambda>(ret, s'). Returned (Some (f\<lparr>tf_rax := word_of_int ret\<rparr>), s'))
        (mcsos_syscall_dispatch s (tf_rax f) (tf_rdi f) (tf_rsi f) (tf_rdx f) (tf_r10 f) (tf_r8 f) (tf_r9 f))"
  using assms unfolding x86_64_trap_dispatch_def vector_offsets syscall_trap_def mcsos_syscall_dispatch_frame_def
  by (cases "mcsos_syscall_dispatch s (tf_rax f) (tf_rdi f) (tf_rsi f) (tf_rdx f) (tf_r10 f) (tf_r8 f) (tf_r9 f)") auto

lemma trap_breakpoint:
  assumes r: "drains dev" and v: "tf_vector f = 3"
  shows "\<exists>m'. x86_64_trap_dispatch dev (Some f) s = Some (Returned (Some f, s\<lparr>machine := m'\<rparr>)) \<and> printed (machine s) m'"
proof -
  have "\<exists>m'. (do { m \<leftarrow> print_string dev ''[MCSOS:TRAP] breakpoint rip='' m; m \<leftarrow> print_hex64 dev (tf_rip f) m;
      print_string dev (nl '''') m }) = Some m' \<and> printed m m'" for m
    by (intro printed_bind print_printed[OF r])
  from this[of "machine s"] show ?thesis
    unfolding x86_64_trap_dispatch_def vector_offsets on_machine_def using v by auto
qed

lemma trap_unhandled:
  assumes r: "drains dev"
    and v: "tf_vector f \<noteq> 3" "tf_vector f \<noteq> 0x80" "\<not> (0x20 \<le> tf_vector f \<and> tf_vector f < 0x30)"
  shows "\<exists>m'. x86_64_trap_dispatch dev (Some f) s = Some (Halted (Some f, s\<lparr>machine := m'\<rparr>)) \<and> printed (machine s) m'"
  using unhandled_printed[OF r, of f "machine s"]
  unfolding x86_64_trap_dispatch_def vector_offsets on_machine_def option.case if_not_P[OF v(3)] if_not_P[OF v(1)] if_not_P[OF v(2)]
  by auto

text \<open>
  C36. What a trap does, with a serial transmitter that drains. An interrupt of the two controllers returns with the
  frame unchanged, counts a tick exactly for the timer line, and is acknowledged last, at the second
  controller exactly for its own lines and at the first one always. A system call trap changes the result
  register only, to what the dispatcher returned. A breakpoint returns having only printed, and every other
  vector stops the processor having only printed.
\<close>

theorem trap_dispatch_exact:
  assumes r: "drains dev"
  shows "(0x20 \<le> tf_vector f \<and> tf_vector f < 0x30 \<longrightarrow>
      (\<exists>m' n cs. x86_64_trap_dispatch dev (Some f) s = Some (Returned (Some f, s\<lparr>machine := m'\<rparr>)) \<and>
        m' = (machine s)\<lparr>g_ticks := g_ticks (machine s) + (if tf_vector f = 0x20 then 1 else 0),
          m_io := \<lparr>reads = n, outs = outs (m_io (machine s)) @ map (Pair COM1) cs @
            (if 0x28 \<le> tf_vector f then [(PIC2_COMMAND, PIC_EOI)] else []) @ [(PIC1_COMMAND, PIC_EOI)]\<rparr>\<rparr>)) \<and>
    (tf_vector f = 0x80 \<longrightarrow> x86_64_trap_dispatch dev (Some f) s =
      map_option (\<lambda>(ret, s'). Returned (Some (f\<lparr>tf_rax := word_of_int ret\<rparr>), s'))
        (mcsos_syscall_dispatch s (tf_rax f) (tf_rdi f) (tf_rsi f) (tf_rdx f) (tf_r10 f) (tf_r8 f) (tf_r9 f))) \<and>
    (tf_vector f = 3 \<longrightarrow> (\<exists>m'. x86_64_trap_dispatch dev (Some f) s = Some (Returned (Some f, s\<lparr>machine := m'\<rparr>)) \<and> printed (machine s) m')) \<and>
    (tf_vector f \<noteq> 3 \<and> tf_vector f \<noteq> 0x80 \<and> \<not> (0x20 \<le> tf_vector f \<and> tf_vector f < 0x30) \<longrightarrow>
      (\<exists>m'. x86_64_trap_dispatch dev (Some f) s = Some (Halted (Some f, s\<lparr>machine := m'\<rparr>)) \<and> printed (machine s) m'))"
  using trap_irq[OF r, of f s] trap_syscall[of f dev s] trap_breakpoint[OF r, of f s] trap_unhandled[OF r, of f s] by blast

definition sample_frame :: "u64 \<Rightarrow> trap_frame" where
  "sample_frame v = \<lparr>tf_rax = 1, tf_rbx = 2, tf_rcx = 3, tf_rdx = 4, tf_rbp = 5, tf_rdi = 6, tf_rsi = 7, tf_r8 = 8, tf_r9 = 9,
     tf_r10 = 10, tf_r11 = 11, tf_r12 = 12, tf_r13 = 13, tf_r14 = 14, tf_r15 = 15, tf_vector = v, tf_error_code = 0, tf_rip = 0x400000,
     tf_cs = 0x28, tf_rflags = 2\<rparr>"

theorem trap_dispatch_exact_witness:
  "\<exists>s m' n cs. x86_64_trap_dispatch (\<lambda>p n os. 0x20) (Some (sample_frame 0x29)) s =
       Some (Returned (Some (sample_frame 0x29), s\<lparr>machine := m'\<rparr>)) \<and>
     m' = (machine s)\<lparr>g_ticks := g_ticks (machine s), m_io := \<lparr>reads = n, outs = outs (m_io (machine s)) @ map (Pair COM1) cs @
       [(PIC2_COMMAND, PIC_EOI), (PIC1_COMMAND, PIC_EOI)]\<rparr>\<rparr>"
proof -
  have "drains (\<lambda>p n os. 0x20)" by (simp add: drains_def ready_at_def)
  from trap_dispatch_exact[OF this, of "sample_frame 0x29"]
  have "\<forall>s. \<exists>m' n cs. x86_64_trap_dispatch (\<lambda>p n os. 0x20) (Some (sample_frame 0x29)) s =
       Some (Returned (Some (sample_frame 0x29), s\<lparr>machine := m'\<rparr>)) \<and>
     m' = (machine s)\<lparr>g_ticks := g_ticks (machine s), m_io := \<lparr>reads = n, outs = outs (m_io (machine s)) @ map (Pair COM1) cs @
       [(PIC2_COMMAND, PIC_EOI), (PIC1_COMMAND, PIC_EOI)]\<rparr>\<rparr>" by (simp add: sample_frame_def)
  then show ?thesis by blast
qed

end
