(* ===== verification/Core.thy ===== *)
theory Core
  imports Interrupts
begin

text \<open>
  The first kernel of the tree: its log (\<^verbatim>\<open>kernel/core/log.c\<close>), panic report (\<^verbatim>\<open>kernel/core/panic.c\<close>), trap
  dispatch (\<^verbatim>\<open>kernel/core/trap.c\<close>) and descriptor table (\<^verbatim>\<open>kernel/arch/x86_64/idt.c\<close>).

  The log writes through the unbounded serial driver and opens it on first use. The file name the compiler puts
  into a panic report, the flags register, and the addresses of the stubs and of the table are parameters.

  Shown: the log opens the port before its first byte and only then; the line number in a report reads back;
  the dispatcher counts every trap and returns from the breakpoint vector only.
\<close>

section \<open>Model: log\<close>

record log =
  g_log_ready :: int
  log_io :: io

definition log_init :: "log \<Rightarrow> log" where
  "log_init l = l\<lparr>log_io := serial_init (log_io l), g_log_ready := 1\<rparr>"

definition log_putc :: "device \<Rightarrow> u8 \<Rightarrow> log \<Rightarrow> log option" where
  "log_putc dev c l =
     (let l = (if g_log_ready l = 0 then l\<lparr>log_io := serial_init (log_io l), g_log_ready := 1\<rparr> else l)
      in map_option (\<lambda>x. l\<lparr>log_io := x\<rparr>) (serial_write_char dev c (log_io l)))"

definition log_write :: "device \<Rightarrow> string \<Rightarrow> log \<Rightarrow> log option" where
  "log_write dev s l =
     (let l = (if g_log_ready l = 0 then l\<lparr>log_io := serial_init (log_io l), g_log_ready := 1\<rparr> else l)
      in map_option (\<lambda>x. l\<lparr>log_io := x\<rparr>) (serial_write_string dev (bytes s) (log_io l)))"

definition log_writeln :: "device \<Rightarrow> string \<Rightarrow> log \<Rightarrow> log option" where
  "log_writeln dev s l = do { l \<leftarrow> log_write dev s l; log_putc dev 0x0A l }"

definition log_hex64 :: "device \<Rightarrow> u64 \<Rightarrow> log \<Rightarrow> log option" where
  "log_hex64 dev value l =
     do {
       l \<leftarrow> log_write dev ''0x'' l;
       each (\<lambda>shift. log_putc dev (hex_digits ! unat (drop_bit shift value AND 0x0F))) nibble_shifts l
     }"

definition log_key_value_hex64 :: "device \<Rightarrow> string \<Rightarrow> u64 \<Rightarrow> log \<Rightarrow> log option" where
  "log_key_value_hex64 dev key value l =
     do {
       l \<leftarrow> log_write dev key l;
       l \<leftarrow> log_write dev ''='' l;
       l \<leftarrow> log_hex64 dev value l;
       log_putc dev 0x0A l
     }"

section \<open>Model: panic report\<close>

definition MCSOS_NAME :: string where "MCSOS_NAME = ''MCSOS''"
definition MCSOS_VERSION :: string where "MCSOS_VERSION = ''260502''"
definition MCSOS_MILESTONE :: string where "MCSOS_MILESTONE = ''M4''"

definition log_dec_u32 :: "device \<Rightarrow> u32 \<Rightarrow> log \<Rightarrow> log option" where
  "log_dec_u32 dev value l =
     (if value = 0 then log_putc dev 0x30 l
      else each (log_putc dev) (rev (dec_digits 11 value 0)) l)"

text \<open>The state of the log when the processor is stopped.\<close>

definition kernel_panic_at :: "device \<Rightarrow> u64 \<Rightarrow> string option \<Rightarrow> int \<Rightarrow> string option \<Rightarrow> u64 \<Rightarrow> log \<Rightarrow> log option" where
  "kernel_panic_at dev rflags file line_no reason code l =
     do {
       l \<leftarrow> log_writeln dev '''' l;
       l \<leftarrow> log_writeln dev ''================ MCSOS KERNEL PANIC ================'' l;
       l \<leftarrow> log_write dev ''system='' l;
       l \<leftarrow> log_write dev MCSOS_NAME l;
       l \<leftarrow> log_write dev '' version='' l;
       l \<leftarrow> log_write dev MCSOS_VERSION l;
       l \<leftarrow> log_write dev '' milestone='' l;
       l \<leftarrow> log_writeln dev MCSOS_MILESTONE l;
       l \<leftarrow> log_write dev ''reason='' l;
       l \<leftarrow> log_writeln dev (case reason of Some r \<Rightarrow> r | None \<Rightarrow> ''<null>'') l;
       l \<leftarrow> log_write dev ''location='' l;
       l \<leftarrow> log_write dev (case file of Some f \<Rightarrow> f | None \<Rightarrow> ''<unknown>'') l;
       l \<leftarrow> log_write dev '':'' l;
       l \<leftarrow> log_dec_u32 dev (word_of_int line_no) l;
       l \<leftarrow> log_putc dev 0x0A l;
       l \<leftarrow> log_key_value_hex64 dev ''panic_code'' code l;
       l \<leftarrow> log_key_value_hex64 dev ''rflags_before_cli'' rflags l;
       l \<leftarrow> log_writeln dev ''state=halted'' l;
       log_writeln dev ''===================================================='' l
     }"

section \<open>Model: traps\<close>

record x86_64_trap_frame =
  cf_r15 :: u64
  cf_r14 :: u64
  cf_r13 :: u64
  cf_r12 :: u64
  cf_r11 :: u64
  cf_r10 :: u64
  cf_r9 :: u64
  cf_r8 :: u64
  cf_rsi :: u64
  cf_rdi :: u64
  cf_rbp :: u64
  cf_rdx :: u64
  cf_rcx :: u64
  cf_rbx :: u64
  cf_rax :: u64
  cf_vector :: u64
  cf_error_code :: u64
  cf_rip :: u64
  cf_cs :: u64
  cf_rflags :: u64

definition exception_names :: "string list" where
  "exception_names =
     [''#DE Divide Error'', ''#DB Debug'', ''NMI Interrupt'', ''#BP Breakpoint'', ''#OF Overflow'',
      ''#BR Bound Range Exceeded'', ''#UD Invalid Opcode'', ''#NM Device Not Available'', ''#DF Double Fault'',
      ''Coprocessor Segment Overrun'', ''#TS Invalid TSS'', ''#NP Segment Not Present'', ''#SS Stack Segment Fault'',
      ''#GP General Protection Fault'', ''#PF Page Fault'', ''Reserved'', ''#MF x87 Floating-Point Exception'',
      ''#AC Alignment Check'', ''#MC Machine Check'', ''#XM SIMD Floating-Point Exception'',
      ''#VE Virtualization Exception'', ''#CP Control Protection Exception'', ''Reserved'', ''Reserved'', ''Reserved'',
      ''Reserved'', ''Reserved'', ''Reserved'', ''#HV Hypervisor Injection Exception'', ''#VC VMM Communication Exception'',
      ''#SX Security Exception'', ''Reserved'']"

definition trap_name :: "u64 \<Rightarrow> string" where
  "trap_name vector = (if vector < 32 then exception_names ! unat vector else ''external-or-user-defined-interrupt'')"

definition log_trap_frame :: "device \<Rightarrow> x86_64_trap_frame \<Rightarrow> log \<Rightarrow> log option" where
  "log_trap_frame dev frame l =
     do {
       l \<leftarrow> log_key_value_hex64 dev ''trap_vector'' (cf_vector frame) l;
       l \<leftarrow> log_key_value_hex64 dev ''trap_error'' (cf_error_code frame) l;
       l \<leftarrow> log_key_value_hex64 dev ''trap_rip'' (cf_rip frame) l;
       l \<leftarrow> log_key_value_hex64 dev ''trap_cs'' (cf_cs frame) l;
       l \<leftarrow> log_key_value_hex64 dev ''trap_rflags'' (cf_rflags frame) l;
       l \<leftarrow> log_key_value_hex64 dev ''trap_rax'' (cf_rax frame) l;
       l \<leftarrow> log_key_value_hex64 dev ''trap_rbx'' (cf_rbx frame) l;
       l \<leftarrow> log_key_value_hex64 dev ''trap_rcx'' (cf_rcx frame) l;
       log_key_value_hex64 dev ''trap_rdx'' (cf_rdx frame) l
     }"

text \<open>The counter of traps is part of the state. \<open>file\<close> is the name of the source file in reports.\<close>

definition core_trap_dispatch ::
  "device \<Rightarrow> u64 \<Rightarrow> string \<Rightarrow> x86_64_trap_frame option \<Rightarrow> u64 \<Rightarrow> log \<Rightarrow> (u64 \<times> log) outcome option" where
  "core_trap_dispatch dev rflags file frame trap_count l =
     (case frame of
        None \<Rightarrow> map_option (\<lambda>l. Halted (trap_count, l))
          (kernel_panic_at dev rflags (Some file) 67 (Some ''assertion failed: frame != (x86_64_trap_frame_t *)0'') 0xA55E4710 l)
      | Some f \<Rightarrow>
          (let trap_count = trap_count + 1
           in do {
             l \<leftarrow> log_write dev ''[M4] trap dispatch: '' l;
             l \<leftarrow> log_writeln dev (trap_name (cf_vector f)) l;
             l \<leftarrow> log_trap_frame dev f l;
             if cf_vector f = 3
             then map_option (\<lambda>l. Returned (trap_count, l)) (log_writeln dev ''[M4] breakpoint handled; returning with iretq'' l)
             else map_option (\<lambda>l. Halted (trap_count, l))
               (kernel_panic_at dev rflags (Some file) 79 (Some ''unrecoverable CPU exception'') (cf_vector f) l)
           }))"

section \<open>Model: descriptor table\<close>

definition X86_64_IDT_VECTOR_COUNT :: nat where "X86_64_IDT_VECTOR_COUNT = 256"
definition X86_64_KERNEL_CODE_SELECTOR :: u16 where "X86_64_KERNEL_CODE_SELECTOR = 0x28"
definition X86_64_IDT_GATE_INTERRUPT :: u8 where "X86_64_IDT_GATE_INTERRUPT = 0x8E"
definition X86_64_IDT_GATE_TRAP :: u8 where "X86_64_IDT_GATE_TRAP = 0x8F"

record x86_64_idt_entry =
  ce_offset_low :: u16
  ce_selector :: u16
  ce_ist :: u8
  ce_type_attributes :: u8
  ce_offset_mid :: u16
  ce_offset_high :: u32
  ce_reserved :: u32

record x86_64_idtr =
  ci_limit :: u16
  ci_base :: u64

definition x86_64_idt_set_gate :: "u8 \<Rightarrow> u64 \<Rightarrow> u8 \<Rightarrow> x86_64_idt_entry list \<Rightarrow> x86_64_idt_entry list" where
  "x86_64_idt_set_gate vector handler ty idt =
     idt[unat vector := \<lparr>ce_offset_low = ucast (handler AND 0xFFFF), ce_selector = X86_64_KERNEL_CODE_SELECTOR, ce_ist = 0,
       ce_type_attributes = ty, ce_offset_mid = ucast (drop_bit 16 handler AND 0xFFFF),
       ce_offset_high = ucast (drop_bit 32 handler AND 0xFFFFFFFF), ce_reserved = 0\<rparr>]"

text \<open>The table after both loops of the start-up, and the descriptor it loads.\<close>

definition x86_64_idt_table :: "u64 list \<Rightarrow> x86_64_idt_entry list \<Rightarrow> x86_64_idt_entry list" where
  "x86_64_idt_table stubs idt =
     (let idt = fold (\<lambda>i. x86_64_idt_set_gate (of_nat i) 0 0) [0..<X86_64_IDT_VECTOR_COUNT] idt
      in fold (\<lambda>v. x86_64_idt_set_gate (of_nat v) (stubs ! v)
           (if v = 3 then X86_64_IDT_GATE_TRAP else X86_64_IDT_GATE_INTERRUPT)) [0..<32] idt)"

definition x86_64_idt_init ::
  "device \<Rightarrow> u64 list \<Rightarrow> u64 \<Rightarrow> x86_64_idt_entry list \<Rightarrow> log \<Rightarrow> (x86_64_idt_entry list \<times> x86_64_idtr \<times> log) option" where
  "x86_64_idt_init dev stubs base idt l =
     (let idt = x86_64_idt_table stubs idt;
          r = \<lparr>ci_limit = of_nat (X86_64_IDT_VECTOR_COUNT * 16 - 1), ci_base = base\<rparr>
      in do {
        l \<leftarrow> log_key_value_hex64 dev ''idt_base'' (ci_base r) l;
        l \<leftarrow> log_key_value_hex64 dev ''idt_limit'' (ucast (ci_limit r)) l;
        l \<leftarrow> log_writeln dev ''[M4] IDT loaded'' l;
        Some (idt, r, l)
      })"

definition x86_64_idt_base_for_test :: "x86_64_idtr \<Rightarrow> u64" where
  "x86_64_idt_base_for_test r = ci_base r"

definition x86_64_idt_limit_for_test :: "x86_64_idtr \<Rightarrow> u16" where
  "x86_64_idt_limit_for_test r = ci_limit r"

section \<open>What is logged\<close>

definition opened_port :: "log \<Rightarrow> io" where
  "opened_port l = (if g_log_ready l = 0 then serial_init (log_io l) else log_io l)"

text \<open>The port was opened if it was not, and then bytes were sent.\<close>

definition logged :: "log \<Rightarrow> log \<Rightarrow> bool" where
  "logged l l' \<longleftrightarrow> g_log_ready l' \<noteq> 0 \<and> (\<exists>cs. outs (log_io l') = outs (opened_port l) @ map (Pair COM1) cs)"

lemma logged_trans: "logged l l1 \<Longrightarrow> logged l1 l2 \<Longrightarrow> logged l l2"
  by (fastforce simp: logged_def opened_port_def simp flip: map_append)

lemma logged_bind:
  assumes "\<exists>l'. f l = Some l' \<and> logged l l'" "\<And>l. \<exists>l'. g l = Some l' \<and> logged l l'"
  shows "\<exists>l'. Option.bind (f l) g = Some l' \<and> logged l l'"
  using assms logged_trans by fastforce

lemma log_putc_logged:
  assumes "drains dev"
  shows "\<exists>l'. log_putc dev c l = Some l' \<and> g_log_ready l' \<noteq> 0 \<and> outs (log_io l') = outs (opened_port l) @ [(COM1, c)]"
proof -
  obtain n where "serial_write_char dev c (opened_port l) = Some (outb COM1 c ((opened_port l)\<lparr>reads := n\<rparr>))"
    by (rule write_char_drains[OF assms])
  then show ?thesis by (cases "g_log_ready l = 0") (simp_all add: log_putc_def Let_def opened_port_def outb_def)
qed

lemma log_write_logged:
  assumes "drains dev"
  shows "\<exists>l'. log_write dev s l = Some l' \<and> g_log_ready l' \<noteq> 0 \<and> outs (log_io l') = outs (opened_port l) @ map (Pair COM1) (crlf (bytes s))"
  using write_string_drains[OF assms, of "bytes s" "opened_port l"]
  by (auto simp: log_write_def Let_def opened_port_def)

lemma each_log_putc:
  assumes r: "drains dev" and l: "g_log_ready l \<noteq> 0"
  shows "\<exists>l'. each (log_putc dev) cs l = Some l' \<and> g_log_ready l' \<noteq> 0 \<and> outs (log_io l') = outs (log_io l) @ map (Pair COM1) cs"
  using l
proof (induction cs arbitrary: l)
  case (Cons c cs)
  obtain l1 where "log_putc dev c l = Some l1" "g_log_ready l1 \<noteq> 0" "outs (log_io l1) = outs (log_io l) @ [(COM1, c)]"
    using log_putc_logged[OF r, of c l] Cons.prems by (auto simp: opened_port_def)
  then show ?case using Cons.IH[of l1] by auto
qed simp

lemma putc_write_logged:
  assumes "drains dev"
  shows "\<exists>l'. log_putc dev c l = Some l' \<and> logged l l'" "\<exists>l'. log_write dev s l = Some l' \<and> logged l l'"
proof -
  have "[(COM1, c)] = map (Pair COM1) [c]" by simp
  then show "\<exists>l'. log_putc dev c l = Some l' \<and> logged l l'"
    using log_putc_logged[OF assms, of c l] unfolding logged_def by metis
  show "\<exists>l'. log_write dev s l = Some l' \<and> logged l l'"
    using log_write_logged[OF assms, of s l] unfolding logged_def by blast
qed

lemma writeln_logged:
  assumes "drains dev"
  shows "\<exists>l'. log_writeln dev s l = Some l' \<and> logged l l'"
  unfolding log_writeln_def by (intro logged_bind putc_write_logged[OF assms])

lemma hex64_logged:
  assumes r: "drains dev"
  shows "\<exists>l'. log_hex64 dev v l = Some l' \<and> logged l l'"
proof -
  obtain l1 where l1: "log_write dev ''0x'' l = Some l1" "g_log_ready l1 \<noteq> 0"
    "outs (log_io l1) = outs (opened_port l) @ map (Pair COM1) (crlf (bytes ''0x''))"
    using log_write_logged[OF r] by blast
  let ?ds = "map (\<lambda>shift. hex_digits ! unat (drop_bit shift v AND 0x0F)) nibble_shifts"
  obtain l2 where l2: "each (log_putc dev) ?ds l1 = Some l2" "g_log_ready l2 \<noteq> 0" "outs (log_io l2) = outs (log_io l1) @ map (Pair COM1) ?ds"
    using each_log_putc[OF r l1(2)] by blast
  have "log_hex64 dev v l = Some l2"
    unfolding log_hex64_def l1(1) each_map[of "log_putc dev" "\<lambda>shift. hex_digits ! unat (drop_bit shift v AND 0x0F)"] using l2(1) by simp
  moreover have "outs (log_io l2) = outs (opened_port l) @ map (Pair COM1) (crlf (bytes ''0x'') @ ?ds)"
    unfolding l2(3) l1(3) by simp
  ultimately show ?thesis using l2(2) unfolding logged_def by blast
qed

lemma key_value_logged:
  assumes "drains dev"
  shows "\<exists>l'. log_key_value_hex64 dev key v l = Some l' \<and> logged l l'"
  unfolding log_key_value_hex64_def by (intro logged_bind putc_write_logged[OF assms] hex64_logged[OF assms])

text \<open>The decimal digits fit the buffer of 11 and read back as the number.\<close>

lemma dec_u32_logged:
  assumes r: "drains dev" and l: "g_log_ready l \<noteq> 0"
  shows "\<exists>l' ds. log_dec_u32 dev v l = Some l' \<and> g_log_ready l' \<noteq> 0 \<and> outs (log_io l') = outs (log_io l) @ map (Pair COM1) ds \<and>
    read_dec ds = unat v \<and> length ds \<le> 10"
proof (cases "v = 0")
  case True
  then show ?thesis using log_putc_logged[OF r, of "0x30" l] l
    by (auto simp: log_dec_u32_def opened_port_def read_dec_def intro!: exI[of _ "[0x30]"])
next
  case False
  have "unat v < 10 ^ 10" using unat_less_length[of v] by simp
  then have "read_dec (rev (dec_digits 11 v 0)) = unat v \<and> length (dec_digits 11 v 0) \<le> 10"
    by (intro dec_digits_read) simp_all
  then show ?thesis using False each_log_putc[OF r l, of "rev (dec_digits 11 v 0)"] by (fastforce simp: log_dec_u32_def)
qed

lemma dec_any_logged:
  assumes "drains dev"
  shows "\<exists>l'. log_dec_u32 dev v l = Some l' \<and> logged l l'"
proof (cases "g_log_ready l = 0")
  case False
  then show ?thesis using dec_u32_logged[OF assms False, of v] by (auto simp: logged_def opened_port_def)
next
  case True
  define l0 where "l0 = l\<lparr>log_io := serial_init (log_io l), g_log_ready := 1\<rparr>"
  have p: "log_putc dev c l = log_putc dev c l0" for c using True by (simp add: log_putc_def l0_def)
  have "log_dec_u32 dev v l = log_dec_u32 dev v l0"
  proof (cases "v = 0")
    case True
    then show ?thesis by (simp add: log_dec_u32_def p)
  next
    case False
    then have "rev (dec_digits 11 v 0) \<noteq> []" by (simp add: dec_digits.simps)
    then obtain d ds where "rev (dec_digits 11 v 0) = d # ds" by (cases "rev (dec_digits 11 v 0)") auto
    then show ?thesis using False by (simp add: log_dec_u32_def p)
  qed
  then show ?thesis using dec_u32_logged[OF assms, of l0 v] True by (auto simp: logged_def opened_port_def l0_def)
qed

lemma panic_at_logged:
  assumes "drains dev"
  shows "\<exists>l'. kernel_panic_at dev rflags file line_no reason code l = Some l' \<and> logged l l'"
  unfolding kernel_panic_at_def
  by (intro logged_bind putc_write_logged[OF assms] writeln_logged[OF assms] key_value_logged[OF assms] dec_any_logged[OF assms])

text \<open>Every trap is counted; only the breakpoint vector returns.\<close>

lemma core_trap_spec:
  assumes r: "drains dev"
  shows "\<exists>l'. core_trap_dispatch dev rflags file (Some f) c l =
    Some (if cf_vector f = 3 then Returned (c + 1, l') else Halted (c + 1, l')) \<and> logged l l'"
proof -
  let ?fin = "\<lambda>l. if cf_vector f = 3 then log_writeln dev ''[M4] breakpoint handled; returning with iretq'' l
      else kernel_panic_at dev rflags (Some file) 79 (Some ''unrecoverable CPU exception'') (cf_vector f) l"
  have tr: "\<exists>l'. log_trap_frame dev f l = Some l' \<and> logged l l'" for l
    unfolding log_trap_frame_def by (intro logged_bind key_value_logged[OF r])
  have en: "\<exists>l'. ?fin l = Some l' \<and> logged l l'" for l
    using writeln_logged[OF r] panic_at_logged[OF r] by (cases "cf_vector f = 3") simp_all
  have "\<exists>l'. (do { l \<leftarrow> log_write dev ''[M4] trap dispatch: '' l; l \<leftarrow> log_writeln dev (trap_name (cf_vector f)) l;
      l \<leftarrow> log_trap_frame dev f l; ?fin l }) = Some l' \<and> logged l l'"
    by (intro logged_bind putc_write_logged[OF r] writeln_logged[OF r] tr en)
  then show ?thesis unfolding core_trap_dispatch_def option.case Let_def
    by (cases "cf_vector f = 3") (auto simp: bind_eq_Some_conv)
qed

end
