(* ===== verification/Elf.thy ===== *)
theory Elf
  imports Prelude
begin

text \<open>
  The ELF image planner of \<^verbatim>\<open>kernel/user/m11_elf_loader.c\<close> and its header
  \<^verbatim>\<open>include/mcsos/user/m11_elf_loader.h\<close>, with the smoke test of \<^verbatim>\<open>kernel/user/m11_kernel_integration.c\<close>.

  The image is the list of its bytes; the structs the code casts it to are decoded at their C offsets,
  little endian. A read past the end of the image makes the result \<open>None\<close>, so that memory safety is a
  statement about the value of the planner. Shown: the planner reads only inside the image, and it accepts
  exactly the images whose loadable segments lie in the file and in the user region, are not both
  writable and executable, and number one to eight; the plan then lists them in order.
\<close>

section \<open>Model: constants and records\<close>

datatype m11_status =
  M11_OK | M11_ERR_NULL | M11_ERR_SIZE | M11_ERR_MAGIC | M11_ERR_CLASS | M11_ERR_ENDIAN | M11_ERR_VERSION |
  M11_ERR_TYPE | M11_ERR_MACHINE | M11_ERR_EHSIZE | M11_ERR_PHENTSIZE | M11_ERR_PHBOUNDS | M11_ERR_ALIGN |
  M11_ERR_SEGBOUNDS | M11_ERR_SEGRANGE | M11_ERR_SEGCOUNT | M11_ERR_ENTRY | M11_ERR_FLAGS

fun m11_code :: "m11_status \<Rightarrow> int" where
  "m11_code M11_OK = 0"
| "m11_code M11_ERR_NULL = -1"
| "m11_code M11_ERR_SIZE = -2"
| "m11_code M11_ERR_MAGIC = -3"
| "m11_code M11_ERR_CLASS = -4"
| "m11_code M11_ERR_ENDIAN = -5"
| "m11_code M11_ERR_VERSION = -6"
| "m11_code M11_ERR_TYPE = -7"
| "m11_code M11_ERR_MACHINE = -8"
| "m11_code M11_ERR_EHSIZE = -9"
| "m11_code M11_ERR_PHENTSIZE = -10"
| "m11_code M11_ERR_PHBOUNDS = -11"
| "m11_code M11_ERR_ALIGN = -12"
| "m11_code M11_ERR_SEGBOUNDS = -13"
| "m11_code M11_ERR_SEGRANGE = -14"
| "m11_code M11_ERR_SEGCOUNT = -15"
| "m11_code M11_ERR_ENTRY = -16"
| "m11_code M11_ERR_FLAGS = -17"

definition M11_PT_LOAD :: u32 where "M11_PT_LOAD = 1"
definition M11_PF_X :: u32 where "M11_PF_X = 1"
definition M11_PF_W :: u32 where "M11_PF_W = 2"
definition M11_PF_R :: u32 where "M11_PF_R = 4"
definition M11_MAX_LOAD_SEGMENTS :: u32 where "M11_MAX_LOAD_SEGMENTS = 8"

record m11_elf64_ehdr =
  e_ident :: "u8 list"
  e_type :: u16
  e_machine :: u16
  e_version :: u32
  e_entry :: u64
  e_phoff :: u64
  e_shoff :: u64
  e_flags :: u32
  e_ehsize :: u16
  e_phentsize :: u16
  e_phnum :: u16
  e_shentsize :: u16
  e_shnum :: u16
  e_shstrndx :: u16

record m11_elf64_phdr =
  p_type :: u32
  p_flags :: u32
  p_offset :: u64
  p_vaddr :: u64
  p_paddr :: u64
  p_filesz :: u64
  p_memsz :: u64
  p_align :: u64

record m11_user_region =
  region_base :: u64
  region_limit :: u64

record m11_segment_plan =
  seg_file_offset :: u64
  seg_vaddr :: u64
  seg_filesz :: u64
  seg_memsz :: u64
  seg_align :: u64
  seg_flags :: u32

record m11_process_image_plan =
  plan_entry :: u64
  plan_segment_count :: u32
  plan_segments :: "m11_segment_plan list"

section \<open>Model: reading the image\<close>

fun le_nat :: "u8 list \<Rightarrow> nat" where
  "le_nat [] = 0"
| "le_nat (b # bs) = unat b + 256 * le_nat bs"

definition field :: "u8 list \<Rightarrow> nat \<Rightarrow> nat \<Rightarrow> 'a::len word" where
  "field img off n = of_nat (le_nat (take n (drop off img)))"

definition ehdr_at :: "u8 list \<Rightarrow> nat \<Rightarrow> m11_elf64_ehdr option" where
  "ehdr_at img off =
     (if off + 64 \<le> length img then
        Some \<lparr>e_ident = take 16 (drop off img), e_type = field img (off + 16) 2, e_machine = field img (off + 18) 2,
              e_version = field img (off + 20) 4, e_entry = field img (off + 24) 8,
              e_phoff = field img (off + 32) 8, e_shoff = field img (off + 40) 8, e_flags = field img (off + 48) 4,
              e_ehsize = field img (off + 52) 2, e_phentsize = field img (off + 54) 2,
              e_phnum = field img (off + 56) 2, e_shentsize = field img (off + 58) 2,
              e_shnum = field img (off + 60) 2, e_shstrndx = field img (off + 62) 2\<rparr>
      else None)"

definition phdr_at :: "u8 list \<Rightarrow> nat \<Rightarrow> m11_elf64_phdr option" where
  "phdr_at img off =
     (if off + 56 \<le> length img then
        Some \<lparr>p_type = field img off 4, p_flags = field img (off + 4) 4, p_offset = field img (off + 8) 8,
              p_vaddr = field img (off + 16) 8, p_paddr = field img (off + 24) 8,
              p_filesz = field img (off + 32) 8, p_memsz = field img (off + 40) 8,
              p_align = field img (off + 48) 8\<rparr>
      else None)"

section \<open>Model: the planner\<close>

text \<open>\<open>None\<close> is the overflow; \<open>Some r\<close> the sum stored through the out pointer.\<close>

definition m11_add_overflow_u64 :: "u64 \<Rightarrow> u64 \<Rightarrow> u64 option" where
  "m11_add_overflow_u64 a b = (let r = a + b in if r < a then None else Some r)"

definition m11_is_power_of_two_u64 :: "u64 \<Rightarrow> bool" where
  "m11_is_power_of_two_u64 v \<longleftrightarrow> v \<noteq> 0 \<and> v AND (v - 1) = 0"

definition zero_segment :: m11_segment_plan where
  "zero_segment = \<lparr>seg_file_offset = 0, seg_vaddr = 0, seg_filesz = 0, seg_memsz = 0, seg_align = 0, seg_flags = 0\<rparr>"

definition m11_zero_plan :: "m11_process_image_plan \<Rightarrow> m11_process_image_plan" where
  "m11_zero_plan plan =
     (let plan = plan\<lparr>plan_entry := 0, plan_segment_count := 0\<rparr>
      in fold (\<lambda>i p. p\<lparr>plan_segments := (plan_segments p)[i := zero_segment]\<rparr>) [0..<unat M11_MAX_LOAD_SEGMENTS] plan)"

definition m11_validate_user_range :: "m11_user_region \<Rightarrow> u64 \<Rightarrow> u64 \<Rightarrow> m11_status" where
  "m11_validate_user_range region base bytes =
     (if region_base region \<ge> region_limit region then M11_ERR_SEGRANGE
      else if bytes = 0 then M11_ERR_SEGRANGE
      else
        (case m11_add_overflow_u64 base bytes of
           None \<Rightarrow> M11_ERR_SEGRANGE
         | Some stop \<Rightarrow>
             if base < region_base region \<or> stop > region_limit region \<or> stop \<le> base then M11_ERR_SEGRANGE
             else M11_OK))"

definition m11_validate_ident :: "m11_elf64_ehdr \<Rightarrow> m11_status" where
  "m11_validate_ident eh =
     (if e_ident eh ! 0 \<noteq> 0x7f \<or> e_ident eh ! 1 \<noteq> 0x45 \<or> e_ident eh ! 2 \<noteq> 0x4c \<or> e_ident eh ! 3 \<noteq> 0x46
      then M11_ERR_MAGIC
      else if e_ident eh ! 4 \<noteq> 2 then M11_ERR_CLASS
      else if e_ident eh ! 5 \<noteq> 1 then M11_ERR_ENDIAN
      else if e_ident eh ! 6 \<noteq> 1 \<or> e_version eh \<noteq> 1 then M11_ERR_VERSION
      else M11_OK)"

definition m11_validate_phdr_bounds :: "m11_elf64_ehdr \<Rightarrow> u64 \<Rightarrow> m11_status" where
  "m11_validate_phdr_bounds eh image_size =
     (if e_phnum eh = 0 then M11_ERR_PHBOUNDS
      else if e_phentsize eh \<noteq> 56 then M11_ERR_PHENTSIZE
      else
        (let ph_table_bytes = ucast (e_phentsize eh) * ucast (e_phnum eh) :: u64
         in if e_phnum eh \<noteq> 0 \<and> ph_table_bytes div ucast (e_phnum eh) \<noteq> ucast (e_phentsize eh)
            then M11_ERR_PHBOUNDS
            else
              (case m11_add_overflow_u64 (e_phoff eh) ph_table_bytes of
                 None \<Rightarrow> M11_ERR_PHBOUNDS
               | Some ph_end \<Rightarrow>
                   if ph_end > image_size \<or> e_phoff eh > image_size then M11_ERR_PHBOUNDS else M11_OK)))"

definition m11_validate_load_segment :: "m11_elf64_phdr \<Rightarrow> u64 \<Rightarrow> m11_user_region \<Rightarrow> m11_status" where
  "m11_validate_load_segment ph image_size region =
     (if p_flags ph AND NOT (M11_PF_R OR M11_PF_W OR M11_PF_X) \<noteq> 0 then M11_ERR_FLAGS
      else if p_flags ph AND M11_PF_W \<noteq> 0 \<and> p_flags ph AND M11_PF_X \<noteq> 0 then M11_ERR_FLAGS
      else if p_memsz ph < p_filesz ph then M11_ERR_SEGBOUNDS
      else if p_align ph \<noteq> 0 \<and> p_align ph \<noteq> 1 \<and> \<not> m11_is_power_of_two_u64 (p_align ph) then M11_ERR_ALIGN
      else if p_align ph \<noteq> 0 \<and> p_align ph \<noteq> 1 \<and> p_vaddr ph mod p_align ph \<noteq> p_offset ph mod p_align ph
      then M11_ERR_ALIGN
      else
        (case m11_add_overflow_u64 (p_offset ph) (p_filesz ph) of
           None \<Rightarrow> M11_ERR_SEGBOUNDS
         | Some file_end \<Rightarrow>
             if file_end > image_size \<or> p_offset ph > image_size then M11_ERR_SEGBOUNDS
             else m11_validate_user_range region (p_vaddr ph) (p_memsz ph)))"

definition segment_of :: "m11_elf64_phdr \<Rightarrow> m11_segment_plan" where
  "segment_of ph = \<lparr>seg_file_offset = p_offset ph, seg_vaddr = p_vaddr ph, seg_filesz = p_filesz ph,
     seg_memsz = p_memsz ph, seg_align = p_align ph, seg_flags = p_flags ph\<rparr>"

text \<open>The loop over the program headers \<open>is\<close>, with the two exits that clear the plan.\<close>

fun plan_from ::
  "u8 list \<Rightarrow> u64 \<Rightarrow> m11_user_region \<Rightarrow> nat \<Rightarrow> nat list \<Rightarrow> m11_process_image_plan \<Rightarrow>
   (m11_status \<times> m11_process_image_plan) option" where
  "plan_from img image_size region phoff [] plan =
     Some (if plan_segment_count plan = 0 then M11_ERR_SEGCOUNT else M11_OK, plan)"
| "plan_from img image_size region phoff (i # is) plan =
     (case phdr_at img (phoff + 56 * i) of
        None \<Rightarrow> None
      | Some ph \<Rightarrow>
          if p_type ph \<noteq> M11_PT_LOAD then plan_from img image_size region phoff is plan
          else if plan_segment_count plan \<ge> M11_MAX_LOAD_SEGMENTS then Some (M11_ERR_SEGCOUNT, m11_zero_plan plan)
          else
            (let rc = m11_validate_load_segment ph image_size region
             in if rc \<noteq> M11_OK then Some (rc, m11_zero_plan plan)
                else plan_from img image_size region phoff is
                       (plan\<lparr>plan_segments := (plan_segments plan)[unat (plan_segment_count plan) := segment_of ph],
                             plan_segment_count := plan_segment_count plan + 1\<rparr>)))"

definition m11_elf64_plan_load ::
  "u8 list option \<Rightarrow> u64 \<Rightarrow> m11_user_region \<Rightarrow> m11_process_image_plan option \<Rightarrow>
   (m11_status \<times> m11_process_image_plan option) option" where
  "m11_elf64_plan_load img image_size region out_plan =
     (case (img, out_plan) of
        (Some img, Some plan) \<Rightarrow>
          (let plan = m11_zero_plan plan
           in if image_size < 64 then Some (M11_ERR_SIZE, Some plan)
              else
                (case ehdr_at img 0 of
                   None \<Rightarrow> None
                 | Some eh \<Rightarrow>
                     if m11_validate_ident eh \<noteq> M11_OK then Some (m11_validate_ident eh, Some plan)
                     else if e_type eh \<noteq> 2 \<and> e_type eh \<noteq> 3 then Some (M11_ERR_TYPE, Some plan)
                     else if e_machine eh \<noteq> 62 then Some (M11_ERR_MACHINE, Some plan)
                     else if e_ehsize eh \<noteq> 64 then Some (M11_ERR_EHSIZE, Some plan)
                     else if m11_validate_phdr_bounds eh image_size \<noteq> M11_OK
                     then Some (m11_validate_phdr_bounds eh image_size, Some plan)
                     else if m11_validate_user_range region (e_entry eh) 1 \<noteq> M11_OK
                     then Some (M11_ERR_ENTRY, Some plan)
                     else map_option (\<lambda>(rc, p). (rc, Some p))
                            (plan_from img image_size region (unat (e_phoff eh)) [0..<unat (e_phnum eh)]
                               (plan\<lparr>plan_entry := e_entry eh\<rparr>))))
      | _ \<Rightarrow> Some (M11_ERR_NULL, out_plan))"

definition m11_error_name :: "int \<Rightarrow> string" where
  "m11_error_name code =
     (if code = 0 then ''M11_OK'' else if code = -1 then ''M11_ERR_NULL'' else if code = -2 then ''M11_ERR_SIZE''
      else if code = -3 then ''M11_ERR_MAGIC'' else if code = -4 then ''M11_ERR_CLASS''
      else if code = -5 then ''M11_ERR_ENDIAN'' else if code = -6 then ''M11_ERR_VERSION''
      else if code = -7 then ''M11_ERR_TYPE'' else if code = -8 then ''M11_ERR_MACHINE''
      else if code = -9 then ''M11_ERR_EHSIZE'' else if code = -10 then ''M11_ERR_PHENTSIZE''
      else if code = -11 then ''M11_ERR_PHBOUNDS'' else if code = -12 then ''M11_ERR_ALIGN''
      else if code = -13 then ''M11_ERR_SEGBOUNDS'' else if code = -14 then ''M11_ERR_SEGRANGE''
      else if code = -15 then ''M11_ERR_SEGCOUNT'' else if code = -16 then ''M11_ERR_ENTRY''
      else if code = -17 then ''M11_ERR_FLAGS'' else ''M11_ERR_UNKNOWN'')"

section \<open>What the checks mean\<close>

lemma overflow_iff:
  "m11_add_overflow_u64 a b = (if unat a + unat b < 2 ^ 64 then Some (a + b) else None)"
proof (cases "unat a + unat b < 2 ^ 64")
  case True
  then have "unat (a + b) = unat a + unat b" by (simp add: unat_word_ariths)
  then show ?thesis using True by (simp add: m11_add_overflow_u64_def word_less_nat_alt)
next
  case False
  then have "unat (a + b) = unat a + unat b - 2 ^ 64"
    using unat_less_length[of a] unat_less_length[of b] by (simp add: unat_word_ariths mod_if)
  then have "a + b < a" using False unat_less_length[of b] by (simp add: word_less_nat_alt)
  then show ?thesis using False by (simp add: m11_add_overflow_u64_def)
qed

lemma unat_sum: "unat a + unat b < 2 ^ 64 \<Longrightarrow> unat (a + b) = unat a + unat b" for a b :: u64
  by (simp add: unat_word_ariths)

lemma user_range_iff:
  "m11_validate_user_range region base n = M11_OK \<longleftrightarrow>
     0 < unat n \<and> unat (region_base region) \<le> unat base \<and> unat base + unat n \<le> unat (region_limit region)"
proof -
  have lim: "unat (region_limit region) < 2 ^ 64" using unat_less_length[of "region_limit region"] by simp
  show ?thesis
  proof (cases "unat base + unat n < 2 ^ 64")
    case True
    have z: "n = 0 \<longleftrightarrow> unat n = 0" by (simp add: unsigned_eq_0_iff)
    show ?thesis unfolding m11_validate_user_range_def overflow_iff z word_le_nat_alt word_less_nat_alt
      using True unat_sum[OF True] by auto
  next
    case False
    then show ?thesis using lim unfolding m11_validate_user_range_def overflow_iff by auto
  qed
qed

lemma power_of_two_iff: "m11_is_power_of_two_u64 v \<longleftrightarrow> (\<exists>n < 64. v = 2 ^ n)"
proof
  assume "\<exists>n < 64. v = 2 ^ n"
  then obtain n where n: "n < 64" "v = 2 ^ n" by blast
  have "v - 1 = mask n" using n by (simp add: mask_eq_exp_minus_1)
  moreover have "v AND mask n = 0" unfolding n(2) by (rule bit_eqI) (auto simp: bit_simps)
  moreover have "v \<noteq> 0" using n by (auto simp: bit_eq_iff bit_simps)
  ultimately show "m11_is_power_of_two_u64 v" by (simp add: m11_is_power_of_two_u64_def)
next
  assume p: "m11_is_power_of_two_u64 v"
  then have nz: "unat v > 0" by (simp add: m11_is_power_of_two_u64_def unsigned_eq_0_iff[symmetric] unat_gt_0)
  obtain n where n: "2 ^ n \<le> unat v" "unat v < 2 ^ (n + 1)" using ex_power_ivl1[of 2 "unat v"] nz by auto
  have n64: "n < 64"
  proof (rule ccontr)
    assume "\<not> n < 64"
    then have "(2 :: nat) ^ 64 \<le> 2 ^ n" by (intro power_increasing) auto
    then show False using n(1) unat_less_length[of v] by simp
  qed
  have odd: "bit x n" if "2 ^ n \<le> unat x" "unat x < 2 ^ (n + 1)" for x :: u64
  proof -
    have "unat x div 2 ^ n = 1" using that by (intro div_nat_eqI) auto
    then have "bit (unat x) n" by (simp add: bit_iff_odd)
    then show ?thesis by (simp add: bit_unsigned_iff)
  qed
  have "unat v = 2 ^ n"
  proof (rule ccontr)
    assume ne: "unat v \<noteq> 2 ^ n"
    have "unat (v - 1) = unat v - 1" using nz by (simp add: unat_minus_one unat_gt_0)
    then have "bit (v - 1) n" using n ne by (intro odd) auto
    moreover have "bit v n" using n by (intro odd)
    ultimately have "bit (v AND (v - 1)) n" by (simp add: bit_and_iff)
    then show False using p by (simp add: m11_is_power_of_two_u64_def)
  qed
  then have "of_nat (unat v) = (2 :: u64) ^ n" by simp
  then have "v = 2 ^ n" by simp
  with n64 show "\<exists>n < 64. v = 2 ^ n" by blast
qed

text \<open>A loadable segment that may be mapped, stated without machine arithmetic.\<close>

definition segment_fits :: "nat \<Rightarrow> m11_user_region \<Rightarrow> m11_segment_plan \<Rightarrow> bool" where
  "segment_fits n region g \<longleftrightarrow>
     unat (seg_file_offset g) + unat (seg_filesz g) \<le> n \<and>
     unat (seg_filesz g) \<le> unat (seg_memsz g) \<and> 0 < unat (seg_memsz g) \<and>
     unat (region_base region) \<le> unat (seg_vaddr g) \<and> unat (seg_vaddr g) + unat (seg_memsz g) \<le> unat (region_limit region) \<and>
     seg_flags g AND NOT (mask 3) = 0 \<and> \<not> (bit (seg_flags g) 0 \<and> bit (seg_flags g) 1) \<and>
     (seg_align g \<noteq> 0 \<longrightarrow> (\<exists>k < 64. seg_align g = 2 ^ k) \<and> seg_vaddr g mod seg_align g = seg_file_offset g mod seg_align g)"

lemma flag_bit: "x AND M11_PF_W \<noteq> 0 \<longleftrightarrow> bit x 1" "x AND M11_PF_X \<noteq> 0 \<longleftrightarrow> bit x 0"
  "M11_PF_R OR M11_PF_W OR M11_PF_X = mask 3"
proof -
  have w: "M11_PF_W = push_bit 1 1" "M11_PF_X = push_bit 0 1" by (simp_all add: M11_PF_W_def M11_PF_X_def)
  have "x AND push_bit k 1 \<noteq> 0 \<longleftrightarrow> bit x k" if "k < 32" for k
  proof -
    have "x AND push_bit k 1 = (if bit x k then push_bit k 1 else 0)" by (rule bit_eqI) (auto simp: bit_simps)
    moreover have "bit (push_bit k 1 :: u32) k" using that by (simp add: bit_simps)
    ultimately show ?thesis using that by auto
  qed
  from this[of 1] this[of 0] show "x AND M11_PF_W \<noteq> 0 \<longleftrightarrow> bit x 1" "x AND M11_PF_X \<noteq> 0 \<longleftrightarrow> bit x 0"
    unfolding w by simp_all
  show "M11_PF_R OR M11_PF_W OR M11_PF_X = mask 3"
    by (simp add: M11_PF_R_def M11_PF_W_def M11_PF_X_def mask_eq_exp_minus_1)
qed

lemma load_segment_iff:
  assumes "n < 2 ^ 64"
  shows "m11_validate_load_segment ph (of_nat n) region = M11_OK \<longleftrightarrow> segment_fits n region (segment_of ph)"
proof -
  have un: "unat (of_nat n :: u64) = n" using assms by (simp add: unat_of_nat)
  have al: "(p_align ph \<noteq> 0 \<longrightarrow> (\<exists>k < 64. p_align ph = 2 ^ k) \<and> p_vaddr ph mod p_align ph = p_offset ph mod p_align ph) \<longleftrightarrow>
      (p_align ph \<noteq> 0 \<and> p_align ph \<noteq> 1 \<longrightarrow> m11_is_power_of_two_u64 (p_align ph) \<and> p_vaddr ph mod p_align ph = p_offset ph mod p_align ph)"
    unfolding power_of_two_iff by (auto intro: exI[of _ 0])
  have fe: "(case m11_add_overflow_u64 (p_offset ph) (p_filesz ph) of None \<Rightarrow> M11_ERR_SEGBOUNDS
         | Some file_end \<Rightarrow> if file_end > of_nat n \<or> p_offset ph > of_nat n then M11_ERR_SEGBOUNDS
             else m11_validate_user_range region (p_vaddr ph) (p_memsz ph)) = M11_OK \<longleftrightarrow>
      unat (p_offset ph) + unat (p_filesz ph) \<le> n \<and> m11_validate_user_range region (p_vaddr ph) (p_memsz ph) = M11_OK"
    using assms unat_sum[of "p_offset ph" "p_filesz ph"]
    by (auto simp: overflow_iff word_less_nat_alt un split: if_splits)
  have ifs: "(if c1 then M11_ERR_FLAGS else if c2 then M11_ERR_FLAGS else if c3 then M11_ERR_SEGBOUNDS
      else if c4 then M11_ERR_ALIGN else if c5 then M11_ERR_ALIGN else r) = M11_OK \<longleftrightarrow>
      \<not> c1 \<and> \<not> c2 \<and> \<not> c3 \<and> \<not> c4 \<and> \<not> c5 \<and> r = M11_OK" for c1 c2 c3 c4 c5 r by simp
  show ?thesis
    unfolding m11_validate_load_segment_def ifs fe user_range_iff flag_bit segment_fits_def segment_of_def
      m11_segment_plan.select_convs al
    by (auto simp: word_less_nat_alt)
qed

section \<open>What the planner accepts\<close>

lemma zero_plan_simps [simp]:
  "plan_entry (m11_zero_plan p) = 0" "plan_segment_count (m11_zero_plan p) = 0"
  "length (plan_segments (m11_zero_plan p)) = length (plan_segments p)"
proof -
  let ?f = "\<lambda>i p. p\<lparr>plan_segments := (plan_segments p)[i := zero_segment]\<rparr>"
  have f: "plan_entry (fold ?f is q) = plan_entry q \<and> plan_segment_count (fold ?f is q) = plan_segment_count q \<and>
      length (plan_segments (fold ?f is q)) = length (plan_segments q)" for "is" and q :: m11_process_image_plan
    by (induction "is" arbitrary: q) auto
  show "plan_entry (m11_zero_plan p) = 0" "plan_segment_count (m11_zero_plan p) = 0"
    "length (plan_segments (m11_zero_plan p)) = length (plan_segments p)"
    by (simp_all add: m11_zero_plan_def f)
qed

definition headers :: "u8 list \<Rightarrow> nat \<Rightarrow> nat list \<Rightarrow> m11_elf64_phdr list" where
  "headers img phoff is = map (\<lambda>i. the (phdr_at img (phoff + 56 * i))) is"

definition loads :: "m11_elf64_phdr list \<Rightarrow> m11_segment_plan list" where
  "loads phs = map segment_of (filter (\<lambda>ph. p_type ph = M11_PT_LOAD) phs)"

definition planned :: "m11_process_image_plan \<Rightarrow> m11_segment_plan list" where
  "planned p = take (unat (plan_segment_count p)) (plan_segments p)"

lemma plan_from_spec:
  assumes "\<forall>i \<in> set is. phoff + 56 * i + 56 \<le> length img" "n < 2 ^ 64"
    and "length (plan_segments plan) = 8" "plan_segment_count plan \<le> 8"
  shows "\<exists>rc p. plan_from img (of_nat n) region phoff is plan = Some (rc, p) \<and>
    (rc = M11_OK \<longleftrightarrow> (\<forall>g \<in> set (loads (headers img phoff is)). segment_fits n region g) \<and>
        length (planned plan @ loads (headers img phoff is)) \<in> {1..8}) \<and>
    (rc = M11_OK \<longrightarrow> planned p = planned plan @ loads (headers img phoff is) \<and> plan_entry p = plan_entry plan \<and>
        unat (plan_segment_count p) = length (planned p)) \<and>
    (rc \<noteq> M11_OK \<longrightarrow> plan_segment_count p = 0)"
  using assms
proof (induction "is" arbitrary: plan)
  case Nil
  have "length (planned plan) = unat (plan_segment_count plan)" "unat (plan_segment_count plan) \<le> 8"
    using Nil.prems by (auto simp: planned_def word_le_nat_alt)
  then show ?case by (auto simp: headers_def loads_def unsigned_eq_0_iff Suc_le_eq unat_gt_0)
next
  case (Cons i "is")
  have len: "length (planned plan) = unat (plan_segment_count plan)" "unat (plan_segment_count plan) \<le> 8"
    using Cons.prems by (auto simp: planned_def word_le_nat_alt)
  obtain ph where ph: "phdr_at img (phoff + 56 * i) = Some ph" using Cons.prems(1) by (simp add: phdr_at_def)
  have hs: "headers img phoff (i # is) = ph # headers img phoff is" by (simp add: headers_def ph)
  have prem: "\<forall>i \<in> set is. phoff + 56 * i + 56 \<le> length img" using Cons.prems(1) by simp
  consider (other) "p_type ph \<noteq> M11_PT_LOAD" | (many) "p_type ph = M11_PT_LOAD" "plan_segment_count plan \<ge> 8"
    | (bad) "p_type ph = M11_PT_LOAD" "\<not> plan_segment_count plan \<ge> 8" "\<not> segment_fits n region (segment_of ph)"
    | (good) "p_type ph = M11_PT_LOAD" "\<not> plan_segment_count plan \<ge> 8" "segment_fits n region (segment_of ph)"
    by blast
  then show ?case
  proof cases
    case other
    then show ?thesis using Cons.IH[OF prem Cons.prems(2-4)] ph by (simp add: hs loads_def)
  next
    case many
    then have "length (planned plan) = 8" using len by (simp add: word_le_nat_alt)
    then show ?thesis using many ph by (simp add: hs loads_def M11_MAX_LOAD_SEGMENTS_def)
  next
    case bad
    then show ?thesis using ph load_segment_iff[OF Cons.prems(2), of ph region]
      by (simp add: hs loads_def M11_MAX_LOAD_SEGMENTS_def Let_def)
  next
    case good
    let ?c = "unat (plan_segment_count plan)"
    let ?p = "plan\<lparr>plan_segments := (plan_segments plan)[?c := segment_of ph], plan_segment_count := plan_segment_count plan + 1\<rparr>"
    have n: "?c < 8" using good(2) by (simp add: word_le_nat_alt)
    have c: "unat (plan_segment_count plan + 1) = Suc ?c" using n by (intro unat_inc[of _ 8]) (simp add: word_less_nat_alt)
    have pl: "planned ?p = planned plan @ [segment_of ph]"
      using n Cons.prems(3) by (simp add: planned_def c take_Suc_conv_app_nth)
    have "plan_from img (of_nat n) region phoff (i # is) plan = plan_from img (of_nat n) region phoff is ?p"
      using good ph load_segment_iff[OF Cons.prems(2), of ph region] by (simp add: M11_MAX_LOAD_SEGMENTS_def Let_def)
    moreover have "plan_segment_count ?p \<le> 8" using n c by (simp add: word_le_nat_alt)
    ultimately show ?thesis
      using Cons.IH[OF prem Cons.prems(2), of ?p] Cons.prems(3) good(1,3) by (simp add: pl hs loads_def)
  qed
qed

lemma ident_iff:
  assumes "length (e_ident eh) = 16"
  shows "m11_validate_ident eh = M11_OK \<longleftrightarrow> take 7 (e_ident eh) = [0x7f, 0x45, 0x4c, 0x46, 2, 1, 1] \<and> e_version eh = 1"
proof -
  have "take 7 (e_ident eh) = map ((!) (e_ident eh)) [0..<7]"
    using assms by (intro nth_equalityI) auto
  moreover have "[0..<7] = [0, 1, 2, 3, 4, 5, 6 :: nat]" by (simp add: upt_rec)
  ultimately have "take 7 (e_ident eh) = map ((!) (e_ident eh)) [0, 1, 2, 3, 4, 5, 6]" by metis
  then have t: "take 7 (e_ident eh) = [e_ident eh ! 0, e_ident eh ! 1, e_ident eh ! 2, e_ident eh ! 3, e_ident eh ! 4,
      e_ident eh ! 5, e_ident eh ! 6]" by simp
  show ?thesis unfolding m11_validate_ident_def t list.inject
    by (cases "e_ident eh ! 0 = 0x7f"; cases "e_ident eh ! 1 = 0x45"; cases "e_ident eh ! 2 = 0x4c";
        cases "e_ident eh ! 3 = 0x46") simp_all
qed

lemma phdr_bounds_iff:
  assumes "n < 2 ^ 64"
  shows "m11_validate_phdr_bounds eh (of_nat n) = M11_OK \<longleftrightarrow>
    e_phnum eh \<noteq> 0 \<and> e_phentsize eh = 56 \<and> unat (e_phoff eh) + 56 * unat (e_phnum eh) \<le> n"
proof -
  have un: "unat (of_nat n :: u64) = n" using assms by (simp add: unat_of_nat)
  have small: "unat (e_phnum eh) < 65536" using unat_less_length[of "e_phnum eh"] by simp
  then have k: "unat (ucast (e_phnum eh) :: u64) = unat (e_phnum eh)"
    by (simp add: unsigned_ucast_eq take_bit_nat_eq_self)
  have b: "unat (56 * ucast (e_phnum eh) :: u64) = 56 * unat (e_phnum eh)"
    using small by (simp add: unat_word_ariths k)
  have d: "(56 * ucast (e_phnum eh) :: u64) div ucast (e_phnum eh) = 56" if "e_phnum eh \<noteq> 0"
  proof -
    have "0 < unat (e_phnum eh)" using that by (simp add: unat_gt_0)
    then have "unat ((56 * ucast (e_phnum eh) :: u64) div ucast (e_phnum eh)) = 56" unfolding unat_div b k by simp
    then show ?thesis by (simp add: word_unat_eq_iff)
  qed
  show ?thesis
  proof (cases "e_phnum eh \<noteq> 0 \<and> e_phentsize eh = 56")
    case True
    let ?t = "56 * ucast (e_phnum eh) :: u64"
    have "m11_validate_phdr_bounds eh (of_nat n) =
        (case m11_add_overflow_u64 (e_phoff eh) ?t of None \<Rightarrow> M11_ERR_PHBOUNDS
         | Some ph_end \<Rightarrow> if ph_end > of_nat n \<or> e_phoff eh > of_nat n then M11_ERR_PHBOUNDS else M11_OK)"
      using True d by (simp add: m11_validate_phdr_bounds_def Let_def)
    also have "\<dots> = M11_OK \<longleftrightarrow> unat (e_phoff eh) + unat ?t \<le> n"
    proof (cases "unat (e_phoff eh) + unat ?t < 2 ^ 64")
      case True
      then show ?thesis unfolding overflow_iff if_P[OF True] option.case word_less_nat_alt un unat_sum[OF True] by simp
    next
      case False
      then show ?thesis using assms unfolding overflow_iff if_not_P[OF False] by simp
    qed
    finally show ?thesis using True unfolding b by simp
  next
    case False
    then show ?thesis by (auto simp: m11_validate_phdr_bounds_def)
  qed
qed

text \<open>The images the planner is meant to accept, and the segments it is meant to plan.\<close>

definition elf_segments :: "u8 list \<Rightarrow> m11_elf64_ehdr \<Rightarrow> m11_segment_plan list" where
  "elf_segments img eh = loads (headers img (unat (e_phoff eh)) [0..<unat (e_phnum eh)])"

definition elf_ok :: "u8 list \<Rightarrow> nat \<Rightarrow> m11_user_region \<Rightarrow> m11_elf64_ehdr \<Rightarrow> bool" where
  "elf_ok img n region eh \<longleftrightarrow>
     take 7 (e_ident eh) = [0x7f, 0x45, 0x4c, 0x46, 2, 1, 1] \<and> e_version eh = 1 \<and> e_type eh \<in> {2, 3} \<and>
     e_machine eh = 62 \<and> e_ehsize eh = 64 \<and> e_phentsize eh = 56 \<and>
     unat (e_phoff eh) + 56 * unat (e_phnum eh) \<le> n \<and>
     unat (region_base region) \<le> unat (e_entry eh) \<and> unat (e_entry eh) < unat (region_limit region) \<and>
     (\<forall>g \<in> set (elf_segments img eh). segment_fits n region g) \<and> length (elf_segments img eh) \<in> {1..8}"

lemma early_exit:
  assumes "c1 \<or> c2 \<or> c3 \<or> c4 \<or> c5 \<or> c6" "c1 \<Longrightarrow> a \<noteq> M11_OK" "c5 \<Longrightarrow> b \<noteq> M11_OK"
  shows "\<exists>rc. rc \<noteq> M11_OK \<and> (if c1 then Some (a, p) else if c2 then Some (M11_ERR_TYPE, p)
    else if c3 then Some (M11_ERR_MACHINE, p) else if c4 then Some (M11_ERR_EHSIZE, p) else if c5 then Some (b, p)
    else if c6 then Some (M11_ERR_ENTRY, p) else r) = Some (rc, p)"
  using assms by (cases c1; cases c2; cases c3; cases c4; cases c5; cases c6) simp_all

lemma elf_plan_spec:
  assumes n: "n \<le> length img" "n < 2 ^ 64" and p8: "length (plan_segments plan) = 8"
  shows "\<exists>rc p. m11_elf64_plan_load (Some img) (of_nat n) region (Some plan) = Some (rc, Some p) \<and>
    (rc = M11_OK \<longleftrightarrow> 64 \<le> n \<and> elf_ok img n region (the (ehdr_at img 0))) \<and>
    (rc = M11_OK \<longrightarrow> plan_entry p = e_entry (the (ehdr_at img 0)) \<and>
        planned p = elf_segments img (the (ehdr_at img 0)) \<and> unat (plan_segment_count p) = length (planned p)) \<and>
    (rc \<noteq> M11_OK \<longrightarrow> plan_segment_count p = 0)"
proof -
  have un: "unat (of_nat n :: u64) = n" using n by (simp add: unat_of_nat)
  have sz: "of_nat n < (64 :: u64) \<longleftrightarrow> n < 64" by (simp add: word_less_nat_alt un)
  show ?thesis
  proof (cases "n < 64")
    case True
    then show ?thesis using sz by (simp add: m11_elf64_plan_load_def Let_def)
  next
    case False
    then obtain eh where eh: "ehdr_at img 0 = Some eh" and id: "length (e_ident eh) = 16" using n by (simp add: ehdr_at_def)
    let ?plan = "(m11_zero_plan plan)\<lparr>plan_entry := e_entry eh\<rparr>"
    let ?hdr = "m11_validate_ident eh = M11_OK \<and> e_type eh \<in> {2, 3} \<and> e_machine eh = 62 \<and> e_ehsize eh = 64 \<and>
        m11_validate_phdr_bounds eh (of_nat n) = M11_OK \<and> m11_validate_user_range region (e_entry eh) 1 = M11_OK"
    have spec: "elf_ok img n region eh \<longleftrightarrow> ?hdr \<and> (\<forall>g \<in> set (elf_segments img eh). segment_fits n region g) \<and>
        length (elf_segments img eh) \<in> {1..8}"
      unfolding elf_ok_def ident_iff[OF id] phdr_bounds_iff[OF n(2)] user_range_iff
      by (auto simp: elf_segments_def headers_def loads_def)
    show ?thesis
    proof (cases ?hdr)
      case True
      have "\<forall>i \<in> set [0..<unat (e_phnum eh)]. unat (e_phoff eh) + 56 * i + 56 \<le> length img"
        using True n phdr_bounds_iff[OF n(2), of eh] by auto
      note spec_from = plan_from_spec[OF this n(2), of ?plan region, folded elf_segments_def]
      have pl: "planned ?plan = []" by (simp add: planned_def)
      obtain rc p where r: "plan_from img (of_nat n) region (unat (e_phoff eh)) [0..<unat (e_phnum eh)] ?plan = Some (rc, p)"
        "rc = M11_OK \<longleftrightarrow> (\<forall>g \<in> set (elf_segments img eh). segment_fits n region g) \<and> length (elf_segments img eh) \<in> {1..8}"
        "rc = M11_OK \<longrightarrow> planned p = elf_segments img eh \<and> plan_entry p = e_entry eh \<and> unat (plan_segment_count p) = length (planned p)"
        "rc \<noteq> M11_OK \<longrightarrow> plan_segment_count p = 0"
        using spec_from[unfolded pl append_Nil] p8 by auto
      have c: "(m11_validate_ident eh \<noteq> M11_OK) = False" "(e_type eh \<noteq> 2 \<and> e_type eh \<noteq> 3) = False"
        "(e_machine eh \<noteq> 62) = False" "(e_ehsize eh \<noteq> 64) = False"
        "(m11_validate_phdr_bounds eh (of_nat n) \<noteq> M11_OK) = False"
        "(m11_validate_user_range region (e_entry eh) 1 \<noteq> M11_OK) = False"
        using True by blast+
      have "m11_elf64_plan_load (Some img) (of_nat n) region (Some plan) = Some (rc, Some p)"
        by (simp only: m11_elf64_plan_load_def Let_def option.case prod.case sz False eh if_False c r(1) option.map)
      moreover have "rc = M11_OK \<longleftrightarrow> 64 \<le> n \<and> elf_ok img n region (the (ehdr_at img 0))"
        unfolding eh option.sel spec r(2) using True False by simp
      ultimately show ?thesis unfolding eh option.sel using r(3,4) by (intro exI[of _ rc] exI[of _ p]) simp
    next
      case bad: False
      then have "\<exists>rc. rc \<noteq> M11_OK \<and> m11_elf64_plan_load (Some img) (of_nat n) region (Some plan) = Some (rc, Some (m11_zero_plan plan))"
        by (simp only: m11_elf64_plan_load_def Let_def option.case prod.case sz False eh if_False)
          (rule early_exit, blast+)
      moreover have "\<not> elf_ok img n region (the (ehdr_at img 0))" unfolding eh option.sel spec using bad by blast
      ultimately show ?thesis by auto
    qed
  qed
qed

text \<open>
  C27. Given any bytes and a size not above their number, the ELF planner reads only inside the
  image and returns. It accepts exactly the well-formed x86-64 images whose program headers lie in the
  file, whose entry point is in the user region, and whose loadable segments number one to eight, lie in
  the file and in the user region, are aligned as declared and are never both writable and executable.
  The plan then holds the entry point and these segments in order; after an error it holds none.
\<close>

theorem elf_plan_accepts_exactly:
  assumes n: "n \<le> length img" "n < 2 ^ 64" and p8: "length (plan_segments plan) = 8"
  shows "\<exists>rc p. m11_elf64_plan_load (Some img) (of_nat n) region (Some plan) = Some (rc, Some p) \<and>
    (rc = M11_OK \<longleftrightarrow> 64 \<le> n \<and> elf_ok img n region (the (ehdr_at img 0))) \<and>
    (rc = M11_OK \<longrightarrow> plan_entry p = e_entry (the (ehdr_at img 0)) \<and>
        planned p = elf_segments img (the (ehdr_at img 0)) \<and> unat (plan_segment_count p) = length (planned p)) \<and>
    (rc \<noteq> M11_OK \<longrightarrow> plan_segment_count p = 0)"
  by (rule elf_plan_spec) fact+

section \<open>The smoke test of the kernel\<close>

text \<open>A store of an \<open>n\<close>-byte little-endian value through a struct pointer.\<close>

fun le_bytes :: "nat \<Rightarrow> int \<Rightarrow> u8 list" where
  "le_bytes 0 v = []"
| "le_bytes (Suc n) v = of_int (v mod 256) # le_bytes n (v div 256)"

definition put :: "u8 list \<Rightarrow> nat \<times> nat \<times> int \<Rightarrow> u8 list" where
  "put img = (\<lambda>(off, n, v). take off img @ le_bytes n v @ drop (off + n) img)"

definition smoke_stores :: "(nat \<times> nat \<times> int) list" where
  "smoke_stores =
     [(0, 1, 0x7f), (1, 1, 0x45), (2, 1, 0x4c), (3, 1, 0x46), (4, 1, 2), (5, 1, 1), (6, 1, 1),
      (16, 2, 2), (18, 2, 62), (20, 4, 1), (24, 8, 0x401000), (32, 8, 64), (52, 2, 64), (54, 2, 56), (56, 2, 2),
      (64, 4, 1), (68, 4, 5), (72, 8, 0x1000), (80, 8, 0x400000), (96, 8, 16), (104, 8, 4096), (112, 8, 4096),
      (120, 4, 1), (124, 4, 6), (128, 8, 0x2000), (136, 8, 0x401000), (152, 8, 8), (160, 8, 4096), (168, 8, 4096)]"

definition smoke_image :: "u8 list" where
  "smoke_image = foldl put (replicate 12288 0) smoke_stores"

definition smoke_region :: m11_user_region where
  "smoke_region = \<lparr>region_base = 0x400000, region_limit = 0x8000000000\<rparr>"

definition m11_log_plan :: "m11_process_image_plan \<Rightarrow> console list" where
  "m11_log_plan plan =
     [Text ''[M11] elf: plan ok entry='', Hex64 (plan_entry plan), line '''',
      Text ''[M11] elf: segment_count='', Hex64 (ucast (plan_segment_count plan)), line ''''] @
     concat (map (\<lambda>i. let s = plan_segments plan ! i
                      in [Text ''[M11] elf: seg vaddr='', Hex64 (seg_vaddr s), Text '' filesz='', Hex64 (seg_filesz s),
                          Text '' memsz='', Hex64 (seg_memsz s), Text '' flags='', Hex64 (ucast (seg_flags s)), line ''''])
               [0..<unat (plan_segment_count plan)])"

text \<open>The plan on the stack is not initialised: its contents are a parameter.\<close>

definition m11_integration_smoke_test :: "m11_process_image_plan \<Rightarrow> console list option" where
  "m11_integration_smoke_test plan =
     (case m11_elf64_plan_load (Some smoke_image) 12288 smoke_region (Some plan) of
        None \<Rightarrow> None
      | Some (rc, p) \<Rightarrow>
          Some ([line ''[M11] elf: starting integration smoke test''] @
            (if rc \<noteq> M11_OK
             then [Text ''[M11] elf: plan FAILED rc='',
                   Hex64 (of_int (if m11_code rc < 0 then - m11_code rc else m11_code rc)), line '''']
             else m11_log_plan (the p) @ [line ''[M11] user image plan ready''])))"

lemma length_le_bytes [simp]: "length (le_bytes n v) = n"
  by (induction n arbitrary: v) auto

lemma put_prefix: "off + n \<le> length a \<Longrightarrow> put (a @ r) (off, n, v) = put a (off, n, v) @ r"
  by (simp add: put_def)

lemma length_put: "off + n \<le> length a \<Longrightarrow> length (put a (off, n, v)) = length a"
  by (simp add: put_def)

lemma foldl_put_prefix:
  "\<forall>(off, n, v) \<in> set st. off + n \<le> length a \<Longrightarrow> foldl put (a @ r) st = foldl put a st @ r"
proof (induction st arbitrary: a)
  case (Cons x st)
  obtain off n v where x: "x = (off, n, v)" by (cases x)
  have "off + n \<le> length a" using Cons.prems x by auto
  then show ?case using Cons.IH[of "put a x"] Cons.prems length_put[of off n a v] by (simp add: x put_prefix)
qed simp

lemma field_prefix: "off + n \<le> length a \<Longrightarrow> field (a @ r) off n = field a off n"
  by (simp add: field_def)

definition smoke_head :: "u8 list" where
  "smoke_head = foldl put (replicate 176 0) smoke_stores"

lemma smoke_image_head: "smoke_image = smoke_head @ replicate 12112 0"
proof -
  have r: "replicate 12288 (0 :: u8) = replicate 176 0 @ replicate 12112 0"
  proof -
    have "(12288 :: nat) = 176 + 12112" by simp
    then show ?thesis by (simp only: replicate_add)
  qed
  have "\<forall>(off, n, v) \<in> set smoke_stores. off + n \<le> length (replicate 176 (0 :: u8))"
    unfolding length_replicate smoke_stores_def by simp
  from foldl_put_prefix[OF this] show ?thesis unfolding smoke_image_def smoke_head_def r .
qed

lemma smoke_head_bytes:
  "smoke_head =
    [127, 69, 76, 70, 2, 1, 1, 0, 0, 0, 0, 0, 0, 0, 0, 0, 2, 0, 62, 0, 1, 0,
     0, 0, 0, 16, 64, 0, 0, 0, 0, 0, 64, 0, 0, 0, 0, 0, 0, 0, 0, 0, 0, 0,
     0, 0, 0, 0, 0, 0, 0, 0, 64, 0, 56, 0, 2, 0, 0, 0, 0, 0, 0, 0, 1, 0,
     0, 0, 5, 0, 0, 0, 0, 16, 0, 0, 0, 0, 0, 0, 0, 0, 64, 0, 0, 0, 0, 0,
     0, 0, 0, 0, 0, 0, 0, 0, 16, 0, 0, 0, 0, 0, 0, 0, 0, 16, 0, 0, 0, 0,
     0, 0, 0, 16, 0, 0, 0, 0, 0, 0, 1, 0, 0, 0, 6, 0, 0, 0, 0, 32, 0, 0,
     0, 0, 0, 0, 0, 16, 64, 0, 0, 0, 0, 0, 0, 0, 0, 0, 0, 0, 0, 0, 8, 0,
     0, 0, 0, 0, 0, 0, 0, 16, 0, 0, 0, 0, 0, 0, 0, 16, 0, 0, 0, 0, 0, 0]"
  unfolding smoke_head_def smoke_stores_def by code_simp

lemma smoke_ehdr:
  "ehdr_at smoke_image 0 = Some \<lparr>e_ident = [0x7f, 0x45, 0x4c, 0x46, 2, 1, 1, 0, 0, 0, 0, 0, 0, 0, 0, 0], e_type = 2,
     e_machine = 62, e_version = 1, e_entry = 0x401000, e_phoff = 64, e_shoff = 0, e_flags = 0, e_ehsize = 64,
     e_phentsize = 56, e_phnum = 2, e_shentsize = 0, e_shnum = 0, e_shstrndx = 0\<rparr>"
  unfolding ehdr_at_def smoke_image_head by (simp add: field_prefix smoke_head_bytes field_def)

lemma smoke_phdrs:
  "phdr_at smoke_image 64 = Some \<lparr>p_type = 1, p_flags = 5, p_offset = 0x1000, p_vaddr = 0x400000, p_paddr = 0,
     p_filesz = 16, p_memsz = 4096, p_align = 4096\<rparr>"
  "phdr_at smoke_image 120 = Some \<lparr>p_type = 1, p_flags = 6, p_offset = 0x2000, p_vaddr = 0x401000, p_paddr = 0,
     p_filesz = 8, p_memsz = 4096, p_align = 4096\<rparr>"
  unfolding phdr_at_def smoke_image_head by (simp_all add: field_prefix smoke_head_bytes field_def)

definition smoke_segments :: "m11_segment_plan list" where
  "smoke_segments =
     [\<lparr>seg_file_offset = 0x1000, seg_vaddr = 0x400000, seg_filesz = 16, seg_memsz = 4096, seg_align = 4096, seg_flags = 5\<rparr>,
      \<lparr>seg_file_offset = 0x2000, seg_vaddr = 0x401000, seg_filesz = 8, seg_memsz = 4096, seg_align = 4096, seg_flags = 6\<rparr>]"

lemma smoke_elf_segments: "elf_segments smoke_image (the (ehdr_at smoke_image 0)) = smoke_segments"
proof -
  have "[0..<2] = [0, 1 :: nat]" by (simp add: upt_rec)
  then show ?thesis
    unfolding elf_segments_def headers_def loads_def smoke_ehdr smoke_segments_def
    by (simp add: smoke_phdrs segment_of_def M11_PT_LOAD_def)
qed

lemma smoke_segments_fit:
  assumes "g \<in> set smoke_segments"
  shows "segment_fits 12288 smoke_region g"
proof -
  have "\<exists>k < 64. (4096 :: u64) = 2 ^ k" by (rule exI[of _ 12]) simp
  moreover have "(5 :: u32) AND NOT (mask 3) = 0" "(6 :: u32) AND NOT (mask 3) = 0" by (simp_all add: mask_eq_exp_minus_1)
  moreover have "\<not> bit (5 :: u32) 1" "\<not> bit (6 :: u32) 0" by (simp_all add: bit_iff_odd)
  moreover have "g = smoke_segments ! 0 \<or> g = smoke_segments ! 1" using assms by (auto simp: smoke_segments_def)
  ultimately show ?thesis
    by (elim disjE) (simp_all add: smoke_segments_def segment_fits_def smoke_region_def)
qed

lemma length_smoke_image: "length smoke_image = 12288"
proof -
  have "length smoke_head = 176" by (simp add: smoke_head_bytes)
  then show ?thesis by (simp add: smoke_image_head)
qed

lemma smoke_elf_ok: "elf_ok smoke_image 12288 smoke_region (the (ehdr_at smoke_image 0))"
proof -
  have "\<forall>g \<in> set (elf_segments smoke_image (the (ehdr_at smoke_image 0))). segment_fits 12288 smoke_region g"
    "length (elf_segments smoke_image (the (ehdr_at smoke_image 0))) = 2"
    unfolding smoke_elf_segments using smoke_segments_fit by (simp_all add: smoke_segments_def)
  then show ?thesis unfolding elf_ok_def by (simp add: smoke_ehdr smoke_region_def)
qed

lemma smoke_test_run:
  assumes p8: "length (plan_segments plan) = 8"
  obtains p where "m11_elf64_plan_load (Some smoke_image) 12288 smoke_region (Some plan) = Some (M11_OK, Some p)"
    "plan_entry p = 0x401000" "planned p = smoke_segments"
    "m11_integration_smoke_test plan =
      Some (line ''[M11] elf: starting integration smoke test'' # m11_log_plan p @ [line ''[M11] user image plan ready''])"
proof -
  have n: "12288 \<le> length smoke_image" "(12288 :: nat) < 2 ^ 64" by (simp_all add: length_smoke_image)
  from elf_plan_spec[OF n p8, of smoke_region] smoke_elf_ok
  obtain p where p: "m11_elf64_plan_load (Some smoke_image) 12288 smoke_region (Some plan) = Some (M11_OK, Some p)"
    "plan_entry p = 0x401000" "planned p = smoke_segments"
    unfolding smoke_elf_segments by (auto simp: smoke_ehdr)
  show ?thesis by (rule that[OF p]) (simp add: m11_integration_smoke_test_def p(1))
qed

text \<open>What it logs, whatever the uninitialised plan held.\<close>

lemma smoke_test_log:
  assumes p8: "length (plan_segments plan) = 8"
  shows "m11_integration_smoke_test plan = Some
    [line ''[M11] elf: starting integration smoke test'',
     Text ''[M11] elf: plan ok entry='', Hex64 0x401000, line [],
     Text ''[M11] elf: segment_count='', Hex64 2, line [],
     Text ''[M11] elf: seg vaddr='', Hex64 0x400000, Text '' filesz='', Hex64 16, Text '' memsz='', Hex64 4096, Text '' flags='', Hex64 5, line [],
     Text ''[M11] elf: seg vaddr='', Hex64 0x401000, Text '' filesz='', Hex64 8, Text '' memsz='', Hex64 4096, Text '' flags='', Hex64 6, line [],
     line ''[M11] user image plan ready'']"
proof -
  have n: "12288 \<le> length smoke_image" "(12288 :: nat) < 2 ^ 64" by (simp_all add: length_smoke_image)
  from elf_plan_spec[OF n p8, of smoke_region] smoke_elf_ok
  obtain p where p: "m11_elf64_plan_load (Some smoke_image) 12288 smoke_region (Some plan) = Some (M11_OK, Some p)"
    "plan_entry p = 0x401000" "planned p = smoke_segments" "unat (plan_segment_count p) = length (planned p)"
    unfolding smoke_elf_segments by (auto simp: smoke_ehdr)
  have c: "unat (plan_segment_count p) = 2" using p(3,4) by (simp add: smoke_segments_def)
  then have c2: "ucast (plan_segment_count p) = (2 :: u64)" by (simp add: word_unat_eq_iff unsigned_ucast_eq)
  have i: "[0..<2] = [0, 1 :: nat]" by (simp add: upt_rec)
  have "plan_segments p ! i = smoke_segments ! i" if "i < 2" for i
    using p(3) that c nth_take[of i 2 "plan_segments p"] by (simp add: planned_def)
  then have g: "plan_segments p ! 0 = smoke_segments ! 0" "plan_segments p ! 1 = smoke_segments ! 1" by simp_all
  show ?thesis unfolding m11_integration_smoke_test_def p(1)
    by (simp only: option.case prod.case option.sel m11_log_plan_def p(2) c c2 i list.map concat.simps append.simps Let_def g
        simp_thms if_False append_Nil2) (simp add: smoke_segments_def)
qed

section \<open>The entry point\<close>

lemma le_nat_le_bytes: "0 \<le> v \<Longrightarrow> int (le_nat (le_bytes n v)) = v mod 256 ^ n"
proof (induction n arbitrary: v)
  case (Suc n)
  have "uint (word_of_int (v mod 256) :: u8) = v mod 256" by (simp add: uint_word_of_int)
  then have "int (unat (word_of_int (v mod 256) :: u8)) = v mod 256" by (simp only: uint_nat)
  moreover have "v mod 256 ^ Suc n = v mod 256 + 256 * (v div 256 mod 256 ^ n)" using zmod_zmult2_eq[of "256 ^ n" v 256] by simp
  ultimately show ?case using Suc by simp
qed simp

lemma slice_put:
  assumes "o' + k \<le> length img" "off + n \<le> o' \<or> o' + k \<le> off"
  shows "take n (drop off (put img (o', k, v))) = take n (drop off img)"
  using assms(2)
proof
  assume "off + n \<le> o'"
  then show ?thesis using assms(1) by (simp add: put_def take_drop)
next
  assume "o' + k \<le> off"
  then show ?thesis using assms(1) by (simp add: put_def)
qed

lemma put_entry:
  assumes "64 \<le> length img"
  shows "ehdr_at (put img (24, 8, uint v)) 0 = map_option (\<lambda>eh. eh\<lparr>e_entry := v\<rparr>) (ehdr_at img 0)"
    "32 \<le> off \<Longrightarrow> phdr_at (put img (24, 8, uint v)) off = phdr_at img off"
proof -
  have len: "length (put img (24, 8, uint v)) = length img" using assms by (simp add: length_put)
  have f: "field (put img (24, 8, uint v)) off n = field img off n" if "off + n \<le> 24 \<or> 32 \<le> off" for off n
    unfolding field_def using slice_put[of 24 8 img off n] that assms by simp
  have i: "take 16 (put img (24, 8, uint v)) = take 16 img" using slice_put[of 24 8 img 0 16] assms by simp
  have "take 8 (drop 24 (put img (24, 8, uint v))) = le_bytes 8 (uint v)" using assms by (simp add: put_def)
  moreover have "le_nat (le_bytes 8 (uint v)) = unat v"
  proof -
    have "uint v mod 256 ^ 8 = uint v" using uint_lt2p[of v] by (intro mod_pos_pos_trivial) simp_all
    then have "int (le_nat (le_bytes 8 (uint v))) = int (unat v)" using le_nat_le_bytes[of "uint v" 8] by simp
    then show ?thesis by (simp only: of_nat_eq_iff)
  qed
  ultimately have "le_nat (take 8 (drop 24 (put img (24, 8, uint v)))) = unat v" by (simp only:)
  then have e: "field (put img (24, 8, uint v)) 24 8 = v" by (simp add: field_def)
  show "ehdr_at (put img (24, 8, uint v)) 0 = map_option (\<lambda>eh. eh\<lparr>e_entry := v\<rparr>) (ehdr_at img 0)"
    using assms by (simp add: ehdr_at_def len i e f)
  show "phdr_at (put img (24, 8, uint v)) off = phdr_at img off" if "32 \<le> off"
    using that by (simp add: phdr_at_def len f)
qed

text \<open>
  C28. The planner does not relate the entry point to the segments. Whenever it accepts an image whose program headers do not overlap
  the field of the entry point, it accepts the image with any other address of the user region stored in
  that field, and plans the same segments: an entry point in no segment, or in one that is not executable,
  is planned like any other.
\<close>

theorem elf_entry_unchecked:
  assumes n: "n \<le> length img" "n < 2 ^ 64" and p8: "length (plan_segments plan) = 8"
    and acc: "m11_elf64_plan_load (Some img) (of_nat n) region (Some plan) = Some (M11_OK, Some p)"
    and ph: "32 \<le> unat (e_phoff (the (ehdr_at img 0)))"
    and v: "region_base region \<le> v" "v < region_limit region"
  shows "\<exists>p'. m11_elf64_plan_load (Some (put img (24, 8, uint v))) (of_nat n) region (Some plan) = Some (M11_OK, Some p') \<and>
    plan_entry p' = v \<and> planned p' = planned p"
proof -
  let ?i = "put img (24, 8, uint v)"
  from elf_plan_spec[OF n p8, of region] acc
  have ok: "64 \<le> n" "elf_ok img n region (the (ehdr_at img 0))" and pl: "planned p = elf_segments img (the (ehdr_at img 0))" by auto
  have l: "64 \<le> length img" using ok(1) n(1) by simp
  obtain eh where eh: "ehdr_at img 0 = Some eh" using l by (simp add: ehdr_at_def)
  have eh': "ehdr_at ?i 0 = Some (eh\<lparr>e_entry := v\<rparr>)" using put_entry(1)[OF l] eh by simp
  have "32 \<le> unat (e_phoff eh) + 56 * i" for i using ph eh by simp
  then have h: "headers ?i (unat (e_phoff eh)) is = headers img (unat (e_phoff eh)) is" for "is"
    unfolding headers_def using put_entry(2)[OF l] by simp
  have sg: "elf_segments ?i (eh\<lparr>e_entry := v\<rparr>) = elf_segments img eh" by (simp add: elf_segments_def h)
  have "elf_ok ?i n region (eh\<lparr>e_entry := v\<rparr>)"
    using ok(2) v unfolding eh option.sel elf_ok_def sg by (simp add: word_le_nat_alt word_less_nat_alt)
  moreover have "n \<le> length ?i" using n(1) l by (simp add: length_put)
  ultimately show ?thesis
    using elf_plan_spec[OF _ n(2) p8, of ?i region] ok(1) pl unfolding eh eh' option.sel sg by auto
qed

definition sample_plan :: m11_process_image_plan where
  "sample_plan = \<lparr>plan_entry = 0, plan_segment_count = 0, plan_segments = replicate 8 zero_segment\<rparr>"

theorem elf_plan_accepts_exactly_witness:
  "\<exists>p. m11_elf64_plan_load (Some smoke_image) 12288 smoke_region (Some sample_plan) = Some (M11_OK, Some p) \<and>
     planned p = smoke_segments"
proof -
  have n: "12288 \<le> length smoke_image" "(12288 :: nat) < 2 ^ 64" by (simp_all add: length_smoke_image)
  have "length (plan_segments sample_plan) = 8" by (simp add: sample_plan_def)
  from elf_plan_accepts_exactly[OF n this, of smoke_region] smoke_elf_ok
  show ?thesis unfolding smoke_elf_segments by auto
qed

text \<open>The image of the smoke test with its entry point moved to an address in no segment.\<close>

theorem elf_entry_unchecked_witness:
  "\<exists>p'. m11_elf64_plan_load (Some (put smoke_image (24, 8, 0x500000))) 12288 smoke_region (Some sample_plan) = Some (M11_OK, Some p') \<and>
     plan_entry p' = 0x500000 \<and> planned p' = smoke_segments"
proof -
  have p8: "length (plan_segments sample_plan) = 8" by (simp add: sample_plan_def)
  obtain p where p: "m11_elf64_plan_load (Some smoke_image) 12288 smoke_region (Some sample_plan) = Some (M11_OK, Some p)"
    "planned p = smoke_segments" by (rule smoke_test_run[OF p8])
  have n: "12288 \<le> length smoke_image" "(12288 :: nat) < 2 ^ 64" by (simp_all add: length_smoke_image)
  have acc: "m11_elf64_plan_load (Some smoke_image) (of_nat 12288) smoke_region (Some sample_plan) = Some (M11_OK, Some p)"
    using p(1) by (simp only: of_nat_numeral)
  have ph: "32 \<le> unat (e_phoff (the (ehdr_at smoke_image 0)))" by (simp only: smoke_ehdr) simp
  have v: "region_base smoke_region \<le> 0x500000" "0x500000 < region_limit smoke_region" by (simp_all add: smoke_region_def)
  have u: "uint (0x500000 :: u64) = 0x500000" by simp
  show ?thesis using elf_entry_unchecked[OF n p8 acc ph v] unfolding u p(2) of_nat_numeral .
qed

text \<open>Every status has its own name.\<close>

lemma error_name_inj: "m11_error_name (m11_code a) = m11_error_name (m11_code b) \<longleftrightarrow> a = b"
  by (cases a; cases b) (simp_all add: m11_error_name_def)

end
