(* ===== verification/Boot.thy ===== *)
theory Boot
  imports Kernel_Heap Core Elf
begin

text \<open>
  The start of the kernel: \<^verbatim>\<open>kmain\<close> of \<^verbatim>\<open>src/kernel.c\<close> with the demo threads it starts, and \<^verbatim>\<open>kmain\<close> of
  \<^verbatim>\<open>kernel/core/kmain.c\<close>. The model is the composition of the components in the order of the code, over one record
  of the kernel's globals. Addresses the linker chooses and locals that are not initialised are a parameter. Statements
  run one after another: interrupts that arrive between them are the subject of \<open>Interrupts\<close>. The compiler's choices for
  the demo threads are parameters too: the bytes their frames take from the entry to the context switch, and what the code
  leaves in the other saved registers.
\<close>

section \<open>Model: the globals and the console\<close>

record kernel =
  k_sys :: "mach sys"
  k_mm :: kernel_mm
  kernel_space :: "kernel_mm vmm_space"
  k_heap :: kmem
  k_log_ready :: int
  interrupts_on :: bool

record image =
  im_cs :: u16
  im_stubs :: "u64 list"
  im_idt :: u64
  im_int80 :: u64
  im_heap :: u64
  im_boot_thread :: u64
  im_thread_a :: u64
  im_thread_b :: u64
  im_boot_name :: u64
  im_name_a :: u64
  im_name_b :: u64
  im_demo_a :: u64
  im_demo_b :: u64
  im_stack_a :: u64
  im_stack_b :: u64
  im_frames_a :: u64
  im_frames_b :: u64
  im_regs_a :: "mcsos_context \<Rightarrow> mcsos_context"
  im_regs_b :: "mcsos_context \<Rightarrow> mcsos_context"
  im_stats :: kmem_stats
  im_plan :: m11_process_image_plan

definition on_k :: "(mach \<Rightarrow> mach option) \<Rightarrow> kernel \<Rightarrow> kernel option" where
  "on_k f k = map_option (\<lambda>s. k\<lparr>k_sys := s\<rparr>) (on_machine f (k_sys k))"

definition set_mach :: "(mach \<Rightarrow> mach) \<Rightarrow> kernel \<Rightarrow> kernel" where
  "set_mach f k = k\<lparr>k_sys := (k_sys k)\<lparr>machine := f (machine (k_sys k))\<rparr>\<rparr>"

definition ports :: "(io \<Rightarrow> io) \<Rightarrow> kernel \<Rightarrow> kernel" where
  "ports f = set_mach (\<lambda>m. m\<lparr>m_io := f (m_io m)\<rparr>)"

definition say :: "device \<Rightarrow> string \<Rightarrow> kernel \<Rightarrow> kernel option" where
  "say dev s = on_k (print_string dev s)"

definition print_console :: "device \<Rightarrow> console \<Rightarrow> mach \<Rightarrow> mach option" where
  "print_console dev c = (case c of Text s \<Rightarrow> print_string dev s | Hex64 v \<Rightarrow> print_hex64 dev v)"

definition say_all :: "device \<Rightarrow> console list \<Rightarrow> kernel \<Rightarrow> kernel option" where
  "say_all dev cs = on_k (each (print_console dev) cs)"

text \<open>Output through the log of \<^verbatim>\<open>kernel/core/log.c\<close>: a string that ends a line is what \<^verbatim>\<open>log_writeln\<close> prints.\<close>

definition log_console :: "device \<Rightarrow> console \<Rightarrow> log \<Rightarrow> log option" where
  "log_console dev c =
     (case c of
        Text s \<Rightarrow> if s \<noteq> [] \<and> last s = CHR 0x0A then log_writeln dev (butlast s) else log_write dev s
      | Hex64 v \<Rightarrow> log_hex64 dev v)"

definition log_all :: "device \<Rightarrow> console list \<Rightarrow> kernel \<Rightarrow> kernel option" where
  "log_all dev cs k =
     map_option (\<lambda>l. (ports (\<lambda>_. log_io l) k)\<lparr>k_log_ready := g_log_ready l\<rparr>)
       (each (log_console dev) cs \<lparr>g_log_ready = k_log_ready k, log_io = m_io (machine (k_sys k))\<rparr>)"

section \<open>Model: kmain\<close>

definition interrupts_up :: "device \<Rightarrow> image \<Rightarrow> kernel \<Rightarrow> kernel option" where
  "interrupts_up dev im k =
     do {
       k \<leftarrow> Some (ports serial_init (k\<lparr>interrupts_on := False\<rparr>));
       k \<leftarrow> say dev (nl ''MCSOS M8 boot'') k;
       k \<leftarrow> say dev (nl ''[MCSOS:M5] boot: external interrupt bring-up start'') k;
       k \<leftarrow> Some (set_mach (idt_init (im_cs im) (im_stubs im) (im_idt im)) k);
       k \<leftarrow> say dev (nl ''[MCSOS:M5] idt: loaded'') k;
       k \<leftarrow> Some (ports (\<lambda>x. pic_unmask_irq dev 0 (pic_mask_all (pic_remap dev PIC_MASTER_OFFSET PIC_SLAVE_OFFSET x))) k);
       k \<leftarrow> say dev ''[MCSOS:M5] pic: remapped; mask master='' k;
       k \<leftarrow> on_k (\<lambda>m. case pic_read_master_mask dev (m_io m) of (v, x) \<Rightarrow> print_hex64 dev (ucast v) (m\<lparr>m_io := x\<rparr>)) k;
       k \<leftarrow> say dev '' slave='' k;
       k \<leftarrow> on_k (\<lambda>m. case pic_read_slave_mask dev (m_io m) of (v, x) \<Rightarrow> print_hex64 dev (ucast v) (m\<lparr>m_io := x\<rparr>)) k;
       k \<leftarrow> say dev (nl '''') k;
       k \<leftarrow> Some (ports (pit_configure_hz 100) k);
       k \<leftarrow> say dev (nl ''[MCSOS:M5] pit: configured 100Hz'') k;
       k \<leftarrow> say dev (nl ''[MCSOS:M5] sti: enabling interrupts'') k;
       Some (k\<lparr>interrupts_on := True\<rparr>)
     }"

definition memory_up :: "device \<Rightarrow> image \<Rightarrow> kernel \<Rightarrow> kernel option" where
  "memory_up dev im k =
     do {
       k \<leftarrow> (case kernel_memory_init (k_mm k) of (out, mm) \<Rightarrow> say_all dev out (k\<lparr>k_mm := mm\<rparr>));
       k \<leftarrow> (case kernel_vmm_init (k_mm k) (kernel_space k) of (out, mm, sp) \<Rightarrow> say_all dev out (k\<lparr>k_mm := mm, kernel_space := sp\<rparr>));
       (out, h) \<leftarrow> kernel_heap_init (im_heap im) (im_stats im) (k_heap k);
       k \<leftarrow> say_all dev out (k\<lparr>k_heap := h\<rparr>);
       say dev (nl ''M8 ready'') k
     }"

text \<open>The results of the scheduler calls are ignored by the code. The stacks are arrays of 8192 bytes.\<close>

definition threads_up :: "image \<Rightarrow> mach \<Rightarrow> mach" where
  "threads_up im m =
     (let (_, w, sc) = mcsos_scheduler_init (im_boot_name im) (m_threads m) (Some (g_sched m)) (im_boot_thread im);
          s = the sc;
          (_, w) = mcsos_thread_prepare w (im_thread_a im) (im_name_a im) (im_demo_a im) 0 (im_stack_a im) 8192 (next_id s);
          s = s\<lparr>next_id := next_id s + 1\<rparr>;
          (_, w) = mcsos_thread_prepare w (im_thread_b im) (im_name_b im) (im_demo_b im) 0 (im_stack_b im) 8192 (next_id s);
          s = s\<lparr>next_id := next_id s + 1\<rparr>;
          (_, w, sc) = mcsos_sched_enqueue w (Some s) (im_thread_a im);
          (_, w, sc) = mcsos_sched_enqueue w sc (im_thread_b im)
      in m\<lparr>m_threads := w, g_sched := the sc\<rparr>)"

definition syscalls_up :: "device \<Rightarrow> image \<Rightarrow> kernel \<Rightarrow> kernel outcome option" where
  "syscalls_up dev im k =
     do {
       k \<leftarrow> Some (k\<lparr>k_sys := mcsos_syscall_init (Some (kernel_syscall_ops dev)) (k_sys k)\<rparr>);
       k \<leftarrow> Some (set_mach (idt_install_gate (im_cs im) 0x80 (im_int80 im) 0x8E) k);
       k \<leftarrow> say dev (nl ''[M10] IDT vector 0x80 installed'') k;
       k \<leftarrow> Some (k\<lparr>k_sys := mcsos_syscall_set_user_region \<lparr>ur_base = 0x0000000000400000, ur_limit = 0x0000800000000000\<rparr> (k_sys k)\<rparr>);
       k \<leftarrow> say dev (nl ''[M10] syscall init'') k;
       r \<leftarrow> m10_syscall_smoke dev (k_sys k);
       Some (case r of Returned s \<Rightarrow> Returned (k\<lparr>k_sys := s\<rparr>) | Halted s \<Rightarrow> Halted (k\<lparr>k_sys := s\<rparr>))
     }"

text \<open>
  The last call switches to the first ready thread: the result is the state in which that thread runs. The call
  returns, to the loop that halts, when the boot thread is elected again.
\<close>

definition kmain :: "device \<Rightarrow> image \<Rightarrow> kernel \<Rightarrow> kernel outcome option" where
  "kmain dev im k =
     do {
       k \<leftarrow> interrupts_up dev im k;
       k \<leftarrow> memory_up dev im k;
       k \<leftarrow> say dev (nl ''[M9] scheduler initialized'') (set_mach (threads_up im) k);
       out \<leftarrow> m11_integration_smoke_test (im_plan im);
       k \<leftarrow> log_all dev out k;
       r \<leftarrow> syscalls_up dev im k;
       Some (case r of Returned k \<Rightarrow> Returned (set_mach k_yield_current k) | Halted k \<Rightarrow> Halted k)
     }"

text \<open>
  One round of the loops of the demo threads. The first round of a thread starts at its entry and pushes the frames down to
  the context switch; a later one starts where the switch returns, on those frames.
\<close>

definition at_switch :: "u64 \<Rightarrow> u64 \<Rightarrow> (mcsos_context \<Rightarrow> mcsos_context) \<Rightarrow> mach \<Rightarrow> mach" where
  "at_switch entry frames regs m =
     (let w = m_threads m; c = cpu w
      in m\<lparr>m_threads := w\<lparr>cpu := (regs c)\<lparr>rsp := if rip c = entry then rsp c - frames else rsp c, rip := resume_label w\<rparr>\<rparr>\<rparr>)"

definition demo_thread_a :: "device \<Rightarrow> image \<Rightarrow> kernel \<Rightarrow> kernel option" where
  "demo_thread_a dev im k =
     do {
       k \<leftarrow> say dev (nl ''[M9] thread A tick'') k;
       Some (set_mach k_yield_current (set_mach (at_switch (im_demo_a im) (im_frames_a im) (im_regs_a im)) k))
     }"

definition demo_thread_b :: "device \<Rightarrow> image \<Rightarrow> kernel \<Rightarrow> kernel option" where
  "demo_thread_b dev im k =
     do {
       k \<leftarrow> say dev (nl ''[M9] thread B tick'') k;
       Some (set_mach k_yield_current (set_mach (at_switch (im_demo_b im) (im_frames_b im) (im_regs_b im)) k))
     }"

text \<open>
  The code that runs next, read off the processor: the entry of a loop, or the return from the context switch into the
  loop on whose stack the stack pointer is. \<open>None\<close> for anything else, as for the boot thread, which halts.
\<close>

definition on_stack :: "u64 \<Rightarrow> u64 \<Rightarrow> bool" where
  "on_stack base p \<longleftrightarrow> unat base \<le> unat p \<and> unat p < unat base + 8192"

definition demo_loop :: "image \<Rightarrow> threads \<Rightarrow> bool option" where
  "demo_loop im w =
     (if rip (cpu w) = im_demo_a im then Some True
      else if rip (cpu w) = im_demo_b im then Some False
      else if rip (cpu w) = resume_label w then
        if on_stack (im_stack_a im) (rsp (cpu w)) then Some True
        else if on_stack (im_stack_b im) (rsp (cpu w)) then Some False
        else None
      else None)"

definition demo_round :: "device \<Rightarrow> image \<Rightarrow> kernel \<Rightarrow> kernel option" where
  "demo_round dev im k =
     do {
       a \<leftarrow> demo_loop im (m_threads (machine (k_sys k)));
       if a then demo_thread_a dev im k else demo_thread_b dev im k
     }"

fun demo_rounds :: "device \<Rightarrow> image \<Rightarrow> nat \<Rightarrow> kernel \<Rightarrow> kernel option" where
  "demo_rounds dev im 0 k = Some k"
| "demo_rounds dev im (Suc n) k = Option.bind (demo_round dev im k) (demo_rounds dev im n)"

section \<open>Model: kmain of the first kernel\<close>

text \<open>
  The assertions of the self-test, with their lines and texts. \<open>rflags\<close> and \<open>rflags'\<close> are the flags the start-up and a
  panic read, \<open>file\<close> the name of the source file.
\<close>

definition m4_asserts :: "u64 \<Rightarrow> u64 \<Rightarrow> x86_64_idtr \<Rightarrow> (bool \<times> int \<times> string) list" where
  "m4_asserts kernel_start kernel_end r =
     [(kernel_end > kernel_start, 13, ''__kernel_end > __kernel_start''),
      ((64 :: nat) div 8 = 8, 14, ''sizeof(uintptr_t) == 8u''),
      ((16 + 16 + 8 + 8 + 16 + 32 + 32 :: nat) div 8 = 16, 15, ''sizeof(x86_64_idt_entry_t) == 16u''),
      (x86_64_idt_base_for_test r \<noteq> 0, 16, ''x86_64_idt_base_for_test() != 0u''),
      (x86_64_idt_limit_for_test r = 4095, 17, ''x86_64_idt_limit_for_test() == 4095u'')]"

definition m4_selftest :: "device \<Rightarrow> u64 \<Rightarrow> string \<Rightarrow> u64 \<Rightarrow> u64 \<Rightarrow> x86_64_idtr \<Rightarrow> log \<Rightarrow> log outcome option" where
  "m4_selftest dev rflags' file kernel_start kernel_end r l =
     (case find (\<lambda>(c, _). \<not> c) (m4_asserts kernel_start kernel_end r) of
        Some (_, n, e) \<Rightarrow> map_option Halted (kernel_panic_at dev rflags' (Some file) n (Some (''assertion failed: '' @ e)) 0xA55E4710 l)
      | None \<Rightarrow> map_option Returned (log_writeln dev ''[M4] selftest: IDT invariants passed'' l))"

text \<open>The processor is halted at the end on every path. The build flags that trigger a breakpoint or a panic are off.\<close>

definition core_kmain ::
  "device \<Rightarrow> u64 \<Rightarrow> u64 \<Rightarrow> string \<Rightarrow> u64 \<Rightarrow> u64 \<Rightarrow> u64 list \<Rightarrow> u64 \<Rightarrow> m11_process_image_plan \<Rightarrow> x86_64_idt_entry list \<Rightarrow> log \<Rightarrow>
    (x86_64_idt_entry list \<times> log) option" where
  "core_kmain dev rflags rflags' file kernel_start kernel_end stubs base plan idt l =
     do {
       l \<leftarrow> log_write dev MCSOS_NAME (log_init l);
       l \<leftarrow> log_write dev '' '' l;
       l \<leftarrow> log_write dev MCSOS_VERSION l;
       l \<leftarrow> log_write dev '' '' l;
       l \<leftarrow> log_write dev MCSOS_MILESTONE l;
       l \<leftarrow> log_writeln dev '' kernel entered'' l;
       l \<leftarrow> log_key_value_hex64 dev ''kernel_start'' kernel_start l;
       l \<leftarrow> log_key_value_hex64 dev ''kernel_end'' kernel_end l;
       l \<leftarrow> log_key_value_hex64 dev ''rflags_before_idt'' rflags l;
       (idt, r, l) \<leftarrow> x86_64_idt_init dev stubs base idt l;
       t \<leftarrow> m4_selftest dev rflags' file kernel_start kernel_end r l;
       (case t of
          Halted l \<Rightarrow> Some (idt, l)
        | Returned l \<Rightarrow>
            do {
              l \<leftarrow> log_writeln dev ''[M4] IDT and exception dispatch path installed'' l;
              l \<leftarrow> log_writeln dev ''[M4] ready for QEMU smoke test and GDB audit'' l;
              out \<leftarrow> m11_integration_smoke_test plan;
              l \<leftarrow> each (log_console dev) out l;
              Some (idt, l)
            })
     }"

section \<open>Steps that only print\<close>

text \<open>The globals without what only output changes.\<close>

definition strip :: "kernel \<Rightarrow> kernel" where
  "strip k = (ports (\<lambda>_. \<lparr>reads = 0, outs = []\<rparr>) k)\<lparr>k_log_ready := 0\<rparr>"

definition kouts :: "kernel \<Rightarrow> (u16 \<times> u8) list" where
  "kouts k = outs (m_io (machine (k_sys k)))"

abbreviation pic_addrs :: "u16 set" where
  "pic_addrs \<equiv> {PIC1_COMMAND, PIC1_DATA, PIC2_COMMAND, PIC2_DATA}"

definition quiet :: "kernel \<Rightarrow> kernel \<Rightarrow> bool" where
  "quiet k k' \<longleftrightarrow> strip k' = strip k \<and> (\<exists>xs. kouts k' = kouts k @ xs \<and> (\<forall>x \<in> set xs. fst x \<notin> pic_addrs))"

lemma quiet_refl: "quiet k k"
  by (simp add: quiet_def)

lemma quiet_trans: "quiet k k1 \<Longrightarrow> quiet k1 k2 \<Longrightarrow> quiet k k2"
proof -
  assume a: "quiet k k1" "quiet k1 k2"
  then obtain xs ys where "kouts k1 = kouts k @ xs" "kouts k2 = kouts k1 @ ys"
    "\<forall>x \<in> set xs. fst x \<notin> pic_addrs" "\<forall>x \<in> set ys. fst x \<notin> pic_addrs"
    unfolding quiet_def by blast
  with a show ?thesis unfolding quiet_def by (intro conjI exI[of _ "xs @ ys"]) (simp_all add: ball_Un)
qed

lemma quiet_bind:
  assumes "\<exists>k'. f k = Some k' \<and> quiet k k'" "\<And>k. \<exists>k'. g k = Some k' \<and> quiet k k'"
  shows "\<exists>k'. Option.bind (f k) g = Some k' \<and> quiet k k'"
  using assms quiet_trans by fastforce

lemma serial_ports: "COM1 \<noteq> PIC1_COMMAND" "COM1 \<noteq> PIC1_DATA" "COM1 \<noteq> PIC2_COMMAND" "COM1 \<noteq> PIC2_DATA"
  by (auto simp: COM1_def pic_ports)

lemma strip_ports: "strip (ports f k) = strip k"
  by (simp add: strip_def ports_def set_mach_def)

lemma on_k_quiet:
  assumes "\<exists>m'. f (machine (k_sys k)) = Some m' \<and> printed (machine (k_sys k)) m'"
  shows "\<exists>k'. on_k f k = Some k' \<and> quiet k k'"
proof -
  obtain m' where m: "f (machine (k_sys k)) = Some m'" "printed (machine (k_sys k)) m'" using assms by blast
  obtain n cs where e: "m' = (machine (k_sys k))\<lparr>m_io := \<lparr>reads = n, outs = outs (m_io (machine (k_sys k))) @ map (Pair COM1) cs\<rparr>\<rparr>"
    by (rule printedE[OF m(2)])
  have "on_k f k = Some (ports (\<lambda>x. \<lparr>reads = n, outs = outs x @ map (Pair COM1) cs\<rparr>) k)"
    by (simp add: on_k_def on_machine_def m(1) e ports_def set_mach_def)
  moreover have "quiet k (ports (\<lambda>x. \<lparr>reads = n, outs = outs x @ map (Pair COM1) cs\<rparr>) k)"
    unfolding quiet_def strip_ports by (simp add: kouts_def ports_def set_mach_def serial_ports)
  ultimately show ?thesis by blast
qed

lemma each_printed:
  assumes "\<And>x m. \<exists>m'. f x m = Some m' \<and> printed m m'"
  shows "\<exists>m'. each f xs m = Some m' \<and> printed m m'"
proof (induction xs arbitrary: m)
  case (Cons x xs)
  show ?case unfolding each.simps by (rule printed_bind[OF assms Cons])
qed (use printed_refl in simp)

lemma say_quiet:
  assumes "drains dev"
  shows "\<exists>k'. say dev s k = Some k' \<and> quiet k k'" "\<exists>k'. say_all dev cs k = Some k' \<and> quiet k k'"
proof -
  show "\<exists>k'. say dev s k = Some k' \<and> quiet k k'" unfolding say_def by (intro on_k_quiet print_printed[OF assms])
  have "\<exists>m'. print_console dev c m = Some m' \<and> printed m m'" for c m
    by (cases c) (simp_all add: print_console_def print_printed[OF assms])
  then show "\<exists>k'. say_all dev cs k = Some k' \<and> quiet k k'" unfolding say_all_def by (intro on_k_quiet each_printed)
qed

lemma each_logged:
  assumes "\<And>x l. \<exists>l'. f x l = Some l' \<and> logged l l'" "g_log_ready l \<noteq> 0"
  shows "\<exists>l'. each f xs l = Some l' \<and> logged l l'"
  using assms(2)
proof (induction xs arbitrary: l)
  case Nil
  have "logged l l" using Nil by (auto simp: logged_def opened_port_def intro!: exI[of _ "[]"])
  then show ?case by simp
next
  case (Cons x xs)
  obtain l1 where l1: "f x l = Some l1" "logged l l1" using assms(1) by blast
  then have "g_log_ready l1 \<noteq> 0" by (simp add: logged_def)
  from Cons.IH[OF this] l1 logged_trans show ?case by fastforce
qed

lemma log_console_logged:
  assumes "drains dev"
  shows "\<exists>l'. log_console dev c l = Some l' \<and> logged l l'"
  by (cases c) (simp_all add: log_console_def writeln_logged[OF assms] putc_write_logged[OF assms] hex64_logged[OF assms])

lemma serial_init_ports: "\<exists>xs. outs (serial_init m) = outs m @ xs \<and> (\<forall>x \<in> set xs. fst x \<notin> pic_addrs)"
  by (simp add: serial_init_def outb_def COM1_def pic_ports)

lemma log_all_quiet:
  assumes r: "drains dev" and "cs \<noteq> []"
  shows "\<exists>k'. log_all dev cs k = Some k' \<and> quiet k k'"
proof -
  let ?l = "\<lparr>g_log_ready = k_log_ready k, log_io = m_io (machine (k_sys k))\<rparr>"
  obtain c cs' where cs: "cs = c # cs'" using assms(2) by (cases cs) auto
  obtain l1 where l1: "log_console dev c ?l = Some l1" "logged ?l l1" using log_console_logged[OF r] by blast
  then have "g_log_ready l1 \<noteq> 0" by (simp add: logged_def)
  then obtain l2 where l2: "each (log_console dev) cs' l1 = Some l2" "logged l1 l2" using each_logged[of "log_console dev", OF log_console_logged[OF r]] by blast
  obtain ys where ys: "outs (log_io l2) = outs (opened_port ?l) @ map (Pair COM1) ys"
    using logged_trans[OF l1(2) l2(2)] by (auto simp: logged_def)
  obtain xs where xs: "outs (opened_port ?l) = kouts k @ xs" "\<forall>x \<in> set xs. fst x \<notin> pic_addrs"
  proof (cases "k_log_ready k = 0")
    case True
    then show ?thesis using serial_init_ports[of "m_io (machine (k_sys k))"] that by (auto simp: opened_port_def kouts_def)
  next
    case False
    then show ?thesis using that[of "[]"] by (simp add: opened_port_def kouts_def)
  qed
  let ?k = "(ports (\<lambda>_. log_io l2) k)\<lparr>k_log_ready := g_log_ready l2\<rparr>"
  have "log_all dev cs k = Some ?k" by (simp add: log_all_def cs l1(1) l2(1))
  moreover have "strip ?k = strip k" by (simp add: strip_def ports_def set_mach_def)
  moreover have "kouts ?k = kouts k @ xs @ map (Pair COM1) ys" using ys xs(1) by (simp add: kouts_def ports_def set_mach_def)
  moreover have "\<forall>x \<in> set (xs @ map (Pair COM1) ys). fst x \<notin> pic_addrs" using xs(2) serial_ports by auto
  ultimately show ?thesis unfolding quiet_def by blast
qed

lemma strip_update:
  "strip (k\<lparr>k_mm := a\<rparr>) = (strip k)\<lparr>k_mm := a\<rparr>" "strip (k\<lparr>kernel_space := b\<rparr>) = (strip k)\<lparr>kernel_space := b\<rparr>"
  "strip (k\<lparr>k_heap := c\<rparr>) = (strip k)\<lparr>k_heap := c\<rparr>" "strip (k\<lparr>interrupts_on := d\<rparr>) = (strip k)\<lparr>interrupts_on := d\<rparr>"
  by (simp_all add: strip_def ports_def set_mach_def)

lemma strip_fields:
  assumes "strip k' = strip k"
  shows "k_mm k' = k_mm k" "kernel_space k' = kernel_space k" "k_heap k' = k_heap k" "interrupts_on k' = interrupts_on k"
    "sys_ops (k_sys k') = sys_ops (k_sys k)" "user_region (k_sys k') = user_region (k_sys k)"
    "g_idt (machine (k_sys k')) = g_idt (machine (k_sys k))" "idtr (machine (k_sys k')) = idtr (machine (k_sys k))"
    "m_threads (machine (k_sys k')) = m_threads (machine (k_sys k))" "g_sched (machine (k_sys k')) = g_sched (machine (k_sys k))"
    "g_ticks (machine (k_sys k')) = g_ticks (machine (k_sys k))"
  using arg_cong[OF assms, of k_mm] arg_cong[OF assms, of kernel_space] arg_cong[OF assms, of k_heap] arg_cong[OF assms, of interrupts_on]
    arg_cong[OF assms, of "\<lambda>k. sys_ops (k_sys k)"] arg_cong[OF assms, of "\<lambda>k. user_region (k_sys k)"]
    arg_cong[OF assms, of "\<lambda>k. g_idt (machine (k_sys k))"] arg_cong[OF assms, of "\<lambda>k. idtr (machine (k_sys k))"]
    arg_cong[OF assms, of "\<lambda>k. m_threads (machine (k_sys k))"] arg_cong[OF assms, of "\<lambda>k. g_sched (machine (k_sys k))"]
    arg_cong[OF assms, of "\<lambda>k. g_ticks (machine (k_sys k))"]
  by (simp_all add: strip_def ports_def set_mach_def)

section \<open>The stages of the start\<close>

subsection \<open>Interrupts\<close>

definition timer_only :: "kernel \<Rightarrow> bool" where
  "timer_only k \<longleftrightarrow> timer_open (kouts k)"

lemma timer_only_quiet: "timer_only k \<Longrightarrow> quiet k k' \<Longrightarrow> timer_only k'"
  unfolding timer_only_def quiet_def using timer_open_append by metis

lemma timer_only_masks:
  assumes "pic_8259 dev" "timer_only k"
  shows "fst (pic_read_master_mask dev (m_io (machine (k_sys k)))) = 0xFE" "fst (pic_read_slave_mask dev (m_io (machine (k_sys k)))) = 0xFF"
  using timer_open_masks[OF assms(1)] assms(2) by (simp_all add: timer_only_def kouts_def)

lemma unpolled_quiet: "unpolled (kouts k) \<Longrightarrow> quiet k k' \<Longrightarrow> unpolled (kouts k')"
  by (force simp: quiet_def unpolled_def)

lemma say_run:
  assumes "drains dev"
  obtains k' where "say dev s k = Some k'" "quiet k k'"
  using say_quiet(1)[OF assms] by blast

lemma mask_print_quiet:
  assumes r: "drains dev" and "\<And>x. outs (snd (f x)) = outs x"
  shows "\<exists>k'. on_k (\<lambda>m. case f (m_io m) of (v, x) \<Rightarrow> print_hex64 dev (ucast (v :: u8)) (m\<lparr>m_io := x\<rparr>)) k = Some k' \<and> quiet k k'"
proof (rule on_k_quiet)
  let ?m = "machine (k_sys k)"
  obtain v x where f: "f (m_io ?m) = (v, x)" by fastforce
  have o: "outs x = outs (m_io ?m)" using assms(2)[of "m_io ?m"] f by simp
  obtain m' where m: "print_hex64 dev (ucast v) (?m\<lparr>m_io := x\<rparr>) = Some m'" "printed (?m\<lparr>m_io := x\<rparr>) m'" using print_printed(2)[OF r] by blast
  then have "printed ?m m'" by (auto simp: printed_def o)
  with m f show "\<exists>m'. (case f (m_io ?m) of (v, x) \<Rightarrow> print_hex64 dev (ucast v) (?m\<lparr>m_io := x\<rparr>)) = Some m' \<and> printed ?m m'" by simp
qed

lemma strip_set_mach:
  assumes "\<And>m x. f (m\<lparr>m_io := x\<rparr>) = (f m)\<lparr>m_io := x\<rparr>"
  shows "strip (set_mach f k) = set_mach f (strip k)"
  by (simp add: strip_def ports_def set_mach_def assms)

lemma pit_quiet: "quiet k (ports (pit_configure_hz hz) k)"
  unfolding quiet_def strip_ports by (simp add: kouts_def ports_def set_mach_def pit_configure_hz_def Let_def outb_def PIT_COMMAND_def PIT_CHANNEL0_def pic_ports)

lemma interrupts_up_spec:
  assumes r: "drains dev" and m: "pic_8259 dev" "unpolled (kouts k)"
  obtains k' where "interrupts_up dev im k = Some k'"
    "strip k' = strip (set_mach (idt_init (im_cs im) (im_stubs im) (im_idt im)) (k\<lparr>interrupts_on := True\<rparr>))" "timer_only k'"
proof -
  let ?k0 = "ports serial_init (k\<lparr>interrupts_on := False\<rparr>)"
  obtain k1 where k1: "say dev (nl ''MCSOS M8 boot'') ?k0 = Some k1" "quiet ?k0 k1" by (rule say_run[OF r])
  obtain k2 where k2: "say dev (nl ''[MCSOS:M5] boot: external interrupt bring-up start'') k1 = Some k2" "quiet k1 k2" by (rule say_run[OF r])
  let ?k2 = "set_mach (idt_init (im_cs im) (im_stubs im) (im_idt im)) k2"
  obtain k3 where k3: "say dev (nl ''[MCSOS:M5] idt: loaded'') ?k2 = Some k3" "quiet ?k2 k3" by (rule say_run[OF r])
  let ?k3 = "ports (\<lambda>x. pic_unmask_irq dev 0 (pic_mask_all (pic_remap dev PIC_MASTER_OFFSET PIC_SLAVE_OFFSET x))) k3"
  have "unpolled (kouts ?k0)"
    using m(2) by (simp add: kouts_def ports_def set_mach_def serial_init_def outb_def unpolled_def COM1_def pic_ports)
  then have "unpolled (kouts k2)" by (rule unpolled_quiet[OF _ quiet_trans[OF k1(2) k2(2)]])
  then have "unpolled (kouts ?k2)" by (simp add: kouts_def set_mach_def idt_init_def)
  then have "unpolled (outs (m_io (machine (k_sys k3))))" using unpolled_quiet[OF _ k3(2)] by (simp add: kouts_def)
  then have t: "timer_only ?k3" using boot_masks[OF m(1)] by (simp add: timer_only_def kouts_def ports_def set_mach_def)
  obtain k4 where k4: "say dev ''[MCSOS:M5] pic: remapped; mask master='' ?k3 = Some k4" "quiet ?k3 k4" by (rule say_run[OF r])
  obtain k5 where k5: "on_k (\<lambda>m. case pic_read_master_mask dev (m_io m) of (v, x) \<Rightarrow> print_hex64 dev (ucast v) (m\<lparr>m_io := x\<rparr>)) k4 = Some k5" "quiet k4 k5"
    using mask_print_quiet[OF r, of "pic_read_master_mask dev"] by (auto simp: pic_read_master_mask_def inb_def)
  obtain k6 where k6: "say dev '' slave='' k5 = Some k6" "quiet k5 k6" by (rule say_run[OF r])
  obtain k7 where k7: "on_k (\<lambda>m. case pic_read_slave_mask dev (m_io m) of (v, x) \<Rightarrow> print_hex64 dev (ucast v) (m\<lparr>m_io := x\<rparr>)) k6 = Some k7" "quiet k6 k7"
    using mask_print_quiet[OF r, of "pic_read_slave_mask dev"] by (auto simp: pic_read_slave_mask_def inb_def)
  obtain k8 where k8: "say dev (nl '''') k7 = Some k8" "quiet k7 k8" by (rule say_run[OF r])
  let ?k8 = "ports (pit_configure_hz 100) k8"
  obtain k9 where k9: "say dev (nl ''[MCSOS:M5] pit: configured 100Hz'') ?k8 = Some k9" "quiet ?k8 k9" by (rule say_run[OF r])
  obtain k10 where k10: "say dev (nl ''[MCSOS:M5] sti: enabling interrupts'') k9 = Some k10" "quiet k9 k10" by (rule say_run[OF r])
  have run: "interrupts_up dev im k = Some (k10\<lparr>interrupts_on := True\<rparr>)"
    by (simp only: interrupts_up_def Option.bind.simps k1(1) k2(1) k3(1) k4(1) k5(1) k6(1) k7(1) k8(1) k9(1) k10(1))
  have q: "quiet ?k3 k10"
    by (rule quiet_trans[OF k4(2) quiet_trans[OF k5(2) quiet_trans[OF k6(2) quiet_trans[OF k7(2) quiet_trans[OF k8(2)
      quiet_trans[OF pit_quiet quiet_trans[OF k9(2) k10(2)]]]]]]])
  have i: "strip (set_mach (idt_init cs st b) k) = set_mach (idt_init cs st b) (strip k)" for cs st b k
    by (rule strip_set_mach) (simp add: idt_init_def)
  have "strip k10 = set_mach (idt_init (im_cs im) (im_stubs im) (im_idt im)) (strip (k\<lparr>interrupts_on := False\<rparr>))"
    using q k3(2) quiet_trans[OF k1(2) k2(2)] by (simp add: quiet_def strip_ports i)
  then have "strip (k10\<lparr>interrupts_on := True\<rparr>) = strip (set_mach (idt_init (im_cs im) (im_stubs im) (im_idt im)) (k\<lparr>interrupts_on := True\<rparr>))"
    by (simp add: strip_update i) (simp add: set_mach_def)
  moreover have "timer_only (k10\<lparr>interrupts_on := True\<rparr>)" using timer_only_quiet[OF t q] by (simp add: timer_only_def kouts_def)
  ultimately show ?thesis using that[OF run] by blast
qed

subsection \<open>Memory\<close>

lemma quiet_update:
  assumes "quiet k k'"
  shows "quiet (k\<lparr>k_mm := a\<rparr>) (k'\<lparr>k_mm := a\<rparr>)" "quiet (k\<lparr>k_mm := a, kernel_space := b\<rparr>) (k'\<lparr>k_mm := a, kernel_space := b\<rparr>)"
    "quiet (k\<lparr>k_heap := c\<rparr>) (k'\<lparr>k_heap := c\<rparr>)"
  using assms by (simp_all add: quiet_def strip_update) (simp_all add: kouts_def)

lemma say_all_run:
  assumes "drains dev"
  obtains k' where "say_all dev cs k = Some k'" "quiet k k'"
  using say_quiet(2)[OF assms] by blast

lemma memory_up_spec:
  assumes r: "drains dev"
    and mm: "length (kernel_pmm_bitmap (k_mm k)) = unat PMM_BITMAP_BYTES" "unat (hhdm_offset (k_mm k)) + 2 ^ 52 \<le> 2 ^ 64"
      "\<And>i. i < 512 \<Longrightarrow> mem m (slot (hhdm_offset (k_mm k) + 0x1000) i) = 0"
    and heap: "4096 \<le> unat (im_heap im)" "4096 dvd unat (im_heap im)" "unat (im_heap im) + 0x10000 < 2 ^ 64"
  obtains k' mm sp h s where "memory_up dev im k = Some k'" "quiet (k\<lparr>k_mm := mm, kernel_space := sp, k_heap := h\<rparr>) k'"
    "kernel_space_ok sp m" "page_map sp m = Map.empty" "ctx sp = mm" "free_set (kernel_pmm mm) = boot_frames - {1}"
    "heap_ok h [(s, 65488, True)]"
proof (rule kernel_boot_space[OF mm, of "kernel_space k"])
  fix out k1 k2 sp
  assume b: "kernel_memory_init (k_mm k) = (out, k1)" "kernel_vmm_init k1 (kernel_space k) = ([line ''M7 VMM core initialized''], k2, sp)"
    "kernel_space_ok sp m" "page_map sp m = Map.empty" "ctx sp = k2" "free_set (kernel_pmm k2) = boot_frames - {1}"
  obtain ka where ka: "say_all dev out (k\<lparr>k_mm := k1\<rparr>) = Some ka" "quiet (k\<lparr>k_mm := k1\<rparr>) ka" by (rule say_all_run[OF r])
  then have fa: "k_mm ka = k1" "kernel_space ka = kernel_space k" "k_heap ka = k_heap k"
    using strip_fields(1-3)[of ka "k\<lparr>k_mm := k1\<rparr>"] by (simp_all add: quiet_def)
  obtain kb where kb: "say_all dev [line ''M7 VMM core initialized''] (ka\<lparr>k_mm := k2, kernel_space := sp\<rparr>) = Some kb"
    "quiet (ka\<lparr>k_mm := k2, kernel_space := sp\<rparr>) kb" by (rule say_all_run[OF r])
  then have fb: "k_heap kb = k_heap k" using strip_fields(3)[of kb "ka\<lparr>k_mm := k2, kernel_space := sp\<rparr>"] fa by (simp add: quiet_def)
  from kernel_heap_init_ready[OF heap, of "im_stats im" "k_heap k"] obtain out2 h s where
    h: "kernel_heap_init (im_heap im) (im_stats im) (k_heap k) = Some (out2, h)" "heap_ok h [(s, 65488, True)]" by blast
  obtain kc where kc: "say_all dev out2 (kb\<lparr>k_heap := h\<rparr>) = Some kc" "quiet (kb\<lparr>k_heap := h\<rparr>) kc" by (rule say_all_run[OF r])
  obtain kd where kd: "say dev (nl ''M8 ready'') kc = Some kd" "quiet kc kd" by (rule say_run[OF r])
  have "memory_up dev im k = Some kd"
    by (simp only: memory_up_def b(1,2) prod.case ka(1) Option.bind.simps fa kb(1) fb h(1) kc(1) kd(1))
  moreover have "quiet (k\<lparr>k_mm := k2, kernel_space := sp\<rparr>) (ka\<lparr>k_mm := k2, kernel_space := sp\<rparr>)" using quiet_update(2)[OF ka(2), where a = k2 and b = sp] by simp
  from quiet_trans[OF this kb(2)] have "quiet (k\<lparr>k_mm := k2, kernel_space := sp, k_heap := h\<rparr>) kd"
    using quiet_trans[OF quiet_update(3) quiet_trans[OF kc(2) kd(2)]] by simp
  ultimately show ?thesis using that b h(2) by blast
qed

subsection \<open>Threads\<close>

definition image_ok :: "image \<Rightarrow> bool" where
  "image_ok im \<longleftrightarrow> distinct [0, im_boot_thread im, im_thread_a im, im_thread_b im] \<and> im_demo_a im \<noteq> 0 \<and> im_demo_b im \<noteq> 0 \<and>
     im_stack_a im \<noteq> 0 \<and> im_stack_b im \<noteq> 0 \<and> unat (im_stack_a im) + 8192 < 2 ^ 64 \<and> unat (im_stack_b im) + 8192 < 2 ^ 64 \<and>
     4096 \<le> unat (im_heap im) \<and> 4096 dvd unat (im_heap im) \<and> unat (im_heap im) + 0x10000 < 2 ^ 64 \<and> length (plan_segments (im_plan im)) = 8 \<and>
     im_demo_a im \<noteq> im_demo_b im \<and> (unat (im_stack_a im) + 8192 \<le> unat (im_stack_b im) \<or> unat (im_stack_b im) + 8192 \<le> unat (im_stack_a im)) \<and>
     unat (im_frames_a im) \<le> 8000 \<and> unat (im_frames_b im) \<le> 8000"

text \<open>A thread is about to run its loop: at its entry with room for its frames, or where the context switch returns, on its stack.\<close>

definition at_loop :: "image \<Rightarrow> bool \<Rightarrow> u64 \<Rightarrow> mcsos_context \<Rightarrow> bool" where
  "at_loop im a label c \<longleftrightarrow>
     (rip c = label \<and> on_stack (if a then im_stack_a im else im_stack_b im) (rsp c) \<or>
      rip c = (if a then im_demo_a im else im_demo_b im) \<and>
      on_stack (if a then im_stack_a im else im_stack_b im) (rsp c - (if a then im_frames_a im else im_frames_b im)))"

lemma top_room:
  assumes "unat f \<le> 8000" "unat b + unat (8192 :: u64) < 2 ^ 64" "unat b + unat (8192 :: u64) < unat p + 24" "unat p + 8 \<le> unat b + unat (8192 :: u64)"
  shows "on_stack b (p - f)"
proof -
  have "unat (p - f) = unat p - unat f" using assms by (intro unat_sub) (simp add: word_le_nat_alt)
  moreover have "unat b \<le> unat p - unat f" "unat p - unat f < unat b + 8192" using assms(1,3,4) by simp_all
  ultimately show ?thesis by (simp add: on_stack_def)
qed

lemma prepare_keeps:
  assumes ok: "sched_ok w s q" and t: "t \<noteq> current s" "t \<noteq> idle s" "t \<notin> set q"
    and same: "\<And>y. y \<noteq> t \<Longrightarrow> tcb w' y = tcb w y"
  shows "sched_ok w' s q"
proof -
  have "tpath (tcb w') (ready_head s) q = tpath (tcb w) (ready_head s) q" by (rule tpath_cong) (metis t(3) same)
  moreover have "\<forall>x \<in> set q. tcb w' x = tcb w x" by (metis t(3) same)
  moreover have "tcb w' (current s) = tcb w (current s)" "tcb w' (idle s) = tcb w (idle s)" using t(1,2) same by auto
  ultimately show ?thesis using ok by (simp add: sched_ok_def Sched.settled_def queue_rel_def valid_thread_object_def)
qed

lemma enqueue_keeps:
  assumes ok: "sched_ok w s q" and t: "valid_thread_object w t" "t \<notin> set q" "t \<noteq> current s" "t \<noteq> idle s" "th_state (tcb w t) = MCSOS_THREAD_NEW"
  obtains w' s' where "mcsos_sched_enqueue w (Some s) t = (MCSOS_SCHED_OK, w', Some s')" "sched_ok w' s' (q @ [t])"
    "current s' = current s" "idle s' = idle s" "\<And>x. th_context (tcb w' x) = th_context (tcb w x)" "\<And>x. th_magic (tcb w' x) = th_magic (tcb w x)"
    "\<And>x. x \<noteq> t \<Longrightarrow> th_state (tcb w' x) = th_state (tcb w x)" "resume_label w' = resume_label w"
proof -
  have q: "queue_rel w s q" using ok by (simp add: sched_ok_def Sched.settled_def)
  obtain w' s' where e: "mcsos_sched_enqueue w (Some s) t = (MCSOS_SCHED_OK, w', Some s')"
    "queue_rel w' s' (q @ [t])" "current s' = current s" "idle s' = idle s"
    "\<And>x. th_magic (tcb w' x) = th_magic (tcb w x)" "\<And>x. th_context (tcb w' x) = th_context (tcb w x)"
    "\<And>x. th_state (tcb w' x) = (if x = t then MCSOS_THREAD_READY else th_state (tcb w x))" "resume_label w' = resume_label w"
    by (rule enqueue_spec[OF q t(1,2)]) (use t(5) in auto)
  have "sched_ok w' s' (q @ [t])" using ok e t by (auto simp: sched_ok_def Sched.settled_def valid_thread_object_def)
  with e show ?thesis using that by simp
qed

lemma threads_up_spec:
  assumes im: "image_ok im"
  obtains w s where "threads_up im m = m\<lparr>m_threads := w, g_sched := s\<rparr>" "sched_ok w s [im_thread_a im, im_thread_b im]"
    "current s = im_boot_thread im" "idle s = im_boot_thread im"
    "rip (th_context (tcb w (im_thread_a im))) = im_demo_a im" "resume_label w = resume_label (m_threads m)"
    "at_loop im True (resume_label w) (th_context (tcb w (im_thread_a im)))" "at_loop im False (resume_label w) (th_context (tcb w (im_thread_b im)))"
proof -
  let ?b = "im_boot_thread im" and ?ta = "im_thread_a im" and ?tb = "im_thread_b im"
  have ne: "?b \<noteq> 0" "?ta \<noteq> 0" "?tb \<noteq> 0" "?ta \<noteq> ?b" "?tb \<noteq> ?b" "?ta \<noteq> ?tb"
    and e: "im_demo_a im \<noteq> 0" "im_demo_b im \<noteq> 0" "im_stack_a im \<noteq> 0" "im_stack_b im \<noteq> 0"
    and fr: "unat (im_frames_a im) \<le> 8000" "unat (im_frames_b im) \<le> 8000"
    and st: "unat (8192 :: u64) \<ge> 4096" "unat (im_stack_a im) + unat (8192 :: u64) < 2 ^ 64" "unat (im_stack_b im) + unat (8192 :: u64) < 2 ^ 64"
    using im by (auto simp: image_ok_def)
  obtain w0 s0 where i: "mcsos_scheduler_init (im_boot_name im) (m_threads m) (Some (g_sched m)) ?b = (MCSOS_SCHED_OK, w0, Some s0)"
    "current s0 = ?b" "idle s0 = ?b" "resume_label w0 = resume_label (m_threads m)"
    using ne(1) by (simp add: mcsos_scheduler_init_def upd_def)
  have ok0: "sched_ok w0 s0 []" using boot_establishes[OF i(1)] by simp
  obtain w1 where w1: "mcsos_thread_prepare w0 ?ta (im_name_a im) (im_demo_a im) 0 (im_stack_a im) 8192 (next_id s0) = (MCSOS_SCHED_OK, w1)"
    "rip (th_context (tcb w1 ?ta)) = im_demo_a im" "th_state (tcb w1 ?ta) = MCSOS_THREAD_NEW" "\<And>y. y \<noteq> ?ta \<Longrightarrow> tcb w1 y = tcb w0 y"
    "resume_label w1 = resume_label w0" "unat (im_stack_a im) + unat (8192 :: u64) < unat (rsp (th_context (tcb w1 ?ta))) + 24"
    "unat (rsp (th_context (tcb w1 ?ta))) + 8 \<le> unat (im_stack_a im) + unat (8192 :: u64)"
    by (rule prepare_fits[OF ne(2) e(1,3) st(1,2), where w = w0]) blast
  let ?s1 = "s0\<lparr>next_id := next_id s0 + 1\<rparr>"
  obtain w2 where w2: "mcsos_thread_prepare w1 ?tb (im_name_b im) (im_demo_b im) 0 (im_stack_b im) 8192 (next_id ?s1) = (MCSOS_SCHED_OK, w2)"
    "rip (th_context (tcb w2 ?tb)) = im_demo_b im" "th_state (tcb w2 ?tb) = MCSOS_THREAD_NEW" "\<And>y. y \<noteq> ?tb \<Longrightarrow> tcb w2 y = tcb w1 y"
    "resume_label w2 = resume_label w1" "unat (im_stack_b im) + unat (8192 :: u64) < unat (rsp (th_context (tcb w2 ?tb))) + 24"
    "unat (rsp (th_context (tcb w2 ?tb))) + 8 \<le> unat (im_stack_b im) + unat (8192 :: u64)"
    by (rule prepare_fits[OF ne(3) e(2,4) st(1,3), where w = w1]) blast
  let ?s2 = "?s1\<lparr>next_id := next_id ?s1 + 1\<rparr>"
  have "sched_ok w1 s0 []" by (rule prepare_keeps[OF ok0 _ _ _ w1(4)]) (use i ne in auto)
  then have "sched_ok w2 s0 []" by (rule prepare_keeps[OF _ _ _ _ w2(4)]) (use i ne in auto)
  then have ok2: "sched_ok w2 ?s2 []" by (simp add: sched_ok_def Sched.settled_def queue_rel_def)
  have m: "th_magic (tcb w1 ?ta) = MCSOS_THREAD_MAGIC" "th_magic (tcb w2 ?tb) = MCSOS_THREAD_MAGIC"
    using prepare_spec(2)[OF w1(1), of ?ta] prepare_spec(2)[OF w2(1), of ?tb] by simp_all
  have ta: "tcb w2 ?ta = tcb w1 ?ta" using w2(4) ne(6) by blast
  obtain w3 s3 where w3: "mcsos_sched_enqueue w2 (Some ?s2) ?ta = (MCSOS_SCHED_OK, w3, Some s3)" "sched_ok w3 s3 ([] @ [?ta])"
    "current s3 = current ?s2" "idle s3 = idle ?s2" "\<And>x. th_context (tcb w3 x) = th_context (tcb w2 x)"
    "\<And>x. th_magic (tcb w3 x) = th_magic (tcb w2 x)" "\<And>x. x \<noteq> ?ta \<Longrightarrow> th_state (tcb w3 x) = th_state (tcb w2 x)" "resume_label w3 = resume_label w2"
    by (rule enqueue_keeps[OF ok2, of ?ta]) (use ne i w1(3) m ta in \<open>auto simp: valid_thread_object_def\<close>)
  obtain w4 s4 where w4: "mcsos_sched_enqueue w3 (Some s3) ?tb = (MCSOS_SCHED_OK, w4, Some s4)" "sched_ok w4 s4 (([] @ [?ta]) @ [?tb])"
    "current s4 = current s3" "idle s4 = idle s3" "\<And>x. th_context (tcb w4 x) = th_context (tcb w3 x)" "resume_label w4 = resume_label w3"
    by (rule enqueue_keeps[OF w3(2), of ?tb]) (use ne i w2(3) w3(3,4,6,7) m in \<open>auto simp: valid_thread_object_def\<close>)
  have "on_stack (im_stack_a im) (rsp (th_context (tcb w1 ?ta)) - im_frames_a im)" "on_stack (im_stack_b im) (rsp (th_context (tcb w2 ?tb)) - im_frames_b im)"
    by (rule top_room[OF fr(1) st(2) w1(6,7)], rule top_room[OF fr(2) st(3) w2(6,7)])
  then have al: "at_loop im True (resume_label w4) (th_context (tcb w4 ?ta))" "at_loop im False (resume_label w4) (th_context (tcb w4 ?tb))"
    using w4(5) w3(5) w1(2) w2(2) ta by (simp_all add: at_loop_def)
  have "threads_up im m = m\<lparr>m_threads := w4, g_sched := s4\<rparr>"
    by (simp only: threads_up_def Let_def i(1) prod.case option.sel w1(1) w2(1) w3(1) w4(1))
  then show ?thesis by (rule that[OF _ _ _ _ _ _ al]) (use w4(2-6) w3(3-5,8) i(2-4) w1(2,5) w2(5) ta in simp_all)
qed

subsection \<open>System calls\<close>

lemma printed_quiet: "printed (machine (k_sys k)) m' \<Longrightarrow> quiet k (k\<lparr>k_sys := (k_sys k)\<lparr>machine := m'\<rparr>\<rparr>)"
  using on_k_quiet[of "\<lambda>_. Some m'" k] by (simp add: on_k_def on_machine_def)

lemma smoke_returns:
  assumes r: "drains dev" and o: "sys_ops s = kernel_syscall_ops dev"
  obtains m' where "m10_syscall_smoke dev s = Some (Returned (s\<lparr>machine := m'\<rparr>))" "printed (machine s) m'"
proof -
  obtain m1 where m1: "print_string dev (nl ''[M10] syscall ping ok'') (machine s) = Some m1" "printed (machine s) m1"
    using print_printed(1)[OF r] by blast
  let ?s = "s\<lparr>machine := m1\<rparr>" and ?v = "word_of_int (sint (g_ticks m1))"
  have ping: "mcsos_syscall_dispatch s MCSOS_SYS_PING 0 0 0 0 0 0 = Some (0x2605020A, s)"
    by (simp add: mcsos_syscall_dispatch_def syscall_numbers g_table_def sys_ping_def)
  have ticks: "mcsos_syscall_dispatch ?s MCSOS_SYS_GET_TICKS 0 0 0 0 0 0 = Some (sint (g_ticks m1), ?s)"
    by (simp add: mcsos_syscall_dispatch_def syscall_numbers g_table_def word_le_nat_alt sys_get_ticks_def o kernel_syscall_ops_def k_get_ticks_def timer_ticks_def)
  have "\<exists>m'. (do { m \<leftarrow> print_string dev ''[M10] syscall get_ticks='' m1; m \<leftarrow> print_hex64 dev ?v m; m \<leftarrow> print_string dev (nl '''') m;
      print_string dev (nl ''[M10] syscall smoke done'') m }) = Some m' \<and> printed m1 m'"
    by (intro printed_bind print_printed[OF r])
  then obtain m2 where m2: "(do { m \<leftarrow> print_string dev ''[M10] syscall get_ticks='' m1; m \<leftarrow> print_hex64 dev ?v m; m \<leftarrow> print_string dev (nl '''') m;
      print_string dev (nl ''[M10] syscall smoke done'') m }) = Some m2" "printed m1 m2" by blast
  have mm: "machine (s\<lparr>machine := m1\<rparr>) = m1" by simp
  have "m10_syscall_smoke dev s = Some (Returned (s\<lparr>machine := m2\<rparr>))"
    unfolding m10_syscall_smoke_def ping Option.bind.simps prod.case on_machine_def m1(1) option.map ticks mm m2(1) by simp
  then show ?thesis using that printed_trans[OF m1(2) m2(2)] by blast
qed

abbreviation user_space :: mcsos_user_region where
  "user_space \<equiv> \<lparr>ur_base = 0x0000000000400000, ur_limit = 0x0000800000000000\<rparr>"

lemma quiet_region: "quiet k k' \<Longrightarrow> quiet (k\<lparr>k_sys := (k_sys k)\<lparr>user_region := u\<rparr>\<rparr>) (k'\<lparr>k_sys := (k_sys k')\<lparr>user_region := u\<rparr>\<rparr>)"
proof -
  assume q: "quiet k k'"
  have s: "strip (k\<lparr>k_sys := (k_sys k)\<lparr>user_region := u\<rparr>\<rparr>) = (strip k)\<lparr>k_sys := (k_sys (strip k))\<lparr>user_region := u\<rparr>\<rparr>" for k
    by (simp add: strip_def ports_def set_mach_def)
  show ?thesis using q unfolding quiet_def s by (simp add: kouts_def)
qed

lemma syscalls_up_spec:
  assumes r: "drains dev"
  obtains k' where "syscalls_up dev im k = Some (Returned k')"
    "quiet (set_mach (idt_install_gate (im_cs im) 0x80 (im_int80 im) 0x8E)
       (k\<lparr>k_sys := (k_sys k)\<lparr>sys_ops := kernel_syscall_ops dev, user_region := user_space\<rparr>\<rparr>)) k'"
proof -
  let ?k1 = "set_mach (idt_install_gate (im_cs im) 0x80 (im_int80 im) 0x8E) (k\<lparr>k_sys := mcsos_syscall_init (Some (kernel_syscall_ops dev)) (k_sys k)\<rparr>)"
  have i: "mcsos_syscall_init (Some (kernel_syscall_ops dev)) s = s\<lparr>sys_ops := kernel_syscall_ops dev\<rparr>" for s
    by (simp add: mcsos_syscall_init_def kernel_syscall_ops_def Let_def)
  obtain k2 where k2: "say dev (nl ''[M10] IDT vector 0x80 installed'') ?k1 = Some k2" "quiet ?k1 k2" by (rule say_run[OF r])
  let ?k3 = "k2\<lparr>k_sys := mcsos_syscall_set_user_region user_space (k_sys k2)\<rparr>"
  obtain k4 where k4: "say dev (nl ''[M10] syscall init'') ?k3 = Some k4" "quiet ?k3 k4" by (rule say_run[OF r])
  have q: "quiet (?k1\<lparr>k_sys := (k_sys ?k1)\<lparr>user_region := user_space\<rparr>\<rparr>) k4"
    using quiet_trans[OF quiet_region[OF k2(2), where u = user_space]] k4(2) by (simp add: mcsos_syscall_set_user_region_def)
  then have "sys_ops (k_sys k4) = kernel_syscall_ops dev"
    using strip_fields(5)[of k4 "?k1\<lparr>k_sys := (k_sys ?k1)\<lparr>user_region := user_space\<rparr>\<rparr>"] by (simp add: quiet_def i set_mach_def)
  from smoke_returns[OF r this] obtain m' where
    m': "m10_syscall_smoke dev (k_sys k4) = Some (Returned ((k_sys k4)\<lparr>machine := m'\<rparr>))" "printed (machine (k_sys k4)) m'" .
  let ?k5 = "k4\<lparr>k_sys := (k_sys k4)\<lparr>machine := m'\<rparr>\<rparr>"
  have "syscalls_up dev im k = Some (Returned ?k5)"
    by (simp only: syscalls_up_def Option.bind.simps k2(1) k4(1) m'(1) outcome.case)
  moreover have "?k1\<lparr>k_sys := (k_sys ?k1)\<lparr>user_region := user_space\<rparr>\<rparr> = set_mach (idt_install_gate (im_cs im) 0x80 (im_int80 im) 0x8E)
       (k\<lparr>k_sys := (k_sys k)\<lparr>sys_ops := kernel_syscall_ops dev, user_region := user_space\<rparr>\<rparr>)"
    by (simp add: set_mach_def i)
  ultimately show ?thesis using that quiet_trans[OF q printed_quiet[OF m'(2)]] by simp
qed

subsection \<open>The demo threads\<close>

text \<open>It is the turn of thread A, or of thread B, and the processor is at its loop; the other one is ready, and its saved registers are at its own.\<close>

definition turn :: "image \<Rightarrow> bool \<Rightarrow> kernel \<Rightarrow> bool" where
  "turn im a k \<longleftrightarrow> sched_ok (m_threads (machine (k_sys k))) (g_sched (machine (k_sys k))) [if a then im_thread_b im else im_thread_a im] \<and>
     current (g_sched (machine (k_sys k))) = (if a then im_thread_a im else im_thread_b im) \<and>
     idle (g_sched (machine (k_sys k))) = im_boot_thread im \<and>
     resume_label (m_threads (machine (k_sys k))) \<notin> {im_demo_a im, im_demo_b im} \<and>
     at_loop im a (resume_label (m_threads (machine (k_sys k)))) (cpu (m_threads (machine (k_sys k)))) \<and>
     at_loop im (\<not> a) (resume_label (m_threads (machine (k_sys k))))
       (th_context (tcb (m_threads (machine (k_sys k))) (if a then im_thread_b im else im_thread_a im)))"

definition tick_text :: "bool \<Rightarrow> u8 list" where
  "tick_text a = crlf (bytes (nl (if a then ''[M9] thread A tick'' else ''[M9] thread B tick'')))"

fun ticks :: "bool \<Rightarrow> nat \<Rightarrow> u8 list" where
  "ticks a 0 = []"
| "ticks a (Suc n) = tick_text a @ ticks (\<not> a) n"

lemma say_exact:
  assumes "drains dev"
  obtains k' where "say dev s k = Some k'" "strip k' = strip k" "kouts k' = kouts k @ map (Pair COM1) (crlf (bytes s))"
proof -
  obtain x where x: "serial_write_string dev (bytes s) (m_io (machine (k_sys k))) = Some x"
    "outs x = outs (m_io (machine (k_sys k))) @ map (Pair COM1) (crlf (bytes s))" using write_string_drains[OF assms] by blast
  have "say dev s k = Some (ports (\<lambda>_. x) k)"
    by (simp add: say_def on_k_def on_machine_def print_string_def with_io_def x(1) ports_def set_mach_def)
  then show ?thesis by (rule that) (simp_all add: strip_ports, simp add: kouts_def ports_def set_mach_def x(2))
qed

definition loop_switch :: "image \<Rightarrow> bool \<Rightarrow> mach \<Rightarrow> mach" where
  "loop_switch im a = at_switch (if a then im_demo_a im else im_demo_b im) (if a then im_frames_a im else im_frames_b im) (if a then im_regs_a im else im_regs_b im)"

text \<open>At the context switch the thread is on its own stack, to be resumed there.\<close>

lemma turn_switch:
  assumes "turn im a k"
  shows "turn im a (set_mach (loop_switch im a) k)" "rip (cpu (m_threads (machine (k_sys (set_mach (loop_switch im a) k))))) = resume_label (m_threads (machine (k_sys k)))"
    "kouts (set_mach (loop_switch im a) k) = kouts k"
proof -
  let ?w = "m_threads (machine (k_sys k))"
  define c where "c = ((if a then im_regs_a im else im_regs_b im) (cpu ?w))\<lparr>rsp := if rip (cpu ?w) = (if a then im_demo_a im else im_demo_b im)
      then rsp (cpu ?w) - (if a then im_frames_a im else im_frames_b im) else rsp (cpu ?w), rip := resume_label ?w\<rparr>"
  have m: "loop_switch im a (machine (k_sys k)) = (machine (k_sys k))\<lparr>m_threads := ?w\<lparr>cpu := c\<rparr>\<rparr>"
    unfolding loop_switch_def at_switch_def Let_def c_def ..
  have rp: "rip c = resume_label ?w" "rsp c = (if rip (cpu ?w) = (if a then im_demo_a im else im_demo_b im)
      then rsp (cpu ?w) - (if a then im_frames_a im else im_frames_b im) else rsp (cpu ?w))" by (simp_all add: c_def)
  have t: "at_loop im a (resume_label ?w) (cpu ?w)" "resume_label ?w \<notin> {im_demo_a im, im_demo_b im}" using assms by (simp_all add: turn_def)
  have "on_stack (if a then im_stack_a im else im_stack_b im) (rsp c)" unfolding rp(2) using t by (cases a) (auto simp: at_loop_def)
  note c = m rp(1) this
  have "sched_ok (w\<lparr>cpu := c\<rparr>) s q = sched_ok w s q" for w s q
    by (simp add: sched_ok_def Sched.settled_def queue_rel_def valid_thread_object_def)
  then show "turn im a (set_mach (loop_switch im a) k)" using assms c by (simp add: turn_def set_mach_def at_loop_def)
  show "rip (cpu (m_threads (machine (k_sys (set_mach (loop_switch im a) k))))) = resume_label ?w" "kouts (set_mach (loop_switch im a) k) = kouts k"
    using c by (simp_all add: set_mach_def kouts_def)
qed

lemma yield_turn:
  assumes im: "image_ok im" and t: "turn im a k" and l: "rip (cpu (m_threads (machine (k_sys k)))) = resume_label (m_threads (machine (k_sys k)))"
  shows "turn im (\<not> a) (set_mach k_yield_current k)" "kouts (set_mach k_yield_current k) = kouts k"
proof -
  let ?w = "m_threads (machine (k_sys k))" and ?s = "g_sched (machine (k_sys k))"
  have ok: "sched_ok ?w ?s [if a then im_thread_b im else im_thread_a im]" and c: "current ?s = (if a then im_thread_a im else im_thread_b im)"
    and i: "idle ?s = im_boot_thread im" using t by (simp_all add: turn_def)
  have ne: "im_thread_a im \<noteq> im_thread_b im" using im by (simp add: image_ok_def)
  have rq: "requeues ?w ?s" using ok c i im by (auto simp: requeues_def sched_ok_def image_ok_def)
  have ss: "Sched.settled ?w ?s [if a then im_thread_b im else im_thread_a im]" "th_state (tcb ?w (current ?s)) \<in> {MCSOS_THREAD_RUNNING, MCSOS_THREAD_BLOCKED}"
    using ok by (simp_all add: sched_ok_def)
  obtain w' s' where y: "mcsos_sched_yield ?w (Some ?s) = (MCSOS_SCHED_OK, w', Some s')"
    "sched_ok w' s' (tl [if a then im_thread_b im else im_thread_a im] @ (if requeues ?w ?s then [current ?s] else []))"
    "current s' = elected ?s [if a then im_thread_b im else im_thread_a im]" "idle s' = idle ?s"
    "switched ?w (current ?s) (elected ?s [if a then im_thread_b im else im_thread_a im]) w'" "resume_label w' = resume_label ?w"
    by (rule yield_spec[OF ss]) blast
  have "cpu w' = th_context (tcb ?w (if a then im_thread_b im else im_thread_a im))"
    "th_context (tcb w' (if a then im_thread_a im else im_thread_b im)) = (cpu ?w)\<lparr>rip := resume_label ?w\<rparr>"
    using y(5) ne c by (cases a; simp add: switched_def elected_def)+
  moreover have "(cpu ?w)\<lparr>rip := resume_label ?w\<rparr> = cpu ?w" using l by simp
  ultimately show "turn im (\<not> a) (set_mach k_yield_current k)"
    using y(1-4,6) rq c i t by (cases a) (simp_all add: turn_def set_mach_def k_yield_current_def elected_def)
  show "kouts (set_mach k_yield_current k) = kouts k" using y(1) by (simp add: kouts_def set_mach_def k_yield_current_def)
qed

lemma turn_strip:
  assumes "strip k' = strip k"
  shows "turn im a k' = turn im a k"
  unfolding turn_def strip_fields(9,10)[OF assms] ..

text \<open>The registers tell the loop.\<close>

lemma turn_loop:
  assumes im: "image_ok im" and t: "turn im a k"
  shows "demo_loop im (m_threads (machine (k_sys k))) = Some a"
proof -
  let ?w = "m_threads (machine (k_sys k))"
  have at: "at_loop im a (resume_label ?w) (cpu ?w)" "resume_label ?w \<noteq> im_demo_a im" "resume_label ?w \<noteq> im_demo_b im"
    using t by (auto simp: turn_def)
  have "\<not> on_stack (im_stack_a im) (rsp (cpu ?w))" if "on_stack (im_stack_b im) (rsp (cpu ?w))"
    using that im by (auto simp: on_stack_def image_ok_def)
  then show ?thesis using at im by (cases a) (auto simp: at_loop_def demo_loop_def image_ok_def)
qed

lemma demo_round_spec:
  assumes r: "drains dev" and im: "image_ok im" and t: "turn im a k"
  obtains k' where "demo_round dev im k = Some k'" "turn im (\<not> a) k'" "kouts k' = kouts k @ map (Pair COM1) (tick_text a)"
proof -
  obtain k1 where k1: "say dev (nl (if a then ''[M9] thread A tick'' else ''[M9] thread B tick'')) k = Some k1" "strip k1 = strip k"
    "kouts k1 = kouts k @ map (Pair COM1) (tick_text a)" unfolding tick_text_def by (rule say_exact[OF r])
  have t1: "turn im a k1" using t turn_strip[OF k1(2)] by simp
  have "demo_round dev im k = Some (set_mach k_yield_current (set_mach (loop_switch im a) k1))"
  proof (cases a)
    case True
    have "demo_round dev im k = demo_thread_a dev im k" by (simp add: demo_round_def turn_loop[OF im t] True)
    then show ?thesis using k1(1) unfolding demo_thread_a_def loop_switch_def by (simp only: True if_True Option.bind.simps)
  next
    case False
    have "demo_round dev im k = demo_thread_b dev im k" by (simp add: demo_round_def turn_loop[OF im t] False)
    then show ?thesis using k1(1) unfolding demo_thread_b_def loop_switch_def by (simp only: False if_False Option.bind.simps)
  qed
  moreover have "rip (cpu (m_threads (machine (k_sys (set_mach (loop_switch im a) k1))))) =
      resume_label (m_threads (machine (k_sys (set_mach (loop_switch im a) k1))))"
    using turn_switch(2)[OF t1] by (simp add: set_mach_def loop_switch_def at_switch_def Let_def)
  ultimately show ?thesis using that yield_turn[OF im turn_switch(1)[OF t1]] turn_switch(3)[OF t1] k1(3) by simp
qed

lemma demo_rounds_spec:
  assumes r: "drains dev" and im: "image_ok im"
  shows "turn im a k \<Longrightarrow> \<exists>k'. demo_rounds dev im n k = Some k' \<and> turn im (a = even n) k' \<and> kouts k' = kouts k @ map (Pair COM1) (ticks a n)"
proof (induction n arbitrary: a k)
  case (Suc n)
  obtain k1 where k1: "demo_round dev im k = Some k1" "turn im (\<not> a) k1" "kouts k1 = kouts k @ map (Pair COM1) (tick_text a)"
    by (rule demo_round_spec[OF r im Suc.prems])
  from Suc.IH[OF k1(2)] obtain k2 where k2: "demo_rounds dev im n k1 = Some k2" "turn im ((\<not> a) = even n) k2"
    "kouts k2 = kouts k1 @ map (Pair COM1) (ticks (\<not> a) n)" by blast
  have "((\<not> a) = even n) = (a = even (Suc n))" by auto
  with k2(2) have "turn im (a = even (Suc n)) k2" by simp
  with k1(1,3) k2(1,3) show ?case by (intro exI[of _ k2]) simp
qed simp

subsection \<open>The whole start\<close>

lemma kouts_mach: "(\<And>m. m_io (f m) = m_io m) \<Longrightarrow> kouts (set_mach f k) = kouts k"
  by (simp add: kouts_def set_mach_def)

lemma timer_only_same: "timer_only k \<Longrightarrow> kouts k' = kouts k \<Longrightarrow> timer_only k'"
  by (simp add: timer_only_def)

text \<open>The descriptor table of the kernel: the stubs of the first 48 vectors, and the system call stub.\<close>

definition gates_ok :: "image \<Rightarrow> idt_entry list \<Rightarrow> bool" where
  "gates_ok im g \<longleftrightarrow> (\<forall>i < 48. gate_target (g ! i) = im_stubs im ! i \<and> type_attr (g ! i) = 0x8E) \<and>
     gate_target (g ! 0x80) = im_int80 im \<and> type_attr (g ! 0x80) = 0x8E"

lemma gates_up:
  assumes "length (g_idt m) = 256"
  shows "gates_ok im (idt_set_gate 0x80 (im_int80 im) (im_cs im) 0x8E (g_idt (idt_init (im_cs im) (im_stubs im) b m)))"
proof -
  let ?g = "g_idt (idt_init (im_cs im) (im_stubs im) b m)"
  note i = idt_init_gates[OF assms, where cs = "im_cs im" and stubs = "im_stubs im" and base = b]
  have "unat (0x80 :: u8) < length ?g" using i(3) by simp
  note d = set_gate_decode[OF this, where h = "im_int80 im" and sel = "im_cs im" and ty = "0x8E"]
  show ?thesis unfolding gates_ok_def using i(1) d by simp
qed

text \<open>The state before the last call, in which the boot thread runs.\<close>

lemma kmain_before_switch:
  assumes r: "drains dev" and rb: "pic_8259 dev" "unpolled (kouts k)" and im: "image_ok im"
    and mm: "length (kernel_pmm_bitmap (k_mm k)) = unat PMM_BITMAP_BYTES" "unat (hhdm_offset (k_mm k)) + 2 ^ 52 \<le> 2 ^ 64"
      "\<And>i. i < 512 \<Longrightarrow> mem m (slot (hhdm_offset (k_mm k) + 0x1000) i) = 0"
    and idt: "length (g_idt (machine (k_sys k))) = 256"
  obtains k' w sc s where "kmain dev im k = Some (Returned (set_mach k_yield_current k'))" "timer_only k'" "interrupts_on k'"
    "m_threads (machine (k_sys k')) = w" "g_sched (machine (k_sys k')) = sc" "sched_ok w sc [im_thread_a im, im_thread_b im]"
    "current sc = im_boot_thread im" "idle sc = im_boot_thread im" "rip (th_context (tcb w (im_thread_a im))) = im_demo_a im"
    "resume_label w = resume_label (m_threads (machine (k_sys k)))"
    "at_loop im True (resume_label w) (th_context (tcb w (im_thread_a im)))" "at_loop im False (resume_label w) (th_context (tcb w (im_thread_b im)))"
    "gates_ok im (g_idt (machine (k_sys k')))"
    "kernel_space_ok (kernel_space k') m" "page_map (kernel_space k') m = Map.empty" "ctx (kernel_space k') = k_mm k'"
    "heap_ok (k_heap k') [(s, 65488, True)]" "sys_ops (k_sys k') = kernel_syscall_ops dev" "user_region (k_sys k') = user_space"
proof -
  have heap: "4096 \<le> unat (im_heap im)" "4096 dvd unat (im_heap im)" "unat (im_heap im) + 0x10000 < 2 ^ 64"
    and p8: "length (plan_segments (im_plan im)) = 8" using im by (simp_all add: image_ok_def)
  obtain k1 where k1: "interrupts_up dev im k = Some k1"
    "strip k1 = strip (set_mach (idt_init (im_cs im) (im_stubs im) (im_idt im)) (k\<lparr>interrupts_on := True\<rparr>))" "timer_only k1"
    by (rule interrupts_up_spec[OF r rb])
  note f1 = strip_fields[OF k1(2), unfolded set_mach_def kernel.simps]
  have m1: "k_mm k1 = k_mm k" using f1(1) by simp
  obtain k2 mm' sp h s where k2: "memory_up dev im k1 = Some k2" "quiet (k1\<lparr>k_mm := mm', kernel_space := sp, k_heap := h\<rparr>) k2"
    "kernel_space_ok sp m" "page_map sp m = Map.empty" "ctx sp = mm'" "free_set (kernel_pmm mm') = boot_frames - {1}" "heap_ok h [(s, 65488, True)]"
    by (rule memory_up_spec[OF r, of k1 m im]) (use mm heap m1 in auto)
  obtain w sc where t: "threads_up im (machine (k_sys k2)) = (machine (k_sys k2))\<lparr>m_threads := w, g_sched := sc\<rparr>"
    "sched_ok w sc [im_thread_a im, im_thread_b im]" "current sc = im_boot_thread im" "idle sc = im_boot_thread im"
    "rip (th_context (tcb w (im_thread_a im))) = im_demo_a im" "resume_label w = resume_label (m_threads (machine (k_sys k2)))"
    "at_loop im True (resume_label w) (th_context (tcb w (im_thread_a im)))" "at_loop im False (resume_label w) (th_context (tcb w (im_thread_b im)))"
    by (rule threads_up_spec[OF im])
  let ?k2 = "set_mach (threads_up im) k2"
  obtain k3 where k3: "say dev (nl ''[M9] scheduler initialized'') ?k2 = Some k3" "quiet ?k2 k3" by (rule say_run[OF r])
  obtain p where p: "m11_integration_smoke_test (im_plan im) =
      Some (line ''[M11] elf: starting integration smoke test'' # m11_log_plan p @ [line ''[M11] user image plan ready''])"
    by (rule smoke_test_run[OF p8])
  let ?out = "line ''[M11] elf: starting integration smoke test'' # m11_log_plan p @ [line ''[M11] user image plan ready'']"
  obtain k4 where k4: "log_all dev ?out k3 = Some k4" "quiet k3 k4" using log_all_quiet[OF r, of ?out k3] by blast
  obtain k5 where k5: "syscalls_up dev im k4 = Some (Returned k5)"
    "quiet (set_mach (idt_install_gate (im_cs im) 0x80 (im_int80 im) 0x8E)
       (k4\<lparr>k_sys := (k_sys k4)\<lparr>sys_ops := kernel_syscall_ops dev, user_region := user_space\<rparr>\<rparr>)) k5" (is "quiet ?k4 k5")
    by (rule syscalls_up_spec[OF r])
  have run: "kmain dev im k = Some (Returned (set_mach k_yield_current k5))"
    by (simp only: kmain_def k1(1) k2(1) k3(1) p k4(1) k5(1) Option.bind.simps outcome.case)
  note f2 = strip_fields[OF conjunct1[OF k2(2)[unfolded quiet_def]]]
  note f4 = strip_fields[OF conjunct1[OF quiet_trans[OF k3(2) k4(2), unfolded quiet_def]]]
  note f5 = strip_fields[OF conjunct1[OF k5(2)[unfolded quiet_def]]]
  have "timer_only k2" by (rule timer_only_quiet[OF timer_only_same[OF k1(3)] k2(2)]) (simp add: kouts_def)
  then have "timer_only ?k2" by (rule timer_only_same) (simp add: kouts_def set_mach_def t(1))
  then have "timer_only k4" by (rule timer_only_quiet[OF _ quiet_trans[OF k3(2) k4(2)]])
  then have "timer_only ?k4" by (rule timer_only_same) (simp add: kouts_def set_mach_def idt_install_gate_def)
  then have t5: "timer_only k5" by (rule timer_only_quiet[OF _ k5(2)])
  have g: "g_idt (machine (k_sys k5)) = idt_set_gate 0x80 (im_int80 im) (im_cs im) 0x8E (g_idt (idt_init (im_cs im) (im_stubs im) (im_idt im) (machine (k_sys k))))"
    using f1(7) f2(7) f4(7) f5(7) by (simp add: set_mach_def t(1) idt_install_gate_def)
  show ?thesis
    by (rule that[OF run t5 _ _ _ t(2-5) _ t(7,8)])
      (use f1 f2 f4 f5 k2 gates_up[OF idt, of im] g t(6) in \<open>simp_all add: set_mach_def t(1) idt_install_gate_def idt_init_def\<close>)
qed

lemma kmain_spec:
  assumes "drains dev" "pic_8259 dev" "unpolled (kouts k)" and im: "image_ok im"
    and "length (kernel_pmm_bitmap (k_mm k)) = unat PMM_BITMAP_BYTES" "unat (hhdm_offset (k_mm k)) + 2 ^ 52 \<le> 2 ^ 64"
      "\<And>i. i < 512 \<Longrightarrow> mem m (slot (hhdm_offset (k_mm k) + 0x1000) i) = 0"
    and "length (g_idt (machine (k_sys k))) = 256" and lab: "resume_label (m_threads (machine (k_sys k))) \<notin> {im_demo_a im, im_demo_b im}"
  obtains k' s where "kmain dev im k = Some (Returned k')" "turn im True k'" "timer_only k'" "interrupts_on k'"
    "rip (cpu (m_threads (machine (k_sys k')))) = im_demo_a im" "gates_ok im (g_idt (machine (k_sys k')))"
    "kernel_space_ok (kernel_space k') m" "page_map (kernel_space k') m = Map.empty" "ctx (kernel_space k') = k_mm k'"
    "heap_ok (k_heap k') [(s, 65488, True)]" "sys_ops (k_sys k') = kernel_syscall_ops dev" "user_region (k_sys k') = user_space"
proof -
  from kmain_before_switch[OF assms(1-8)] obtain k1 w sc s where
    k1: "kmain dev im k = Some (Returned (set_mach k_yield_current k1))" "timer_only k1" "interrupts_on k1"
    "m_threads (machine (k_sys k1)) = w" "g_sched (machine (k_sys k1)) = sc" "sched_ok w sc [im_thread_a im, im_thread_b im]"
    "current sc = im_boot_thread im" "idle sc = im_boot_thread im" "rip (th_context (tcb w (im_thread_a im))) = im_demo_a im"
    "resume_label w = resume_label (m_threads (machine (k_sys k)))"
    "at_loop im True (resume_label w) (th_context (tcb w (im_thread_a im)))" "at_loop im False (resume_label w) (th_context (tcb w (im_thread_b im)))"
    "gates_ok im (g_idt (machine (k_sys k1)))"
    "kernel_space_ok (kernel_space k1) m" "page_map (kernel_space k1) m = Map.empty" "ctx (kernel_space k1) = k_mm k1"
    "heap_ok (k_heap k1) [(s, 65488, True)]" "sys_ops (k_sys k1) = kernel_syscall_ops dev" "user_region (k_sys k1) = user_space" .
  have ss: "Sched.settled w sc [im_thread_a im, im_thread_b im]" "th_state (tcb w (current sc)) \<in> {MCSOS_THREAD_RUNNING, MCSOS_THREAD_BLOCKED}"
    using k1(6) by (simp_all add: sched_ok_def)
  obtain w' s' where y: "mcsos_sched_yield w (Some sc) = (MCSOS_SCHED_OK, w', Some s')"
    "sched_ok w' s' (tl [im_thread_a im, im_thread_b im] @ (if requeues w sc then [current sc] else []))"
    "current s' = elected sc [im_thread_a im, im_thread_b im]" "idle s' = idle sc"
    "switched w (current sc) (elected sc [im_thread_a im, im_thread_b im]) w'" "resume_label w' = resume_label w"
    by (rule yield_spec[OF ss]) blast
  have el: "elected sc [im_thread_a im, im_thread_b im] = im_thread_a im" "im_thread_a im \<noteq> current sc" "\<not> requeues w sc"
    using im k1(7,8) by (auto simp: elected_def requeues_def image_ok_def)
  have yc: "k_yield_current (machine (k_sys k1)) = (machine (k_sys k1))\<lparr>m_threads := w', g_sched := s'\<rparr>"
    using y(1) k1(4,5) by (simp add: k_yield_current_def)
  have cx: "cpu w' = th_context (tcb w (im_thread_a im))" "th_context (tcb w' (im_thread_b im)) = th_context (tcb w (im_thread_b im))"
    using y(5) el(2) k1(7) im by (auto simp: switched_def el(1) image_ok_def)
  have "timer_only (set_mach k_yield_current k1)" by (rule timer_only_same[OF k1(2)]) (simp add: kouts_def set_mach_def yc)
  moreover have "turn im True (set_mach k_yield_current k1)" using y(1-4,6) el k1(8,10-12) cx lab by (simp add: turn_def set_mach_def yc)
  ultimately show ?thesis by (intro that[OF k1(1)]) (use k1 cx(1) in \<open>simp_all add: set_mach_def yc\<close>)
qed

section \<open>The start of the first kernel\<close>

lemma logged_bind_pair:
  assumes "\<exists>l'. f l = Some l' \<and> logged l l'" "\<And>l. \<exists>l'. g l = Some (t, l') \<and> logged l l'"
  shows "\<exists>l'. Option.bind (f l) g = Some (t, l') \<and> logged l l'"
  using assms logged_trans by fastforce

lemma out_logged:
  assumes r: "drains dev" and "out \<noteq> []"
  shows "\<exists>l'. each (log_console dev) out l = Some l' \<and> logged l l'"
proof -
  obtain c cs where out: "out = c # cs" using assms(2) by (cases out) auto
  obtain l1 where l1: "log_console dev c l = Some l1" "logged l l1" using log_console_logged[OF r] by blast
  then have "g_log_ready l1 \<noteq> 0" by (simp add: logged_def)
  then obtain l2 where "each (log_console dev) cs l1 = Some l2" "logged l1 l2"
    using each_logged[of "log_console dev", OF log_console_logged[OF r]] by blast
  then show ?thesis using l1 logged_trans unfolding out by auto
qed

text \<open>The self-test passes after \<^const>\<open>x86_64_idt_init\<close> on a table at an address that is not null.\<close>

lemma selftest_passes:
  assumes "kernel_start < kernel_end" "base \<noteq> 0" "x86_64_idt_init dev stubs base idt l = Some (idt', r, l')"
  shows "m4_selftest dev fl file kernel_start kernel_end r l' = map_option Returned (log_writeln dev ''[M4] selftest: IDT invariants passed'' l')"
proof -
  have "r = \<lparr>ci_limit = of_nat (X86_64_IDT_VECTOR_COUNT * 16 - 1), ci_base = base\<rparr>"
    using assms(3) unfolding x86_64_idt_init_def Let_def by (auto simp only: bind_eq_Some_conv option.inject prod.inject)
  then have "find (\<lambda>(c, _). \<not> c) (m4_asserts kernel_start kernel_end r) = None"
    using assms(1,2) by (simp add: m4_asserts_def x86_64_idt_base_for_test_def x86_64_idt_limit_for_test_def X86_64_IDT_VECTOR_COUNT_def)
  then show ?thesis unfolding m4_selftest_def by (simp only: option.case)
qed

lemma selftest_ends:
  assumes "drains dev"
  shows "\<exists>l'. logged l l' \<and> (m4_selftest dev fl file kernel_start kernel_end r l = Some (Halted l') \<or>
    m4_selftest dev fl file kernel_start kernel_end r l = Some (Returned l'))"
proof (cases "find (\<lambda>(c, _). \<not> c) (m4_asserts kernel_start kernel_end r)")
  case None
  obtain l' where "log_writeln dev ''[M4] selftest: IDT invariants passed'' l = Some l'" "logged l l'" using writeln_logged[OF assms] by blast
  then show ?thesis unfolding m4_selftest_def None by (simp only: option.case option.map) blast
next
  case (Some a)
  obtain b n e where a: "a = (b, n, e)" by (cases a)
  obtain l' where "kernel_panic_at dev fl (Some file) n (Some (''assertion failed: '' @ e)) 0xA55E4710 l = Some l'" "logged l l'"
    using panic_at_logged[OF assms] by blast
  then show ?thesis unfolding m4_selftest_def Some a by (simp only: option.case option.map prod.case) blast
qed

text \<open>On every path it ends with the table filled, and all it sent is text on the serial port.\<close>

lemma core_kmain_ends:
  assumes r: "drains dev" and p8: "length (plan_segments plan) = 8"
  shows "\<exists>l'. core_kmain dev fl fl' file kernel_start kernel_end stubs base plan idt l = Some (x86_64_idt_table stubs idt, l') \<and>
    logged (log_init l) l'"
proof -
  note lg = putc_write_logged(2)[OF r] writeln_logged[OF r] key_value_logged[OF r]
  obtain p where p: "m11_integration_smoke_test plan =
      Some (line ''[M11] elf: starting integration smoke test'' # m11_log_plan p @ [line ''[M11] user image plan ready''])"
    by (rule smoke_test_run[OF p8])
  let ?t = "x86_64_idt_table stubs idt"
  let ?out = "line ''[M11] elf: starting integration smoke test'' # m11_log_plan p @ [line ''[M11] user image plan ready'']"
  have fin: "\<exists>l'. Option.bind (log_writeln dev ''[M4] IDT and exception dispatch path installed'' l) (\<lambda>l.
      Option.bind (log_writeln dev ''[M4] ready for QEMU smoke test and GDB audit'' l) (\<lambda>l.
      Option.bind (m11_integration_smoke_test plan) (\<lambda>out. Option.bind (each (log_console dev) out l) (\<lambda>l. Some (?t, l))))) = Some (?t, l') \<and> logged l l'" for l
  proof -
    have e: "\<exists>l'. Option.bind (each (log_console dev) ?out l) (\<lambda>l. Some (?t, l)) = Some (?t, l') \<and> logged l l'" for l
      using out_logged[OF r list.distinct(2), of "line ''[M11] elf: starting integration smoke test''" "m11_log_plan p @ [line ''[M11] user image plan ready'']" l]
      by (elim exE conjE) (simp only: Option.bind.simps option.inject prod.inject, blast)
    show ?thesis unfolding p Option.bind.simps by (rule logged_bind_pair[OF lg(2)], rule logged_bind_pair[OF lg(2)], rule e)
  qed
  have st: "\<exists>l'. Option.bind (m4_selftest dev fl' file kernel_start kernel_end r l) (\<lambda>t. case t of Halted l \<Rightarrow> Some (?t, l) | Returned l \<Rightarrow>
      Option.bind (log_writeln dev ''[M4] IDT and exception dispatch path installed'' l) (\<lambda>l.
      Option.bind (log_writeln dev ''[M4] ready for QEMU smoke test and GDB audit'' l) (\<lambda>l.
      Option.bind (m11_integration_smoke_test plan) (\<lambda>out. Option.bind (each (log_console dev) out l) (\<lambda>l. Some (?t, l)))))) =
      Some (?t, l') \<and> logged l l'" (is "\<exists>l'. Option.bind _ ?k = _ \<and> _") for r l
    using selftest_ends[OF r, of l fl' "file" kernel_start kernel_end r]
  proof (elim exE conjE disjE)
    fix l1 assume "logged l l1" "m4_selftest dev fl' file kernel_start kernel_end r l = Some (Halted l1)"
    then show ?thesis by (simp only: Option.bind.simps outcome.case) blast
  next
    fix l1 assume l1: "logged l l1" "m4_selftest dev fl' file kernel_start kernel_end r l = Some (Returned l1)"
    from fin[of l1] logged_trans[OF l1(1)] show ?thesis unfolding l1(2) Option.bind.simps outcome.case by blast
  qed
  note step = logged_bind_pair[OF lg(1)] logged_bind_pair[OF lg(2)] logged_bind_pair[OF lg(3)]
  show ?thesis unfolding core_kmain_def x86_64_idt_init_def Let_def Option.bind_assoc Option.bind.simps prod.case by (rule step st)+
qed

end
