(* ===== verification/Sync.thy ===== *)
theory Sync
  imports Prelude
begin

text \<open>
  The synchronisation primitives of \<^verbatim>\<open>kernel/sync/lockdep.c\<close>, \<^verbatim>\<open>kernel/sync/spinlock.c\<close> and
  \<^verbatim>\<open>kernel/sync/mutex.c\<close>.

  A pointer argument is an option, \<open>None\<close> the null pointer; names are addresses of strings. An operation
  that the code builds from one atomic instruction is one function. Those built from several
  (\<open>mcs_spin_lock\<close>, \<open>mcs_mutex_try_lock\<close>, \<open>mcs_mutex_unlock\<close>) also have a step function with one atomic
  access per step, and the interleavings of these steps between any number of threads are the
  transition relations of the second half of the theory.

  Shown: the lock-order validator accepts exactly the ascending acquisitions; the spin lock and the
  mutex exclude one another's critical sections under every interleaving; threads that follow the
  validator never all wait for one another.
\<close>

section \<open>Model: the lock-order validator\<close>

definition MCS_LOCKDEP_MAX_HELD :: nat where
  "MCS_LOCKDEP_MAX_HELD = 16"

datatype sync_status =
  MCS_SYNC_OK | MCS_SYNC_EINVAL | MCS_SYNC_EBUSY | MCS_SYNC_EPERM | MCS_SYNC_EDEADLK | MCS_SYNC_EOVERFLOW

record mcs_lockdep_state =
  held_class :: "u32 list"
  held_name :: "u64 list"
  depth :: u32
  violation_count :: u32

definition mcs_lockdep_init :: "mcs_lockdep_state option \<Rightarrow> mcs_lockdep_state option" where
  "mcs_lockdep_init state =
     (case state of
        None \<Rightarrow> None
      | Some s \<Rightarrow>
          (let s = fold (\<lambda>i s. s\<lparr>held_class := (held_class s)[i := 0], held_name := (held_name s)[i := 0]\<rparr>)
                     [0..<MCS_LOCKDEP_MAX_HELD] s
           in Some (s\<lparr>depth := 0, violation_count := 0\<rparr>)))"

definition mcs_lockdep_is_held :: "mcs_lockdep_state option \<Rightarrow> u32 \<Rightarrow> bool" where
  "mcs_lockdep_is_held state class_id =
     (case state of
        None \<Rightarrow> False
      | Some s \<Rightarrow>
          if class_id = 0 then False
          else list_ex (\<lambda>i. held_class s ! i = class_id) [0..<min (unat (depth s)) MCS_LOCKDEP_MAX_HELD])"

definition violation :: "mcs_lockdep_state \<Rightarrow> mcs_lockdep_state" where
  "violation s = s\<lparr>violation_count := violation_count s + 1\<rparr>"

definition mcs_lockdep_before_acquire ::
  "mcs_lockdep_state option \<Rightarrow> u32 \<Rightarrow> u64 \<Rightarrow> sync_status \<times> mcs_lockdep_state option" where
  "mcs_lockdep_before_acquire state class_id name =
     (case state of
        None \<Rightarrow> (MCS_SYNC_EINVAL, None)
      | Some s \<Rightarrow>
          if class_id = 0 then (MCS_SYNC_EINVAL, state)
          else if depth s \<ge> of_nat MCS_LOCKDEP_MAX_HELD then (MCS_SYNC_EOVERFLOW, Some (violation s))
          else if list_ex (\<lambda>i. held_class s ! i = class_id) [0..<unat (depth s)]
          then (MCS_SYNC_EDEADLK, Some (violation s))
          else if depth s > 0 \<and> class_id < held_class s ! unat (depth s - 1)
          then (MCS_SYNC_EDEADLK, Some (violation s))
          else
            (MCS_SYNC_OK,
             Some (s\<lparr>held_class := (held_class s)[unat (depth s) := class_id],
                     held_name := (held_name s)[unat (depth s) := name],
                     depth := depth s + 1\<rparr>)))"

definition mcs_lockdep_after_release ::
  "mcs_lockdep_state option \<Rightarrow> u32 \<Rightarrow> u64 \<Rightarrow> sync_status \<times> mcs_lockdep_state option" where
  "mcs_lockdep_after_release state class_id name =
     (case state of
        None \<Rightarrow> (MCS_SYNC_EINVAL, None)
      | Some s \<Rightarrow>
          if class_id = 0 then (MCS_SYNC_EINVAL, state)
          else if depth s = 0 then (MCS_SYNC_EPERM, Some (violation s))
          else
            (let index = unat (depth s - 1)
             in if held_class s ! index \<noteq> class_id then (MCS_SYNC_EDEADLK, Some (violation s))
                else
                  (MCS_SYNC_OK,
                   Some (s\<lparr>held_class := (held_class s)[index := 0], held_name := (held_name s)[index := 0],
                           depth := depth s - 1\<rparr>))))"

section \<open>Model: the spin lock\<close>

record mcs_spinlock =
  sl_locked :: u32
  sl_class_id :: u32
  sl_name :: u64

definition mcs_spin_init :: "mcs_spinlock option \<Rightarrow> u32 \<Rightarrow> u64 \<Rightarrow> mcs_spinlock option" where
  "mcs_spin_init lock class_id name =
     map_option (\<lambda>l. l\<lparr>sl_locked := 0, sl_class_id := class_id, sl_name := name\<rparr>) lock"

definition mcs_spin_try_lock :: "mcs_spinlock option \<Rightarrow> bool \<times> mcs_spinlock option" where
  "mcs_spin_try_lock lock =
     (case lock of
        None \<Rightarrow> (False, None)
      | Some l \<Rightarrow> (let old = sl_locked l in (old = 0, Some (l\<lparr>sl_locked := 1\<rparr>))))"

text \<open>
  \<open>mcs_spin_lock\<close> on a lock that is not null, one atomic access at a time: the exchange of the outer loop
  (\<open>Try\<close>) and the read of the inner loop (\<open>Relax\<close>). \<open>None\<close> is the return of the function.
\<close>

datatype spin_pc = Try | Relax

definition mcs_spin_lock_step :: "spin_pc \<Rightarrow> mcs_spinlock \<Rightarrow> spin_pc option \<times> mcs_spinlock" where
  "mcs_spin_lock_step pc l =
     (case pc of
        Try \<Rightarrow> (case mcs_spin_try_lock (Some l) of
                  (True, l') \<Rightarrow> (None, the l')
                | (False, l') \<Rightarrow> (Some Relax, the l'))
      | Relax \<Rightarrow> (Some (if sl_locked l \<noteq> 0 then Relax else Try), l))"

definition mcs_spin_unlock :: "mcs_spinlock option \<Rightarrow> mcs_spinlock option" where
  "mcs_spin_unlock lock = map_option (\<lambda>l. l\<lparr>sl_locked := 0\<rparr>) lock"

definition mcs_spin_is_locked :: "mcs_spinlock option \<Rightarrow> bool" where
  "mcs_spin_is_locked lock = (case lock of None \<Rightarrow> False | Some l \<Rightarrow> sl_locked l \<noteq> 0)"

section \<open>Model: the mutex\<close>

record mcs_mutex =
  mx_locked :: u32
  mx_owner :: u64
  mx_class_id :: u32
  mx_name :: u64

definition mcs_mutex_init :: "mcs_mutex option \<Rightarrow> u32 \<Rightarrow> u64 \<Rightarrow> mcs_mutex option" where
  "mcs_mutex_init mutex class_id name =
     map_option (\<lambda>m. m\<lparr>mx_locked := 0, mx_owner := 0, mx_class_id := class_id, mx_name := name\<rparr>) mutex"

definition mcs_mutex_try_lock :: "mcs_mutex option \<Rightarrow> u64 \<Rightarrow> sync_status \<times> mcs_mutex option" where
  "mcs_mutex_try_lock mutex owner_id =
     (case mutex of
        None \<Rightarrow> (MCS_SYNC_EINVAL, None)
      | Some m \<Rightarrow>
          if owner_id = 0 then (MCS_SYNC_EINVAL, mutex)
          else if mx_locked m \<noteq> 0
          then (if mx_owner m = owner_id then (MCS_SYNC_EDEADLK, mutex) else (MCS_SYNC_EBUSY, mutex))
          else
            (let m = m\<lparr>mx_locked := 1\<rparr>
             in (MCS_SYNC_OK, Some (m\<lparr>mx_owner := owner_id\<rparr>))))"

definition mcs_mutex_unlock :: "mcs_mutex option \<Rightarrow> u64 \<Rightarrow> sync_status \<times> mcs_mutex option" where
  "mcs_mutex_unlock mutex owner_id =
     (case mutex of
        None \<Rightarrow> (MCS_SYNC_EINVAL, None)
      | Some m \<Rightarrow>
          if owner_id = 0 then (MCS_SYNC_EINVAL, mutex)
          else if mx_owner m \<noteq> owner_id then (MCS_SYNC_EPERM, mutex)
          else
            (let m = m\<lparr>mx_owner := 0\<rparr>
             in (MCS_SYNC_OK, Some (m\<lparr>mx_locked := 0\<rparr>))))"

definition mcs_mutex_is_locked :: "mcs_mutex option \<Rightarrow> bool" where
  "mcs_mutex_is_locked mutex = (case mutex of None \<Rightarrow> False | Some m \<Rightarrow> mx_locked m \<noteq> 0)"

definition mcs_mutex_owner_of :: "mcs_mutex option \<Rightarrow> u64" where
  "mcs_mutex_owner_of mutex = (case mutex of None \<Rightarrow> 0 | Some m \<Rightarrow> mx_owner m)"

text \<open>
  The same two functions, one atomic access at a time, for a mutex that is not null and a non-zero
  owner. \<open>Returned rc\<close> is the return of the call.
\<close>

datatype mutex_pc = Cas | Load_owner | Store_owner | Check_owner | Clear_owner | Clear_locked | Returned sync_status

fun mcs_mutex_step :: "u64 \<Rightarrow> mutex_pc \<Rightarrow> mcs_mutex \<Rightarrow> mutex_pc \<times> mcs_mutex" where
  "mcs_mutex_step i Cas m = (if mx_locked m = 0 then (Store_owner, m\<lparr>mx_locked := 1\<rparr>) else (Load_owner, m))"
| "mcs_mutex_step i Load_owner m =
     (Returned (if mx_owner m = i then MCS_SYNC_EDEADLK else MCS_SYNC_EBUSY), m)"
| "mcs_mutex_step i Store_owner m = (Returned MCS_SYNC_OK, m\<lparr>mx_owner := i\<rparr>)"
| "mcs_mutex_step i Check_owner m = (if mx_owner m \<noteq> i then (Returned MCS_SYNC_EPERM, m) else (Clear_owner, m))"
| "mcs_mutex_step i Clear_owner m = (Clear_locked, m\<lparr>mx_owner := 0\<rparr>)"
| "mcs_mutex_step i Clear_locked m = (Returned MCS_SYNC_OK, m\<lparr>mx_locked := 0\<rparr>)"
| "mcs_mutex_step i (Returned rc) m = (Returned rc, m)"

section \<open>The validator keeps an ascending stack\<close>

definition stack :: "mcs_lockdep_state \<Rightarrow> u32 list" where
  "stack s = take (unat (depth s)) (held_class s)"

definition lockdep_ok :: "mcs_lockdep_state \<Rightarrow> bool" where
  "lockdep_ok s \<longleftrightarrow> length (held_class s) = MCS_LOCKDEP_MAX_HELD \<and> length (held_name s) = MCS_LOCKDEP_MAX_HELD \<and>
     unat (depth s) \<le> MCS_LOCKDEP_MAX_HELD \<and> sorted_wrt (<) (stack s) \<and> 0 \<notin> set (stack s)"

lemma violation_simps [simp]:
  "stack (violation s) = stack s" "lockdep_ok (violation s) = lockdep_ok s" "violation_count (violation s) = violation_count s + 1"
  by (auto simp: violation_def stack_def lockdep_ok_def)

lemma length_stack [simp]: "lockdep_ok s \<Longrightarrow> length (stack s) = unat (depth s)"
  by (simp add: lockdep_ok_def stack_def)

lemma list_ex_stack:
  "n \<le> length xs \<Longrightarrow> list_ex (\<lambda>i. xs ! i = c) [0..<n] \<longleftrightarrow> c \<in> set (take n xs)"
  by (auto simp: list_ex_iff in_set_conv_nth)

lemma is_held_stack: "lockdep_ok s \<Longrightarrow> mcs_lockdep_is_held (Some s) c \<longleftrightarrow> c \<in> set (stack s)"
  using list_ex_stack[of "unat (depth s)" "held_class s" c]
  by (auto simp: mcs_lockdep_is_held_def lockdep_ok_def stack_def min_def)

lemma sorted_last: "sorted_wrt (<) (xs @ [x]) \<longleftrightarrow> sorted_wrt (<) xs \<and> (\<forall>h \<in> set xs. h < x)" for x :: u32
  by (auto simp: sorted_wrt_append)

lemma stack_top:
  assumes "lockdep_ok s" "depth s \<noteq> 0"
  shows "stack s = butlast (stack s) @ [held_class s ! unat (depth s - 1)]"
    and "butlast (stack s) = take (unat (depth s - 1)) (held_class s)"
proof -
  have d: "unat (depth s) = Suc (unat (depth s - 1))" using assms(2) by (simp add: unat_gt_0 unat_minus_one)
  have l: "unat (depth s - 1) < length (held_class s)" using assms d by (simp add: lockdep_ok_def)
  show "butlast (stack s) = take (unat (depth s - 1)) (held_class s)"
    using l unfolding stack_def d by (simp add: take_Suc_conv_app_nth)
  show "stack s = butlast (stack s) @ [held_class s ! unat (depth s - 1)]"
    using l unfolding stack_def d by (simp add: take_Suc_conv_app_nth)
qed

lemma before_acquire_spec:
  assumes ok: "lockdep_ok s" and c: "c \<noteq> 0"
  shows "\<exists>s'. mcs_lockdep_before_acquire (Some s) c nm =
      (if length (stack s) = 16 then (MCS_SYNC_EOVERFLOW, Some (violation s))
       else if \<forall>h \<in> set (stack s). h < c then (MCS_SYNC_OK, Some s')
       else (MCS_SYNC_EDEADLK, Some (violation s))) \<and>
    (length (stack s) < 16 \<and> (\<forall>h \<in> set (stack s). h < c) \<longrightarrow>
       lockdep_ok s' \<and> stack s' = stack s @ [c] \<and> violation_count s' = violation_count s)"
proof -
  let ?d = "unat (depth s)"
  let ?s = "s\<lparr>held_class := (held_class s)[?d := c], held_name := (held_name s)[?d := nm], depth := depth s + 1\<rparr>"
  have len: "length (held_class s) = 16" "?d \<le> 16" and srt: "sorted_wrt (<) (stack s)"
    using ok by (auto simp: lockdep_ok_def MCS_LOCKDEP_MAX_HELD_def)
  have full: "depth s \<ge> of_nat MCS_LOCKDEP_MAX_HELD \<longleftrightarrow> ?d = 16"
    using len by (auto simp: MCS_LOCKDEP_MAX_HELD_def word_le_nat_alt)
  have ex: "list_ex (\<lambda>i. held_class s ! i = c) [0..<?d] \<longleftrightarrow> c \<in> set (stack s)"
    unfolding stack_def using list_ex_stack[of ?d "held_class s" c] len by simp
  have top: "(depth s > 0 \<and> c < held_class s ! unat (depth s - 1)) \<or> c \<in> set (stack s) \<longleftrightarrow>
      \<not> (\<forall>h \<in> set (stack s). h < c)"
  proof (cases "depth s = 0")
    case True
    then show ?thesis by (simp add: stack_def)
  next
    case False
    define b t where "b = butlast (stack s)" and "t = held_class s ! unat (depth s - 1)"
    have st: "stack s = b @ [t]" using stack_top(1)[OF ok False] by (simp add: b_def t_def)
    then have "\<forall>h \<in> set b. h < t" using srt by (simp add: sorted_last)
    then show ?thesis using False unfolding st t_def[symmetric]
      by (auto simp: word_neq_0_conv[symmetric] dest: less_trans)
  qed
  have push: "lockdep_ok ?s \<and> stack ?s = stack s @ [c]" if "?d < 16" "\<forall>h \<in> set (stack s). h < c"
  proof -
    have "unat (depth s + 1) = Suc ?d" using that(1) by (intro unat_inc[of _ 16]) (simp add: word_less_nat_alt)
    then have "stack ?s = stack s @ [c]"
      using that(1) len by (simp add: stack_def take_Suc_conv_app_nth)
    with that ok c \<open>unat (depth s + 1) = Suc ?d\<close> show ?thesis
      by (auto simp: lockdep_ok_def sorted_last MCS_LOCKDEP_MAX_HELD_def)
  qed
  show ?thesis
    using c full ex top push len(2) ok
    by (intro exI[of _ ?s]) (auto simp: mcs_lockdep_before_acquire_def)
qed

lemma after_release_spec:
  assumes ok: "lockdep_ok s" and c: "c \<noteq> 0"
  shows "\<exists>s'. mcs_lockdep_after_release (Some s) c nm =
      (if stack s = [] then (MCS_SYNC_EPERM, Some (violation s))
       else if last (stack s) = c then (MCS_SYNC_OK, Some s')
       else (MCS_SYNC_EDEADLK, Some (violation s))) \<and>
    (stack s \<noteq> [] \<and> last (stack s) = c \<longrightarrow> lockdep_ok s' \<and> stack s' = butlast (stack s))"
proof (cases "depth s = 0")
  case True
  then show ?thesis using c by (simp add: mcs_lockdep_after_release_def stack_def)
next
  case False
  let ?i = "unat (depth s - 1)"
  let ?s = "s\<lparr>held_class := (held_class s)[?i := 0], held_name := (held_name s)[?i := 0], depth := depth s - 1\<rparr>"
  note st = stack_top[OF ok False]
  have ne: "stack s \<noteq> []" "last (stack s) = held_class s ! ?i" using st(1) by (metis snoc_eq_iff_butlast, metis last_snoc)
  have "stack ?s = butlast (stack s)" unfolding st(2) by (simp add: stack_def)
  moreover have "unat (depth s) = Suc ?i" using False by (simp add: unat_gt_0 unat_minus_one)
  moreover have "sorted_wrt (<) (butlast (stack s))" "0 \<notin> set (butlast (stack s))"
    using ok st(1) by (auto simp: lockdep_ok_def dest: in_set_butlastD) (metis sorted_last)
  ultimately have "lockdep_ok ?s" using ok by (auto simp: lockdep_ok_def)
  with False c ne \<open>stack ?s = _\<close> show ?thesis
    by (intro exI[of _ ?s]) (auto simp: mcs_lockdep_after_release_def Let_def)
qed

lemma lockdep_init_spec:
  assumes "length (held_class s) = 16" "length (held_name s) = 16"
  shows "\<exists>s'. mcs_lockdep_init (Some s) = Some s' \<and> lockdep_ok s' \<and> stack s' = [] \<and> violation_count s' = 0"
proof -
  let ?f = "\<lambda>i s. s\<lparr>held_class := (held_class s)[i := 0], held_name := (held_name s)[i := 0]\<rparr>"
  have "length (held_class (fold ?f is t)) = length (held_class t) \<and> length (held_name (fold ?f is t)) = length (held_name t)"
    for "is" and t :: mcs_lockdep_state
    by (induction "is" arbitrary: t) auto
  then show ?thesis using assms
    by (simp add: mcs_lockdep_init_def lockdep_ok_def stack_def MCS_LOCKDEP_MAX_HELD_def)
qed

section \<open>Threads that take spin locks in validated order\<close>

text \<open>
  Any number of threads, each with its own validator, and any number of spin locks. A thread asks its
  validator before it takes a lock, then executes \<open>mcs_spin_lock\<close> one atomic access at a time, and releases
  its locks in reverse order. \<open>held\<close> records the locks a thread has taken, newest first.
\<close>

record lock_system =
  validator :: "nat \<Rightarrow> mcs_lockdep_state"
  locks :: "nat \<Rightarrow> mcs_spinlock"
  waiting :: "nat \<Rightarrow> (nat \<times> spin_pc) option"
  held :: "nat \<Rightarrow> nat list"

inductive lock_step :: "lock_system \<Rightarrow> lock_system \<Rightarrow> bool" where
  request: "waiting s i = None \<Longrightarrow>
    mcs_lockdep_before_acquire (Some (validator s i)) (sl_class_id (locks s l)) nm = (MCS_SYNC_OK, Some v) \<Longrightarrow>
    lock_step s (s\<lparr>validator := (validator s)(i := v), waiting := (waiting s)(i := Some (l, Try))\<rparr>)"
| refused: "waiting s i = None \<Longrightarrow>
    mcs_lockdep_before_acquire (Some (validator s i)) (sl_class_id (locks s l)) nm = (rc, Some v) \<Longrightarrow>
    rc \<noteq> MCS_SYNC_OK \<Longrightarrow> lock_step s (s\<lparr>validator := (validator s)(i := v)\<rparr>)"
| spin: "waiting s i = Some (l, pc) \<Longrightarrow> mcs_spin_lock_step pc (locks s l) = (Some pc', k) \<Longrightarrow>
    lock_step s (s\<lparr>locks := (locks s)(l := k), waiting := (waiting s)(i := Some (l, pc'))\<rparr>)"
| acquire: "waiting s i = Some (l, pc) \<Longrightarrow> mcs_spin_lock_step pc (locks s l) = (None, k) \<Longrightarrow>
    lock_step s (s\<lparr>locks := (locks s)(l := k), waiting := (waiting s)(i := None),
                   held := (held s)(i := l # held s i)\<rparr>)"
| release: "waiting s i = None \<Longrightarrow> held s i = l # ls \<Longrightarrow>
    mcs_spin_unlock (Some (locks s l)) = Some k \<Longrightarrow>
    mcs_lockdep_after_release (Some (validator s i)) (sl_class_id (locks s l)) nm = (rc, Some v) \<Longrightarrow>
    lock_step s (s\<lparr>locks := (locks s)(l := k), validator := (validator s)(i := v), held := (held s)(i := ls)\<rparr>)"

inductive_cases lock_stepE: "lock_step s s'"

definition lock_start :: "lock_system \<Rightarrow> bool" where
  "lock_start s \<longleftrightarrow>
     (\<forall>i. waiting s i = None \<and> held s i = [] \<and>
          (\<exists>r. length (held_class r) = 16 \<and> length (held_name r) = 16 \<and> mcs_lockdep_init (Some r) = Some (validator s i))) \<and>
     (\<forall>l. \<exists>r c nm. c \<noteq> 0 \<and> mcs_spin_init (Some r) c nm = Some (locks s l))"

definition pending :: "(nat \<times> spin_pc) option \<Rightarrow> nat list" where
  "pending w = (case w of None \<Rightarrow> [] | Some (l, _) \<Rightarrow> [l])"

abbreviation class_of :: "lock_system \<Rightarrow> nat \<Rightarrow> u32" where
  "class_of s l \<equiv> sl_class_id (locks s l)"

definition order_inv :: "lock_system \<Rightarrow> bool" where
  "order_inv s \<longleftrightarrow>
     (\<forall>i. lockdep_ok (validator s i) \<and>
          stack (validator s i) = rev (map (class_of s) (pending (waiting s i) @ held s i)))"

definition owner_inv :: "lock_system \<Rightarrow> bool" where
  "owner_inv s \<longleftrightarrow>
     (\<forall>l. class_of s l \<noteq> 0 \<and> (sl_locked (locks s l) \<noteq> 0 \<longleftrightarrow> (\<exists>i. l \<in> set (held s i)))) \<and>
     (\<forall>i j l. l \<in> set (held s i) \<longrightarrow> l \<in> set (held s j) \<longrightarrow> i = j) \<and> (\<forall>i. distinct (held s i))"

lemma pending_simps [simp]: "pending None = []" "pending (Some (l, pc)) = [l]"
  by (simp_all add: pending_def)

lemma lock_start_inv:
  assumes st: "lock_start s"
  shows "order_inv s \<and> owner_inv s"
proof -
  have l: "sl_locked (locks s l) = 0 \<and> class_of s l \<noteq> 0" for l
  proof -
    obtain r c nm where "c \<noteq> 0" "mcs_spin_init (Some r) c nm = Some (locks s l)"
      using st unfolding lock_start_def by blast
    moreover from this(2) have "locks s l = r\<lparr>sl_locked := 0, sl_class_id := c, sl_name := nm\<rparr>"
      by (simp add: mcs_spin_init_def)
    ultimately show ?thesis by simp
  qed
  have w: "waiting s i = None" "held s i = []" for i using st by (auto simp: lock_start_def)
  have v: "lockdep_ok (validator s i) \<and> stack (validator s i) = []" for i
    using st lockdep_init_spec by (fastforce simp: lock_start_def)
  show ?thesis using l w v by (auto simp: order_inv_def owner_inv_def)
qed

lemma stack_le: "lockdep_ok s \<Longrightarrow> length (stack s) \<le> 16"
  using length_stack[of s] by (simp add: lockdep_ok_def MCS_LOCKDEP_MAX_HELD_def)

lemma spin_step_cases:
  "mcs_spin_lock_step pc l = (None, k) \<longleftrightarrow> pc = Try \<and> sl_locked l = 0 \<and> k = l\<lparr>sl_locked := 1\<rparr>"
  "mcs_spin_lock_step pc l = (Some pc', k) \<longleftrightarrow>
     (pc = Try \<and> sl_locked l \<noteq> 0 \<and> pc' = Relax \<and> k = l\<lparr>sl_locked := 1\<rparr>) \<or>
     (pc = Relax \<and> pc' = (if sl_locked l \<noteq> 0 then Relax else Try) \<and> k = l)"
  by (auto simp: mcs_spin_lock_step_def mcs_spin_try_lock_def split: spin_pc.splits bool.splits)


lemma class_of_step: "lock_step s s' \<Longrightarrow> class_of s' = class_of s"
  by (rule ext, erule lock_stepE) (auto simp: spin_step_cases mcs_spin_unlock_def)

lemma order_inv_step:
  assumes step: "lock_step s s'" and o: "order_inv s" and nz: "\<And>l. class_of s l \<noteq> 0"
  shows "order_inv s'"
proof -
  have cl: "class_of s' = class_of s" by (rule class_of_step[OF step])
  have ok: "lockdep_ok (validator s i)"
    "stack (validator s i) = rev (map (class_of s) (pending (waiting s i) @ held s i))" for i
    using o by (auto simp: order_inv_def)
  have "lockdep_ok (validator s' i) \<and> stack (validator s' i) = rev (map (class_of s) (pending (waiting s' i) @ held s' i))" for i
    using step
  proof cases
    case (request j l nm v)
    from before_acquire_spec[OF ok(1) nz, of j l nm] request(3) have "lockdep_ok v \<and> stack v = stack (validator s j) @ [class_of s l]"
      using stack_le[OF ok(1), of j] by (auto split: if_splits)
    then show ?thesis using request(1,2) ok[of i] ok[of j] by auto
  next
    case (refused j l nm rc v)
    from before_acquire_spec[OF ok(1) nz, of j l nm] refused(3,4) have "lockdep_ok v \<and> stack v = stack (validator s j)"
      using ok(1)[of j] by (auto split: if_splits)
    then show ?thesis using refused(1) ok[of i] ok[of j] by auto
  next
    case (spin j l pc pc' k)
    then show ?thesis using ok[of i] by auto
  next
    case (acquire j l pc k)
    then show ?thesis using ok[of i] by auto
  next
    case (release j l ls k nm rc v)
    have "stack (validator s j) = rev (map (class_of s) ls) @ [class_of s l]" using ok(2)[of j] release(2,3) by simp
    with after_release_spec[OF ok(1) nz, of j l nm] release(5)
    have "lockdep_ok v \<and> stack v = rev (map (class_of s) ls)" by (auto split: if_splits)
    then show ?thesis using release(1,2) ok[of i] by auto
  qed
  then show ?thesis unfolding order_inv_def cl by blast
qed

lemma owner_inv_step:
  assumes step: "lock_step s s'" and w: "owner_inv s"
  shows "owner_inv s'"
proof -
  have cl: "class_of s' = class_of s" by (rule class_of_step[OF step])
  have lk: "\<And>l. sl_locked (locks s l) \<noteq> 0 \<longleftrightarrow> (\<exists>i. l \<in> set (held s i))"
    and ex: "\<And>i j l. l \<in> set (held s i) \<Longrightarrow> l \<in> set (held s j) \<Longrightarrow> i = j" and d: "\<And>i. distinct (held s i)"
    using w unfolding owner_inv_def by blast+
  have "(\<forall>l. sl_locked (locks s' l) \<noteq> 0 \<longleftrightarrow> (\<exists>i. l \<in> set (held s' i))) \<and>
     (\<forall>i j l. l \<in> set (held s' i) \<longrightarrow> l \<in> set (held s' j) \<longrightarrow> i = j) \<and> (\<forall>i. distinct (held s' i))"
    using step
  proof cases
    case (request j l nm v)
    then show ?thesis using lk ex d by auto
  next
    case (refused j l nm rc v)
    then show ?thesis using lk ex d by auto
  next
    case (spin j l pc pc' k)
    have "sl_locked k \<noteq> 0 \<longleftrightarrow> sl_locked (locks s l) \<noteq> 0" using spin(3) by (auto simp: spin_step_cases)
    then show ?thesis using spin(1) lk ex d by (auto simp del: not_gr_zero)
  next
    case (acquire j l pc k)
    have free: "\<And>i. l \<notin> set (held s i)" and k: "sl_locked k = 1"
      using acquire(3) lk[of l] by (auto simp: spin_step_cases)
    have m: "x \<in> set (held s' i) \<longleftrightarrow> x \<in> set (held s i) \<or> (x = l \<and> i = j)" for x i
      by (auto simp: acquire(1))
    have "sl_locked (locks s' x) \<noteq> 0 \<longleftrightarrow> (\<exists>i. x \<in> set (held s' i))" for x
      using lk[of x] k unfolding m by (auto simp: acquire(1))
    moreover have "distinct (held s' i)" for i using d free by (simp add: acquire(1))
    ultimately show ?thesis using ex free unfolding m by blast
  next
    case (release j l ls k nm rc v)
    have k: "sl_locked k = 0" using release(4) by (auto simp: mcs_spin_unlock_def)
    have free: "l \<notin> set ls" "\<And>i. i \<noteq> j \<Longrightarrow> l \<notin> set (held s i)" "distinct ls"
      using d[of j] ex[of l j] release(3) by auto
    have m: "x \<in> set (held s' i) \<longleftrightarrow> x \<in> set (held s i) \<and> x \<noteq> l" for x i
      using free release(3) by (auto simp: release(1))
    have "sl_locked (locks s' x) \<noteq> 0 \<longleftrightarrow> (\<exists>i. x \<in> set (held s' i))" for x
      using lk[of x] k unfolding m by (auto simp: release(1))
    moreover have "distinct (held s' i)" for i using d free by (simp add: release(1))
    ultimately show ?thesis using ex unfolding m by blast
  qed
  then show ?thesis using w fun_cong[OF cl] unfolding owner_inv_def by auto
qed

inductive lock_reach :: "lock_system \<Rightarrow> bool" where
  start: "lock_start s \<Longrightarrow> lock_reach s"
| step: "lock_reach s \<Longrightarrow> lock_step s s' \<Longrightarrow> lock_reach s'"

lemma lock_reach_inv: "lock_reach s \<Longrightarrow> order_inv s \<and> owner_inv s"
proof (induction rule: lock_reach.induct)
  case (step s s')
  then show ?case using order_inv_step[of s s'] owner_inv_step[of s s'] by (auto simp: owner_inv_def)
qed (rule lock_start_inv)

lemma waits_above:
  assumes o: "order_inv s" and w: "waiting s i = Some (l, pc)" and x: "x \<in> set (held s i)"
  shows "class_of s x < class_of s l"
proof -
  have "sorted_wrt (<) (rev (map (class_of s) (l # held s i)))"
    using o w by (auto simp: order_inv_def lockdep_ok_def dest!: spec[of _ i])
  then show ?thesis using x by (auto simp: sorted_wrt_append)
qed

text \<open>
  C21. Under every interleaving of the atomic accesses of any number of threads, at most one thread
  holds a spin lock, \<open>mcs_spin_is_locked\<close> tells whether one does, and the validator of a thread
  reports a class as held exactly when the thread holds, or is waiting for, a lock of that class.
\<close>

theorem spin_lock_exclusive:
  assumes "lock_reach s"
  shows "(\<forall>i j l. l \<in> set (held s i) \<longrightarrow> l \<in> set (held s j) \<longrightarrow> i = j) \<and>
    (\<forall>l. mcs_spin_is_locked (Some (locks s l)) = (\<exists>i. l \<in> set (held s i))) \<and>
    (\<forall>i c. mcs_lockdep_is_held (Some (validator s i)) c =
        (c \<in> class_of s ` (set (held s i) \<union> {l. \<exists>pc. waiting s i = Some (l, pc)})))"
proof -
  have o: "order_inv s" and w: "owner_inv s" using lock_reach_inv[OF assms] by auto
  have "mcs_lockdep_is_held (Some (validator s i)) c =
        (c \<in> class_of s ` (set (held s i) \<union> {l. \<exists>pc. waiting s i = Some (l, pc)}))" for i c
  proof -
    have "set (pending (waiting s i)) = {l. \<exists>pc. waiting s i = Some (l, pc)}"
      by (cases "waiting s i") (auto simp: pending_def)
    then show ?thesis using o is_held_stack[of "validator s i" c] by (auto simp: order_inv_def)
  qed
  then show ?thesis using w unfolding owner_inv_def mcs_spin_is_locked_def by simp
qed

definition acquires_alone :: "spin_pc \<Rightarrow> mcs_spinlock \<Rightarrow> bool" where
  "acquires_alone pc l \<longleftrightarrow>
     (case mcs_spin_lock_step pc l of
        (None, _) \<Rightarrow> True
      | (Some pc', l') \<Rightarrow> fst (mcs_spin_lock_step pc' l') = None)"

text \<open>
  C20. Threads that follow the validator never deadlock: in every reachable state in which some
  thread waits for a lock, there is a waiting thread whose lock is free (and which then acquires it within
  two of its own steps), or whose lock is held by a thread that is not waiting itself.
\<close>

theorem lock_order_progress:
  assumes reach: "lock_reach s" and w: "waiting s i = Some (l, pc)"
  shows "\<exists>i l pc. waiting s i = Some (l, pc) \<and>
    (acquires_alone pc (locks s l) \<or> (\<exists>j. l \<in> set (held s j) \<and> waiting s j = None))"
proof -
  have o: "order_inv s" and ow: "owner_inv s" using lock_reach_inv[OF reach] by auto
  let ?W = "{c. \<exists>i l pc. waiting s i = Some (l, pc) \<and> c = class_of s l}"
  have fin: "finite ?W" by simp
  have "?W \<noteq> {}" using w by blast
  from Max_in[OF fin this] have "Max ?W \<in> ?W" .
  have mx: "\<And>c. c \<in> ?W \<Longrightarrow> c \<le> Max ?W" using fin by (rule Max_ge)
  obtain i l pc where i: "waiting s i = Some (l, pc)" and top: "class_of s l = Max ?W"
    using \<open>Max ?W \<in> ?W\<close> by force
  show ?thesis
  proof (cases "\<exists>j. l \<in> set (held s j)")
    case False
    then have "sl_locked (locks s l) = 0" using ow unfolding owner_inv_def by blast
    then have "acquires_alone pc (locks s l)"
      by (cases pc) (auto simp: acquires_alone_def mcs_spin_lock_step_def mcs_spin_try_lock_def)
    with i show ?thesis by blast
  next
    case True
    then obtain j where j: "l \<in> set (held s j)" by blast
    have "waiting s j = None"
    proof (rule ccontr)
      assume "waiting s j \<noteq> None"
      then obtain l' pc' where j': "waiting s j = Some (l', pc')" by auto
      then have "class_of s l' \<le> Max ?W" by (intro mx) blast
      moreover have "class_of s l < class_of s l'" by (rule waits_above[OF o j' j])
      ultimately show False using top by simp
    qed
    with i j show ?thesis by blast
  qed
qed

section \<open>Threads that share a mutex\<close>

text \<open>
  A thread is named by its owner identifier, which is not zero. Between calls its program counter is
  the result of its last call. \<open>inside\<close> is true from the exchange that takes the mutex to the store that
  frees it.
\<close>

record mutex_system =
  mutex :: mcs_mutex
  counter :: "u64 \<Rightarrow> mutex_pc"
  inside :: "u64 \<Rightarrow> bool"

inductive mutex_step :: "mutex_system \<Rightarrow> mutex_system \<Rightarrow> bool" where
  try_lock: "i \<noteq> 0 \<Longrightarrow> counter s i = Returned rc \<Longrightarrow> mutex_step s (s\<lparr>counter := (counter s)(i := Cas)\<rparr>)"
| unlock: "i \<noteq> 0 \<Longrightarrow> counter s i = Returned rc \<Longrightarrow> mutex_step s (s\<lparr>counter := (counter s)(i := Check_owner)\<rparr>)"
| access: "i \<noteq> 0 \<Longrightarrow> mcs_mutex_step i (counter s i) (mutex s) = (pc, m) \<Longrightarrow>
    mutex_step s \<lparr>mutex = m, counter = (counter s)(i := pc),
      inside = (inside s)(i := (pc = Store_owner \<or> inside s i) \<and> counter s i \<noteq> Clear_locked)\<rparr>"

inductive mutex_reach :: "mutex_system \<Rightarrow> bool" where
  start: "mcs_mutex_init (Some r) c nm = Some m \<Longrightarrow>
    mutex_reach \<lparr>mutex = m, counter = (\<lambda>_. Returned MCS_SYNC_OK), inside = (\<lambda>_. False)\<rparr>"
| step: "mutex_reach s \<Longrightarrow> mutex_step s s' \<Longrightarrow> mutex_reach s'"

definition at_work :: "mutex_pc set" where
  "at_work = {Store_owner, Clear_owner, Clear_locked}"

fun held_by :: "u64 option \<Rightarrow> mcs_mutex \<Rightarrow> (u64 \<Rightarrow> mutex_pc) \<Rightarrow> bool" where
  "held_by None m pcs \<longleftrightarrow> mx_locked m = 0 \<and> mx_owner m = 0 \<and> (\<forall>j. pcs j \<notin> at_work)"
| "held_by (Some i) m pcs \<longleftrightarrow>
     i \<noteq> 0 \<and> mx_locked m \<noteq> 0 \<and> mx_owner m = (if pcs i \<in> {Store_owner, Clear_locked} then 0 else i) \<and>
     (\<forall>j. j \<noteq> i \<longrightarrow> pcs j \<notin> at_work)"

definition mutex_inv :: "mutex_system \<Rightarrow> bool" where
  "mutex_inv s \<longleftrightarrow> (\<exists>h. inside s = (\<lambda>i. h = Some i) \<and> held_by h (mutex s) (counter s))"

lemma at_work_simps [simp]:
  "Store_owner \<in> at_work" "Clear_owner \<in> at_work" "Clear_locked \<in> at_work"
  "Cas \<notin> at_work" "Load_owner \<notin> at_work" "Check_owner \<notin> at_work" "Returned rc \<notin> at_work"
  by (simp_all add: at_work_def)

lemma held_by_idle_pc:
  assumes "held_by h m pcs" "h \<noteq> Some i \<or> pcs i \<notin> at_work" "pc \<notin> at_work"
  shows "held_by h m (pcs(i := pc))"
  using assms by (cases h) (auto simp: at_work_def)

lemma held_by_at_work: "held_by h m pcs \<Longrightarrow> pcs i \<in> at_work \<Longrightarrow> h = Some i"
  using spec[of "\<lambda>j. j \<noteq> the h \<longrightarrow> pcs j \<notin> at_work" i] by (cases h) auto

lemma held_by_access:
  assumes h: "held_by h m pcs" and i: "i \<noteq> 0" and st: "mcs_mutex_step i (pcs i) m = (pc, m')"
  shows "held_by (if pc = Store_owner then Some i else if pcs i = Clear_locked then None else h) m' (pcs(i := pc))"
proof (cases "h = Some i")
  case True
  then show ?thesis using h st by (cases "pcs i") (auto split: if_splits)
next
  case False
  then have "pcs i \<notin> at_work" using h by (cases h) auto
  then consider "pcs i = Cas" "mx_locked m = 0" | "pcs i \<noteq> Clear_locked" "pc \<notin> at_work" "m' = m"
    using st h i False by (cases h; cases "pcs i") (auto split: if_splits)
  then show ?thesis
  proof cases
    case 1
    then have "h = None" using h by (cases h) auto
    then show ?thesis using 1 h i st by auto
  next
    case 2
    then have "pc \<noteq> Store_owner" by auto
    then show ?thesis using 2 held_by_idle_pc[OF h, of i pc] False by simp
  qed
qed

lemma mutex_reach_inv: "mutex_reach s \<Longrightarrow> mutex_inv s"
proof (induction rule: mutex_reach.induct)
  case (start r c nm m)
  then have "held_by None m (\<lambda>_. Returned MCS_SYNC_OK)" by (auto simp: mcs_mutex_init_def)
  then show ?case unfolding mutex_inv_def by (intro exI[of _ None]) simp
next
  case (step s s')
  obtain h where ins: "inside s = (\<lambda>i. h = Some i)" and h: "held_by h (mutex s) (counter s)"
    using step.IH by (auto simp: mutex_inv_def)
  from step(2) show ?case
  proof cases
    case (try_lock i rc)
    then show ?thesis using held_by_idle_pc[OF h, of i Cas] ins by (auto simp: mutex_inv_def)
  next
    case (unlock i rc)
    then show ?thesis using held_by_idle_pc[OF h, of i Check_owner] ins by (auto simp: mutex_inv_def)
  next
    case (access i pc m)
    let ?h = "if pc = Store_owner then Some i else if counter s i = Clear_locked then None else h"
    have k: "held_by ?h m ((counter s)(i := pc))" by (rule held_by_access[OF h access(2,3)])
    have c: "h = Some i" if "counter s i = Clear_locked" using held_by_at_work[OF h, of i] that by simp
    have "h = None \<or> h = Some i" if "pc = Store_owner"
      using h access(3) that by (cases h; cases "counter s i") (auto split: if_splits)
    moreover have "counter s i \<noteq> Clear_locked" if "pc = Store_owner" using access(3) that by auto
    ultimately have "inside s' = (\<lambda>j. ?h = Some j)" unfolding access(1) using ins c by (auto simp: fun_eq_iff)
    then show ?thesis unfolding mutex_inv_def using k access(1) by auto
  qed
qed

text \<open>
  C22. Under every interleaving of the atomic accesses of any number of threads to a mutex, at most
  one thread is between taking and freeing it, and \<open>mcs_mutex_is_locked\<close> tells whether one is. A call of
  \<open>mcs_mutex_try_lock\<close> returns success only to a thread that has the mutex then, and reports a deadlock to
  a thread exactly when that thread has it; an unlock by a thread that does not have it is refused.
\<close>

theorem mutex_exclusive:
  assumes "mutex_reach s"
  shows "(\<forall>i j. inside s i \<longrightarrow> inside s j \<longrightarrow> i = j) \<and>
    mcs_mutex_is_locked (Some (mutex s)) = (\<exists>i. inside s i) \<and>
    (\<forall>i. i \<noteq> 0 \<longrightarrow> counter s i = Store_owner \<longrightarrow> inside s i) \<and>
    (\<forall>i. i \<noteq> 0 \<longrightarrow> counter s i = Load_owner \<longrightarrow>
        fst (mcs_mutex_step i Load_owner (mutex s)) = Returned (if inside s i then MCS_SYNC_EDEADLK else MCS_SYNC_EBUSY)) \<and>
    (\<forall>i. i \<noteq> 0 \<longrightarrow> counter s i = Check_owner \<longrightarrow>
        fst (mcs_mutex_step i Check_owner (mutex s)) = (if inside s i then Clear_owner else Returned MCS_SYNC_EPERM))"
proof -
  obtain h where ins: "inside s = (\<lambda>i. h = Some i)" and h: "held_by h (mutex s) (counter s)"
    using mutex_reach_inv[OF assms] by (auto simp: mutex_inv_def)
  have "mx_owner (mutex s) = i \<longleftrightarrow> h = Some i" if "i \<noteq> 0" "counter s i \<notin> at_work" for i
    using h that by (cases h) (auto split: if_splits)
  moreover have "mcs_mutex_is_locked (Some (mutex s)) = (\<exists>i. inside s i)"
    using h by (cases h) (auto simp: ins mcs_mutex_is_locked_def)
  moreover have "h = Some i" if "counter s i = Store_owner" for i using held_by_at_work[OF h, of i] that by simp
  ultimately show ?thesis by (auto simp: ins)
qed

text \<open>Executed without interference, the steps compute the two functions.\<close>

fun mutex_run :: "nat \<Rightarrow> u64 \<Rightarrow> mutex_pc \<times> mcs_mutex \<Rightarrow> mutex_pc \<times> mcs_mutex" where
  "mutex_run 0 i pm = pm"
| "mutex_run (Suc n) i (pc, m) = mutex_run n i (mcs_mutex_step i pc m)"

lemma mutex_run_try_lock:
  assumes "i \<noteq> 0" "mcs_mutex_try_lock (Some m) i = (rc, Some m')"
  shows "mutex_run 2 i (Cas, m) = (Returned rc, m')"
  using assms by (auto simp: mcs_mutex_try_lock_def numeral_2_eq_2 Let_def split: if_splits)

lemma mutex_run_unlock:
  assumes "i \<noteq> 0" "mcs_mutex_unlock (Some m) i = (rc, Some m')"
  shows "mutex_run 3 i (Check_owner, m) = (Returned rc, m')"
  using assms by (auto simp: mcs_mutex_unlock_def numeral_3_eq_3 Let_def split: if_splits)

inductive lockdep_history :: "mcs_lockdep_state \<Rightarrow> bool" where
  init: "length (held_class r) = 16 \<Longrightarrow> length (held_name r) = 16 \<Longrightarrow> mcs_lockdep_init (Some r) = Some s \<Longrightarrow>
    lockdep_history s"
| acquire: "lockdep_history s \<Longrightarrow> mcs_lockdep_before_acquire (Some s) c nm = (rc, Some s') \<Longrightarrow> lockdep_history s'"
| release: "lockdep_history s \<Longrightarrow> mcs_lockdep_after_release (Some s) c nm = (rc, Some s') \<Longrightarrow> lockdep_history s'"

lemma lockdep_history_ok: "lockdep_history s \<Longrightarrow> lockdep_ok s"
proof (induction rule: lockdep_history.induct)
  case (init r s)
  then show ?case using lockdep_init_spec[of r] by auto
next
  case (acquire s c nm rc s')
  show ?case
  proof (cases "c = 0")
    case True
    then show ?thesis using acquire by (simp add: mcs_lockdep_before_acquire_def)
  next
    case False
    then show ?thesis using before_acquire_spec[OF acquire.IH False, of nm] acquire.hyps(2) acquire.IH stack_le[OF acquire.IH]
      by (auto split: if_splits)
  qed
next
  case (release s c nm rc s')
  show ?case
  proof (cases "c = 0")
    case True
    then show ?thesis using release by (simp add: mcs_lockdep_after_release_def)
  next
    case False
    then show ?thesis using after_release_spec[OF release.IH False, of nm] release.hyps(2) release.IH
      by (auto split: if_splits)
  qed
qed

text \<open>
  C23. After any sequence of lock-order calls, \<open>mcs_lockdep_before_acquire\<close> accepts a non-zero class exactly when
  fewer than 16 classes are held and every held class is smaller; it then records the class, which
  \<open>mcs_lockdep_is_held\<close> and a release in reverse order find again. Otherwise it counts one violation and
  changes nothing else.
\<close>

theorem lockdep_accepts_ascending:
  assumes "lockdep_history s" and c: "c \<noteq> 0"
  shows "if unat (depth s) = 16
         then mcs_lockdep_before_acquire (Some s) c nm = (MCS_SYNC_EOVERFLOW, Some (violation s))
         else if \<exists>h. mcs_lockdep_is_held (Some s) h \<and> c \<le> h
         then mcs_lockdep_before_acquire (Some s) c nm = (MCS_SYNC_EDEADLK, Some (violation s))
         else \<exists>s' s''. mcs_lockdep_before_acquire (Some s) c nm = (MCS_SYNC_OK, Some s') \<and>
           (\<forall>d. mcs_lockdep_is_held (Some s') d = (d = c \<or> mcs_lockdep_is_held (Some s) d)) \<and>
           mcs_lockdep_after_release (Some s') c nm = (MCS_SYNC_OK, Some s'') \<and>
           (\<forall>d. mcs_lockdep_is_held (Some s'') d = mcs_lockdep_is_held (Some s) d)"
proof -
  have ok: "lockdep_ok s" by (rule lockdep_history_ok) fact
  note h = is_held_stack[OF ok]
  have le: "length (stack s) = unat (depth s)" "unat (depth s) \<le> 16"
    using stack_le[OF ok] length_stack[OF ok] by auto
  have asc: "(\<forall>x \<in> set (stack s). x < c) \<longleftrightarrow> \<not> (\<exists>h. mcs_lockdep_is_held (Some s) h \<and> c \<le> h)"
    unfolding h by (auto simp: not_le[symmetric])
  obtain s' where b: "mcs_lockdep_before_acquire (Some s) c nm =
      (if length (stack s) = 16 then (MCS_SYNC_EOVERFLOW, Some (violation s))
       else if \<forall>h \<in> set (stack s). h < c then (MCS_SYNC_OK, Some s')
       else (MCS_SYNC_EDEADLK, Some (violation s)))"
    and ok': "length (stack s) < 16 \<and> (\<forall>h \<in> set (stack s). h < c) \<Longrightarrow> lockdep_ok s' \<and> stack s' = stack s @ [c]"
    using before_acquire_spec[OF ok c, of nm] by blast
  have "\<exists>s''. (\<forall>d. mcs_lockdep_is_held (Some s') d = (d = c \<or> mcs_lockdep_is_held (Some s) d)) \<and>
           mcs_lockdep_after_release (Some s') c nm = (MCS_SYNC_OK, Some s'') \<and>
           (\<forall>d. mcs_lockdep_is_held (Some s'') d = mcs_lockdep_is_held (Some s) d)"
    if "length (stack s) < 16" "\<forall>h \<in> set (stack s). h < c"
  proof -
    have k: "lockdep_ok s'" "stack s' = stack s @ [c]" using ok' that by auto
    obtain s'' where "mcs_lockdep_after_release (Some s') c nm = (MCS_SYNC_OK, Some s'')" "lockdep_ok s''" "stack s'' = stack s"
      using after_release_spec[OF k(1) c, of nm] k(2) by auto
    then show ?thesis using k by (auto simp: h is_held_stack)
  qed
  then show ?thesis using b le asc by auto
qed

section \<open>Sample systems\<close>

definition sample_lockdep :: mcs_lockdep_state where
  "sample_lockdep = \<lparr>held_class = replicate 16 0, held_name = replicate 16 0, depth = 0, violation_count = 0\<rparr>"

definition sample_locks :: lock_system where
  "sample_locks = \<lparr>validator = \<lambda>_. sample_lockdep, locks = \<lambda>l. \<lparr>sl_locked = 0, sl_class_id = 10, sl_name = 0\<rparr>,
     waiting = \<lambda>_. None, held = \<lambda>_. []\<rparr>"

lemma sample_init: "mcs_lockdep_init (Some sample_lockdep) = Some sample_lockdep"
  by (simp add: mcs_lockdep_init_def sample_lockdep_def MCS_LOCKDEP_MAX_HELD_def upt_rec numeral_eq_Suc)

lemma sample_lockdep_history: "lockdep_history sample_lockdep"
  by (rule lockdep_history.init[OF _ _ sample_init]) (simp_all add: sample_lockdep_def)

lemma sample_locks_start: "lock_start sample_locks"
proof -
  have "mcs_spin_init (Some \<lparr>sl_locked = 0, sl_class_id = 10, sl_name = 0\<rparr>) 10 0 = Some (locks sample_locks l)" for l
    by (simp add: sample_locks_def mcs_spin_init_def)
  then have "\<exists>r c nm. c \<noteq> 0 \<and> mcs_spin_init (Some r) c nm = Some (locks sample_locks l)" for l
    by (intro exI[of _ "\<lparr>sl_locked = 0, sl_class_id = 10, sl_name = 0\<rparr>"] exI[of _ 10] exI[of _ 0]) simp
  moreover have "waiting sample_locks i = None" "held sample_locks i = []" "validator sample_locks i = sample_lockdep"
    for i by (simp_all add: sample_locks_def)
  moreover have "length (held_class sample_lockdep) = 16" "length (held_name sample_lockdep) = 16"
    by (simp_all add: sample_lockdep_def)
  ultimately show ?thesis unfolding lock_start_def using sample_init by auto
qed

definition waiting_locks :: lock_system where
  "waiting_locks = sample_locks\<lparr>validator := (\<lambda>_. sample_lockdep)(1 :=
       the (snd (mcs_lockdep_before_acquire (Some sample_lockdep) 10 0))),
     waiting := (\<lambda>_. None)(1 := Some (7, Try))\<rparr>"

lemma waiting_locks_reach: "lock_reach waiting_locks"
proof (rule lock_reach.step)
  show "lock_reach sample_locks" by (rule lock_reach.start[OF sample_locks_start])
  have a: "mcs_lockdep_before_acquire (Some sample_lockdep) 10 0 =
      (MCS_SYNC_OK, snd (mcs_lockdep_before_acquire (Some sample_lockdep) 10 0))"
    and n: "snd (mcs_lockdep_before_acquire (Some sample_lockdep) 10 0) \<noteq> None"
    by (simp_all add: mcs_lockdep_before_acquire_def sample_lockdep_def MCS_LOCKDEP_MAX_HELD_def)
  have "lock_step sample_locks (sample_locks\<lparr>validator := (validator sample_locks)(1 :=
       the (snd (mcs_lockdep_before_acquire (Some sample_lockdep) 10 0))),
       waiting := (waiting sample_locks)(1 := Some (7, Try))\<rparr>)"
    by (rule lock_step.request[where nm = 0]) (use a n in \<open>auto simp: sample_locks_def\<close>)
  then show "lock_step sample_locks waiting_locks" by (simp add: waiting_locks_def sample_locks_def)
qed

theorem lockdep_accepts_ascending_witness:
  "\<exists>s'. mcs_lockdep_before_acquire (Some sample_lockdep) 10 0 = (MCS_SYNC_OK, Some s') \<and>
     mcs_lockdep_is_held (Some s') 10"
proof -
  have "depth sample_lockdep = 0" by (simp add: sample_lockdep_def)
  moreover have "\<not> mcs_lockdep_is_held (Some sample_lockdep) h" for h
    by (simp add: mcs_lockdep_is_held_def sample_lockdep_def)
  ultimately show ?thesis using lockdep_accepts_ascending[OF sample_lockdep_history, of 10 0] by auto
qed

theorem spin_lock_exclusive_witness:
  "\<not> mcs_spin_is_locked (Some (locks waiting_locks 7)) \<and> mcs_lockdep_is_held (Some (validator waiting_locks 1)) 10"
proof -
  have "held waiting_locks i = []" "waiting waiting_locks 1 = Some (7, Try)" "class_of waiting_locks 7 = 10" for i
    by (simp_all add: waiting_locks_def sample_locks_def)
  then show ?thesis using spin_lock_exclusive[OF waiting_locks_reach] by auto
qed

theorem lock_order_progress_witness:
  "\<exists>i l pc. waiting waiting_locks i = Some (l, pc) \<and>
    (acquires_alone pc (locks waiting_locks l) \<or> (\<exists>j. l \<in> set (held waiting_locks j) \<and> waiting waiting_locks j = None))"
  by (rule lock_order_progress[OF waiting_locks_reach, of 1 7 Try]) (simp add: waiting_locks_def)

definition sample_mutex :: mcs_mutex where
  "sample_mutex = \<lparr>mx_locked = 0, mx_owner = 0, mx_class_id = 200, mx_name = 0\<rparr>"

definition taken_mutex :: mutex_system where
  "taken_mutex = \<lparr>mutex = sample_mutex\<lparr>mx_locked := 1\<rparr>, counter = (\<lambda>_. Returned MCS_SYNC_OK)(5 := Store_owner),
     inside = (\<lambda>_. False)(5 := True)\<rparr>"

lemma taken_mutex_reach: "mutex_reach taken_mutex"
proof -
  let ?s = "\<lparr>mutex = sample_mutex, counter = \<lambda>_. Returned MCS_SYNC_OK, inside = \<lambda>_. False\<rparr>"
  let ?t = "?s\<lparr>counter := (counter ?s)(5 := Cas)\<rparr>"
  have "mutex_reach ?s"
    by (rule mutex_reach.start[of sample_mutex 200 0]) (simp add: sample_mutex_def mcs_mutex_init_def)
  moreover have "mutex_step ?s ?t" by (rule mutex_step.try_lock[of 5 ?s MCS_SYNC_OK]) simp_all
  ultimately have "mutex_reach ?t" by (rule mutex_reach.step)
  moreover have "mutex_step ?t taken_mutex"
    using mutex_step.access[of 5 ?t Store_owner "sample_mutex\<lparr>mx_locked := 1\<rparr>"]
    by (simp add: taken_mutex_def sample_mutex_def)
  ultimately show ?thesis by (rule mutex_reach.step)
qed

theorem mutex_exclusive_witness:
  "inside taken_mutex 5 \<and> mcs_mutex_is_locked (Some (mutex taken_mutex)) \<and> {i. inside taken_mutex i} = {5}"
proof -
  have "inside taken_mutex 5" by (simp add: taken_mutex_def)
  with mutex_exclusive[OF taken_mutex_reach] show ?thesis by blast
qed

end
