(* ===== verification/Block.thy ===== *)
theory Block
  imports Prelude
begin

text \<open>
  The block layer of \<^verbatim>\<open>kernel/block/block.c\<close>, its interface \<^verbatim>\<open>include/mcsos/block.h\<close> and the RAM block
  driver of \<^verbatim>\<open>kernel/block/ramblk.c\<close>.

  The type \<open>'d\<close> is the memory of the drivers; a driver operation takes it and returns it changed. The
  device table holds addresses of device records, 0 for an empty slot. A buffer is an option, \<open>None\<close> the
  null pointer; an operation that fills a buffer returns its new contents. \<open>blk_flush\<close> calls the driver's
  write without a test for null: its result is \<open>None\<close> when that call has no target.

  The contract a driver owes the cache is the locale \<open>block_driver\<close>. In it the write-back cache is shown to
  present one disk: reads return what was written last, and a flush brings the medium up to date. The
  RAM driver is an instance.
\<close>

section \<open>Model: the interface\<close>

definition MCSOS_BLOCK_SIZE :: nat where
  "MCSOS_BLOCK_SIZE = 512"

definition MCSOS_MAX_BLOCK_DEVICES :: nat where
  "MCSOS_MAX_BLOCK_DEVICES = 16"

definition MCSOS_BUFFER_CACHE_ENTRIES :: nat where
  "MCSOS_BUFFER_CACHE_ENTRIES = 32"

datatype blk_error = BLK_OK | BLK_ERR_INVALID_LBA | BLK_ERR_INVALID_DEV | BLK_ERR_NOT_VALID | BLK_ERR_DRIVER_FAIL

type_synonym buffer = "u8 list"

record 'd block_driver_ops =
  op_read :: "(u64 \<Rightarrow> buffer option \<Rightarrow> 'd \<Rightarrow> blk_error \<times> buffer option \<times> 'd) option"
  op_write :: "(u64 \<Rightarrow> buffer option \<Rightarrow> 'd \<Rightarrow> blk_error \<times> 'd) option"
  op_flush :: "('d \<Rightarrow> blk_error \<times> 'd) option"

record 'd block_device =
  bd_dev_id :: u32
  bd_block_size :: u32
  bd_block_count :: u64
  bd_ops :: "'d block_driver_ops option"
  bd_driver_private :: u64

record buffer_cache_entry =
  be_dev_id :: u32
  be_lba :: u64
  be_valid :: u8
  be_dirty :: u8
  be_data :: buffer

record 'd blk =
  block_device_table :: "u64 list"
  num_registered_devices :: nat
  device_at :: "u64 \<Rightarrow> 'd block_device"
  buffer_cache :: "buffer_cache_entry list"
  driver :: 'd

section \<open>Model: copying\<close>

definition memset :: "buffer \<Rightarrow> u8 \<Rightarrow> nat \<Rightarrow> buffer" where
  "memset s c n = fold (\<lambda>i p. p[i := c]) [0..<n] s"

definition memcpy :: "buffer \<Rightarrow> buffer \<Rightarrow> nat \<Rightarrow> buffer" where
  "memcpy dest src n = fold (\<lambda>i d. d[i := src ! i]) [0..<n] dest"

section \<open>Model: the device registry\<close>

definition blk_register_device :: "u64 \<Rightarrow> 'd blk \<Rightarrow> blk_error \<times> 'd blk" where
  "blk_register_device dev s =
     (if dev = 0 \<or> bd_ops (device_at s dev) = None then (BLK_ERR_INVALID_DEV, s)
      else if num_registered_devices s \<ge> MCSOS_MAX_BLOCK_DEVICES then (BLK_ERR_INVALID_DEV, s)
      else
        (let n = num_registered_devices s
         in (BLK_OK,
             s\<lparr>device_at := (device_at s)(dev := (device_at s dev)\<lparr>bd_dev_id := of_nat n\<rparr>),
               block_device_table := (block_device_table s)[n := dev],
               num_registered_devices := n + 1\<rparr>)))"

definition blk_get_device :: "u32 \<Rightarrow> 'd blk \<Rightarrow> u64" where
  "blk_get_device dev_id s =
     (if dev_id \<ge> of_nat MCSOS_MAX_BLOCK_DEVICES then 0 else block_device_table s ! unat dev_id)"

section \<open>Model: the buffer cache\<close>

definition empty_entry :: buffer_cache_entry where
  "empty_entry = \<lparr>be_dev_id = 0, be_lba = 0, be_valid = 0, be_dirty = 0, be_data = replicate MCSOS_BLOCK_SIZE 0\<rparr>"

definition blk_cache_init :: "'d blk \<Rightarrow> 'd blk" where
  "blk_cache_init s = s\<lparr>buffer_cache := replicate MCSOS_BUFFER_CACHE_ENTRIES empty_entry\<rparr>"

text \<open>An entry is named by its index.\<close>

definition blk_cache_lookup :: "u32 \<Rightarrow> u64 \<Rightarrow> 'd blk \<Rightarrow> nat option" where
  "blk_cache_lookup dev_id lba s =
     find (\<lambda>i. let e = buffer_cache s ! i in be_valid e \<noteq> 0 \<and> be_dev_id e = dev_id \<and> be_lba e = lba)
       [0..<MCSOS_BUFFER_CACHE_ENTRIES]"

definition blk_cache_find_empty :: "'d blk \<Rightarrow> nat option" where
  "blk_cache_find_empty s = find (\<lambda>i. be_valid (buffer_cache s ! i) = 0) [0..<MCSOS_BUFFER_CACHE_ENTRIES]"

definition set_clean :: "nat \<Rightarrow> 'd blk \<Rightarrow> 'd blk" where
  "set_clean i s = s\<lparr>buffer_cache := (buffer_cache s)[i := (buffer_cache s ! i)\<lparr>be_dirty := 0\<rparr>]\<rparr>"

fun flush_all_from :: "nat list \<Rightarrow> blk_error \<Rightarrow> 'd blk \<Rightarrow> blk_error \<times> 'd blk" where
  "flush_all_from [] result s = (result, s)"
| "flush_all_from (i # is) result s =
     (let e = buffer_cache s ! i
      in if be_valid e \<noteq> 0 \<and> be_dirty e \<noteq> 0 then
           (let dev = blk_get_device (be_dev_id e) s
            in case (if dev = 0 then None else Option.bind (bd_ops (device_at s dev)) op_write) of
                 None \<Rightarrow> flush_all_from is BLK_ERR_DRIVER_FAIL s
               | Some write_op \<Rightarrow>
                   (case write_op (be_lba e) (Some (be_data e)) (driver s) of
                      (err, d) \<Rightarrow>
                        if err \<noteq> BLK_OK then flush_all_from is BLK_ERR_DRIVER_FAIL (s\<lparr>driver := d\<rparr>)
                        else flush_all_from is result (set_clean i (s\<lparr>driver := d\<rparr>))))
         else flush_all_from is result s)"

definition blk_cache_flush_all :: "'d blk \<Rightarrow> blk_error \<times> 'd blk" where
  "blk_cache_flush_all s = flush_all_from [0..<MCSOS_BUFFER_CACHE_ENTRIES] BLK_OK s"

section \<open>Model: block input and output\<close>

definition fill_entry :: "nat \<Rightarrow> u32 \<Rightarrow> u64 \<Rightarrow> u8 \<Rightarrow> buffer \<Rightarrow> 'd blk \<Rightarrow> 'd blk" where
  "fill_entry i dev_id lba dirty buf s =
     s\<lparr>buffer_cache := (buffer_cache s)[i := (buffer_cache s ! i)\<lparr>be_dev_id := dev_id, be_lba := lba,
         be_valid := 1, be_dirty := dirty, be_data := memcpy (be_data (buffer_cache s ! i)) buf MCSOS_BLOCK_SIZE\<rparr>]\<rparr>"

definition blk_read :: "u32 \<Rightarrow> u64 \<Rightarrow> buffer option \<Rightarrow> 'd blk \<Rightarrow> blk_error \<times> buffer option \<times> 'd blk" where
  "blk_read dev_id lba buf s =
     (case buf of
        None \<Rightarrow> (BLK_ERR_INVALID_LBA, buf, s)
      | Some b \<Rightarrow>
          let dev = blk_get_device dev_id s
          in if dev = 0 then (BLK_ERR_INVALID_DEV, buf, s)
             else if lba \<ge> bd_block_count (device_at s dev) then (BLK_ERR_INVALID_LBA, buf, s)
             else
               (case blk_cache_lookup dev_id lba s of
                  Some i \<Rightarrow> (BLK_OK, Some (memcpy b (be_data (buffer_cache s ! i)) MCSOS_BLOCK_SIZE), s)
                | None \<Rightarrow>
                    (case Option.bind (bd_ops (device_at s dev)) op_read of
                       None \<Rightarrow> (BLK_ERR_DRIVER_FAIL, buf, s)
                     | Some read_op \<Rightarrow>
                         (case read_op lba buf (driver s) of
                            (err, buf', d) \<Rightarrow>
                              let s = s\<lparr>driver := d\<rparr>
                              in if err \<noteq> BLK_OK then (err, buf', s)
                                 else
                                   (case blk_cache_find_empty s of
                                      Some i \<Rightarrow> (BLK_OK, buf', fill_entry i dev_id lba 0 (the buf') s)
                                    | None \<Rightarrow> (BLK_OK, buf', s))))))"

definition blk_write :: "u32 \<Rightarrow> u64 \<Rightarrow> buffer option \<Rightarrow> 'd blk \<Rightarrow> blk_error \<times> 'd blk" where
  "blk_write dev_id lba buf s =
     (case buf of
        None \<Rightarrow> (BLK_ERR_INVALID_LBA, s)
      | Some b \<Rightarrow>
          let dev = blk_get_device dev_id s
          in if dev = 0 then (BLK_ERR_INVALID_DEV, s)
             else if lba \<ge> bd_block_count (device_at s dev) then (BLK_ERR_INVALID_LBA, s)
             else
               (let cached = (case blk_cache_lookup dev_id lba s of
                                None \<Rightarrow> blk_cache_find_empty s
                              | Some i \<Rightarrow> Some i)
                in case cached of
                     Some i \<Rightarrow> (BLK_OK, fill_entry i dev_id lba 1 b s)
                   | None \<Rightarrow> (BLK_OK, s)))"

text \<open>\<open>Inl err\<close> is the early return of the loop of \<open>blk_flush\<close>.\<close>

fun flush_from :: "'d block_driver_ops \<Rightarrow> u32 \<Rightarrow> nat list \<Rightarrow> 'd blk \<Rightarrow> ((blk_error + unit) \<times> 'd blk) option" where
  "flush_from ops dev_id [] s = Some (Inr (), s)"
| "flush_from ops dev_id (i # is) s =
     (let e = buffer_cache s ! i
      in if be_valid e \<noteq> 0 \<and> be_dev_id e = dev_id \<and> be_dirty e \<noteq> 0 then
           (case op_write ops of
              None \<Rightarrow> None
            | Some write_op \<Rightarrow>
                (case write_op (be_lba e) (Some (be_data e)) (driver s) of
                   (err, d) \<Rightarrow>
                     if err \<noteq> BLK_OK then Some (Inl BLK_ERR_DRIVER_FAIL, s\<lparr>driver := d\<rparr>)
                     else flush_from ops dev_id is (set_clean i (s\<lparr>driver := d\<rparr>))))
         else flush_from ops dev_id is s)"

definition blk_flush :: "u32 \<Rightarrow> 'd blk \<Rightarrow> (blk_error \<times> 'd blk) option" where
  "blk_flush dev_id s =
     (let dev = blk_get_device dev_id s
      in if dev = 0 then Some (BLK_ERR_INVALID_DEV, s)
         else
           (case bd_ops (device_at s dev) of
              None \<Rightarrow> Some (BLK_ERR_DRIVER_FAIL, s)
            | Some ops \<Rightarrow>
                (case op_flush ops of
                   None \<Rightarrow> Some (BLK_ERR_DRIVER_FAIL, s)
                 | Some flush_op \<Rightarrow>
                     (case flush_from ops dev_id [0..<MCSOS_BUFFER_CACHE_ENTRIES] s of
                        None \<Rightarrow> None
                      | Some (Inl err, s') \<Rightarrow> Some (err, s')
                      | Some (Inr _, s') \<Rightarrow>
                          (case flush_op (driver s') of (err, d) \<Rightarrow> Some (err, s'\<lparr>driver := d\<rparr>))))))"

definition blk_init :: "'d blk \<Rightarrow> 'd blk" where
  "blk_init s = (blk_cache_init s)\<lparr>num_registered_devices := 0\<rparr>"

section \<open>Model: the RAM block driver\<close>

definition RAMBLK_DEVICE_SIZE_BLOCKS :: nat where
  "RAMBLK_DEVICE_SIZE_BLOCKS = 4096"

definition RAMBLK_MAGIC :: u32 where
  "RAMBLK_MAGIC = 0xDEADBEEF"

record ramblk_device =
  rb_magic :: u32
  storage :: "buffer list"

definition ramblk_read :: "u64 \<Rightarrow> buffer option \<Rightarrow> ramblk_device \<Rightarrow> blk_error \<times> buffer option \<times> ramblk_device" where
  "ramblk_read lba buf d =
     (case buf of
        None \<Rightarrow> (BLK_ERR_INVALID_LBA, buf, d)
      | Some b \<Rightarrow>
          if lba \<ge> of_nat RAMBLK_DEVICE_SIZE_BLOCKS then (BLK_ERR_INVALID_LBA, buf, d)
          else if rb_magic d \<noteq> RAMBLK_MAGIC then (BLK_ERR_DRIVER_FAIL, buf, d)
          else (BLK_OK, Some (memcpy b (storage d ! unat lba) MCSOS_BLOCK_SIZE), d))"

definition ramblk_write :: "u64 \<Rightarrow> buffer option \<Rightarrow> ramblk_device \<Rightarrow> blk_error \<times> ramblk_device" where
  "ramblk_write lba buf d =
     (case buf of
        None \<Rightarrow> (BLK_ERR_INVALID_LBA, d)
      | Some b \<Rightarrow>
          if lba \<ge> of_nat RAMBLK_DEVICE_SIZE_BLOCKS then (BLK_ERR_INVALID_LBA, d)
          else if rb_magic d \<noteq> RAMBLK_MAGIC then (BLK_ERR_DRIVER_FAIL, d)
          else
            (BLK_OK, d\<lparr>storage := (storage d)[unat lba := memcpy (storage d ! unat lba) b MCSOS_BLOCK_SIZE]\<rparr>))"

definition ramblk_flush :: "ramblk_device \<Rightarrow> blk_error \<times> ramblk_device" where
  "ramblk_flush d = (BLK_OK, d)"

definition ramblk_ops :: "ramblk_device block_driver_ops" where
  "ramblk_ops = \<lparr>op_read = Some ramblk_read, op_write = Some ramblk_write, op_flush = Some ramblk_flush\<rparr>"

text \<open>The static device record; its address and that of the storage are parameters.\<close>

definition ramblk_block_device :: "u64 \<Rightarrow> ramblk_device block_device" where
  "ramblk_block_device priv =
     \<lparr>bd_dev_id = 0, bd_block_size = of_nat MCSOS_BLOCK_SIZE, bd_block_count = of_nat RAMBLK_DEVICE_SIZE_BLOCKS,
      bd_ops = Some ramblk_ops, bd_driver_private = priv\<rparr>"

definition ramblk_init :: "u64 \<Rightarrow> ramblk_device blk \<Rightarrow> blk_error \<times> ramblk_device blk" where
  "ramblk_init ramblk_addr s = blk_register_device ramblk_addr (blk_init s)"

definition ramblk_reset :: "ramblk_device \<Rightarrow> ramblk_device" where
  "ramblk_reset d =
     (let d = d\<lparr>rb_magic := 0, storage := map (\<lambda>b. memset b 0 MCSOS_BLOCK_SIZE) (storage d)\<rparr>
      in d\<lparr>rb_magic := RAMBLK_MAGIC\<rparr>)"

section \<open>Copying whole blocks\<close>

lemma fold_update_prefix: "n \<le> length d \<Longrightarrow> n \<le> length s \<Longrightarrow> fold (\<lambda>i d. d[i := s ! i]) [0..<n] d = take n s @ drop n d"
proof (induction n)
  case (Suc n)
  then have "fold (\<lambda>i d. d[i := s ! i]) [0..<Suc n] d = (take n s @ drop n d)[n := s ! n]" by simp
  also have "\<dots> = take n s @ [s ! n] @ drop (Suc n) d"
    using Suc.prems by (simp add: list_update_append Cons_nth_drop_Suc[symmetric])
  also have "\<dots> = take (Suc n) s @ drop (Suc n) d" using Suc.prems by (simp add: take_Suc_conv_app_nth)
  finally show ?case .
qed simp

lemma memcpy_block [simp]: "length d = 512 \<Longrightarrow> length s = 512 \<Longrightarrow> memcpy d s MCSOS_BLOCK_SIZE = s"
  unfolding memcpy_def MCSOS_BLOCK_SIZE_def by (simp add: fold_update_prefix del: upt_eq_Cons_conv)

section \<open>The contract of a driver and the cache above it\<close>

abbreviation ops_of ::
  "(u64 \<Rightarrow> buffer option \<Rightarrow> 'd \<Rightarrow> blk_error \<times> buffer option \<times> 'd) \<Rightarrow> (u64 \<Rightarrow> buffer option \<Rightarrow> 'd \<Rightarrow> blk_error \<times> 'd) \<Rightarrow>
   ('d \<Rightarrow> blk_error \<times> 'd) \<Rightarrow> 'd block_driver_ops" where
  "ops_of rd wr fl \<equiv> \<lparr>op_read = Some rd, op_write = Some wr, op_flush = Some fl\<rparr>"

definition entry_ok :: "u32 \<Rightarrow> u64 \<Rightarrow> (u64 \<Rightarrow> buffer) \<Rightarrow> buffer_cache_entry \<Rightarrow> bool" where
  "entry_ok i cnt c e \<longleftrightarrow> length (be_data e) = 512 \<and>
     (be_valid e \<noteq> 0 \<longrightarrow> be_dev_id e = i \<and> be_lba e < cnt \<and> (be_dirty e = 0 \<longrightarrow> be_data e = c (be_lba e)))"

definition cache_ok :: "u32 \<Rightarrow> u64 \<Rightarrow> (u64 \<Rightarrow> buffer) \<Rightarrow> buffer_cache_entry list \<Rightarrow> bool" where
  "cache_ok i cnt c es \<longleftrightarrow> length es = 32 \<and> (\<forall>k < 32. entry_ok i cnt c (es ! k)) \<and>
     (\<forall>j < 32. \<forall>k < 32. be_valid (es ! j) \<noteq> 0 \<and> be_valid (es ! k) \<noteq> 0 \<and> be_lba (es ! j) = be_lba (es ! k) \<longrightarrow> j = k)"

definition attached :: "'d block_driver_ops \<Rightarrow> u32 \<Rightarrow> u64 \<Rightarrow> 'd blk \<Rightarrow> bool" where
  "attached ops i cnt s \<longleftrightarrow> i < 16 \<and> length (block_device_table s) = 16 \<and>
     (let a = block_device_table s ! unat i
      in a \<noteq> 0 \<and> bd_block_count (device_at s a) = cnt \<and> bd_ops (device_at s a) = Some ops) \<and>
     (\<forall>j < 16. j \<noteq> unat i \<longrightarrow> block_device_table s ! j = 0)"

definition hit :: "buffer_cache_entry list \<Rightarrow> u64 \<Rightarrow> nat \<Rightarrow> bool" where
  "hit es lba k \<longleftrightarrow> k < 32 \<and> be_valid (es ! k) \<noteq> 0 \<and> be_lba (es ! k) = lba"

lemma find_upt_Some: "find P [0..<n] = Some i \<Longrightarrow> i < n \<and> P i"
  by (auto simp: find_Some_iff)

lemma find_upt_None: "find P [0..<n] = None \<longleftrightarrow> (\<forall>i < n. \<not> P i)"
  by (auto simp: find_None_iff)

lemma lookup_hit:
  assumes c: "cache_ok i cnt c (buffer_cache s)"
  shows "blk_cache_lookup i lba s = Some k \<longleftrightarrow> hit (buffer_cache s) lba k"
    and "blk_cache_lookup i lba s = None \<longleftrightarrow> (\<forall>k. \<not> hit (buffer_cache s) lba k)"
proof -
  let ?P = "\<lambda>k. let e = buffer_cache s ! k in be_valid e \<noteq> 0 \<and> be_dev_id e = i \<and> be_lba e = lba"
  have P: "?P k \<longleftrightarrow> hit (buffer_cache s) lba k" if "k < 32" for k
    using c that by (auto simp: cache_ok_def entry_ok_def hit_def Let_def)
  have un: "k = k'" if "hit (buffer_cache s) lba k" "hit (buffer_cache s) lba k'" for k k'
    using c that unfolding cache_ok_def hit_def by blast
  show n: "blk_cache_lookup i lba s = None \<longleftrightarrow> (\<forall>k. \<not> hit (buffer_cache s) lba k)"
    unfolding blk_cache_lookup_def MCSOS_BUFFER_CACHE_ENTRIES_def find_upt_None using P hit_def by blast
  have sm: "hit (buffer_cache s) lba k" if "blk_cache_lookup i lba s = Some k" for k
    using find_upt_Some[OF that[unfolded blk_cache_lookup_def MCSOS_BUFFER_CACHE_ENTRIES_def]] P by blast
  show "blk_cache_lookup i lba s = Some k \<longleftrightarrow> hit (buffer_cache s) lba k"
    using n sm un by (metis option.exhaust)
qed

lemma find_empty_slot:
  "blk_cache_find_empty s = Some k \<Longrightarrow> k < 32 \<and> be_valid (buffer_cache s ! k) = 0"
  "blk_cache_find_empty s = None \<longleftrightarrow> (\<forall>k < 32. be_valid (buffer_cache s ! k) \<noteq> 0)"
  unfolding blk_cache_find_empty_def MCSOS_BUFFER_CACHE_ENTRIES_def find_upt_None
  using find_upt_Some[of "\<lambda>i. be_valid (buffer_cache s ! i) = 0" 32 k] by auto

text \<open>The disk the cache presents: a cached block, or the block of the medium.\<close>

definition view :: "(u64 \<Rightarrow> buffer) \<Rightarrow> buffer_cache_entry list \<Rightarrow> u64 \<Rightarrow> buffer" where
  "view c es lba = (case find (\<lambda>k. be_valid (es ! k) \<noteq> 0 \<and> be_lba (es ! k) = lba) [0..<32] of
     Some k \<Rightarrow> be_data (es ! k) | None \<Rightarrow> c lba)"

lemma view_hit:
  assumes c: "cache_ok i cnt m es" and h: "hit es lba k"
  shows "view c es lba = be_data (es ! k)"
proof (cases "find (\<lambda>k. be_valid (es ! k) \<noteq> 0 \<and> be_lba (es ! k) = lba) [0..<32]")
  case None
  then show ?thesis using h by (auto simp: find_upt_None hit_def)
next
  case (Some j)
  then have "hit es lba j" using find_upt_Some[OF Some] by (simp add: hit_def)
  then have "j = k" using c h unfolding cache_ok_def hit_def by blast
  with Some show ?thesis by (simp add: view_def)
qed

lemma view_miss: "(\<And>k. \<not> hit es lba k) \<Longrightarrow> view c es lba = c lba"
  using find_upt_None[of "\<lambda>k. be_valid (es ! k) \<noteq> 0 \<and> be_lba (es ! k) = lba" 32]
  by (simp add: view_def hit_def)

lemma fill_cache:
  assumes c: "cache_ok i cnt m es" and k: "k < 32" "\<And>j. hit es lba j \<Longrightarrow> j = k"
    and slot: "be_valid (es ! k) = 0 \<or> be_lba (es ! k) = lba"
    and e: "be_dev_id e = i" "be_lba e = lba" "be_valid e \<noteq> 0" "lba < cnt" "length (be_data e) = 512"
      "be_dirty e = 0 \<Longrightarrow> be_data e = m lba"
  shows "cache_ok i cnt m (es[k := e])" "view m (es[k := e]) = (view m es)(lba := be_data e)"
proof -
  have len: "length es = 32" using c by (simp add: cache_ok_def)
  have h: "hit (es[k := e]) x j \<longleftrightarrow> (if j = k then x = lba else hit es x j)" for x j
    using k e len by (auto simp: hit_def nth_list_update)
  have ent: "entry_ok i cnt m (es[k := e] ! j)" if "j < 32" for j
    using c e that len k(1) by (auto simp: cache_ok_def nth_list_update entry_ok_def)
  have uniq: "j = l" if "hit (es[k := e]) x j" "hit (es[k := e]) x l" for x j l
    using that k(2) c unfolding h by (auto simp: cache_ok_def hit_def split: if_splits)
  show ok: "cache_ok i cnt m (es[k := e])"
    unfolding cache_ok_def using ent uniq len by (auto simp: hit_def)
  show "view m (es[k := e]) = (view m es)(lba := be_data e)"
  proof
    fix x
    show "view m (es[k := e]) x = ((view m es)(lba := be_data e)) x"
    proof (cases "x = lba")
      case True
      have "hit (es[k := e]) x k" using True by (simp add: h)
      from view_hit[OF ok this] show ?thesis using True k len by simp
    next
      case False
      have nk: "\<not> hit es x k" using slot False by (auto simp: hit_def)
      show ?thesis
      proof (cases "\<exists>j. hit es x j")
        case True
        then obtain j where j: "hit es x j" by blast
        with nk have "j \<noteq> k" by blast
        then have "hit (es[k := e]) x j" using j by (simp add: h)
        from view_hit[OF ok this] view_hit[OF c j] show ?thesis using False \<open>j \<noteq> k\<close> by simp
      next
        case None: False
        then have "\<not> hit (es[k := e]) x j" for j using False by (auto simp: h)
        with None show ?thesis using False by (simp add: view_miss)
      qed
    qed
  qed
qed

text \<open>Writing a dirty block to the medium and marking it clean changes no view.\<close>

lemma clean_cache:
  assumes c: "cache_ok i cnt m es" and k: "k < 32" "be_valid (es ! k) \<noteq> 0"
  defines "m' \<equiv> m(be_lba (es ! k) := be_data (es ! k))"
  shows "cache_ok i cnt m' (es[k := (es ! k)\<lparr>be_dirty := 0\<rparr>])"
    "view m' (es[k := (es ! k)\<lparr>be_dirty := 0\<rparr>]) = view m es"
proof -
  let ?es = "es[k := (es ! k)\<lparr>be_dirty := 0\<rparr>]"
  have len: "length es = 32" using c by (simp add: cache_ok_def)
  have h: "hit ?es x j \<longleftrightarrow> hit es x j" and d: "be_data (?es ! j) = be_data (es ! j)" for x j
    using k len by (auto simp: hit_def nth_list_update)
  have un: "j = l" if "hit es x j" "hit es x l" for x j l using c that by (auto simp: cache_ok_def hit_def)
  have hk: "hit es (be_lba (es ! k)) k" using k by (simp add: hit_def)
  have ent: "entry_ok i cnt m' (?es ! j)" if j: "j < 32" for j
  proof (cases "j = k")
    case True
    then show ?thesis using c k len by (auto simp: cache_ok_def entry_ok_def m'_def)
  next
    case False
    then have "be_valid (es ! j) \<noteq> 0 \<Longrightarrow> be_lba (es ! j) \<noteq> be_lba (es ! k)"
      using un[OF hk, of j] j by (auto simp: hit_def)
    then show ?thesis using c j False by (auto simp: cache_ok_def entry_ok_def m'_def)
  qed
  show ok: "cache_ok i cnt m' ?es"
    unfolding cache_ok_def using ent un[unfolded h[symmetric]] len by (auto simp: hit_def)
  show "view m' ?es = view m es"
  proof
    fix x
    show "view m' ?es x = view m es x"
    proof (cases "\<exists>j. hit es x j")
      case True
      then obtain j where j: "hit es x j" by blast
      have j': "hit ?es x j" using j by (simp only: h)
      from view_hit[OF ok j'] view_hit[OF c j] show ?thesis by (simp only: d)
    next
      case False
      then have "x \<noteq> be_lba (es ! k)" using hk by blast
      moreover have "\<And>j. \<not> hit ?es x j" "\<And>j. \<not> hit es x j" using False by (simp_all only: h) blast+
      ultimately show ?thesis by (simp add: view_miss m'_def)
    qed
  qed
qed

definition all_clean :: "buffer_cache_entry list \<Rightarrow> nat set \<Rightarrow> bool" where
  "all_clean es I \<longleftrightarrow> (\<forall>k \<in> I. be_valid (es ! k) \<noteq> 0 \<longrightarrow> be_dirty (es ! k) = 0)"

lemma view_clean: "cache_ok i cnt m es \<Longrightarrow> all_clean es {0..<32} \<Longrightarrow> view m es = m"
proof
  fix x
  assume c: "cache_ok i cnt m es" and cl: "all_clean es {0..<32}"
  show "view m es x = m x"
  proof (cases "\<exists>j. hit es x j")
    case True
    then obtain j where j: "hit es x j" by blast
    then show ?thesis using view_hit[OF c j, of m] c cl
      by (auto simp: cache_ok_def entry_ok_def all_clean_def hit_def)
  next
    case False
    then show ?thesis by (simp add: view_miss)
  qed
qed

lemma attached_get:
  assumes "attached ops i cnt s"
  shows "blk_get_device i s \<noteq> 0" "bd_block_count (device_at s (blk_get_device i s)) = cnt"
    "bd_ops (device_at s (blk_get_device i s)) = Some ops" "j \<noteq> i \<Longrightarrow> blk_get_device j s = 0"
proof -
  have i: "\<not> of_nat MCSOS_MAX_BLOCK_DEVICES \<le> i" using assms by (simp add: attached_def MCSOS_MAX_BLOCK_DEVICES_def not_le)
  then have g: "blk_get_device i s = block_device_table s ! unat i" by (simp add: blk_get_device_def)
  show "blk_get_device i s \<noteq> 0" "bd_block_count (device_at s (blk_get_device i s)) = cnt"
    "bd_ops (device_at s (blk_get_device i s)) = Some ops"
    using assms unfolding g by (simp_all add: attached_def Let_def)
  show "blk_get_device j s = 0" if "j \<noteq> i"
  proof (cases "of_nat MCSOS_MAX_BLOCK_DEVICES \<le> j")
    case False
    then have "unat j < 16" "unat j \<noteq> unat i"
      using that by (auto simp: MCSOS_MAX_BLOCK_DEVICES_def word_le_nat_alt word_unat_eq_iff)
    then show ?thesis using assms False by (simp add: attached_def blk_get_device_def)
  qed (simp add: blk_get_device_def)
qed

lemma attached_cong [simp]:
  "attached ops i cnt (s\<lparr>buffer_cache := c\<rparr>) = attached ops i cnt s"
  "attached ops i cnt (s\<lparr>driver := d\<rparr>) = attached ops i cnt s"
  "attached ops i cnt (fill_entry k j l dd b s) = attached ops i cnt s"
  "attached ops i cnt (set_clean k s) = attached ops i cnt s"
  by (simp_all add: attached_def fill_entry_def set_clean_def)

definition serves ::
  "'d block_driver_ops \<Rightarrow> ('d \<Rightarrow> bool) \<Rightarrow> ('d \<Rightarrow> u64 \<Rightarrow> buffer) \<Rightarrow> u32 \<Rightarrow> u64 \<Rightarrow> 'd blk \<Rightarrow> bool" where
  "serves ops ok content i cnt s \<longleftrightarrow>
     attached ops i cnt s \<and> ok (driver s) \<and> cache_ok i cnt (content (driver s)) (buffer_cache s)"

definition disk :: "('d \<Rightarrow> u64 \<Rightarrow> buffer) \<Rightarrow> 'd blk \<Rightarrow> u64 \<Rightarrow> buffer" where
  "disk content s = view (content (driver s)) (buffer_cache s)"

definition room :: "u32 \<Rightarrow> u64 \<Rightarrow> 'd blk \<Rightarrow> bool" where
  "room i lba s \<longleftrightarrow> blk_cache_lookup i lba s \<noteq> None \<or> blk_cache_find_empty s \<noteq> None"

locale block_driver =
  fixes rd :: "u64 \<Rightarrow> buffer option \<Rightarrow> 'd \<Rightarrow> blk_error \<times> buffer option \<times> 'd"
    and wr :: "u64 \<Rightarrow> buffer option \<Rightarrow> 'd \<Rightarrow> blk_error \<times> 'd"
    and fl :: "'d \<Rightarrow> blk_error \<times> 'd"
    and cnt :: u64
    and ok :: "'d \<Rightarrow> bool"
    and content :: "'d \<Rightarrow> u64 \<Rightarrow> buffer"
  assumes rd_law: "ok d \<Longrightarrow> lba < cnt \<Longrightarrow> length b = 512 \<Longrightarrow> rd lba (Some b) d = (BLK_OK, Some (content d lba), d)"
    and wr_law: "ok d \<Longrightarrow> lba < cnt \<Longrightarrow> length b = 512 \<Longrightarrow>
      \<exists>d'. wr lba (Some b) d = (BLK_OK, d') \<and> ok d' \<and> content d' = (content d)(lba := b)"
    and fl_law: "ok d \<Longrightarrow> \<exists>d'. fl d = (BLK_OK, d') \<and> ok d' \<and> content d' = content d"
    and content_length: "ok d \<Longrightarrow> lba < cnt \<Longrightarrow> length (content d lba) = 512"
begin

lemma disk_length:
  assumes s: "serves (ops_of rd wr fl) ok content i cnt s" and l: "lba < cnt"
  shows "length (disk content s lba) = 512"
proof (cases "\<exists>k. hit (buffer_cache s) lba k")
  case True
  then obtain k where k: "hit (buffer_cache s) lba k" by blast
  from s have c: "cache_ok i cnt (content (driver s)) (buffer_cache s)" by (simp add: serves_def)
  from view_hit[OF c k] show ?thesis using c k by (auto simp: disk_def cache_ok_def entry_ok_def hit_def)
next
  case False
  then show ?thesis using s l content_length by (simp add: disk_def view_miss serves_def)
qed

lemma fill_serves:
  assumes s: "serves (ops_of rd wr fl) ok content i cnt s" and l: "lba < cnt" and b: "length b = 512"
    and k: "k < 32" "\<And>j. hit (buffer_cache s) lba j \<Longrightarrow> j = k"
      "be_valid (buffer_cache s ! k) = 0 \<or> be_lba (buffer_cache s ! k) = lba"
    and d: "dd = 0 \<Longrightarrow> b = content (driver s) lba"
  shows "serves (ops_of rd wr fl) ok content i cnt (fill_entry k i lba dd b s)"
    "disk content (fill_entry k i lba dd b s) = (disk content s)(lba := b)"
proof -
  let ?e = "(buffer_cache s ! k)\<lparr>be_dev_id := i, be_lba := lba, be_valid := 1, be_dirty := dd, be_data := b\<rparr>"
  from s have c: "cache_ok i cnt (content (driver s)) (buffer_cache s)" by (simp add: serves_def)
  have len: "length (be_data (buffer_cache s ! k)) = 512" using c k(1) by (simp add: cache_ok_def entry_ok_def)
  have f: "fill_entry k i lba dd b s = s\<lparr>buffer_cache := (buffer_cache s)[k := ?e]\<rparr>"
    using len b by (simp add: fill_entry_def)
  have r: "cache_ok i cnt (content (driver s)) ((buffer_cache s)[k := ?e])"
    "view (content (driver s)) ((buffer_cache s)[k := ?e]) = (view (content (driver s)) (buffer_cache s))(lba := b)"
    using fill_cache[OF c k, of ?e] l b d by simp_all
  show "serves (ops_of rd wr fl) ok content i cnt (fill_entry k i lba dd b s)"
    using s r(1) unfolding f by (simp add: serves_def)
  show "disk content (fill_entry k i lba dd b s) = (disk content s)(lba := b)"
    using r(2) unfolding f by (simp add: disk_def)
qed

lemma read_serves:
  assumes s: "serves (ops_of rd wr fl) ok content i cnt s" and l: "lba < cnt" and b: "length b = 512"
  shows "\<exists>s'. blk_read i lba (Some b) s = (BLK_OK, Some (disk content s lba), s') \<and>
    serves (ops_of rd wr fl) ok content i cnt s' \<and> disk content s' = disk content s"
proof -
  from s have at: "attached (ops_of rd wr fl) i cnt s" and k: "ok (driver s)"
    and c: "cache_ok i cnt (content (driver s)) (buffer_cache s)" by (auto simp: serves_def)
  note g = attached_get[OF at]
  show ?thesis
  proof (cases "blk_cache_lookup i lba s")
    case (Some j)
    then have h: "hit (buffer_cache s) lba j" using lookup_hit(1)[OF c] by blast
    have "length (be_data (buffer_cache s ! j)) = 512" using c h by (simp add: cache_ok_def entry_ok_def hit_def)
    then have "blk_read i lba (Some b) s = (BLK_OK, Some (disk content s lba), s)"
      using g l b Some view_hit[OF c h] by (simp add: blk_read_def disk_def)
    with s show ?thesis by blast
  next
    case None
    then have miss: "\<And>k. \<not> hit (buffer_cache s) lba k" using lookup_hit(2)[OF c] by blast
    then have v: "disk content s lba = content (driver s) lba" by (simp add: disk_def view_miss)
    have r: "rd lba (Some b) (driver s) = (BLK_OK, Some (content (driver s) lba), driver s)"
      by (rule rd_law[OF k l b])
    show ?thesis
    proof (cases "blk_cache_find_empty s")
      case None': None
      have "blk_read i lba (Some b) s = (BLK_OK, Some (disk content s lba), s)"
        using g l None None' r v by (simp add: blk_read_def)
      with s show ?thesis by blast
    next
      case (Some j)
      let ?s = "fill_entry j i lba 0 (content (driver s) lba) s"
      have "blk_read i lba (Some b) s = (BLK_OK, Some (disk content s lba), ?s)"
        using g l None Some r v by (simp add: blk_read_def)
      moreover have "serves (ops_of rd wr fl) ok content i cnt ?s \<and> disk content ?s = (disk content s)(lba := content (driver s) lba)"
        using fill_serves[OF s l content_length[OF k l], of j 0] find_empty_slot(1)[OF Some] miss by blast
      ultimately show ?thesis using v by (metis fun_upd_triv)
    qed
  qed
qed

lemma write_serves:
  assumes s: "serves (ops_of rd wr fl) ok content i cnt s" and l: "lba < cnt" and b: "length b = 512"
    and r: "room i lba s"
  shows "\<exists>s'. blk_write i lba (Some b) s = (BLK_OK, s') \<and>
    serves (ops_of rd wr fl) ok content i cnt s' \<and> disk content s' = (disk content s)(lba := b)"
proof -
  from s have at: "attached (ops_of rd wr fl) i cnt s"
    and c: "cache_ok i cnt (content (driver s)) (buffer_cache s)" by (auto simp: serves_def)
  note g = attached_get[OF at]
  obtain k where k: "(case blk_cache_lookup i lba s of None \<Rightarrow> blk_cache_find_empty s | Some i \<Rightarrow> Some i) = Some k"
    using r by (cases "blk_cache_lookup i lba s") (auto simp: room_def)
  have "k < 32 \<and> (\<forall>j. hit (buffer_cache s) lba j \<longrightarrow> j = k) \<and>
      (be_valid (buffer_cache s ! k) = 0 \<or> be_lba (buffer_cache s ! k) = lba)"
  proof (cases "blk_cache_lookup i lba s")
    case None
    then show ?thesis using k find_empty_slot(1)[of s k] lookup_hit(2)[OF c, of lba] by auto
  next
    case (Some j)
    then have "j = k" using k by simp
    then have "hit (buffer_cache s) lba j \<longleftrightarrow> j = k" for j
      using lookup_hit(1)[OF c, of lba j] Some by auto
    then show ?thesis by (auto simp: hit_def)
  qed
  then have "serves (ops_of rd wr fl) ok content i cnt (fill_entry k i lba 1 b s) \<and>
      disk content (fill_entry k i lba 1 b s) = (disk content s)(lba := b)"
    using fill_serves[OF s l b, of k 1] by simp
  moreover have "blk_write i lba (Some b) s = (BLK_OK, fill_entry k i lba 1 b s)"
    using g l k by (simp add: blk_write_def Let_def not_le)
  ultimately show ?thesis by blast
qed

end

context block_driver
begin

lemma write_back:
  assumes s: "serves (ops_of rd wr fl) ok content i cnt s" and k: "k < 32" "be_valid (buffer_cache s ! k) \<noteq> 0"
  obtains d where "wr (be_lba (buffer_cache s ! k)) (Some (be_data (buffer_cache s ! k))) (driver s) = (BLK_OK, d)"
    "serves (ops_of rd wr fl) ok content i cnt (set_clean k (s\<lparr>driver := d\<rparr>))"
    "disk content (set_clean k (s\<lparr>driver := d\<rparr>)) = disk content s"
proof -
  from s have c: "cache_ok i cnt (content (driver s)) (buffer_cache s)" and o: "ok (driver s)" by (auto simp: serves_def)
  have e: "be_lba (buffer_cache s ! k) < cnt" "length (be_data (buffer_cache s ! k)) = 512"
    using c k by (auto simp: cache_ok_def entry_ok_def)
  obtain d where d: "wr (be_lba (buffer_cache s ! k)) (Some (be_data (buffer_cache s ! k))) (driver s) = (BLK_OK, d)" "ok d"
    "content d = (content (driver s))(be_lba (buffer_cache s ! k) := be_data (buffer_cache s ! k))"
    using wr_law[OF o e] by blast
  show ?thesis
    by (rule that[OF d(1)]) (use s clean_cache[OF c k] d in \<open>auto simp: serves_def disk_def set_clean_def attached_def\<close>)
qed

lemma set_clean_clean:
  assumes "length (buffer_cache s) = 32" "k < 32" "all_clean (buffer_cache s) I"
  shows "all_clean (buffer_cache (set_clean k (s\<lparr>driver := d\<rparr>))) (insert k I)"
  using assms by (auto simp: all_clean_def set_clean_def nth_list_update)

lemma flush_from_serves:
  assumes "serves (ops_of rd wr fl) ok content i cnt s" "set ks \<subseteq> {0..<32}" "all_clean (buffer_cache s) I"
  shows "\<exists>s'. flush_from (ops_of rd wr fl) i ks s = Some (Inr (), s') \<and>
    serves (ops_of rd wr fl) ok content i cnt s' \<and> disk content s' = disk content s \<and>
    all_clean (buffer_cache s') (I \<union> set ks)"
  using assms
proof (induction ks arbitrary: s I)
  case (Cons k ks)
  let ?e = "buffer_cache s ! k"
  have c: "cache_ok i cnt (content (driver s)) (buffer_cache s)" and k: "k < 32" using Cons.prems by (auto simp: serves_def)
  show ?case
  proof (cases "be_valid ?e \<noteq> 0 \<and> be_dirty ?e \<noteq> 0")
    case True
    obtain d where d: "wr (be_lba ?e) (Some (be_data ?e)) (driver s) = (BLK_OK, d)"
      "serves (ops_of rd wr fl) ok content i cnt (set_clean k (s\<lparr>driver := d\<rparr>))"
      "disk content (set_clean k (s\<lparr>driver := d\<rparr>)) = disk content s"
      using write_back[OF Cons.prems(1) k] True by blast
    have cl: "all_clean (buffer_cache (set_clean k (s\<lparr>driver := d\<rparr>))) (insert k I)"
      by (rule set_clean_clean) (use c k Cons.prems(3) in \<open>auto simp: cache_ok_def\<close>)
    have "be_dev_id ?e = i" using c k True by (simp add: cache_ok_def entry_ok_def)
    then have "flush_from (ops_of rd wr fl) i (k # ks) s = flush_from (ops_of rd wr fl) i ks (set_clean k (s\<lparr>driver := d\<rparr>))"
      using True d(1) by simp
    with Cons.IH[OF d(2) _ cl] Cons.prems(2) d(3) show ?thesis by auto
  next
    case False
    then have "flush_from (ops_of rd wr fl) i (k # ks) s = flush_from (ops_of rd wr fl) i ks s" by auto
    moreover have "all_clean (buffer_cache s) (insert k I)" using False Cons.prems(3) by (auto simp: all_clean_def)
    ultimately show ?thesis using Cons.IH[OF Cons.prems(1), of "insert k I"] Cons.prems(2) by auto
  qed
qed auto

lemma flush_all_from_serves:
  assumes "serves (ops_of rd wr fl) ok content i cnt s" "set ks \<subseteq> {0..<32}" "all_clean (buffer_cache s) I"
  shows "\<exists>s'. flush_all_from ks r s = (r, s') \<and>
    serves (ops_of rd wr fl) ok content i cnt s' \<and> disk content s' = disk content s \<and>
    all_clean (buffer_cache s') (I \<union> set ks)"
  using assms
proof (induction ks arbitrary: s I)
  case (Cons k ks)
  let ?e = "buffer_cache s ! k"
  have c: "cache_ok i cnt (content (driver s)) (buffer_cache s)" and k: "k < 32"
    and at: "attached (ops_of rd wr fl) i cnt s" using Cons.prems by (auto simp: serves_def)
  show ?case
  proof (cases "be_valid ?e \<noteq> 0 \<and> be_dirty ?e \<noteq> 0")
    case True
    obtain d where d: "wr (be_lba ?e) (Some (be_data ?e)) (driver s) = (BLK_OK, d)"
      "serves (ops_of rd wr fl) ok content i cnt (set_clean k (s\<lparr>driver := d\<rparr>))"
      "disk content (set_clean k (s\<lparr>driver := d\<rparr>)) = disk content s"
      using write_back[OF Cons.prems(1) k] True by blast
    have cl: "all_clean (buffer_cache (set_clean k (s\<lparr>driver := d\<rparr>))) (insert k I)"
      by (rule set_clean_clean) (use c k Cons.prems(3) in \<open>auto simp: cache_ok_def\<close>)
    have "be_dev_id ?e = i" using c k True by (simp add: cache_ok_def entry_ok_def)
    then have "flush_all_from (k # ks) r s = flush_all_from ks r (set_clean k (s\<lparr>driver := d\<rparr>))"
      using True d(1) attached_get[OF at] by simp
    with Cons.IH[OF d(2) _ cl] Cons.prems(2) d(3) show ?thesis by auto
  next
    case False
    then have "flush_all_from (k # ks) r s = flush_all_from ks r s" by auto
    moreover have "all_clean (buffer_cache s) (insert k I)" using False Cons.prems(3) by (auto simp: all_clean_def)
    ultimately show ?thesis using Cons.IH[OF Cons.prems(1), of "insert k I"] Cons.prems(2) by auto
  qed
qed auto

lemma flush_all_serves:
  assumes s: "serves (ops_of rd wr fl) ok content i cnt s"
  shows "\<exists>s'. blk_cache_flush_all s = (BLK_OK, s') \<and> serves (ops_of rd wr fl) ok content i cnt s' \<and>
    disk content s' = disk content s \<and> all_clean (buffer_cache s') {0..<32} \<and> content (driver s') = disk content s"
proof -
  have "all_clean (buffer_cache s) {}" by (simp add: all_clean_def)
  from flush_all_from_serves[OF s _ this, of "[0..<32]" BLK_OK]
  obtain s' where f: "flush_all_from [0..<32] BLK_OK s = (BLK_OK, s')" "serves (ops_of rd wr fl) ok content i cnt s'"
    "disk content s' = disk content s" "all_clean (buffer_cache s') {0..<32}"
    by (auto simp del: upt_eq_Cons_conv)
  then have "content (driver s') = disk content s"
    using view_clean[of i cnt "content (driver s')" "buffer_cache s'"] by (simp add: serves_def disk_def)
  with f show ?thesis unfolding blk_cache_flush_all_def MCSOS_BUFFER_CACHE_ENTRIES_def by blast
qed

lemma flush_serves:
  assumes s: "serves (ops_of rd wr fl) ok content i cnt s"
  shows "\<exists>s'. blk_flush i s = Some (BLK_OK, s') \<and> serves (ops_of rd wr fl) ok content i cnt s' \<and>
    disk content s' = disk content s \<and> all_clean (buffer_cache s') {0..<32} \<and> content (driver s') = disk content s"
proof -
  from s have at: "attached (ops_of rd wr fl) i cnt s" by (simp add: serves_def)
  have "all_clean (buffer_cache s) {}" by (simp add: all_clean_def)
  from flush_from_serves[OF s _ this, of "[0..<32]"]
  obtain s' where f: "flush_from (ops_of rd wr fl) i [0..<32] s = Some (Inr (), s')" "serves (ops_of rd wr fl) ok content i cnt s'"
    "disk content s' = disk content s" "all_clean (buffer_cache s') {0..<32}"
    by (auto simp del: upt_eq_Cons_conv)
  then have cl: "content (driver s') = disk content s" and o: "ok (driver s')"
    using view_clean[of i cnt "content (driver s')" "buffer_cache s'"] by (simp_all add: serves_def disk_def)
  obtain d where d: "fl (driver s') = (BLK_OK, d)" "ok d" "content d = content (driver s')" using fl_law[OF o] by blast
  have "blk_flush i s = Some (BLK_OK, s'\<lparr>driver := d\<rparr>)"
    using attached_get[OF at] f(1) d(1) by (simp add: blk_flush_def MCSOS_BUFFER_CACHE_ENTRIES_def del: upt_eq_Cons_conv)
  moreover have "serves (ops_of rd wr fl) ok content i cnt (s'\<lparr>driver := d\<rparr>)"
    "disk content (s'\<lparr>driver := d\<rparr>) = disk content s" "content d = disk content s"
    using f d cl by (simp_all add: serves_def disk_def)
  ultimately show ?thesis using f(4) by (intro exI[of _ "s'\<lparr>driver := d\<rparr>"]) simp
qed

end

section \<open>The RAM driver keeps the contract\<close>

definition ramblk_ok :: "ramblk_device \<Rightarrow> bool" where
  "ramblk_ok d \<longleftrightarrow> rb_magic d = RAMBLK_MAGIC \<and> length (storage d) = RAMBLK_DEVICE_SIZE_BLOCKS \<and>
     (\<forall>b \<in> set (storage d). length b = MCSOS_BLOCK_SIZE)"

definition ramblk_content :: "ramblk_device \<Rightarrow> u64 \<Rightarrow> buffer" where
  "ramblk_content d lba = storage d ! unat lba"

interpretation ramblk: block_driver ramblk_read ramblk_write ramblk_flush 4096 ramblk_ok ramblk_content
proof
  fix d and lba :: u64 and b :: buffer
  assume o: "ramblk_ok d"
  have blk: "length (storage d ! unat lba) = 512" if "lba < 4096"
    using o that by (simp add: ramblk_ok_def RAMBLK_DEVICE_SIZE_BLOCKS_def MCSOS_BLOCK_SIZE_def word_less_nat_alt)
  have lim: "\<not> of_nat RAMBLK_DEVICE_SIZE_BLOCKS \<le> lba" if "lba < 4096"
    using that by (simp add: RAMBLK_DEVICE_SIZE_BLOCKS_def not_le)
  show "ramblk_read lba (Some b) d = (BLK_OK, Some (ramblk_content d lba), d)" if "lba < 4096" "length b = 512"
    using o that blk lim by (simp add: ramblk_read_def ramblk_ok_def ramblk_content_def)
  show "length (ramblk_content d lba) = 512" if "lba < 4096" using blk that by (simp add: ramblk_content_def)
  show "\<exists>d'. ramblk_write lba (Some b) d = (BLK_OK, d') \<and> ramblk_ok d' \<and> ramblk_content d' = (ramblk_content d)(lba := b)"
    if l: "lba < 4096" and b: "length b = 512"
  proof -
    let ?d = "d\<lparr>storage := (storage d)[unat lba := b]\<rparr>"
    have "ramblk_write lba (Some b) d = (BLK_OK, ?d)"
      using o l b blk lim by (simp add: ramblk_write_def ramblk_ok_def)
    moreover have "ramblk_ok ?d"
      using o b by (auto simp: ramblk_ok_def MCSOS_BLOCK_SIZE_def dest!: set_update_subset_insert[THEN subsetD])
    moreover have "ramblk_content ?d = (ramblk_content d)(lba := b)"
      using o l by (auto simp: ramblk_content_def ramblk_ok_def RAMBLK_DEVICE_SIZE_BLOCKS_def word_less_nat_alt
          nth_list_update word_unat_eq_iff)
    ultimately show ?thesis by blast
  qed
  show "\<exists>d'. ramblk_flush d = (BLK_OK, d') \<and> ramblk_ok d' \<and> ramblk_content d' = ramblk_content d"
    using o by (simp add: ramblk_flush_def)
qed

lemma ramblk_reset_ok: "length (storage d) = 4096 \<Longrightarrow> \<forall>b \<in> set (storage d). length b = 512 \<Longrightarrow> ramblk_ok (ramblk_reset d)"
proof -
  have "length (memset b 0 n) = length b" for b n
    unfolding memset_def by (induction n) auto
  then show "length (storage d) = 4096 \<Longrightarrow> \<forall>b \<in> set (storage d). length b = 512 \<Longrightarrow> ramblk_ok (ramblk_reset d)"
    by (auto simp: ramblk_ok_def ramblk_reset_def RAMBLK_DEVICE_SIZE_BLOCKS_def MCSOS_BLOCK_SIZE_def)
qed

section \<open>Histories of the block layer over the RAM device\<close>

text \<open>
  \<open>D\<close> is the disk a client expects: the medium at the start, changed by every write that had room in the
  cache. Calls may name any device and any block.
\<close>

inductive blk_history :: "ramblk_device blk \<Rightarrow> (u64 \<Rightarrow> buffer) \<Rightarrow> bool" where
  start: "block_device_table s = replicate 16 0 \<Longrightarrow> a \<noteq> 0 \<Longrightarrow> device_at s a = ramblk_block_device priv \<Longrightarrow>
    ramblk_ok (driver s) \<Longrightarrow> ramblk_init a s = (BLK_OK, s') \<Longrightarrow> blk_history s' (ramblk_content (driver s))"
| reads: "blk_history s D \<Longrightarrow> pred_option (\<lambda>b. length b = 512) buf \<Longrightarrow> blk_read dev lba buf s = (rc, buf', s') \<Longrightarrow>
    blk_history s' D"
| written: "blk_history s D \<Longrightarrow> pred_option (\<lambda>b. length b = 512) buf \<Longrightarrow> blk_write dev lba buf s = (rc, s') \<Longrightarrow>
    blk_history s' (if rc = BLK_OK \<and> room dev lba s then D(lba := the buf) else D)"
| flush: "blk_history s D \<Longrightarrow> blk_flush dev s = Some (rc, s') \<Longrightarrow> blk_history s' D"
| flush_all: "blk_history s D \<Longrightarrow> blk_cache_flush_all s = (rc, s') \<Longrightarrow> blk_history s' D"

abbreviation ramblk_serves :: "ramblk_device blk \<Rightarrow> bool" where
  "ramblk_serves \<equiv> serves (ops_of ramblk_read ramblk_write ramblk_flush) ramblk_ok ramblk_content 0 4096"

lemma ramblk_init_serves:
  assumes "block_device_table s = replicate 16 0" "a \<noteq> 0" "device_at s a = ramblk_block_device priv" "ramblk_ok (driver s)"
    "ramblk_init a s = (rc, s')"
  shows "rc = BLK_OK \<and> ramblk_serves s' \<and> disk ramblk_content s' = ramblk_content (driver s)"
proof -
  let ?es = "replicate 32 empty_entry"
  have s': "rc = BLK_OK" "s' = s\<lparr>buffer_cache := ?es, device_at := (device_at s)(a := ramblk_block_device priv),
      block_device_table := (replicate 16 0)[0 := a], num_registered_devices := 1\<rparr>"
    using assms by (auto simp: ramblk_init_def blk_register_device_def blk_init_def blk_cache_init_def
        ramblk_block_device_def MCSOS_MAX_BLOCK_DEVICES_def MCSOS_BUFFER_CACHE_ENTRIES_def Let_def)
  have nh: "\<not> hit ?es x k" for x k by (auto simp: hit_def empty_entry_def)
  have "cache_ok 0 4096 (ramblk_content (driver s)) ?es"
    by (auto simp: cache_ok_def entry_ok_def empty_entry_def MCSOS_BLOCK_SIZE_def)
  moreover have "view (ramblk_content (driver s)) ?es = ramblk_content (driver s)" using nh view_miss by blast
  moreover have "attached ramblk_ops 0 4096 s'"
    using assms(2) unfolding s' attached_def
    by (simp add: ramblk_block_device_def RAMBLK_DEVICE_SIZE_BLOCKS_def Let_def)
  ultimately show ?thesis using assms(4) s' by (simp add: serves_def disk_def ramblk_ops_def)
qed

lemma blk_other_device:
  assumes "attached ops i cnt s" "dev \<noteq> i"
  shows "snd (snd (blk_read dev lba buf s)) = s" "fst (blk_write dev lba buf s) \<noteq> BLK_OK" "snd (blk_write dev lba buf s) = s"
    "blk_flush dev s = Some (BLK_ERR_INVALID_DEV, s)"
  using attached_get(4)[OF assms]
  by (auto simp: blk_read_def blk_write_def blk_flush_def split: option.splits)

lemma blk_bad_request:
  assumes "attached ops i cnt s" "cnt \<le> lba \<or> buf = None"
  shows "snd (snd (blk_read i lba buf s)) = s" "fst (blk_write i lba buf s) \<noteq> BLK_OK" "snd (blk_write i lba buf s) = s"
  using attached_get(1,2)[OF assms(1)] assms(2)
  by (auto simp: blk_read_def blk_write_def Let_def split: option.splits)

lemma write_no_room:
  assumes "attached ops i cnt s" "lba < cnt" "\<not> room i lba s"
  shows "blk_write i lba (Some b) s = (BLK_OK, s)"
  using attached_get(1,2)[OF assms(1)] assms(2,3) by (simp add: blk_write_def room_def Let_def not_le)

lemma blk_history_inv: "blk_history s D \<Longrightarrow> ramblk_serves s \<and> disk ramblk_content s = D"
proof (induction rule: blk_history.induct)
  case (start s a priv s')
  then show ?case using ramblk_init_serves by blast
next
  case (reads s D buf dev lba rc buf' s')
  then have at: "attached ramblk_ops 0 4096 s" by (simp add: serves_def ramblk_ops_def)
  consider "dev \<noteq> 0" | "dev = 0" "4096 \<le> lba \<or> buf = None" | b where "dev = 0" "lba < 4096" "buf = Some b" by force
  then show ?case
  proof cases
    case 1
    then show ?thesis using blk_other_device(1)[OF at, of dev lba buf] reads by simp
  next
    case 2
    then show ?thesis using blk_bad_request(1)[OF at, of lba buf] reads by simp
  next
    case 3
    then show ?thesis using ramblk.read_serves[of 0 s lba b] reads by auto
  qed
next
  case (written s D buf dev lba rc s')
  then have at: "attached ramblk_ops 0 4096 s" by (simp add: serves_def ramblk_ops_def)
  consider "dev \<noteq> 0" | "dev = 0" "4096 \<le> lba \<or> buf = None" | b where "dev = 0" "lba < 4096" "buf = Some b" by force
  then show ?case
  proof cases
    case 1
    then show ?thesis using blk_other_device(2,3)[OF at, of dev lba buf] written by simp
  next
    case 2
    then show ?thesis using blk_bad_request(2,3)[OF at, of lba buf] written by simp
  next
    case 3
    show ?thesis
    proof (cases "room 0 lba s")
      case True
      then show ?thesis using ramblk.write_serves[of 0 s lba b] written 3 by auto
    next
      case False
      then show ?thesis using write_no_room[OF at 3(2) False, of b] written 3 by auto
    qed
  qed
next
  case (flush s D dev rc s')
  then have at: "attached ramblk_ops 0 4096 s" by (simp add: serves_def ramblk_ops_def)
  show ?case
  proof (cases "dev = 0")
    case True
    then show ?thesis using ramblk.flush_serves[of 0 s] flush by auto
  next
    case False
    then show ?thesis using blk_other_device(4)[OF at, of dev] flush by auto
  qed
next
  case (flush_all s D rc s')
  then show ?case using ramblk.flush_all_serves[of 0 s] by auto
qed

text \<open>
  C24. A block read through the block layer is the block last written to it, whatever reads, writes
  and flushes came before: the write-back cache over the RAM device refines one disk, as long as a
  write finds its block cached or a free cache entry.
\<close>

theorem blk_read_last_written:
  assumes "blk_history s D" "lba < 4096" "length b = 512"
  shows "\<exists>s'. blk_read 0 lba (Some b) s = (BLK_OK, Some (D lba), s') \<and> blk_history s' D \<and>
    (room 0 lba s \<longrightarrow> (\<exists>s'. blk_write 0 lba (Some b) s = (BLK_OK, s') \<and>
       (\<forall>l < 4096. \<exists>s''. blk_read 0 l (Some b) s' = (BLK_OK, Some ((D(lba := b)) l), s''))))"
proof -
  have s: "ramblk_serves s" and D: "disk ramblk_content s = D" using blk_history_inv[OF assms(1)] by auto
  have "\<exists>s'. blk_read 0 lba (Some b) s = (BLK_OK, Some (D lba), s') \<and> blk_history s' D"
    using ramblk.read_serves[OF s assms(2,3)] blk_history.reads[OF assms(1), of "Some b" 0 lba] assms(3) D by auto
  moreover have "\<exists>s'. blk_write 0 lba (Some b) s = (BLK_OK, s') \<and>
       (\<forall>l < 4096. \<exists>s''. blk_read 0 l (Some b) s' = (BLK_OK, Some ((D(lba := b)) l), s''))" if r: "room 0 lba s"
  proof -
    obtain s' where w: "blk_write 0 lba (Some b) s = (BLK_OK, s')" "ramblk_serves s'" "disk ramblk_content s' = D(lba := b)"
      using ramblk.write_serves[OF s assms(2,3) r] D by auto
    have "\<exists>s''. blk_read 0 l (Some b) s' = (BLK_OK, Some ((D(lba := b)) l), s'')" if "l < 4096" for l
      using ramblk.read_serves[OF w(2) that assms(3)] w(3) by auto
    with w(1) show ?thesis by blast
  qed
  ultimately show ?thesis by blast
qed

text \<open>
  C25. \<open>blk_flush\<close> succeeds on the RAM device, calls no null function, leaves no dirty entry, and brings the
  medium up to date: every block of the storage is the block a client expects.
\<close>

theorem blk_flush_durable:
  assumes "blk_history s D"
  shows "\<exists>s'. blk_flush 0 s = Some (BLK_OK, s') \<and>
    (\<forall>lba < 4096. storage (driver s') ! unat lba = D lba) \<and>
    (\<forall>k < 32. be_valid (buffer_cache s' ! k) \<noteq> 0 \<longrightarrow> be_dirty (buffer_cache s' ! k) = 0)"
proof -
  have s: "ramblk_serves s" and D: "disk ramblk_content s = D" using blk_history_inv[OF assms(1)] by auto
  obtain s' where f: "blk_flush 0 s = Some (BLK_OK, s')" "all_clean (buffer_cache s') {0..<32}" "ramblk_content (driver s') = D"
    using ramblk.flush_serves[OF s] D by auto
  have "storage (driver s') ! unat lba = D lba" for lba
    unfolding f(3)[symmetric] by (simp add: ramblk_content_def)
  with f show ?thesis by (auto simp: all_clean_def)
qed

text \<open>
  C26. When all 32 cache entries are in use and the block is not among them, \<open>blk_write\<close> reports success
  and drops the data: the state is unchanged, and the next read returns the old block.
\<close>

theorem blk_write_full_cache_lost:
  assumes "blk_history s D" "lba < 4096" "length b = 512"
    and full: "\<forall>k < 32. be_valid (buffer_cache s ! k) \<noteq> 0 \<and> be_lba (buffer_cache s ! k) \<noteq> lba"
  shows "blk_write 0 lba (Some b) s = (BLK_OK, s) \<and> (\<exists>s'. blk_read 0 lba (Some b) s = (BLK_OK, Some (D lba), s'))"
proof -
  have s: "ramblk_serves s" and D: "disk ramblk_content s = D" using blk_history_inv[OF assms(1)] by auto
  then have at: "attached ramblk_ops 0 4096 s" and c: "cache_ok 0 4096 (ramblk_content (driver s)) (buffer_cache s)"
    by (simp_all add: serves_def ramblk_ops_def)
  have "\<not> room 0 lba s"
    using full lookup_hit(2)[OF c, of lba] find_empty_slot(2)[of s] by (auto simp: room_def hit_def)
  from write_no_room[OF at assms(2) this, of b] show ?thesis
    using ramblk.read_serves[OF s assms(2,3)] D by auto
qed

section \<open>A sample device\<close>

definition fresh_blk :: "ramblk_device blk" where
  "fresh_blk = \<lparr>block_device_table = replicate 16 0, num_registered_devices = 0,
     device_at = \<lambda>_. ramblk_block_device 0x9000, buffer_cache = [],
     driver = \<lparr>rb_magic = RAMBLK_MAGIC, storage = replicate 4096 (replicate 512 0)\<rparr>\<rparr>"

definition started_blk :: "ramblk_device blk" where
  "started_blk = snd (ramblk_init 0x8000 fresh_blk)"

lemma fresh_facts:
  "block_device_table fresh_blk = replicate 16 0" "device_at fresh_blk 0x8000 = ramblk_block_device 0x9000"
  "ramblk_ok (driver fresh_blk)"
  by (simp_all add: fresh_blk_def ramblk_ok_def RAMBLK_DEVICE_SIZE_BLOCKS_def MCSOS_BLOCK_SIZE_def)

lemma started_history: "blk_history started_blk (ramblk_content (driver fresh_blk))"
proof (rule blk_history.start[OF fresh_facts(1) _ fresh_facts(2,3)])
  show "ramblk_init 0x8000 fresh_blk = (BLK_OK, started_blk)"
    using ramblk_init_serves[OF fresh_facts(1) _ fresh_facts(2,3), of "fst (ramblk_init 0x8000 fresh_blk)" started_blk]
    by (simp add: started_blk_def prod_eq_iff)
qed simp

lemma started_cache: "buffer_cache started_blk = replicate 32 empty_entry"
  by (simp add: started_blk_def ramblk_init_def blk_register_device_def blk_init_def blk_cache_init_def
      MCSOS_BUFFER_CACHE_ENTRIES_def MCSOS_MAX_BLOCK_DEVICES_def Let_def)

text \<open>Writing the blocks 0 to 31 fills the cache.\<close>

definition cached_blocks :: "ramblk_device blk \<Rightarrow> nat set" where
  "cached_blocks s = {k. k < 32 \<and> be_valid (buffer_cache s ! k) \<noteq> 0}"

lemma filled_history:
  "n \<le> 32 \<Longrightarrow> \<exists>s D. blk_history s D \<and> card (cached_blocks s) = n \<and> (\<forall>k \<in> cached_blocks s. unat (be_lba (buffer_cache s ! k)) < n)"
proof (induction n)
  case 0
  have "cached_blocks started_blk = {}" by (auto simp: cached_blocks_def started_cache empty_entry_def)
  then show ?case using started_history by (intro exI[of _ started_blk] exI) auto
next
  case (Suc n)
  then obtain s D where h: "blk_history s D" and card: "card (cached_blocks s) = n"
    and lb: "\<And>k. k \<in> cached_blocks s \<Longrightarrow> unat (be_lba (buffer_cache s ! k)) < n" by auto
  have s: "ramblk_serves s" using blk_history_inv[OF h] by blast
  then have at: "attached ramblk_ops 0 4096 s" and c: "cache_ok 0 4096 (ramblk_content (driver s)) (buffer_cache s)"
    by (simp_all add: serves_def ramblk_ops_def)
  let ?l = "of_nat n :: u64"
  have l: "unat ?l = n" using Suc.prems by (simp add: unat_of_nat)
  have "\<not> hit (buffer_cache s) ?l k" for k using lb l by (fastforce simp: hit_def cached_blocks_def)
  then have lk: "blk_cache_lookup 0 ?l s = None" using lookup_hit(2)[OF c] by blast
  have "cached_blocks s \<noteq> {0..<32}" using card Suc.prems by auto
  then obtain k where k: "blk_cache_find_empty s = Some k"
    using find_empty_slot(2)[of s] by (cases "blk_cache_find_empty s") (auto simp: cached_blocks_def)
  then have k': "k < 32" "be_valid (buffer_cache s ! k) = 0" using find_empty_slot(1) by blast+
  let ?s = "fill_entry k 0 ?l 1 (replicate 512 7) s"
  have "?l < 4096" using Suc.prems l by (simp add: word_less_nat_alt)
  then have w: "blk_write 0 ?l (Some (replicate 512 7)) s = (BLK_OK, ?s)"
    using attached_get(1,2)[OF at] lk k by (simp add: blk_write_def Let_def not_le)
  have es: "\<And>j. j \<noteq> k \<Longrightarrow> buffer_cache ?s ! j = buffer_cache s ! j"
    "be_valid (buffer_cache ?s ! k) = 1" "be_lba (buffer_cache ?s ! k) = ?l"
    using k' c by (auto simp: fill_entry_def cache_ok_def)
  have cb: "cached_blocks ?s = insert k (cached_blocks s)"
  proof (rule set_eqI)
    show "j \<in> cached_blocks ?s \<longleftrightarrow> j \<in> insert k (cached_blocks s)" for j
      using k' es(1)[of j] es(2) by (cases "j = k") (simp_all add: cached_blocks_def)
  qed
  have "k \<notin> cached_blocks s" "finite (cached_blocks s)" using k' by (auto simp: cached_blocks_def)
  then have "card (cached_blocks ?s) = Suc n" using card cb by simp
  moreover have "unat (be_lba (buffer_cache ?s ! j)) < Suc n" if "j \<in> cached_blocks ?s" for j
    using that lb[of j] es(1)[of j] es(3) l unfolding cb by (cases "j = k") (simp_all add: less_SucI)
  moreover obtain D' where "blk_history ?s D'" using blk_history.written[OF h _ w] by auto
  ultimately show ?case by blast
qed

theorem blk_read_last_written_witness:
  "\<exists>s'. blk_read 0 5 (Some (replicate 512 9)) started_blk = (BLK_OK, Some (replicate 512 0), s')"
  using blk_read_last_written[OF started_history, of 5 "replicate 512 9"]
  by (auto simp: ramblk_content_def fresh_blk_def)

theorem blk_flush_durable_witness:
  "\<exists>s'. blk_flush 0 started_blk = Some (BLK_OK, s') \<and> storage (driver s') ! 5 = replicate 512 0"
proof -
  have "ramblk_content (driver fresh_blk) 5 = replicate 512 0" by (simp add: ramblk_content_def fresh_blk_def)
  moreover have "unat (5 :: u64) = 5" "(5 :: u64) < 4096" by simp_all
  ultimately show ?thesis using blk_flush_durable[OF started_history] by metis
qed

theorem blk_write_full_cache_lost_witness:
  "\<exists>s D. blk_history s D \<and> blk_write 0 100 (Some (replicate 512 9)) s = (BLK_OK, s)"
proof -
  obtain s D where h: "blk_history s D" and card: "card (cached_blocks s) = 32"
    and lb: "\<And>k. k \<in> cached_blocks s \<Longrightarrow> unat (be_lba (buffer_cache s ! k)) < 32"
    using filled_history[of 32] by auto
  have "cached_blocks s = {0..<32}"
    by (rule card_subset_eq) (use card in \<open>auto simp: cached_blocks_def\<close>)
  then have "\<forall>k < 32. be_valid (buffer_cache s ! k) \<noteq> 0 \<and> be_lba (buffer_cache s ! k) \<noteq> 100"
    using lb by (fastforce simp: cached_blocks_def)
  then show ?thesis using blk_write_full_cache_lost[OF h, of 100 "replicate 512 9"] h by auto
qed

end
