(* ===== verification/Libmem.thy ===== *)
theory Libmem
  imports Prelude
begin

text \<open>
  The freestanding memory functions of \<^verbatim>\<open>kernel/lib/memory.c\<close> over byte-addressed memory. Each loop runs
  \<open>count\<close> times; pointers are 64-bit words that wrap around. Shown: on ranges that do not wrap, \<open>memmove\<close> is the
  parallel copy even when they overlap, \<open>memcpy\<close> is on disjoint ranges, and no other byte changes.
\<close>

section \<open>Model\<close>

type_synonym bytes = "u64 \<Rightarrow> u8"

fun set_up :: "nat \<Rightarrow> u64 \<Rightarrow> u8 \<Rightarrow> bytes \<Rightarrow> bytes" where
  "set_up 0 d v m = m"
| "set_up (Suc n) d v m = set_up n (d + 1) v (m(d := v))"

definition memset :: "u64 \<Rightarrow> 32 word \<Rightarrow> u64 \<Rightarrow> bytes \<Rightarrow> u64 \<times> bytes" where
  "memset dest val count m = (dest, set_up (unat count) dest (ucast val) m)"

fun copy_up :: "nat \<Rightarrow> u64 \<Rightarrow> u64 \<Rightarrow> bytes \<Rightarrow> bytes" where
  "copy_up 0 d s m = m"
| "copy_up (Suc n) d s m = copy_up n (d + 1) (s + 1) (m(d := m s))"

definition memcpy :: "u64 \<Rightarrow> u64 \<Rightarrow> u64 \<Rightarrow> bytes \<Rightarrow> u64 \<times> bytes" where
  "memcpy dest src count m = (dest, copy_up (unat count) dest src m)"

fun copy_down :: "nat \<Rightarrow> u64 \<Rightarrow> u64 \<Rightarrow> bytes \<Rightarrow> bytes" where
  "copy_down 0 d s m = m"
| "copy_down (Suc n) d s m = copy_down n (d - 1) (s - 1) (m(d - 1 := m (s - 1)))"

definition memmove :: "u64 \<Rightarrow> u64 \<Rightarrow> u64 \<Rightarrow> bytes \<Rightarrow> u64 \<times> bytes" where
  "memmove dest src count m =
     (if dest = src \<or> count = 0 then (dest, m)
      else if dest < src then (dest, copy_up (unat count) dest src m)
      else (dest, copy_down (unat count) (dest + count) (src + count) m))"

section \<open>What they compute\<close>

definition copied :: "u64 \<Rightarrow> u64 \<Rightarrow> nat \<Rightarrow> bytes \<Rightarrow> bytes" where
  "copied d s n m = (\<lambda>a. if unat d \<le> unat a \<and> unat a < unat d + n then m (s + (a - d)) else m a)"

definition filled :: "u64 \<Rightarrow> nat \<Rightarrow> u8 \<Rightarrow> bytes \<Rightarrow> bytes" where
  "filled d n v m = (\<lambda>a. if unat d \<le> unat a \<and> unat a < unat d + n then v else m a)"

lemma copied_0: "copied d s 0 m = m"
  by (auto simp: copied_def fun_eq_iff)

lemma unat_next: "unat d + Suc n \<le> 2 ^ 64 \<Longrightarrow> n \<noteq> 0 \<Longrightarrow> unat (d + 1) = Suc (unat d)" for d :: u64
  by (simp add: unat_word_ariths)

lemma in_tail:
  fixes a d :: u64
  assumes "unat d + Suc n \<le> 2 ^ 64"
  shows "(unat d \<le> unat a \<and> unat a < unat d + Suc n) \<longleftrightarrow> a = d \<or> (n \<noteq> 0 \<and> unat (d + 1) \<le> unat a \<and> unat a < unat (d + 1) + n)"
proof (cases "n = 0")
  case True
  then show ?thesis by (auto simp: word_unat_eq_iff)
next
  case False
  then show ?thesis using unat_next[OF assms False] by (auto simp: word_unat_eq_iff)
qed

lemma set_up_filled: "unat d + n \<le> 2 ^ 64 \<Longrightarrow> set_up n d v m = filled d n v m"
proof (induction n arbitrary: d m)
  case 0
  then show ?case by (auto simp: filled_def fun_eq_iff)
next
  case (Suc n)
  show ?case
  proof (cases "n = 0")
    case True
    then show ?thesis using in_tail[OF Suc.prems] by (auto simp: filled_def fun_eq_iff)
  next
    case False
    have "unat (d + 1) + n \<le> 2 ^ 64" using Suc.prems unat_next[OF Suc.prems False] by simp
    from Suc.IH[OF this] show ?thesis
      using in_tail[OF Suc.prems] False by (auto simp: filled_def fun_eq_iff)
  qed
qed

lemma copy_up_copied:
  "unat d + n \<le> 2 ^ 64 \<Longrightarrow> unat s + n \<le> 2 ^ 64 \<Longrightarrow> unat d < unat s \<or> unat s + n \<le> unat d \<Longrightarrow>
   copy_up n d s m = copied d s n m"
proof (induction n arbitrary: d s m)
  case 0
  then show ?case by (simp add: copied_0)
next
  case (Suc n)
  show ?case
  proof (cases "n = 0")
    case True
    then show ?thesis using in_tail[OF Suc.prems(1)] by (auto simp: copied_def fun_eq_iff)
  next
    case False
    have n: "unat (d + 1) = Suc (unat d)" "unat (s + 1) = Suc (unat s)"
      using unat_next[OF Suc.prems(1) False] unat_next[OF Suc.prems(2) False] by auto
    have IH: "copy_up n (d + 1) (s + 1) (m(d := m s)) = copied (d + 1) (s + 1) n (m(d := m s))"
      by (rule Suc.IH) (use Suc.prems n in auto)
    have "copied (d + 1) (s + 1) n (m(d := m s)) a = copied d s (Suc n) m a" for a
    proof (cases "a = d")
      case True
      then show ?thesis using n by (simp add: copied_def)
    next
      case ad: False
      have "s + (a - d) \<noteq> d" if i: "unat d \<le> unat a" "unat a < unat d + Suc n"
      proof -
        have "unat (a - d) = unat a - unat d" using i(1) by (simp add: unat_sub word_le_nat_alt)
        then have "unat (s + (a - d)) = unat s + (unat a - unat d)" using i Suc.prems(2) by (simp add: unat_word_ariths)
        then show ?thesis using Suc.prems(3) i by (auto simp: word_unat_eq_iff)
      qed
      then show ?thesis using in_tail[OF Suc.prems(1), of a] ad False by (auto simp: copied_def)
    qed
    then show ?thesis using IH by (simp add: fun_eq_iff)
  qed
qed

lemma copy_down_copied:
  "unat d + n < 2 ^ 64 \<Longrightarrow> unat s + n < 2 ^ 64 \<Longrightarrow> unat s < unat d \<or> unat d + n \<le> unat s \<Longrightarrow>
   copy_down n (d + of_nat n) (s + of_nat n) m = copied d s n m"
proof (induction n arbitrary: m)
  case 0
  then show ?case by (simp add: copied_0)
next
  case (Suc n)
  have IH: "copy_down n (d + of_nat n) (s + of_nat n) m' = copied d s n m'" for m'
    by (rule Suc.IH) (use Suc.prems in auto)
  let ?d = "d + of_nat n" and ?s = "s + of_nat n"
  have un: "unat ?d = unat d + n" "unat ?s = unat s + n"
    using Suc.prems by (simp_all add: unat_word_ariths unat_of_nat)
  have "copied d s n (m(?d := m ?s)) a = copied d s (Suc n) m a" for a
  proof (cases "a = ?d")
    case True
    then show ?thesis using un by (simp add: copied_def)
  next
    case ad: False
    then have na: "unat a \<noteq> unat d + n" using un by (simp add: word_unat_eq_iff)
    have "s + (a - d) \<noteq> ?d" if i: "unat d \<le> unat a" "unat a < unat d + n"
    proof -
      have "unat (a - d) = unat a - unat d" using i(1) by (simp add: unat_sub word_le_nat_alt)
      then have "unat (s + (a - d)) = unat s + (unat a - unat d)" using i Suc.prems(2) by (simp add: unat_word_ariths)
      then show ?thesis using Suc.prems(3) i un by (auto simp: word_unat_eq_iff)
    qed
    then show ?thesis using na ad by (auto simp: copied_def)
  qed
  then show ?case using IH[of "m(?d := m ?s)"] by (simp add: fun_eq_iff algebra_simps)
qed

text \<open>
  C29. \<open>memmove\<close> copies in parallel: on ranges that do not wrap around, overlapping or not, every byte of the
  destination becomes the byte the source held before the call, every other byte is unchanged, and
  the destination is returned.
\<close>

theorem memmove_exact:
  assumes "unat dest + unat count < 2 ^ 64" "unat src + unat count < 2 ^ 64"
  shows "memmove dest src count m = (dest, \<lambda>a. if unat dest \<le> unat a \<and> unat a < unat dest + unat count
     then m (src + (a - dest)) else m a)"
proof -
  consider "dest = src \<or> count = 0" | "dest < src" "count \<noteq> 0" | "src < dest" "count \<noteq> 0" by (meson linorder_cases)
  then show ?thesis
  proof cases
    case 1
    then show ?thesis by (auto simp: memmove_def fun_eq_iff)
  next
    case 2
    then show ?thesis using copy_up_copied[of dest "unat count" src m] assms
      by (auto simp: memmove_def copied_def word_less_nat_alt)
  next
    case 3
    then show ?thesis using copy_down_copied[of dest "unat count" src m] assms
      by (auto simp: memmove_def copied_def word_less_nat_alt)
  qed
qed

theorem memmove_exact_witness:
  "snd (memmove 11 10 3 (\<lambda>a. ucast a)) 13 = 12"
  using memmove_exact[of 11 3 10 "\<lambda>a. ucast a"] by simp

lemma memcpy_exact:
  assumes "unat dest + unat count \<le> 2 ^ 64" "unat src + unat count \<le> 2 ^ 64"
    and "unat dest + unat count \<le> unat src \<or> unat src + unat count \<le> unat dest"
  shows "memcpy dest src count m = (dest, copied dest src (unat count) m)"
proof (cases "count = 0")
  case True
  then show ?thesis by (simp add: memcpy_def copied_0)
next
  case False
  then have "0 < unat count" by (simp add: unat_gt_0)
  then show ?thesis using assms copy_up_copied[of dest "unat count" src m] by (auto simp: memcpy_def)
qed

lemma memset_exact:
  "unat dest + unat count \<le> 2 ^ 64 \<Longrightarrow> memset dest val count m = (dest, filled dest (unat count) (ucast val) m)"
  by (simp add: memset_def set_up_filled)

end
