(* ===== verification/Diskio.thy ===== *)
theory Diskio
  imports Prelude
begin

unbundle bit_operations_syntax

text \<open>
  What the two on-disk file systems share: operations that return a result or an error and change a
  state, byte buffers that C structures are laid over, little-endian fields, and bits of a byte array.

  A block is a list of 512 bytes. A structure is read from a block by decoding the bytes at its offset
  and written by replacing them; decoding undoes encoding, and a write leaves the other offsets alone.
\<close>

section \<open>Fallible operations\<close>

text \<open>
  \<open>Fault\<close> is an access outside an array, which the C code performs and whose effect C does not define.
\<close>

datatype ('e, 'a) res = Ok 'a | Err 'e | Fault

type_synonym ('s, 'e, 'a) op = "'s \<Rightarrow> ('e, 'a) res \<times> 's"

definition ok :: "'a \<Rightarrow> ('s, 'e, 'a) op" where
  "ok x = (\<lambda>s. (Ok x, s))"

definition fail :: "'e \<Rightarrow> ('s, 'e, 'a) op" where
  "fail e = (\<lambda>s. (Err e, s))"

definition fault :: "('s, 'e, 'a) op" where
  "fault = (\<lambda>s. (Fault, s))"

definition of_res :: "('e, 'a) res \<Rightarrow> ('s, 'e, 'a) op" where
  "of_res r = (\<lambda>s. (r, s))"

text \<open>\<^verbatim>\<open>m() == 0\<close> as a condition.\<close>

definition succeeds :: "('s, 'e, 'a) op \<Rightarrow> ('s, 'e, bool) op" where
  "succeeds m = (\<lambda>s. case m s of (Ok x, s') \<Rightarrow> (Ok True, s') | (Err e, s') \<Rightarrow> (Ok False, s') | (Fault, s') \<Rightarrow> (Fault, s'))"

text \<open>\<^verbatim>\<open>rc = m(); if (rc != 0) return rc;\<close> followed by \<open>f\<close>.\<close>

definition chain :: "('s, 'e, 'a) op \<Rightarrow> ('a \<Rightarrow> ('s, 'e, 'b) op) \<Rightarrow> ('s, 'e, 'b) op" where
  "chain m f = (\<lambda>s. case m s of (Ok x, s') \<Rightarrow> f x s' | (Err e, s') \<Rightarrow> (Err e, s') | (Fault, s') \<Rightarrow> (Fault, s'))"

text \<open>A loop over \<open>xs\<close> that ends with the first error.\<close>

fun each_op :: "('i \<Rightarrow> 'a \<Rightarrow> ('s, 'e, 'a) op) \<Rightarrow> 'i list \<Rightarrow> 'a \<Rightarrow> ('s, 'e, 'a) op" where
  "each_op f [] a = ok a"
| "each_op f (x # xs) a = chain (f x a) (each_op f xs)"

named_theorems op_run

lemma ok_run [op_run]: "ok x s = (Ok x, s)"
  by (simp add: ok_def)

lemma fail_run [op_run]: "fail e s = (Err e, s)"
  by (simp add: fail_def)

lemma fault_run [op_run]: "fault s = (Fault, s)"
  by (simp add: fault_def)

lemma of_res_run [op_run]: "of_res r s = (r, s)"
  by (simp add: of_res_def)

lemma succeeds_run [op_run]:
  "succeeds m s = (case fst (m s) of Ok x \<Rightarrow> Ok True | Err e \<Rightarrow> Ok False | Fault \<Rightarrow> Fault, snd (m s))"
  by (simp add: succeeds_def split: prod.splits res.splits)

lemma chain_run:
  "chain m f s = (case fst (m s) of Ok x \<Rightarrow> f x (snd (m s)) | Err e \<Rightarrow> (Err e, snd (m s)) | Fault \<Rightarrow> (Fault, snd (m s)))"
  by (simp add: chain_def split: prod.splits res.splits)

lemma chain_ok: "m s = (Ok x, s') \<Longrightarrow> chain m f s = f x s'"
  by (simp add: chain_def)

lemma chain_err: "m s = (Err e, s') \<Longrightarrow> chain m f s = (Err e, s')"
  by (simp add: chain_def)

lemma chain_eq_Ok: "chain m f s = (Ok y, t) \<longleftrightarrow> (\<exists>x s'. m s = (Ok x, s') \<and> f x s' = (Ok y, t))"
  by (auto simp: chain_def split: prod.splits res.splits)

lemma each_append: "each_op f (xs @ ys) a = chain (each_op f xs a) (each_op f ys)"
  by (induction xs arbitrary: a) (auto simp: chain_def fun_eq_iff ok_def split: prod.splits res.splits)

subsection \<open>Simulation\<close>

text \<open>
  An operation on a concrete state does what another does on its abstraction: the same result, and
  abstractions of the states that correspond.
\<close>

definition simulates :: "('s \<Rightarrow> bool) \<Rightarrow> ('s \<Rightarrow> 't) \<Rightarrow> ('s, 'e, 'a) op \<Rightarrow> ('t, 'e, 'a) op \<Rightarrow> bool" where
  "simulates good img m f \<longleftrightarrow>
     (\<forall>s. good s \<longrightarrow> good (snd (m s)) \<and> fst (m s) = fst (f (img s)) \<and> img (snd (m s)) = snd (f (img s)))"

named_theorems sim_rules

lemma simulates_ok [sim_rules]: "simulates good img (ok x) (ok x)"
  by (simp add: simulates_def ok_def)

lemma simulates_fail [sim_rules]: "simulates good img (fail e) (fail e)"
  by (simp add: simulates_def fail_def)

lemma simulates_fault [sim_rules]: "simulates good img fault fault"
  by (simp add: simulates_def fault_def)

lemma simulates_of_res [sim_rules]: "simulates good img (of_res r) (of_res r)"
  by (simp add: simulates_def of_res_def)

lemma simulates_succeeds [sim_rules]: "simulates good img m f \<Longrightarrow> simulates good img (succeeds m) (succeeds f)"
  unfolding simulates_def succeeds_run by simp

lemma simulates_chain [sim_rules]:
  assumes "simulates good img m f" and "\<And>x. simulates good img (m' x) (f' x)"
  shows "simulates good img (chain m m') (chain f f')"
  using assms unfolding simulates_def chain_run by (auto split: res.splits)

lemma simulates_each [sim_rules]:
  assumes "\<And>x a. simulates good img (m x a) (f x a)"
  shows "simulates good img (each_op m xs a) (each_op f xs a)"
  by (induction xs arbitrary: a) (simp_all add: simulates_ok simulates_chain assms)

lemma simulates_if [sim_rules]:
  "simulates good img m f \<Longrightarrow> simulates good img m' f' \<Longrightarrow> simulates good img (if c then m else m') (if c then f else f')"
  by simp

lemma simulatesD:
  assumes "simulates good img m f" "good s" "m s = (r, s')"
  shows "good s'" "f (img s) = (r, img s')"
  using assms unfolding simulates_def by (metis fst_conv snd_conv, metis fst_conv snd_conv prod.collapse)

section \<open>Bytes of a block\<close>

type_synonym bytes = "u8 list"

definition bytes_at :: "nat \<Rightarrow> nat \<Rightarrow> bytes \<Rightarrow> bytes" where
  "bytes_at off n b = take n (drop off b)"

definition put :: "nat \<Rightarrow> bytes \<Rightarrow> bytes \<Rightarrow> bytes" where
  "put off xs b = take off b @ xs @ drop (off + length xs) b"

lemma length_bytes_at [simp]: "off + n \<le> length b \<Longrightarrow> length (bytes_at off n b) = n"
  by (simp add: bytes_at_def)

lemma length_put_bytes [simp]: "off + length xs \<le> length b \<Longrightarrow> length (put off xs b) = length b"
  by (simp add: put_def)

lemma bytes_at_put_same: "off + length xs \<le> length b \<Longrightarrow> n = length xs \<Longrightarrow> bytes_at off n (put off xs b) = xs"
  by (simp add: bytes_at_def put_def)

lemma nth_put:
  "off + length xs \<le> length b \<Longrightarrow> i < length b \<Longrightarrow>
    put off xs b ! i = (if off \<le> i \<and> i < off + length xs then xs ! (i - off) else b ! i)"
  by (auto simp: put_def nth_append min_def)

lemma bytes_at_put_other:
  assumes "off + length xs \<le> length b" "off' + n \<le> length b" "off' + n \<le> off \<or> off + length xs \<le> off'"
  shows "bytes_at off' n (put off xs b) = bytes_at off' n b"
proof (rule nth_equalityI)
  fix i assume "i < length (bytes_at off' n (put off xs b))"
  then have "i < n" using assms(1,2) by simp
  then show "bytes_at off' n (put off xs b) ! i = bytes_at off' n b ! i"
    using assms by (auto simp: bytes_at_def nth_put)
qed (use assms in simp)

lemma nth_bytes_at: "off + n \<le> length b \<Longrightarrow> i < n \<Longrightarrow> bytes_at off n b ! i = b ! (off + i)"
  by (simp add: bytes_at_def)

lemma bytes_at_all: "n = length b \<Longrightarrow> bytes_at 0 n b = b"
  by (simp add: bytes_at_def)

lemma fold_copy_put:
  assumes "off + n \<le> length d" "n \<le> length s"
  shows "fold (\<lambda>i d. d[off + i := s ! i]) [0..<n] d = put off (take n s) d"
proof -
  have "map ((!) s) [0..<n] = take n s" using assms(2) by (simp add: list_eq_iff_nth_eq)
  then show ?thesis using fold_write[OF assms(1), of "(!) s"] assms(2) by (simp add: put_def min_def)
qed

lemma fold_fill_put: "off + n \<le> length d \<Longrightarrow> fold (\<lambda>i d. d[off + i := c]) [0..<n] d = put off (replicate n c) d"
  by (simp add: fold_write put_def map_replicate_const)

text \<open>The 512 bytes that a block transfer copies.\<close>

definition block512 :: "bytes \<Rightarrow> bytes" where
  "block512 b = map ((!) b) [0..<512]"

lemma length_block512 [simp]: "length (block512 b) = 512"
  by (simp add: block512_def)

lemma block512_id [simp]: "length b = 512 \<Longrightarrow> block512 b = b"
  unfolding block512_def by (rule nth_equalityI) (simp_all del: upt_conv_Cons upt_rec_numeral)

section \<open>Little-endian fields\<close>

definition le16 :: "u16 \<Rightarrow> bytes" where
  "le16 w = [ucast w, ucast (drop_bit 8 w)]"

definition le32 :: "u32 \<Rightarrow> bytes" where
  "le32 w = [ucast w, ucast (drop_bit 8 w), ucast (drop_bit 16 w), ucast (drop_bit 24 w)]"

definition le64 :: "u64 \<Rightarrow> bytes" where
  "le64 w = le32 (ucast w) @ le32 (ucast (drop_bit 32 w))"

definition un16 :: "bytes \<Rightarrow> u16" where
  "un16 b = ucast (b ! 0) OR push_bit 8 (ucast (b ! 1))"

definition un32 :: "bytes \<Rightarrow> u32" where
  "un32 b = ucast (b ! 0) OR push_bit 8 (ucast (b ! 1)) OR push_bit 16 (ucast (b ! 2)) OR push_bit 24 (ucast (b ! 3))"

definition un64 :: "bytes \<Rightarrow> u64" where
  "un64 b = ucast (un32 b) OR push_bit 32 (ucast (un32 (drop 4 b)))"

lemma length_le [simp]: "length (le16 h) = 2" "length (le32 w) = 4" "length (le64 q) = 8"
  by (simp_all add: le16_def le32_def le64_def)

lemma un16_le16 [simp]: "un16 (le16 w @ r) = w"
  unfolding un16_def le16_def
  by (rule bit_word_eqI) (auto simp: bit_simps)

lemma un32_Cons: "un32 (a # b # c # d # r) = ucast a OR push_bit 8 (ucast b) OR push_bit 16 (ucast c) OR push_bit 24 (ucast d)"
  by (simp add: un32_def numeral_2_eq_2 numeral_3_eq_3 del: push_bit_of_Suc_0)

lemma un32_le32 [simp]: "un32 (le32 w @ r) = w"
  unfolding le32_def append_Cons un32_Cons
proof (rule bit_word_eqI)
  fix n
  show "bit (ucast (ucast w :: u8) OR push_bit 8 (ucast (ucast (drop_bit 8 w) :: u8)) OR
      push_bit 16 (ucast (ucast (drop_bit 16 w) :: u8)) OR push_bit 24 (ucast (ucast (drop_bit 24 w) :: u8)) :: u32) n \<longleftrightarrow> bit w n"
    if "n < LENGTH(32)"
    using that by (cases "n < 8"; cases "n < 16"; cases "n < 24") (auto simp: bit_or_iff bit_push_bit_iff bit_ucast_iff bit_drop_bit_eq)
qed

lemma un64_le64 [simp]: "un64 (le64 w @ r) = w"
proof -
  have d: "drop 4 (le64 w @ r) = le32 (ucast (drop_bit 32 w)) @ r" by (simp add: le64_def)
  have "un32 (le64 w @ r) = ucast w" by (simp add: le64_def)
  then show ?thesis unfolding un64_def d un32_le32
    by (intro bit_word_eqI) (auto simp: bit_simps)
qed

lemma un_le_end [simp]: "un16 (le16 h) = h" "un32 (le32 w) = w" "un64 (le64 q) = q"
  using un16_le16[of h "[]"] un32_le32[of w "[]"] un64_le64[of q "[]"] by simp_all

text \<open>Arrays of 32-bit fields.\<close>

definition le32s :: "u32 list \<Rightarrow> bytes" where
  "le32s ws = concat (map le32 ws)"

fun un32s :: "nat \<Rightarrow> bytes \<Rightarrow> u32 list" where
  "un32s 0 b = []"
| "un32s (Suc n) b = un32 b # un32s n (drop 4 b)"

lemma le32s_simps [simp]: "le32s [] = []" "le32s (w # ws) = le32 w @ le32s ws"
  by (simp_all add: le32s_def)

lemma length_le32s [simp]: "length (le32s ws) = 4 * length ws"
  by (induction ws) auto

lemma length_un32s [simp]: "length (un32s n b) = n"
  by (induction n arbitrary: b) auto

lemma un32s_le32s [simp]: "n = length ws \<Longrightarrow> un32s n (le32s ws @ r) = ws"
  by (induction ws arbitrary: n) auto

lemma un32s_le32s_end [simp]: "n = length ws \<Longrightarrow> un32s n (le32s ws) = ws"
  using un32s_le32s[of n ws "[]"] by simp

lemma drop_le32s: "drop (4 * n) (le32s ws @ r) = le32s (drop n ws) @ drop (4 * (n - length ws)) r"
proof (induction ws arbitrary: n)
  case (Cons w ws)
  then show ?case by (cases n) simp_all
qed simp

lemma nth_un32s: "i < n \<Longrightarrow> un32s n b ! i = un32 (drop (4 * i) b)"
proof (induction n arbitrary: b i)
  case (Suc n)
  then show ?case by (cases i) (simp_all add: add.commute)
qed simp

lemma un32_zero [simp]: "un32 (replicate n 0) = 0" if "4 \<le> n"
  using that by (simp add: un32_def)

lemma le32_zero: "le32 0 = replicate 4 0"
  by (simp add: le32_def numeral_nat)

section \<open>Bits of a byte array\<close>

lemma byte_bit_test: "k < 8 \<Longrightarrow> x AND push_bit k 1 \<noteq> 0 \<longleftrightarrow> bit x k" for x :: u8
proof -
  assume k: "k < 8"
  have "x AND push_bit k 1 = (if bit x k then push_bit k 1 else 0)" by (rule bit_eqI) (auto simp: bit_simps)
  moreover have "bit (push_bit k 1 :: u8) k" using k by (simp add: bit_simps)
  ultimately show ?thesis by (metis bit_0_eq bot_apply bot_bool_def)
qed

definition byte_test :: "bytes \<Rightarrow> u32 \<Rightarrow> bool" where
  "byte_test b i \<longleftrightarrow> bit (b ! unat (i div 8)) (unat (i mod 8))"

definition byte_set :: "bytes \<Rightarrow> u32 \<Rightarrow> bytes" where
  "byte_set b i = b[unat (i div 8) := b ! unat (i div 8) OR push_bit (unat (i mod 8)) 1]"

definition byte_clear :: "bytes \<Rightarrow> u32 \<Rightarrow> bytes" where
  "byte_clear b i = b[unat (i div 8) := b ! unat (i div 8) AND NOT (push_bit (unat (i mod 8)) 1)]"

definition byte_holds :: "bytes \<Rightarrow> u32 \<Rightarrow> bool" where
  "byte_holds b i \<longleftrightarrow> unat (i div 8) < length b"

lemma byte_position_eq: "i div 8 = j div 8 \<Longrightarrow> i mod 8 = j mod 8 \<Longrightarrow> i = j" for i j :: u32
  by (metis word_mod_div_equality)

lemma byte_position_less [simp]: "unat (i mod 8) < 8" for i :: u32
  by (simp add: unat_mod)

lemma unat_eq_iff: "unat i = unat j \<longleftrightarrow> i = j" for i j :: "'a::len word"
  by (rule word_unat_eq_iff[symmetric])

lemmas byte_defs = byte_test_def byte_set_def byte_clear_def byte_holds_def

lemma byte_update_other: "i div 8 \<noteq> j div 8 \<Longrightarrow> b[unat (i div 8) := x] ! unat (j div 8) = b ! unat (j div 8)" for i j :: u32
  by (simp add: unat_eq_iff)

lemma byte_mask_bit: "bit (push_bit (unat (i mod 8)) 1 :: u8) (unat (j mod 8)) \<longleftrightarrow> i mod 8 = j mod 8" for i j :: u32
  by (auto simp: bit_exp_iff unat_eq_iff)

interpretation byte_bits: bit_store byte_test byte_set byte_clear byte_holds
proof
  fix b i j
  assume h: "byte_holds b i"
  show "byte_test (byte_set b i) j \<longleftrightarrow> j = i \<or> byte_test b j"
  proof (cases "i div 8 = j div 8")
    case True
    then show ?thesis using h byte_position_eq[of i j]
      by (auto simp only: byte_defs nth_list_update_eq bit_or_iff byte_mask_bit)
  next
    case False
    then have "j \<noteq> i" by blast
    then show ?thesis unfolding byte_defs byte_update_other[OF False] by simp
  qed
  show "byte_test (byte_clear b i) j \<longleftrightarrow> j \<noteq> i \<and> byte_test b j"
  proof (cases "i div 8 = j div 8")
    case True
    then show ?thesis using h byte_position_eq[of i j]
      by (auto simp: byte_defs bit_and_iff bit_not_iff byte_mask_bit simp del: push_bit_of_1)
  next
    case False
    then have "j \<noteq> i" by blast
    then show ?thesis unfolding byte_defs byte_update_other[OF False] by simp
  qed
qed (simp_all add: byte_defs)

lemma length_byte_update [simp]: "length (byte_set b i) = length b" "length (byte_clear b i) = length b"
  by (simp_all add: byte_set_def byte_clear_def)

lemma byte_holds_block: "length b = 512 \<Longrightarrow> i < 4096 \<Longrightarrow> byte_holds b i"
  by (simp add: byte_holds_def unat_div word_less_nat_alt)

end
