(* ===== verification/Mcsfs1.thy ===== *)
theory Mcsfs1
  imports Diskio
begin

text \<open>
  The persistent file system of \<^verbatim>\<open>fs/mcsfs1/mcsfs1.c\<close> and \<^verbatim>\<open>fs/mcsfs1/mcsfs1.h\<close>.

  The device is the caller's: \<open>'d\<close> is its state, and the operations of \<open>mcsfs1_blkdev\<close> are the function
  pointers of the C structure, \<open>None\<close> where a pointer is null. A read returns the bytes it leaves in the
  buffer, or \<open>None\<close> when its return code is not 0. Pointers that the interface functions test are options.
  Those functions test the device pointer first, so that the internal ones take the device itself.
  Structures on disk are decoded from and encoded to little-endian bytes. Indexing an array
  outside its bounds is \<open>Fault\<close>. What a failed read leaves in the caller's buffer is not described.
\<close>

unbundle bit_operations_syntax

section \<open>Model: the interface\<close>

definition MCSFS1_BLOCK_SIZE :: u32 where "MCSFS1_BLOCK_SIZE = 512"
definition MCSFS1_MAGIC :: u32 where "MCSFS1_MAGIC = 0x31465343"
definition MCSFS1_VERSION :: u32 where "MCSFS1_VERSION = 1"
definition MCSFS1_MAX_INODES :: u32 where "MCSFS1_MAX_INODES = 32"
definition MCSFS1_DIRECT_BLOCKS :: nat where "MCSFS1_DIRECT_BLOCKS = 8"
definition MCSFS1_MAX_NAME :: nat where "MCSFS1_MAX_NAME = 27"
definition MCSFS1_ROOT_INO :: u32 where "MCSFS1_ROOT_INO = 1"
definition MCSFS1_MODE_FILE :: u16 where "MCSFS1_MODE_FILE = 1"
definition MCSFS1_MODE_DIR :: u16 where "MCSFS1_MODE_DIR = 2"
definition MCSFS1_SB_LBA :: u32 where "MCSFS1_SB_LBA = 0"
definition MCSFS1_INODE_BMAP_LBA :: u32 where "MCSFS1_INODE_BMAP_LBA = 1"
definition MCSFS1_BLOCK_BMAP_LBA :: u32 where "MCSFS1_BLOCK_BMAP_LBA = 2"
definition MCSFS1_INODE_TABLE_LBA :: u32 where "MCSFS1_INODE_TABLE_LBA = 3"
definition MCSFS1_INODE_TABLE_BLOCKS :: u32 where "MCSFS1_INODE_TABLE_BLOCKS = 4"
definition MCSFS1_ROOT_DIR_LBA :: u32 where "MCSFS1_ROOT_DIR_LBA = 7"
definition MCSFS1_DATA_START_LBA :: u32 where "MCSFS1_DATA_START_LBA = 8"
definition MCSFS1_MIN_BLOCKS :: u32 where "MCSFS1_MIN_BLOCKS = 16"
definition MCSFS1_DIRENT_COUNT :: nat where "MCSFS1_DIRENT_COUNT = 16"

datatype mcsfs1_err =
    MCSFS1_ERR_INVAL | MCSFS1_ERR_IO | MCSFS1_ERR_NOSPC | MCSFS1_ERR_EXIST | MCSFS1_ERR_NOENT
  | MCSFS1_ERR_NAMETOOLONG | MCSFS1_ERR_CORRUPT | MCSFS1_ERR_ISDIR | MCSFS1_ERR_RANGE

type_synonym ('d, 'a) fs_op = "('d, mcsfs1_err, 'a) op"

record 'd mcsfs1_blkdev =
  dv_block_count :: u32
  dv_read :: "(u32 \<Rightarrow> 'd \<Rightarrow> bytes option \<times> 'd) option"
  dv_write :: "(u32 \<Rightarrow> bytes \<Rightarrow> 'd \<Rightarrow> int \<times> 'd) option"
  dv_flush :: "('d \<Rightarrow> int \<times> 'd) option"

record 'd mcsfs1_mnt =
  mnt_dev :: "'d mcsfs1_blkdev option"
  mnt_block_count :: u32
  mnt_data_start :: u32

section \<open>Model: structures on disk\<close>

record mcsfs1_super_disk =
  sb_magic :: u32
  sb_version :: u32
  sb_block_size :: u32
  sb_block_count :: u32
  sb_inode_count :: u32
  sb_inode_bmap_lba :: u32
  sb_block_bmap_lba :: u32
  sb_inode_table_lba :: u32
  sb_inode_table_blocks :: u32
  sb_root_ino :: u32
  sb_root_dir_lba :: u32
  sb_data_start_lba :: u32
  sb_clean :: u32
  sb_reserved :: "u32 list"

record mcsfs1_inode_disk =
  i_mode :: u16
  i_links :: u16
  i_size :: u32
  i_direct :: "u32 list"
  i_reserved :: "u32 list"

definition super_bytes :: "mcsfs1_super_disk \<Rightarrow> bytes" where
  "super_bytes sb =
     le32s [sb_magic sb, sb_version sb, sb_block_size sb, sb_block_count sb, sb_inode_count sb, sb_inode_bmap_lba sb,
       sb_block_bmap_lba sb, sb_inode_table_lba sb, sb_inode_table_blocks sb, sb_root_ino sb, sb_root_dir_lba sb,
       sb_data_start_lba sb, sb_clean sb] @ le32s (sb_reserved sb)"

definition super_of :: "bytes \<Rightarrow> mcsfs1_super_disk" where
  "super_of b =
     \<lparr>sb_magic = un32 b, sb_version = un32 (drop 4 b), sb_block_size = un32 (drop 8 b),
      sb_block_count = un32 (drop 12 b), sb_inode_count = un32 (drop 16 b), sb_inode_bmap_lba = un32 (drop 20 b),
      sb_block_bmap_lba = un32 (drop 24 b), sb_inode_table_lba = un32 (drop 28 b),
      sb_inode_table_blocks = un32 (drop 32 b), sb_root_ino = un32 (drop 36 b), sb_root_dir_lba = un32 (drop 40 b),
      sb_data_start_lba = un32 (drop 44 b), sb_clean = un32 (drop 48 b), sb_reserved = un32s 115 (drop 52 b)\<rparr>"

definition sizeof_inode :: u32 where "sizeof_inode = 60"

definition inode_bytes :: "mcsfs1_inode_disk \<Rightarrow> bytes" where
  "inode_bytes i = le16 (i_mode i) @ le16 (i_links i) @ le32 (i_size i) @ le32s (i_direct i) @ le32s (i_reserved i)"

definition inode_of :: "bytes \<Rightarrow> mcsfs1_inode_disk" where
  "inode_of b =
     \<lparr>i_mode = un16 b, i_links = un16 (drop 2 b), i_size = un32 (drop 4 b),
      i_direct = un32s MCSFS1_DIRECT_BLOCKS (drop 8 b), i_reserved = un32s 5 (drop 40 b)\<rparr>"

definition zero_inode :: mcsfs1_inode_disk where
  "zero_inode = \<lparr>i_mode = 0, i_links = 0, i_size = 0, i_direct = replicate MCSFS1_DIRECT_BLOCKS 0, i_reserved = replicate 5 0\<rparr>"

text \<open>Entry \<open>i\<close> of the directory block: 4 bytes of inode number, one of type, 27 of name.\<close>

definition sizeof_dirent :: nat where "sizeof_dirent = 32"

definition de_ino :: "bytes \<Rightarrow> nat \<Rightarrow> u32" where
  "de_ino block i = un32 (drop (i * sizeof_dirent) block)"

definition de_type :: "bytes \<Rightarrow> nat \<Rightarrow> u8" where
  "de_type block i = block ! (i * sizeof_dirent + 4)"

definition de_name :: "nat \<Rightarrow> nat" where
  "de_name i = i * sizeof_dirent + 5"

section \<open>Model: memory and strings\<close>

definition mcsfs_memset :: "bytes \<Rightarrow> nat \<Rightarrow> u8 \<Rightarrow> nat \<Rightarrow> bytes" where
  "mcsfs_memset dst off c n = fold (\<lambda>i d. d[off + i := c]) [0..<n] dst"

definition mcsfs_memcpy :: "bytes \<Rightarrow> nat \<Rightarrow> bytes \<Rightarrow> nat \<Rightarrow> bytes" where
  "mcsfs_memcpy dst off src n = fold (\<lambda>i d. d[off + i := src ! i]) [0..<n] dst"

definition mcsfs_memcmp :: "bytes \<Rightarrow> bytes \<Rightarrow> nat \<Rightarrow> int" where
  "mcsfs_memcmp a b n =
     (case find (\<lambda>i. a ! i \<noteq> b ! i) [0..<n] of None \<Rightarrow> 0 | Some i \<Rightarrow> uint (a ! i) - uint (b ! i))"

text \<open>
  A pointer into an array gives the byte at each offset, \<open>None\<close> past the end. A caller's string is an array
  that ends with a zero byte.
\<close>

type_synonym pointer = "nat \<Rightarrow> u8 option"

definition string_ptr :: "bytes \<Rightarrow> pointer" where
  "string_ptr s i = (if i < length s then Some (s ! i) else if i = length s then Some 0 else None)"

definition array_ptr :: "bytes \<Rightarrow> nat \<Rightarrow> pointer" where
  "array_ptr a off i = (if off + i < length a then Some (a ! (off + i)) else None)"

function strlen_bound_from :: "pointer \<Rightarrow> nat \<Rightarrow> nat \<Rightarrow> nat option" where
  "strlen_bound_from s max_plus_one n =
     (if n < max_plus_one then
        (case s n of None \<Rightarrow> None
         | Some c \<Rightarrow> if c \<noteq> 0 then strlen_bound_from s max_plus_one (n + 1) else Some n)
      else Some n)"
  by auto
termination by (relation "measure (\<lambda>(s, m, n). m - n)") auto

declare strlen_bound_from.simps [simp del]

definition mcsfs_strlen_bound :: "pointer option \<Rightarrow> nat \<Rightarrow> nat option" where
  "mcsfs_strlen_bound s max_plus_one =
     (case s of None \<Rightarrow> Some max_plus_one | Some s \<Rightarrow> strlen_bound_from s max_plus_one 0)"

definition valid_name :: "bytes option \<Rightarrow> (mcsfs1_err, nat) res" where
  "valid_name name =
     (case mcsfs_strlen_bound (map_option string_ptr name) (MCSFS1_MAX_NAME + 1) of
        None \<Rightarrow> Fault
      | Some n \<Rightarrow>
          if n = 0 then Err MCSFS1_ERR_INVAL
          else if n > MCSFS1_MAX_NAME then Err MCSFS1_ERR_NAMETOOLONG
          else if list_ex (\<lambda>i. the name ! i = 0x2f) [0..<n] then Err MCSFS1_ERR_INVAL
          else Ok n)"

section \<open>Model: the device\<close>

definition dev_read :: "'d mcsfs1_blkdev \<Rightarrow> u32 \<Rightarrow> ('d, bytes) fs_op" where
  "dev_read dev lba =
     (case dv_read dev of
        None \<Rightarrow> fail MCSFS1_ERR_INVAL
      | Some rd \<Rightarrow>
          if lba \<ge> dv_block_count dev then fail MCSFS1_ERR_INVAL
          else (\<lambda>s. case rd lba s of (None, s') \<Rightarrow> (Err MCSFS1_ERR_IO, s') | (Some b, s') \<Rightarrow> (Ok b, s')))"

definition dev_write :: "'d mcsfs1_blkdev \<Rightarrow> u32 \<Rightarrow> bytes \<Rightarrow> ('d, unit) fs_op" where
  "dev_write dev lba buf =
     (case dv_write dev of
        None \<Rightarrow> fail MCSFS1_ERR_INVAL
      | Some wr \<Rightarrow>
          if lba \<ge> dv_block_count dev then fail MCSFS1_ERR_INVAL
          else (\<lambda>s. case wr lba buf s of (rc, s') \<Rightarrow> (if rc = 0 then Ok () else Err MCSFS1_ERR_IO, s')))"

definition dev_flush :: "'d mcsfs1_blkdev \<Rightarrow> ('d, unit) fs_op" where
  "dev_flush dev =
     (case dv_flush dev of
        None \<Rightarrow> fail MCSFS1_ERR_INVAL
      | Some fl \<Rightarrow> (\<lambda>s. case fl s of (rc, s') \<Rightarrow> (if rc = 0 then Ok () else Err MCSFS1_ERR_IO, s')))"

section \<open>Model: bitmaps, super block and inodes\<close>

definition bit_set :: "bytes \<Rightarrow> u32 \<Rightarrow> bytes" where
  "bit_set b i = b[unat (i div 8) := b ! unat (i div 8) OR push_bit (unat (i mod 8)) 1]"

definition bit_clear :: "bytes \<Rightarrow> u32 \<Rightarrow> bytes" where
  "bit_clear b i = b[unat (i div 8) := b ! unat (i div 8) AND NOT (push_bit (unat (i mod 8)) 1)]"

definition bit_test :: "bytes \<Rightarrow> u32 \<Rightarrow> bool" where
  "bit_test b i \<longleftrightarrow> (b ! unat (i div 8)) AND push_bit (unat (i mod 8)) 1 \<noteq> 0"

definition load_super :: "'d mcsfs1_blkdev \<Rightarrow> ('d, mcsfs1_super_disk) fs_op" where
  "load_super dev =
     chain (dev_read dev MCSFS1_SB_LBA) (\<lambda>block.
       let sb = super_of block
       in if sb_magic sb \<noteq> MCSFS1_MAGIC \<or> sb_version sb \<noteq> MCSFS1_VERSION \<or> sb_block_size sb \<noteq> MCSFS1_BLOCK_SIZE
          then fail MCSFS1_ERR_CORRUPT
          else if sb_block_count sb \<noteq> dv_block_count dev \<or> sb_inode_count sb \<noteq> MCSFS1_MAX_INODES
          then fail MCSFS1_ERR_CORRUPT
          else if sb_inode_bmap_lba sb \<noteq> MCSFS1_INODE_BMAP_LBA \<or> sb_block_bmap_lba sb \<noteq> MCSFS1_BLOCK_BMAP_LBA \<or>
            sb_inode_table_lba sb \<noteq> MCSFS1_INODE_TABLE_LBA
          then fail MCSFS1_ERR_CORRUPT
          else if sb_root_ino sb \<noteq> MCSFS1_ROOT_INO \<or> sb_root_dir_lba sb \<noteq> MCSFS1_ROOT_DIR_LBA \<or>
            sb_data_start_lba sb \<noteq> MCSFS1_DATA_START_LBA
          then fail MCSFS1_ERR_CORRUPT
          else if sb_data_start_lba sb \<ge> sb_block_count sb then fail MCSFS1_ERR_CORRUPT
          else ok sb)"

definition inode_lba :: "u32 \<Rightarrow> u32" where
  "inode_lba ino = MCSFS1_INODE_TABLE_LBA + (ino - 1) div (MCSFS1_BLOCK_SIZE div sizeof_inode)"

definition inode_off :: "u32 \<Rightarrow> u32" where
  "inode_off ino = (ino - 1) mod (MCSFS1_BLOCK_SIZE div sizeof_inode) * sizeof_inode"

definition read_inode :: "'d mcsfs1_blkdev \<Rightarrow> u32 \<Rightarrow> ('d, mcsfs1_inode_disk) fs_op" where
  "read_inode dev ino =
     (if ino = 0 \<or> ino > MCSFS1_MAX_INODES then fail MCSFS1_ERR_INVAL
      else if inode_lba ino \<ge> MCSFS1_DATA_START_LBA then fail MCSFS1_ERR_CORRUPT
      else chain (dev_read dev (inode_lba ino)) (\<lambda>block.
        ok (inode_of (bytes_at (unat (inode_off ino)) (unat sizeof_inode) block))))"

definition write_inode :: "'d mcsfs1_blkdev \<Rightarrow> u32 \<Rightarrow> mcsfs1_inode_disk \<Rightarrow> ('d, unit) fs_op" where
  "write_inode dev ino inode =
     (if ino = 0 \<or> ino > MCSFS1_MAX_INODES then fail MCSFS1_ERR_INVAL
      else if inode_lba ino \<ge> MCSFS1_DATA_START_LBA then fail MCSFS1_ERR_CORRUPT
      else chain (dev_read dev (inode_lba ino)) (\<lambda>block.
        dev_write dev (inode_lba ino)
          (mcsfs_memcpy block (unat (inode_off ino)) (inode_bytes inode) (unat sizeof_inode))))"

definition load_bmaps :: "'d mcsfs1_blkdev \<Rightarrow> ('d, bytes \<times> bytes) fs_op" where
  "load_bmaps dev =
     chain (dev_read dev MCSFS1_INODE_BMAP_LBA) (\<lambda>ib. chain (dev_read dev MCSFS1_BLOCK_BMAP_LBA) (\<lambda>bb. ok (ib, bb)))"

definition store_bmaps :: "'d mcsfs1_blkdev \<Rightarrow> bytes \<Rightarrow> bytes \<Rightarrow> ('d, unit) fs_op" where
  "store_bmaps dev ib bb =
     chain (dev_write dev MCSFS1_INODE_BMAP_LBA ib) (\<lambda>_. dev_write dev MCSFS1_BLOCK_BMAP_LBA bb)"

section \<open>Model: directory search and allocation\<close>

fun scan_dirents :: "bytes \<Rightarrow> bytes \<Rightarrow> nat \<Rightarrow> nat list \<Rightarrow> (mcsfs1_err, nat \<times> u32) res" where
  "scan_dirents block name name_len [] = Err MCSFS1_ERR_NOENT"
| "scan_dirents block name name_len (i # is) =
     (if de_ino block i \<noteq> 0 then
        (case mcsfs_strlen_bound (Some (array_ptr block (de_name i))) (MCSFS1_MAX_NAME + 1) of
           None \<Rightarrow> Fault
         | Some n \<Rightarrow>
             if n = name_len \<and> mcsfs_memcmp (drop (de_name i) block) name name_len = 0 then Ok (i, de_ino block i)
             else scan_dirents block name name_len is)
      else scan_dirents block name name_len is)"

definition find_dirent :: "'d mcsfs1_blkdev \<Rightarrow> bytes option \<Rightarrow> ('d, nat \<times> u32) fs_op" where
  "find_dirent dev name =
     chain (of_res (valid_name name)) (\<lambda>name_len.
     chain (dev_read dev MCSFS1_ROOT_DIR_LBA) (\<lambda>block.
     of_res (scan_dirents block (the name) name_len [0..<MCSFS1_DIRENT_COUNT])))"

text \<open>The first clear bit among \<open>is\<close>.\<close>

fun scan_clear :: "bytes \<Rightarrow> u32 list \<Rightarrow> (mcsfs1_err, u32 option) res" where
  "scan_clear b [] = Ok None"
| "scan_clear b (i # is) =
     (if unat (i div 8) \<ge> length b then Fault else if \<not> bit_test b i then Ok (Some i) else scan_clear b is)"

definition u32_range :: "u32 \<Rightarrow> u32 \<Rightarrow> u32 list" where
  "u32_range a b = map of_nat [unat a..<unat b]"

definition alloc_inode_block :: "'d mcsfs1_blkdev \<Rightarrow> ('d, u32 \<times> u32) fs_op" where
  "alloc_inode_block dev =
     chain (load_bmaps dev) (\<lambda>(ib, bb).
     chain (of_res (scan_clear ib (u32_range 2 (MCSFS1_MAX_INODES + 1)))) (\<lambda>i.
     case i of None \<Rightarrow> fail MCSFS1_ERR_NOSPC
     | Some ino \<Rightarrow>
       chain (of_res (scan_clear bb (u32_range MCSFS1_DATA_START_LBA (dv_block_count dev)))) (\<lambda>b.
       case b of None \<Rightarrow> fail MCSFS1_ERR_NOSPC
       | Some lba \<Rightarrow>
         chain (store_bmaps dev (bit_set ib ino) (bit_set bb lba)) (\<lambda>_. ok (ino, lba)))))"

definition alloc_data_block :: "'d mcsfs1_blkdev \<Rightarrow> ('d, u32) fs_op" where
  "alloc_data_block dev =
     chain (load_bmaps dev) (\<lambda>(ib, bb).
     chain (of_res (scan_clear bb (u32_range MCSFS1_DATA_START_LBA (dv_block_count dev)))) (\<lambda>b.
     case b of None \<Rightarrow> fail MCSFS1_ERR_NOSPC
     | Some b \<Rightarrow> chain (store_bmaps dev ib (bit_set bb b)) (\<lambda>_. ok b)))"

fun clear_all :: "u32 \<Rightarrow> u32 list \<Rightarrow> bytes \<Rightarrow> (mcsfs1_err, bytes) res" where
  "clear_all block_count [] bb = Ok bb"
| "clear_all block_count (d # ds) bb =
     (if d \<noteq> 0 \<and> d < block_count then
        (if unat (d div 8) \<ge> length bb then Fault else clear_all block_count ds (bit_clear bb d))
      else clear_all block_count ds bb)"

definition free_inode_and_blocks :: "'d mcsfs1_blkdev \<Rightarrow> u32 \<Rightarrow> mcsfs1_inode_disk \<Rightarrow> ('d, unit) fs_op" where
  "free_inode_and_blocks dev ino inode =
     chain (load_bmaps dev) (\<lambda>(ib, bb).
     chain (of_res (clear_all (dv_block_count dev) (i_direct inode) bb)) (\<lambda>bb'.
     store_bmaps dev (bit_clear ib ino) bb'))"

section \<open>Model: format, mount and the file operations\<close>

definition zero_block :: bytes where
  "zero_block = replicate (unat MCSFS1_BLOCK_SIZE) 0"

definition fresh_super :: "u32 \<Rightarrow> mcsfs1_super_disk" where
  "fresh_super block_count =
     \<lparr>sb_magic = MCSFS1_MAGIC, sb_version = MCSFS1_VERSION, sb_block_size = MCSFS1_BLOCK_SIZE,
      sb_block_count = block_count, sb_inode_count = MCSFS1_MAX_INODES, sb_inode_bmap_lba = MCSFS1_INODE_BMAP_LBA,
      sb_block_bmap_lba = MCSFS1_BLOCK_BMAP_LBA, sb_inode_table_lba = MCSFS1_INODE_TABLE_LBA,
      sb_inode_table_blocks = MCSFS1_INODE_TABLE_BLOCKS, sb_root_ino = MCSFS1_ROOT_INO,
      sb_root_dir_lba = MCSFS1_ROOT_DIR_LBA, sb_data_start_lba = MCSFS1_DATA_START_LBA, sb_clean = 1,
      sb_reserved = replicate 115 0\<rparr>"

definition root_inode :: mcsfs1_inode_disk where
  "root_inode = zero_inode\<lparr>i_mode := MCSFS1_MODE_DIR, i_links := 1, i_size := MCSFS1_BLOCK_SIZE,
     i_direct := (i_direct zero_inode)[0 := MCSFS1_ROOT_DIR_LBA]\<rparr>"

definition mcsfs1_format :: "'d mcsfs1_blkdev option \<Rightarrow> ('d, unit) fs_op" where
  "mcsfs1_format dev =
     (case dev of
        None \<Rightarrow> fail MCSFS1_ERR_INVAL
      | Some dev \<Rightarrow>
          if dv_block_count dev < MCSFS1_MIN_BLOCKS \<or> dv_block_count dev > MCSFS1_BLOCK_SIZE * 8
          then fail MCSFS1_ERR_INVAL
          else
            chain (each_op (\<lambda>lba _. dev_write dev lba zero_block) (u32_range 0 (dv_block_count dev)) ()) (\<lambda>_.
            chain (dev_write dev MCSFS1_SB_LBA (super_bytes (fresh_super (dv_block_count dev)))) (\<lambda>_.
            let ib = bit_set (bit_set zero_block 0) MCSFS1_ROOT_INO;
                bb = bit_set (fold (\<lambda>b bb. bit_set bb b) (u32_range 0 MCSFS1_DATA_START_LBA) zero_block) MCSFS1_ROOT_DIR_LBA
            in chain (store_bmaps dev ib bb) (\<lambda>_.
               chain (write_inode dev MCSFS1_ROOT_INO root_inode) (\<lambda>_.
               dev_flush dev)))))"

definition mcsfs1_mount :: "'d mcsfs1_mnt option \<Rightarrow> 'd mcsfs1_blkdev option \<Rightarrow> ('d, 'd mcsfs1_mnt) fs_op" where
  "mcsfs1_mount mnt dev =
     (case (mnt, dev) of
        (Some mnt, Some dev) \<Rightarrow>
          chain (load_super dev) (\<lambda>sb.
          chain (read_inode dev MCSFS1_ROOT_INO) (\<lambda>root.
          if i_mode root \<noteq> MCSFS1_MODE_DIR \<or> i_direct root ! 0 \<noteq> MCSFS1_ROOT_DIR_LBA then fail MCSFS1_ERR_CORRUPT
          else ok (mnt\<lparr>mnt_dev := Some dev, mnt_block_count := sb_block_count sb, mnt_data_start := sb_data_start_lba sb\<rparr>)))
      | _ \<Rightarrow> fail MCSFS1_ERR_INVAL)"

text \<open>\<^verbatim>\<open>mnt == 0 || mnt->dev == 0\<close>, the test every file operation begins with.\<close>

definition mounted :: "'d mcsfs1_mnt option \<Rightarrow> 'd mcsfs1_blkdev option" where
  "mounted mnt = (case mnt of None \<Rightarrow> None | Some mnt \<Rightarrow> mnt_dev mnt)"

definition store_dirent :: "bytes \<Rightarrow> nat \<Rightarrow> u32 \<Rightarrow> bytes \<Rightarrow> nat \<Rightarrow> bytes" where
  "store_dirent dir slot ino name name_len =
     (let dir = put (slot * sizeof_dirent) (le32 ino) dir;
          dir = dir[slot * sizeof_dirent + 4 := ucast MCSFS1_MODE_FILE];
          dir = mcsfs_memset dir (de_name slot) 0 MCSFS1_MAX_NAME
      in mcsfs_memcpy dir (de_name slot) name name_len)"

definition mcsfs1_create :: "'d mcsfs1_mnt option \<Rightarrow> bytes option \<Rightarrow> ('d, unit) fs_op" where
  "mcsfs1_create mnt name =
     (case mounted mnt of
        None \<Rightarrow> fail MCSFS1_ERR_INVAL
      | Some dev \<Rightarrow>
          chain (of_res (valid_name name)) (\<lambda>name_len.
          chain (succeeds (find_dirent dev name)) (\<lambda>exists.
          if exists then fail MCSFS1_ERR_EXIST
          else
            chain (dev_read dev MCSFS1_ROOT_DIR_LBA) (\<lambda>dir_block.
            case find (\<lambda>i. de_ino dir_block i = 0) [0..<MCSFS1_DIRENT_COUNT] of
              None \<Rightarrow> fail MCSFS1_ERR_NOSPC
            | Some free_slot \<Rightarrow>
                chain (alloc_inode_block dev) (\<lambda>(ino, first_data).
                chain (write_inode dev ino
                  (zero_inode\<lparr>i_mode := MCSFS1_MODE_FILE, i_links := 1, i_size := 0,
                     i_direct := (i_direct zero_inode)[0 := first_data]\<rparr>)) (\<lambda>_.
                chain (dev_write dev MCSFS1_ROOT_DIR_LBA (store_dirent dir_block free_slot ino (the name) name_len)) (\<lambda>_.
                dev_flush dev)))))))"

definition blocks_for :: "u32 \<Rightarrow> u32" where
  "blocks_for n = (n + MCSFS1_BLOCK_SIZE - 1) div MCSFS1_BLOCK_SIZE"

definition at_least_one :: "u32 \<Rightarrow> u32" where
  "at_least_one n = (if n = 0 then 1 else n)"

definition chunk_of :: "u32 \<Rightarrow> u32 \<Rightarrow> u32" where
  "chunk_of n copied = (if n - copied > MCSFS1_BLOCK_SIZE then MCSFS1_BLOCK_SIZE else n - copied)"

definition alloc_missing :: "'d mcsfs1_blkdev \<Rightarrow> nat \<Rightarrow> u32 list \<Rightarrow> ('d, u32 list) fs_op" where
  "alloc_missing dev i direct =
     (if direct ! i = 0 then chain (alloc_data_block dev) (\<lambda>b. ok (direct[i := b])) else ok direct)"

definition write_chunk :: "'d mcsfs1_blkdev \<Rightarrow> u32 list \<Rightarrow> bytes option \<Rightarrow> u32 \<Rightarrow> nat \<Rightarrow> u32 \<Rightarrow> ('d, u32) fs_op" where
  "write_chunk dev direct buf len i written =
     (let chunk = chunk_of len written
      in if chunk \<noteq> 0 \<and> unat written + unat chunk > length (the buf) then fault
         else
           chain (dev_write dev (direct ! i)
             (if chunk \<noteq> 0 then mcsfs_memcpy zero_block 0 (drop (unat written) (the buf)) (unat chunk) else zero_block)) (\<lambda>_.
           ok (written + chunk)))"

definition mcsfs1_write :: "'d mcsfs1_mnt option \<Rightarrow> bytes option \<Rightarrow> bytes option \<Rightarrow> u32 \<Rightarrow> ('d, unit) fs_op" where
  "mcsfs1_write mnt name buf len =
     (case mounted mnt of
        None \<Rightarrow> fail MCSFS1_ERR_INVAL
      | Some dev \<Rightarrow>
          if buf = None \<and> len \<noteq> 0 then fail MCSFS1_ERR_INVAL
          else if len > of_nat MCSFS1_DIRECT_BLOCKS * MCSFS1_BLOCK_SIZE then fail MCSFS1_ERR_RANGE
          else
            chain (find_dirent dev name) (\<lambda>(_, ino).
            chain (read_inode dev ino) (\<lambda>inode.
            if i_mode inode \<noteq> MCSFS1_MODE_FILE then fail MCSFS1_ERR_ISDIR
            else
              let blocks = [0..<unat (at_least_one (blocks_for len))]
              in chain (each_op (alloc_missing dev) blocks (i_direct inode)) (\<lambda>direct.
                 chain (each_op (write_chunk dev direct buf len) blocks 0) (\<lambda>_.
                 chain (write_inode dev ino (inode\<lparr>i_direct := direct, i_size := len\<rparr>)) (\<lambda>_.
                 dev_flush dev))))))"

definition read_chunk :: "'d mcsfs1_blkdev \<Rightarrow> u32 \<Rightarrow> mcsfs1_inode_disk \<Rightarrow> nat \<Rightarrow> bytes \<times> u32 \<Rightarrow> ('d, bytes \<times> u32) fs_op" where
  "read_chunk dev block_count inode i = (\<lambda>(buf, copied).
     if i \<ge> MCSFS1_DIRECT_BLOCKS then fault
     else if i_direct inode ! i = 0 \<or> i_direct inode ! i \<ge> block_count then fail MCSFS1_ERR_CORRUPT
     else
       chain (dev_read dev (i_direct inode ! i)) (\<lambda>block.
       let chunk = chunk_of (i_size inode) copied
       in if unat copied + unat chunk > length buf then fault
          else ok (mcsfs_memcpy buf (unat copied) block (unat chunk), copied + chunk)))"

definition mcsfs1_read ::
  "'d mcsfs1_mnt option \<Rightarrow> bytes option \<Rightarrow> bytes option \<Rightarrow> u32 \<Rightarrow> u32 option \<Rightarrow> ('d, bytes \<times> u32) fs_op" where
  "mcsfs1_read mnt name buf cap out_len =
     (case (mounted mnt, buf, out_len) of
        (Some dev, Some buf, Some _) \<Rightarrow>
          chain (find_dirent dev name) (\<lambda>(_, ino).
          chain (read_inode dev ino) (\<lambda>inode.
          if i_mode inode \<noteq> MCSFS1_MODE_FILE then fail MCSFS1_ERR_ISDIR
          else if cap < i_size inode then fail MCSFS1_ERR_RANGE
          else
            chain (each_op (read_chunk dev (mnt_block_count (the mnt)) inode) [0..<unat (blocks_for (i_size inode))] (buf, 0))
              (\<lambda>(buf, _). ok (buf, i_size inode))))
      | _ \<Rightarrow> fail MCSFS1_ERR_INVAL)"

definition mcsfs1_unlink :: "'d mcsfs1_mnt option \<Rightarrow> bytes option \<Rightarrow> ('d, unit) fs_op" where
  "mcsfs1_unlink mnt name =
     (case mounted mnt of
        None \<Rightarrow> fail MCSFS1_ERR_INVAL
      | Some dev \<Rightarrow>
          chain (find_dirent dev name) (\<lambda>(slot, ino).
          chain (read_inode dev ino) (\<lambda>inode.
          if i_mode inode \<noteq> MCSFS1_MODE_FILE then fail MCSFS1_ERR_ISDIR
          else
            chain (dev_read dev MCSFS1_ROOT_DIR_LBA) (\<lambda>dir_block.
            chain (dev_write dev MCSFS1_ROOT_DIR_LBA (mcsfs_memset dir_block (slot * sizeof_dirent) 0 sizeof_dirent)) (\<lambda>_.
            chain (free_inode_and_blocks dev ino inode) (\<lambda>_.
            chain (write_inode dev ino zero_inode) (\<lambda>_.
            dev_flush dev)))))))"

text \<open>One directory entry of the check, and one block of the file it names.\<close>

definition fsck_block :: "u32 \<Rightarrow> bytes \<Rightarrow> mcsfs1_inode_disk \<Rightarrow> nat \<Rightarrow> unit \<Rightarrow> ('d, unit) fs_op" where
  "fsck_block block_count bb inode j _ =
     (let lba = i_direct inode ! j
      in if lba < MCSFS1_DATA_START_LBA \<or> lba \<ge> block_count then fail MCSFS1_ERR_CORRUPT
         else if unat (lba div 8) \<ge> length bb then fault
         else if \<not> bit_test bb lba then fail MCSFS1_ERR_CORRUPT
         else ok ())"

definition fsck_entry :: "'d mcsfs1_blkdev \<Rightarrow> bytes \<Rightarrow> bytes \<Rightarrow> bytes \<Rightarrow> nat \<Rightarrow> unit \<Rightarrow> ('d, unit) fs_op" where
  "fsck_entry dev ib bb dir_block i _ =
     (let ino = de_ino dir_block i
      in if ino = 0 then ok ()
         else if ino > MCSFS1_MAX_INODES \<or> de_type dir_block i \<noteq> ucast MCSFS1_MODE_FILE \<or> \<not> bit_test ib ino
         then fail MCSFS1_ERR_CORRUPT
         else
           chain (read_inode dev ino) (\<lambda>inode.
           if i_mode inode \<noteq> MCSFS1_MODE_FILE \<or> i_size inode > of_nat MCSFS1_DIRECT_BLOCKS * MCSFS1_BLOCK_SIZE
           then fail MCSFS1_ERR_CORRUPT
           else each_op (fsck_block (dv_block_count dev) bb inode) [0..<unat (at_least_one (blocks_for (i_size inode)))] ()))"

definition mcsfs1_fsck :: "'d mcsfs1_blkdev option \<Rightarrow> ('d, unit) fs_op" where
  "mcsfs1_fsck dev =
     (case dev of
        None \<Rightarrow> fail MCSFS1_ERR_INVAL
      | Some dev \<Rightarrow>
          chain (load_super dev) (\<lambda>_.
          chain (load_bmaps dev) (\<lambda>(ib, bb).
          if \<not> bit_test ib MCSFS1_ROOT_INO \<or> \<not> bit_test bb MCSFS1_ROOT_DIR_LBA then fail MCSFS1_ERR_CORRUPT
          else if list_ex (\<lambda>b. \<not> bit_test bb b) (u32_range 0 MCSFS1_DATA_START_LBA) then fail MCSFS1_ERR_CORRUPT
          else
            chain (read_inode dev MCSFS1_ROOT_INO) (\<lambda>root.
            if i_mode root \<noteq> MCSFS1_MODE_DIR \<or> i_direct root ! 0 \<noteq> MCSFS1_ROOT_DIR_LBA then fail MCSFS1_ERR_CORRUPT
            else
              chain (dev_read dev MCSFS1_ROOT_DIR_LBA) (\<lambda>dir_block.
              each_op (fsck_entry dev ib bb dir_block) [0..<MCSFS1_DIRENT_COUNT] ())))))"

section \<open>Reliable devices\<close>

text \<open>
  What the file system relies on: below the device's block count reads and writes succeed, a read returns
  the block written last, and neither touches another block. \<open>disk\<close> is the contents of the medium.
\<close>

locale reliable_device =
  fixes dev :: "'d mcsfs1_blkdev" and good :: "'d \<Rightarrow> bool" and disk :: "'d \<Rightarrow> u32 \<Rightarrow> bytes"
  assumes has_ops: "dv_read dev \<noteq> None" "dv_write dev \<noteq> None" "dv_flush dev \<noteq> None"
    and read_law: "good s \<Longrightarrow> lba < dv_block_count dev \<Longrightarrow>
      \<exists>s'. the (dv_read dev) lba s = (Some (disk s lba), s') \<and> good s' \<and> disk s' = disk s"
    and write_law: "good s \<Longrightarrow> lba < dv_block_count dev \<Longrightarrow>
      \<exists>s'. the (dv_write dev) lba b s = (0, s') \<and> good s' \<and> disk s' = (disk s)(lba := block512 b)"
    and flush_law: "good s \<Longrightarrow> \<exists>s'. the (dv_flush dev) s = (0, s') \<and> good s' \<and> disk s' = disk s"

text \<open>The device whose state is the medium itself.\<close>

definition medium :: "u32 \<Rightarrow> (u32 \<Rightarrow> bytes) mcsfs1_blkdev" where
  "medium n = \<lparr>dv_block_count = n, dv_read = Some (\<lambda>lba D. (Some (D lba), D)),
     dv_write = Some (\<lambda>lba b D. (0, D(lba := block512 b))), dv_flush = Some (\<lambda>D. (0, D))\<rparr>"

lemma medium_simps [simp]:
  "dv_block_count (medium n) = n"
  "dev_read (medium n) lba D = (if lba < n then (Ok (D lba), D) else (Err MCSFS1_ERR_INVAL, D))"
  "dev_write (medium n) lba b D = (if lba < n then (Ok (), D(lba := block512 b)) else (Err MCSFS1_ERR_INVAL, D))"
  "dev_flush (medium n) D = (Ok (), D)"
  by (simp_all add: medium_def dev_read_def dev_write_def dev_flush_def op_run linorder_not_less)

interpretation medium: reliable_device "medium n" "\<lambda>_. True" "\<lambda>D. D"
  by unfold_locales (simp_all add: medium_def)

lemma simulates_case_prod [sim_rules]:
  "(\<And>a b. simulates good img (m a b) (f a b)) \<Longrightarrow> simulates good img (case p of (a, b) \<Rightarrow> m a b) (case p of (a, b) \<Rightarrow> f a b)"
  by (simp split: prod.split)

lemma simulates_case_option [sim_rules]:
  "simulates good img m f \<Longrightarrow> (\<And>x. simulates good img (m' x) (f' x)) \<Longrightarrow>
    simulates good img (case x of None \<Rightarrow> m | Some x \<Rightarrow> m' x) (case x of None \<Rightarrow> f | Some x \<Rightarrow> f' x)"
  by (simp split: option.split)

text \<open>What a successful mount of \<open>dev\<close> stores.\<close>

definition mount_of :: "'d mcsfs1_blkdev \<Rightarrow> 'd mcsfs1_mnt" where
  "mount_of dev = \<lparr>mnt_dev = Some dev, mnt_block_count = dv_block_count dev, mnt_data_start = MCSFS1_DATA_START_LBA\<rparr>"

lemma mounted_mount_of: "mounted (Some (mount_of dev)) = Some dev"
  by (simp add: mounted_def mount_of_def)

lemma mount_of_count: "mnt_block_count (mount_of dev) = dv_block_count dev"
  by (simp add: mount_of_def)

lemma load_super_Ok:
  "load_super dev s = (Ok sb, s') \<Longrightarrow> sb_block_count sb = dv_block_count dev \<and> sb_data_start_lba sb = MCSFS1_DATA_START_LBA"
  by (auto simp: load_super_def chain_eq_Ok op_run Let_def split: if_splits)

lemma mount_Ok: "mcsfs1_mount (Some m) (Some dev) s = (Ok mnt, s') \<Longrightarrow> mnt = mount_of dev"
  by (auto simp: mcsfs1_mount_def chain_eq_Ok op_run mount_of_def dest!: load_super_Ok split: if_splits)

context reliable_device
begin

abbreviation ideal :: "(u32 \<Rightarrow> bytes) mcsfs1_blkdev" where
  "ideal \<equiv> medium (dv_block_count dev)"

abbreviation sim :: "('d, 'e, 'a) op \<Rightarrow> (u32 \<Rightarrow> bytes, 'e, 'a) op \<Rightarrow> bool" where
  "sim \<equiv> simulates good disk"

lemma sim_dev_read: "sim (dev_read dev lba) (dev_read ideal lba)"
  unfolding simulates_def
proof (intro allI impI)
  fix s assume s: "good s"
  obtain rd where rd: "dv_read dev = Some rd" using has_ops by blast
  show "good (snd (dev_read dev lba s)) \<and> fst (dev_read dev lba s) = fst (dev_read ideal lba (disk s)) \<and>
    disk (snd (dev_read dev lba s)) = snd (dev_read ideal lba (disk s))"
    using read_law[OF s, of lba] s by (auto simp: dev_read_def[of dev] rd op_run not_less)
qed

lemma sim_dev_write: "sim (dev_write dev lba b) (dev_write ideal lba b)"
  unfolding simulates_def
proof (intro allI impI)
  fix s assume s: "good s"
  obtain wr where wr: "dv_write dev = Some wr" using has_ops by blast
  show "good (snd (dev_write dev lba b s)) \<and> fst (dev_write dev lba b s) = fst (dev_write ideal lba b (disk s)) \<and>
    disk (snd (dev_write dev lba b s)) = snd (dev_write ideal lba b (disk s))"
    using write_law[OF s, of lba b] s by (auto simp: dev_write_def[of dev] wr op_run not_less)
qed

lemma sim_dev_flush: "sim (dev_flush dev) (dev_flush ideal)"
  unfolding simulates_def
proof (intro allI impI)
  fix s assume s: "good s"
  obtain fl where fl: "dv_flush dev = Some fl" using has_ops by blast
  show "good (snd (dev_flush dev s)) \<and> fst (dev_flush dev s) = fst (dev_flush ideal (disk s)) \<and>
    disk (snd (dev_flush dev s)) = snd (dev_flush ideal (disk s))"
    using flush_law[OF s] by (auto simp: dev_flush_def[of dev] fl)
qed

lemmas sim_dev = sim_rules sim_dev_read sim_dev_write sim_dev_flush

lemma sim_load_super: "sim (load_super dev) (load_super ideal)"
  unfolding load_super_def Let_def medium_simps(1) by (intro sim_dev)

lemma sim_read_inode: "sim (read_inode dev ino) (read_inode ideal ino)"
  unfolding read_inode_def by (intro sim_dev)

lemma sim_write_inode: "sim (write_inode dev ino inode) (write_inode ideal ino inode)"
  unfolding write_inode_def by (intro sim_dev)

lemma sim_load_bmaps: "sim (load_bmaps dev) (load_bmaps ideal)"
  unfolding load_bmaps_def by (intro sim_dev)

lemma sim_store_bmaps: "sim (store_bmaps dev ib bb) (store_bmaps ideal ib bb)"
  unfolding store_bmaps_def by (intro sim_dev)

lemma sim_find_dirent: "sim (find_dirent dev name) (find_dirent ideal name)"
  unfolding find_dirent_def by (intro sim_dev)

lemmas sim_parts = sim_dev sim_load_super sim_read_inode sim_write_inode sim_load_bmaps sim_store_bmaps sim_find_dirent

lemma sim_alloc_inode_block: "sim (alloc_inode_block dev) (alloc_inode_block ideal)"
  unfolding alloc_inode_block_def medium_simps(1) by (intro sim_parts)

lemma sim_alloc_data_block: "sim (alloc_data_block dev) (alloc_data_block ideal)"
  unfolding alloc_data_block_def medium_simps(1) by (intro sim_parts)

lemma sim_free: "sim (free_inode_and_blocks dev ino inode) (free_inode_and_blocks ideal ino inode)"
  unfolding free_inode_and_blocks_def medium_simps(1) by (intro sim_parts)

lemma sim_alloc_missing: "sim (alloc_missing dev i direct) (alloc_missing ideal i direct)"
  unfolding alloc_missing_def by (intro sim_parts sim_alloc_data_block)

lemma sim_write_chunk: "sim (write_chunk dev direct buf len i w) (write_chunk ideal direct buf len i w)"
  unfolding write_chunk_def Let_def by (intro sim_parts)

lemma sim_read_chunk: "sim (read_chunk dev n inode i p) (read_chunk ideal n inode i p)"
  unfolding read_chunk_def Let_def by (intro sim_parts)

lemma sim_fsck_entry: "sim (fsck_entry dev ib bb dir i u) (fsck_entry ideal ib bb dir i u)"
  unfolding fsck_entry_def fsck_block_def Let_def medium_simps(1) by (intro sim_parts)

lemmas sim_calls = sim_parts sim_alloc_inode_block sim_free sim_alloc_missing sim_write_chunk sim_read_chunk sim_fsck_entry

lemma sim_format: "sim (mcsfs1_format (Some dev)) (mcsfs1_format (Some ideal))"
  unfolding mcsfs1_format_def option.case Let_def medium_simps(1) by (intro sim_calls)

lemma sim_fsck: "sim (mcsfs1_fsck (Some dev)) (mcsfs1_fsck (Some ideal))"
  unfolding mcsfs1_fsck_def option.case medium_simps(1) by (intro sim_calls)

lemma sim_create: "sim (mcsfs1_create (Some (mount_of dev)) name) (mcsfs1_create (Some (mount_of ideal)) name)"
  unfolding mcsfs1_create_def mounted_mount_of option.case by (intro sim_calls)

lemma sim_write: "sim (mcsfs1_write (Some (mount_of dev)) name buf len) (mcsfs1_write (Some (mount_of ideal)) name buf len)"
  unfolding mcsfs1_write_def mounted_mount_of option.case Let_def by (intro sim_calls)

lemma sim_read:
  "sim (mcsfs1_read (Some (mount_of dev)) name buf cap out_len) (mcsfs1_read (Some (mount_of ideal)) name buf cap out_len)"
  unfolding mcsfs1_read_def mounted_mount_of prod.case option.case option.sel mount_of_count medium_simps(1)
  by (intro sim_calls)

lemma sim_unlink: "sim (mcsfs1_unlink (Some (mount_of dev)) name) (mcsfs1_unlink (Some (mount_of ideal)) name)"
  unfolding mcsfs1_unlink_def mounted_mount_of option.case by (intro sim_calls)

end

end
