(* ===== verification/Mcsfs1_Sound.thy ===== *)
theory Mcsfs1_Sound
  imports Mcsfs1
begin

text \<open>
  The file system of \<open>Mcsfs1\<close> is sound: on a reliable device every history of calls keeps the invariant
  \<open>fs_ok\<close>, which the code's own checker accepts, and a file that was written is read back as written.
\<close>

section \<open>Layout\<close>

lemmas mcsfs_consts = MCSFS1_BLOCK_SIZE_def MCSFS1_MAX_INODES_def MCSFS1_DIRECT_BLOCKS_def MCSFS1_MAX_NAME_def
  MCSFS1_ROOT_INO_def MCSFS1_MODE_FILE_def MCSFS1_MODE_DIR_def MCSFS1_SB_LBA_def MCSFS1_INODE_BMAP_LBA_def
  MCSFS1_BLOCK_BMAP_LBA_def MCSFS1_INODE_TABLE_LBA_def MCSFS1_ROOT_DIR_LBA_def MCSFS1_DATA_START_LBA_def
  MCSFS1_MIN_BLOCKS_def MCSFS1_DIRENT_COUNT_def sizeof_inode_def sizeof_dirent_def

lemma bit_ops: "bit_set = byte_set" "bit_clear = byte_clear" "bit_test = byte_test"
  by (simp_all add: fun_eq_iff bit_set_def byte_set_def bit_clear_def byte_clear_def bit_test_def byte_test_def
    byte_bit_test del: push_bit_of_1)

lemma super_of_bytes: "length (sb_reserved sb) = 115 \<Longrightarrow> super_of (super_bytes sb) = sb"
  by (simp add: super_of_def super_bytes_def)

lemma length_super_bytes: "length (sb_reserved sb) = 115 \<Longrightarrow> length (super_bytes sb) = 512"
  by (simp add: super_bytes_def)

definition inode_shape :: "mcsfs1_inode_disk \<Rightarrow> bool" where
  "inode_shape x \<longleftrightarrow> length (i_direct x) = 8 \<and> length (i_reserved x) = 5"

lemma length_inode_bytes [simp]: "inode_shape x \<Longrightarrow> length (inode_bytes x) = 60"
  by (simp add: inode_bytes_def inode_shape_def)

lemma inode_of_bytes: "inode_shape x \<Longrightarrow> inode_of (inode_bytes x) = x"
  by (simp add: inode_of_def inode_bytes_def inode_shape_def MCSFS1_DIRECT_BLOCKS_def)

lemma inode_shape_of [simp]: "inode_shape (inode_of b)"
  by (simp add: inode_shape_def inode_of_def MCSFS1_DIRECT_BLOCKS_def)

lemma inode_place:
  assumes "1 \<le> ino" "ino \<le> 32"
  shows "unat (inode_lba ino) = 3 + (unat ino - 1) div 8" "unat (inode_off ino) = 60 * ((unat ino - 1) mod 8)"
proof -
  have u: "unat (ino - 1) = unat ino - 1" using assms(1) by (simp add: unat_sub)
  have l: "unat ino \<le> 32" using assms(2) by (simp add: word_le_nat_alt)
  have d: "(512 div 60 :: u32) = 8" by simp
  have "unat ((ino - 1) div 8) = (unat ino - 1) div 8" by (simp add: unat_div u)
  then show "unat (inode_lba ino) = 3 + (unat ino - 1) div 8"
    using l by (simp add: inode_lba_def mcsfs_consts d unat_add_small)
  have m: "unat ((ino - 1) mod 8) = (unat ino - 1) mod 8" by (simp add: unat_mod u)
  then have "unat ((ino - 1) mod 8 * 60) = (unat ino - 1) mod 8 * 60"
    by (subst unat_mult_lem[THEN iffD1]) (simp_all add: unat_mod u)
  then show "unat (inode_off ino) = 60 * ((unat ino - 1) mod 8)"
    by (simp add: inode_off_def mcsfs_consts d)
qed

lemma inode_lba_range: "1 \<le> ino \<Longrightarrow> ino \<le> 32 \<Longrightarrow> 3 \<le> inode_lba ino \<and> inode_lba ino < 7"
proof -
  assume a: "1 \<le> ino" "ino \<le> 32"
  then have "1 \<le> unat ino" "unat ino \<le> 32" by (simp_all add: word_le_nat_alt)
  then show ?thesis unfolding word_le_nat_alt word_less_nat_alt inode_place(1)[OF a] by simp
qed

lemma inode_off_range: "1 \<le> ino \<Longrightarrow> ino \<le> 32 \<Longrightarrow> unat (inode_off ino) + 60 \<le> 512"
  by (simp add: inode_place(2))

lemma inode_place_disjoint:
  assumes "1 \<le> i" "i \<le> 32" "1 \<le> j" "j \<le> 32" "i \<noteq> j" "inode_lba i = inode_lba j"
  shows "unat (inode_off i) + 60 \<le> unat (inode_off j) \<or> unat (inode_off j) + 60 \<le> unat (inode_off i)"
proof -
  have "1 \<le> unat i" "1 \<le> unat j" "unat i \<noteq> unat j" using assms by (simp_all add: word_le_nat_alt unat_eq_iff)
  moreover have "(unat i - 1) div 8 = (unat j - 1) div 8"
    using arg_cong[OF assms(6), of unat] inode_place(1)[OF assms(1,2)] inode_place(1)[OF assms(3,4)] by simp
  ultimately have "(unat i - 1) mod 8 \<noteq> (unat j - 1) mod 8"
    by (metis div_mult_mod_eq le_add_diff_inverse)
  then show ?thesis using assms by (simp add: inode_place(2)) linarith
qed

section \<open>Directory entries\<close>

lemma un32_bytes_at: "off + 4 \<le> length b \<Longrightarrow> un32 (bytes_at off 4 b) = un32 (drop off b)"
  by (simp add: un32_def bytes_at_def)

lemma un32_take: "4 \<le> length e \<Longrightarrow> un32 (take 4 e) = un32 e"
  by (simp add: un32_def)

lemma de_ino_put:
  assumes "length b = 512" "length e = 32" "i < 16" "j < 16"
  shows "de_ino (put (i * 32) e b) j = (if j = i then un32 e else de_ino b j)"
proof (cases "j = i")
  case True
  have "bytes_at (i * 32) 4 (put (i * 32) e b) = take 4 e" using assms by (simp add: bytes_at_def put_def)
  then show ?thesis using True assms un32_bytes_at[of "i * 32" "put (i * 32) e b"]
    by (simp add: de_ino_def sizeof_dirent_def un32_take)
next
  case False
  then have "bytes_at (j * 32) 4 (put (i * 32) e b) = bytes_at (j * 32) 4 b"
    using assms by (intro bytes_at_put_other) (simp_all, linarith)
  then show ?thesis using False assms un32_bytes_at[of "j * 32" b] un32_bytes_at[of "j * 32" "put (i * 32) e b"]
    by (simp add: de_ino_def sizeof_dirent_def)
qed

lemma de_type_put:
  assumes "length b = 512" "length e = 32" "i < 16" "j < 16"
  shows "de_type (put (i * 32) e b) j = (if j = i then e ! 4 else de_type b j)"
  using assms by (auto simp: de_type_def sizeof_dirent_def nth_put)

definition entry_bytes :: "u32 \<Rightarrow> bytes \<Rightarrow> nat \<Rightarrow> bytes" where
  "entry_bytes ino name n = le32 ino @ [1] @ take n name @ replicate (27 - n) 0"

lemma put_put_suffix:
  "off + length xs \<le> length b \<Longrightarrow> k + length ys \<le> length xs \<Longrightarrow> put (off + k) ys (put off xs b) = put off (put k ys xs) b"
  by (simp add: put_def)

lemma put_nested_append: "off + length xs + length ys \<le> length b \<Longrightarrow>
    put (off + length xs) ys (put off xs b) = put off (xs @ ys) b"
  by (simp add: put_def ac_simps)

lemma store_dirent_eq:
  assumes "length dir = 512" "slot < 16" "n \<le> length name" "n \<le> 27"
  shows "store_dirent dir slot ino name n = put (slot * 32) (entry_bytes ino name n) dir"
proof -
  have a: "(put (slot * 32) (le32 ino) dir)[slot * 32 + 4 := 1] = put (slot * 32) (le32 ino @ [1]) dir"
    using assms put_nested_append[of "slot * 32" "le32 ino" "[1]" dir]
    by (simp add: put_def list_update_append upd_conv_take_nth_drop drop_Suc)
  have b: "put (slot * 32 + 5) (replicate 27 0) (put (slot * 32) (le32 ino @ [1]) dir) =
      put (slot * 32) (le32 ino @ [1] @ replicate 27 0) dir"
    using assms put_nested_append[of "slot * 32" "le32 ino @ [1]" "replicate 27 0" dir] by simp
  have c: "put (slot * 32 + 5) (take n name) (put (slot * 32) (le32 ino @ [1] @ replicate 27 0) dir) =
      put (slot * 32) (put 5 (take n name) (le32 ino @ [1] @ replicate 27 0)) dir"
    using assms by (intro put_put_suffix) simp_all
  have d: "put 5 (take n name) (le32 ino @ [1] @ replicate 27 0) = entry_bytes ino name n"
    using assms by (simp add: put_def entry_bytes_def)
  show ?thesis using assms a b c d
    by (simp add: store_dirent_def Let_def mcsfs_memset_def mcsfs_memcpy_def fold_fill_put fold_copy_put de_name_def mcsfs_consts)
qed

section \<open>What the blocks describe\<close>

text \<open>
  The metadata a medium holds: the two bitmaps, inode number and type of the directory entries, and the
  inodes. A medium of \<open>n\<close> blocks is \<open>sized\<close> when the file system supports \<open>n\<close> and the blocks have 512 bytes.
\<close>

record fs_meta =
  m_ib :: "u32 \<Rightarrow> bool"
  m_bb :: "u32 \<Rightarrow> bool"
  m_ino :: "nat \<Rightarrow> u32"
  m_type :: "nat \<Rightarrow> u8"
  m_node :: "u32 \<Rightarrow> mcsfs1_inode_disk"

definition node_at :: "(u32 \<Rightarrow> bytes) \<Rightarrow> u32 \<Rightarrow> mcsfs1_inode_disk" where
  "node_at D ino = inode_of (bytes_at (unat (inode_off ino)) 60 (D (inode_lba ino)))"

definition meta_of :: "(u32 \<Rightarrow> bytes) \<Rightarrow> fs_meta" where
  "meta_of D =
     \<lparr>m_ib = bit_test (D 1), m_bb = bit_test (D 2),
      m_ino = (\<lambda>i. if i < 16 then de_ino (D 7) i else 0), m_type = (\<lambda>i. if i < 16 then de_type (D 7) i else 0),
      m_node = (\<lambda>ino. if 1 \<le> ino \<and> ino \<le> 32 then node_at D ino else zero_inode)\<rparr>"

definition sized :: "u32 \<Rightarrow> (u32 \<Rightarrow> bytes) \<Rightarrow> bool" where
  "sized n D \<longleftrightarrow> 16 \<le> n \<and> n \<le> 4096 \<and> (\<forall>l < n. length (D l) = 512)"

definition set_node :: "(u32 \<Rightarrow> bytes) \<Rightarrow> u32 \<Rightarrow> mcsfs1_inode_disk \<Rightarrow> (u32 \<Rightarrow> bytes)" where
  "set_node D ino x = D(inode_lba ino := put (unat (inode_off ino)) (inode_bytes x) (D (inode_lba ino)))"

lemma sized_length: "sized n D \<Longrightarrow> l < 16 \<Longrightarrow> length (D l) = 512"
  by (meson order_less_le_trans sized_def)

lemma sized_less: "sized n D \<Longrightarrow> l < 16 \<Longrightarrow> l < n"
  by (meson order_less_le_trans sized_def)

lemma sized_update: "sized n D \<Longrightarrow> length b = 512 \<Longrightarrow> sized n (D(l := b))"
  by (simp add: sized_def)

lemma inode_lba_less: "1 \<le> ino \<Longrightarrow> ino \<le> 32 \<Longrightarrow> inode_lba ino < 16"
  using inode_lba_range[of ino] by (simp add: word_less_nat_alt)

lemma inode_lba_neq:
  assumes "1 \<le> ino" "ino \<le> 32"
  shows "inode_lba ino \<noteq> 0" "inode_lba ino \<noteq> 1" "inode_lba ino \<noteq> 2" "inode_lba ino \<noteq> 7" "\<not> 8 \<le> inode_lba ino"
  using inode_lba_range[OF assms] by (auto simp: word_le_nat_alt word_less_nat_alt)

lemma sized_set_node: "sized n D \<Longrightarrow> 1 \<le> ino \<Longrightarrow> ino \<le> 32 \<Longrightarrow> inode_shape x \<Longrightarrow> sized n (set_node D ino x)"
  unfolding set_node_def using inode_lba_less inode_off_range
  by (intro sized_update) (simp_all add: sized_length)

lemma node_at_set_node:
  assumes s: "sized n D" and i: "1 \<le> ino" "ino \<le> 32" and j: "1 \<le> j" "j \<le> 32" and x: "inode_shape x"
  shows "node_at (set_node D ino x) j = (if j = ino then x else node_at D j)"
proof (cases "inode_lba j = inode_lba ino")
  case False
  then show ?thesis by (auto simp: node_at_def set_node_def)
next
  case True
  have l: "length (D (inode_lba ino)) = 512" using sized_length[OF s inode_lba_less[OF i]] .
  show ?thesis
  proof (cases "j = ino")
    case True
    have "bytes_at (unat (inode_off ino)) 60 (put (unat (inode_off ino)) (inode_bytes x) (D (inode_lba ino))) = inode_bytes x"
      using l x inode_off_range[OF i] by (intro bytes_at_put_same) simp_all
    then show ?thesis using True x by (simp add: node_at_def set_node_def inode_of_bytes)
  next
    case False
    then have "bytes_at (unat (inode_off j)) 60 (put (unat (inode_off ino)) (inode_bytes x) (D (inode_lba ino))) =
        bytes_at (unat (inode_off j)) 60 (D (inode_lba ino))"
      using l x inode_off_range[OF i] inode_off_range[OF j] inode_place_disjoint[OF j i _ True]
      by (intro bytes_at_put_other) simp_all
    then show ?thesis using True False by (simp add: node_at_def set_node_def)
  qed
qed

lemma node_at_update: "1 \<le> ino \<Longrightarrow> ino \<le> 32 \<Longrightarrow> l < 3 \<or> l = 7 \<or> 8 \<le> l \<Longrightarrow> node_at (D(l := b)) ino = node_at D ino"
  using inode_lba_neq[of ino] inode_lba_range[of ino] by (auto simp: node_at_def)

lemma meta_data: "8 \<le> l \<Longrightarrow> meta_of (D(l := b)) = meta_of D"
proof -
  assume l: "8 \<le> l"
  then have "l \<noteq> 1" "l \<noteq> 2" "l \<noteq> 7" by (auto simp: word_le_nat_alt)
  then show ?thesis using l by (simp add: meta_of_def node_at_update fun_eq_iff)
qed

lemma bit_test_set: "length b = 512 \<Longrightarrow> i < 4096 \<Longrightarrow> bit_test (bit_set b i) = (bit_test b)(i := True)"
  by (auto simp: bit_ops fun_eq_iff byte_bits.test_set byte_holds_block)

lemma bit_test_clear: "length b = 512 \<Longrightarrow> i < 4096 \<Longrightarrow> bit_test (bit_clear b i) = (bit_test b)(i := False)"
  by (auto simp: bit_ops fun_eq_iff byte_bits.test_clear byte_holds_block)

lemma length_bit_update [simp]: "length (bit_set b i) = length b" "length (bit_clear b i) = length b"
  by (simp_all add: bit_ops)

lemma meta_ib: "meta_of (D(1 := b)) = meta_of D\<lparr>m_ib := bit_test b\<rparr>"
  by (simp add: meta_of_def node_at_update fun_eq_iff)

lemma meta_bb: "meta_of (D(2 := b)) = meta_of D\<lparr>m_bb := bit_test b\<rparr>"
  by (simp add: meta_of_def node_at_update fun_eq_iff)

lemma meta_dir:
  assumes "sized n D" "length e = 32" "slot < 16"
  shows "meta_of (D(7 := put (slot * 32) e (D 7))) =
    meta_of D\<lparr>m_ino := (m_ino (meta_of D))(slot := un32 e), m_type := (m_type (meta_of D))(slot := e ! 4)\<rparr>"
  using assms sized_length[OF assms(1), of 7]
  by (simp add: meta_of_def node_at_update fun_eq_iff de_ino_put de_type_put)

lemma meta_set_node:
  assumes "sized n D" "1 \<le> ino" "ino \<le> 32" "inode_shape x"
  shows "meta_of (set_node D ino x) = meta_of D\<lparr>m_node := (m_node (meta_of D))(ino := x)\<rparr>"
proof -
  have "set_node D ino x l = D l" if "l \<in> {1, 2, 7}" for l
    using that inode_lba_neq[OF assms(2,3)] by (auto simp: set_node_def)
  then show ?thesis using assms by (simp add: meta_of_def node_at_set_node fun_eq_iff)
qed

section \<open>Steps on a medium\<close>

lemma read_inode_medium:
  "sized n D \<Longrightarrow> 1 \<le> ino \<Longrightarrow> ino \<le> 32 \<Longrightarrow> read_inode (medium n) ino D = (Ok (m_node (meta_of D) ino), D)"
  using inode_lba_neq[of ino] inode_lba_less[of ino] sized_less[of n D "inode_lba ino"]
  by (auto simp: read_inode_def mcsfs_consts chain_run op_run meta_of_def node_at_def)

lemma write_inode_medium:
  "sized n D \<Longrightarrow> 1 \<le> ino \<Longrightarrow> ino \<le> 32 \<Longrightarrow> inode_shape x \<Longrightarrow> write_inode (medium n) ino x D = (Ok (), set_node D ino x)"
  using inode_lba_neq[of ino] inode_lba_less[of ino] sized_less[of n D "inode_lba ino"] inode_off_range[of ino]
    sized_length[of n D "inode_lba ino"]
  by (auto simp: write_inode_def mcsfs_consts chain_run op_run set_node_def mcsfs_memcpy_def fold_copy_put)

lemma load_bmaps_medium: "sized n D \<Longrightarrow> load_bmaps (medium n) D = (Ok (D 1, D 2), D)"
  by (simp add: load_bmaps_def mcsfs_consts chain_run op_run sized_less)

lemma store_bmaps_medium:
  "sized n D \<Longrightarrow> length ib = 512 \<Longrightarrow> length bb = 512 \<Longrightarrow> store_bmaps (medium n) ib bb D = (Ok (), D(1 := ib, 2 := bb))"
  by (simp add: store_bmaps_def mcsfs_consts chain_run op_run sized_less)

lemma scan_clear_cases:
  assumes "length b = 512" "\<forall>i \<in> set is. i < 4096"
  shows "(scan_clear b is = Ok None \<and> (\<forall>i \<in> set is. bit_test b i)) \<or>
    (\<exists>i \<in> set is. scan_clear b is = Ok (Some i) \<and> \<not> bit_test b i)"
  using assms(2)
proof (induction "is")
  case (Cons i "is")
  then have "unat i < 4096" by (simp add: word_less_nat_alt)
  then have "unat (i div 8) < 512" by (simp add: unat_div)
  then show ?case using Cons assms(1) by (cases "bit_test b i") auto
qed simp

lemma set_u32_range: "set (u32_range a b) = {i. a \<le> i \<and> i < b}"
proof (rule set_eqI)
  fix i :: u32
  have "unat (of_nat k :: u32) = k" if "k < unat b" for k
    using that unat_less_length[of b] by (simp add: unat_of_nat_small)
  then have "i \<in> of_nat ` {unat a..<unat b} \<longleftrightarrow> unat a \<le> unat i \<and> unat i < unat b"
    by (auto intro!: image_eqI[of i of_nat "unat i"])
  then show "i \<in> set (u32_range a b) \<longleftrightarrow> i \<in> {i. a \<le> i \<and> i < b}"
    by (simp only: u32_range_def set_map set_upt mem_Collect_eq word_le_nat_alt word_less_nat_alt)
qed

text \<open>The allocators find a clear bit exactly when there is one.\<close>

lemma scan_range:
  assumes "length b = 512" "hi \<le> 4096"
  shows "(scan_clear b (u32_range lo hi) = Ok None \<and> (\<forall>i. lo \<le> i \<and> i < hi \<longrightarrow> bit_test b i)) \<or>
    (\<exists>i. lo \<le> i \<and> i < hi \<and> scan_clear b (u32_range lo hi) = Ok (Some i) \<and> \<not> bit_test b i)"
proof -
  have "\<forall>i \<in> set (u32_range lo hi). i < 4096" using assms(2) by (auto simp: set_u32_range intro: order_less_le_trans)
  from scan_clear_cases[OF assms(1) this] show ?thesis unfolding set_u32_range by blast
qed

lemma alloc_data_block_medium:
  assumes "sized n D"
  shows "(alloc_data_block (medium n) D = (Err MCSFS1_ERR_NOSPC, D) \<and> (\<forall>b. 8 \<le> b \<and> b < n \<longrightarrow> m_bb (meta_of D) b)) \<or>
    (\<exists>b. 8 \<le> b \<and> b < n \<and> \<not> m_bb (meta_of D) b \<and> alloc_data_block (medium n) D = (Ok b, D(2 := bit_set (D 2) b)))"
proof -
  have l: "length (D 1) = 512" "length (D 2) = 512" "n \<le> 4096" using assms sized_length[of n D] by (simp_all add: sized_def)
  show ?thesis using scan_range[OF l(2,3), of 8] l assms
    by (auto simp: alloc_data_block_def chain_run op_run load_bmaps_medium store_bmaps_medium mcsfs_consts meta_of_def)
qed

lemma alloc_inode_block_medium:
  assumes "sized n D"
  shows "(alloc_inode_block (medium n) D = (Err MCSFS1_ERR_NOSPC, D) \<and>
      \<not> (\<exists>i b. 2 \<le> i \<and> i \<le> 32 \<and> \<not> m_ib (meta_of D) i \<and> 8 \<le> b \<and> b < n \<and> \<not> m_bb (meta_of D) b)) \<or>
    (\<exists>ino lba. 2 \<le> ino \<and> ino \<le> 32 \<and> \<not> m_ib (meta_of D) ino \<and> 8 \<le> lba \<and> lba < n \<and> \<not> m_bb (meta_of D) lba \<and>
      alloc_inode_block (medium n) D = (Ok (ino, lba), D(1 := bit_set (D 1) ino, 2 := bit_set (D 2) lba)))"
proof -
  have l: "length (D 1) = 512" "length (D 2) = 512" "n \<le> 4096" using assms sized_length[of n D] by (simp_all add: sized_def)
  have 33: "i < 33 \<longleftrightarrow> i \<le> 32" for i :: u32 by (auto simp: word_le_nat_alt word_less_nat_alt)
  show ?thesis using scan_range[OF l(1), of 33 2] scan_range[OF l(2,3), of 8] l assms
    by (auto simp: alloc_inode_block_def chain_run op_run load_bmaps_medium store_bmaps_medium mcsfs_consts meta_of_def 33)
qed

lemma clear_all_medium:
  assumes "n \<le> 4096" "length bb = 512"
  shows "\<exists>bb'. clear_all n ds bb = Ok bb' \<and> length bb' = 512 \<and>
    (\<forall>i. bit_test bb' i \<longleftrightarrow> bit_test bb i \<and> \<not> (i \<in> set ds \<and> i \<noteq> 0 \<and> i < n))"
  using assms(2)
proof (induction ds arbitrary: bb)
  case (Cons d ds)
  show ?case
  proof (cases "d \<noteq> 0 \<and> d < n")
    case True
    then have d: "d < 4096" using assms(1) by (meson order_less_le_trans)
    then have "byte_holds bb d" using Cons.prems by (rule byte_holds_block[rotated])
    then have h: "\<not> length bb \<le> unat (d div 8)" by (simp add: byte_holds_def)
    from Cons.IH[of "bit_clear bb d"] Cons.prems True h d show ?thesis by (auto simp: bit_test_clear)
  next
    case False
    from Cons.IH[OF Cons.prems] False show ?thesis by auto
  qed
qed simp

lemma find_dirent_medium:
  assumes "sized n D" "find_dirent (medium n) name D = (Ok (slot, ino), D')"
  shows "D' = D \<and> slot < 16 \<and> ino = m_ino (meta_of D) slot \<and> ino \<noteq> 0"
proof -
  have scan: "scan_dirents b nm k is = Ok (slot, ino) \<Longrightarrow> slot \<in> set is \<and> ino = de_ino b slot \<and> ino \<noteq> 0" for b nm k "is"
    by (induction "is") (auto split: if_splits option.splits)
  from assms show ?thesis
    by (auto simp: find_dirent_def chain_eq_Ok op_run mcsfs_consts sized_less meta_of_def dest!: scan)
qed

section \<open>The invariant\<close>

text \<open>
  A file owns the blocks its inode names. In a sound file system the owned blocks are data blocks marked
  as used, no two files share an inode or a block, and a file owns the blocks its size needs.
\<close>

definition owned :: "mcsfs1_inode_disk \<Rightarrow> u32 set" where
  "owned x = {d \<in> set (i_direct x). d \<noteq> 0}"

definition blocks_needed :: "u32 \<Rightarrow> nat" where
  "blocks_needed n = unat (at_least_one (blocks_for n))"

definition file_ok :: "u32 \<Rightarrow> (u32 \<Rightarrow> bool) \<Rightarrow> mcsfs1_inode_disk \<Rightarrow> bool" where
  "file_ok n bb x \<longleftrightarrow> inode_shape x \<and> i_mode x = MCSFS1_MODE_FILE \<and> i_size x \<le> 4096 \<and>
     (\<forall>j < blocks_needed (i_size x). i_direct x ! j \<noteq> 0) \<and> (\<forall>d \<in> owned x. 8 \<le> d \<and> d < n \<and> bb d) \<and>
     distinct (filter (\<lambda>d. d \<noteq> 0) (i_direct x))"

definition entry_ok :: "u32 \<Rightarrow> fs_meta \<Rightarrow> nat \<Rightarrow> bool" where
  "entry_ok n m i \<longleftrightarrow> i < 16 \<and> 2 \<le> m_ino m i \<and> m_ino m i \<le> 32 \<and> m_type m i = 1 \<and> m_ib m (m_ino m i) \<and>
     file_ok n (m_bb m) (m_node m (m_ino m i))"

definition apart :: "fs_meta \<Rightarrow> nat \<Rightarrow> nat \<Rightarrow> bool" where
  "apart m i j \<longleftrightarrow> m_ino m i \<noteq> m_ino m j \<and> owned (m_node m (m_ino m i)) \<inter> owned (m_node m (m_ino m j)) = {}"

definition meta_ok :: "u32 \<Rightarrow> fs_meta \<Rightarrow> bool" where
  "meta_ok n m \<longleftrightarrow> m_ib m 1 \<and> (\<forall>b < 8. m_bb m b) \<and> i_mode (m_node m 1) = MCSFS1_MODE_DIR \<and> i_direct (m_node m 1) ! 0 = 7 \<and>
     (\<forall>i. m_ino m i \<noteq> 0 \<longrightarrow> entry_ok n m i) \<and> (\<forall>i j. m_ino m i \<noteq> 0 \<longrightarrow> m_ino m j \<noteq> 0 \<longrightarrow> i \<noteq> j \<longrightarrow> apart m i j)"

definition fs_ok :: "u32 \<Rightarrow> (u32 \<Rightarrow> bytes) \<Rightarrow> bool" where
  "fs_ok n D \<longleftrightarrow> sized n D \<and> super_of (D 0) = fresh_super n \<and> meta_ok n (meta_of D)"

lemma two_not_le_one [simp]: "\<not> (2 :: u32) \<le> 1"
  by (simp add: word_le_nat_alt)

lemma unat_blocks_for: "len \<le> 4096 \<Longrightarrow> unat (blocks_for len) = (unat len + 511) div 512"
proof -
  assume "len \<le> 4096"
  then have "unat (511 + len) = unat len + 511" by (simp add: unat_add_small word_le_nat_alt)
  then show ?thesis by (simp add: blocks_for_def mcsfs_consts unat_div)
qed

lemma blocks_needed_range:
  assumes "len \<le> 4096"
  shows "blocks_needed len = (if len = 0 then 1 else (unat len + 511) div 512)" "1 \<le> blocks_needed len" "blocks_needed len \<le> 8"
proof -
  have l: "unat len \<le> 4096" using assms by (simp add: word_le_nat_alt)
  note b = unat_blocks_for[OF assms]
  have z: "blocks_for len = 0 \<longleftrightarrow> len = 0"
  proof (cases "len = 0")
    case False
    then have "0 < unat len" by (simp add: unat_gt_0)
    then show ?thesis using False b by (auto simp: div_eq_0_iff)
  qed (simp add: blocks_for_def mcsfs_consts)
  show "blocks_needed len = (if len = 0 then 1 else (unat len + 511) div 512)"
    by (auto simp: blocks_needed_def at_least_one_def z b)
  moreover have "1 \<le> (unat len + 511) div 512" if "len \<noteq> 0"
  proof -
    have "0 < unat len" using that by (simp add: unat_gt_0)
    then show ?thesis by simp
  qed
  ultimately show "1 \<le> blocks_needed len" "blocks_needed len \<le> 8" using l by auto
qed

lemma file_ok_mono: "file_ok n bb x \<Longrightarrow> (\<And>b. bb b \<Longrightarrow> b \<in> owned x \<Longrightarrow> bb' b) \<Longrightarrow> file_ok n bb' x"
  by (auto simp: file_ok_def)

lemma meta_ok_entry: "meta_ok n m \<Longrightarrow> m_ino m i \<noteq> 0 \<Longrightarrow> entry_ok n m i"
  by (simp add: meta_ok_def)

lemma meta_ok_apart: "meta_ok n m \<Longrightarrow> m_ino m i \<noteq> 0 \<Longrightarrow> m_ino m j \<noteq> 0 \<Longrightarrow> i \<noteq> j \<Longrightarrow> apart m i j"
  by (simp add: meta_ok_def)

text \<open>Marking more blocks as used.\<close>

lemma meta_ok_alloc: "meta_ok n m \<Longrightarrow> (\<And>b. m_bb m b \<Longrightarrow> bb b) \<Longrightarrow> meta_ok n (m\<lparr>m_bb := bb\<rparr>)"
  by (auto simp: meta_ok_def entry_ok_def apart_def intro: file_ok_mono)

text \<open>Giving a file new blocks and a new size.\<close>

lemma meta_ok_change:
  assumes m: "meta_ok n m" and i: "m_ino m i \<noteq> 0" and bb: "\<And>b. m_bb m b \<Longrightarrow> bb b" and x: "file_ok n bb x"
    and new: "\<And>d. d \<in> owned x \<Longrightarrow> d \<in> owned (m_node m (m_ino m i)) \<or> \<not> m_bb m d"
  shows "meta_ok n (m\<lparr>m_bb := bb, m_node := (m_node m)(m_ino m i := x)\<rparr>)" (is "meta_ok n ?m")
proof -
  have e: "entry_ok n m j" if "m_ino m j \<noteq> 0" for j using meta_ok_entry[OF m that] .
  have d: "m_ino m j \<noteq> m_ino m i" "owned (m_node m (m_ino m j)) \<inter> owned x = {}" if "m_ino m j \<noteq> 0" "j \<noteq> i" for j
    using meta_ok_apart[OF m that(1) i that(2)] e[OF that(1)] new by (auto simp: apart_def entry_ok_def file_ok_def)
  have "entry_ok n ?m j" if "m_ino m j \<noteq> 0" for j
    using e[OF that] x bb d[OF that] by (cases "j = i") (auto simp: entry_ok_def intro: file_ok_mono)
  moreover have "apart ?m j k" if "m_ino m j \<noteq> 0" "m_ino m k \<noteq> 0" "j \<noteq> k" for j k
    using meta_ok_apart[OF m that] d[OF that(1)] d[OF that(2)] that(3) by (auto simp: apart_def)
  moreover have "m_ino m i \<noteq> 1" using e[OF i] by (auto simp: entry_ok_def)
  ultimately show ?thesis using m bb by (simp add: meta_ok_def)
qed

text \<open>A new file.\<close>

lemma meta_ok_add:
  assumes m: "meta_ok n m" and s: "slot < 16" "m_ino m slot = 0" and ino: "2 \<le> ino" "ino \<le> 32" "\<not> m_ib m ino"
    and x: "file_ok n bb x" "\<And>b. m_bb m b \<Longrightarrow> bb b" "\<And>d. d \<in> owned x \<Longrightarrow> \<not> m_bb m d"
  shows "meta_ok n (m\<lparr>m_ib := (m_ib m)(ino := True), m_bb := bb, m_ino := (m_ino m)(slot := ino),
    m_type := (m_type m)(slot := 1), m_node := (m_node m)(ino := x)\<rparr>)" (is "meta_ok n ?m")
proof -
  have e: "entry_ok n m j" if "m_ino m j \<noteq> 0" for j using meta_ok_entry[OF m that] .
  have d: "m_ino m j \<noteq> ino" "owned (m_node m (m_ino m j)) \<inter> owned x = {}" if "m_ino m j \<noteq> 0" for j
    using e[OF that] ino x by (auto simp: entry_ok_def file_ok_def)
  have "entry_ok n ?m j" if "m_ino ?m j \<noteq> 0" for j
    using e[of j] x d[of j] s ino that by (cases "j = slot") (auto simp: entry_ok_def intro: file_ok_mono)
  moreover have "apart ?m j k" if "m_ino ?m j \<noteq> 0" "m_ino ?m k \<noteq> 0" "j \<noteq> k" for j k
    using meta_ok_apart[OF m, of j k] d[of j] d[of k] that by (auto simp: apart_def split: if_splits)
  moreover have "ino \<noteq> 1" using ino by auto
  ultimately show ?thesis using m x by (simp add: meta_ok_def)
qed

text \<open>A file removed, with its blocks.\<close>

lemma meta_ok_remove:
  assumes m: "meta_ok n m" and i: "m_ino m i \<noteq> 0"
    and bb: "\<And>b. bb b \<longleftrightarrow> m_bb m b \<and> b \<notin> owned (m_node m (m_ino m i))"
  shows "meta_ok n (m\<lparr>m_ib := (m_ib m)(m_ino m i := False), m_bb := bb, m_ino := (m_ino m)(i := 0),
    m_type := (m_type m)(i := t), m_node := (m_node m)(m_ino m i := x)\<rparr>)" (is "meta_ok n ?m")
proof -
  have e: "entry_ok n m j" if "m_ino m j \<noteq> 0" for j using meta_ok_entry[OF m that] .
  have d: "m_ino m j \<noteq> m_ino m i" "owned (m_node m (m_ino m j)) \<inter> owned (m_node m (m_ino m i)) = {}"
    if "m_ino m j \<noteq> 0" "j \<noteq> i" for j using meta_ok_apart[OF m that(1) i that(2)] by (auto simp: apart_def)
  have "file_ok n bb (m_node m (m_ino m j))" if "m_ino m j \<noteq> 0" "j \<noteq> i" for j
    using e[OF that(1)] d(2)[OF that] bb by (auto simp: entry_ok_def intro: file_ok_mono)
  then have "entry_ok n ?m j" if "m_ino ?m j \<noteq> 0" for j
    using e[of j] d(1)[of j] that by (auto simp: entry_ok_def split: if_splits)
  moreover have "apart ?m j k" if "m_ino ?m j \<noteq> 0" "m_ino ?m k \<noteq> 0" "j \<noteq> k" for j k
    using meta_ok_apart[OF m, of j k] d(1)[of j] d(1)[of k] that by (auto simp: apart_def split: if_splits)
  moreover have "m_ino m i \<noteq> 1" "\<forall>b < 8. b \<notin> owned (m_node m (m_ino m i))"
    using e[OF i] by (auto simp: entry_ok_def file_ok_def)
  ultimately show ?thesis using m bb by (simp add: meta_ok_def)
qed

section \<open>Checking and formatting\<close>

lemma meta_sel:
  "m_ib (meta_of D) = bit_test (D 1)" "m_bb (meta_of D) = bit_test (D 2)"
  "i < 16 \<Longrightarrow> m_ino (meta_of D) i = de_ino (D 7) i" "i < 16 \<Longrightarrow> m_type (meta_of D) i = de_type (D 7) i"
  by (simp_all add: meta_of_def)

lemma each_op_still:
  "(\<And>x. x \<in> set xs \<Longrightarrow> f x () s = (Ok (), s)) \<Longrightarrow> each_op f xs () s = (Ok (), s)"
  by (induction xs) (simp_all add: ok_run chain_ok)

lemma each_op_same:
  "(\<And>x a. snd (f x a s) = s) \<Longrightarrow> snd (each_op f xs a s) = s"
  by (induction xs arbitrary: a) (auto simp: ok_run chain_run split: res.splits)

lemma load_super_medium: "fs_ok n D \<Longrightarrow> load_super (medium n) D = (Ok (fresh_super n), D)"
proof -
  assume f: "fs_ok n D"
  then have "16 \<le> n" by (simp add: fs_ok_def sized_def)
  then have "0 < n" "\<not> n \<le> 8" by (auto simp: word_le_nat_alt word_less_nat_alt)
  then show ?thesis using f
    by (simp add: load_super_def chain_run op_run Let_def fs_ok_def fresh_super_def mcsfs_consts)
qed

lemma fsck_entry_medium:
  assumes f: "fs_ok n D" and i: "i < 16"
  shows "fsck_entry (medium n) (D 1) (D 2) (D 7) i () D = (Ok (), D)"
proof (cases "de_ino (D 7) i = 0")
  case True
  then show ?thesis by (simp add: fsck_entry_def Let_def op_run)
next
  case False
  let ?m = "meta_of D" and ?ino = "de_ino (D 7) i"
  have s: "sized n D" and ino: "m_ino ?m i = ?ino" using f i by (simp_all add: fs_ok_def meta_of_def)
  have "entry_ok n ?m i" using f False ino by (intro meta_ok_entry) (simp_all add: fs_ok_def)
  then have e: "2 \<le> ?ino" "?ino \<le> 32" "de_type (D 7) i = 1" "bit_test (D 1) ?ino" "file_ok n (bit_test (D 2)) (m_node ?m ?ino)"
    using i unfolding entry_ok_def ino meta_sel(1,2) by (simp_all add: meta_sel(4))
  have one: "1 \<le> ?ino" using e(1) by (simp add: word_le_nat_alt)
  have blk: "fsck_block n (D 2) (m_node ?m ?ino) j () D = (Ok (), D)" if j: "j < blocks_needed (i_size (m_node ?m ?ino))" for j
  proof -
    let ?d = "i_direct (m_node ?m ?ino) ! j"
    have "j < 8" using j blocks_needed_range(3) e(5) by (fastforce simp: file_ok_def)
    then have "?d \<in> owned (m_node ?m ?ino)" using j e(5) by (simp add: owned_def file_ok_def inode_shape_def)
    then have d: "8 \<le> ?d" "?d < n" "bit_test (D 2) ?d" using e(5) by (auto simp: file_ok_def)
    then have "?d < 4096" using s by (meson order_less_le_trans sized_def)
    then have "byte_holds (D 2) ?d" using s by (intro byte_holds_block) (simp_all add: sized_length)
    then show ?thesis using d by (auto simp: fsck_block_def Let_def op_run mcsfs_consts byte_holds_def)
  qed
  have "each_op (fsck_block n (D 2) (m_node ?m ?ino)) [0..<blocks_needed (i_size (m_node ?m ?ino))] () D = (Ok (), D)"
    by (rule each_op_still) (simp add: blk)
  then show ?thesis using False e read_inode_medium[OF s one e(2)]
    by (simp add: fsck_entry_def Let_def op_run chain_run mcsfs_consts file_ok_def blocks_needed_def not_less)
qed

lemma fsck_medium: "fs_ok n D \<Longrightarrow> mcsfs1_fsck (Some (medium n)) D = (Ok (), D)"
proof -
  assume f: "fs_ok n D"
  then have s: "sized n D" and m: "meta_ok n (meta_of D)" by (simp_all add: fs_ok_def)
  have b: "bit_test (D 1) 1" "\<And>b. b < 8 \<Longrightarrow> bit_test (D 2) b" using m by (simp_all add: meta_ok_def meta_of_def)
  have r: "i_mode (m_node (meta_of D) 1) = 2" "i_direct (m_node (meta_of D) 1) ! 0 = 7"
    using m by (simp_all add: meta_ok_def mcsfs_consts)
  have "bit_test (D 2) 7" "\<not> list_ex (\<lambda>b. \<not> bit_test (D 2) b) (u32_range 0 8)" using b(2)
    by (simp_all add: list_ex_iff set_u32_range)
  moreover have "each_op (fsck_entry (medium n) (D 1) (D 2) (D 7)) [0..<16] () D = (Ok (), D)"
    by (rule each_op_still) (simp add: fsck_entry_medium[OF f])
  moreover have "(7 :: u32) < n" using sized_less[OF s, of 7] by simp
  ultimately show ?thesis
    using b(1) r read_inode_medium[OF s, of 1] load_super_medium[OF f] load_bmaps_medium[OF s]
    by (simp add: mcsfs1_fsck_def chain_run mcsfs_consts)
qed

lemma zero_block_facts: "length zero_block = 512" "\<not> bit_test zero_block i \<or> 4096 \<le> i" "j < 16 \<Longrightarrow> de_ino zero_block j = 0"
proof -
  show "length zero_block = 512" by (simp add: zero_block_def mcsfs_consts)
  show "\<not> bit_test zero_block i \<or> 4096 \<le> i"
  proof (cases "i < 4096")
    case True
    then have "unat (i div 8) < 512" by (simp add: unat_div word_less_nat_alt)
    then show ?thesis by (simp add: bit_test_def zero_block_def mcsfs_consts)
  qed (simp add: linorder_not_less)
  show "j < 16 \<Longrightarrow> de_ino zero_block j = 0" by (simp add: de_ino_def zero_block_def mcsfs_consts)
qed

lemma fold_bit_set:
  "length bb = 512 \<Longrightarrow> \<forall>b \<in> set bs. b < 4096 \<Longrightarrow> length (fold (\<lambda>b bb. bit_set bb b) bs bb) = 512 \<and>
    (\<forall>i. bit_test (fold (\<lambda>b bb. bit_set bb b) bs bb) i \<longleftrightarrow> i \<in> set bs \<or> bit_test bb i)"
  by (induction bs arbitrary: bb) (auto simp: bit_test_set)

lemma wipe_medium:
  "\<forall>l \<in> set ls. l < n \<Longrightarrow>
    each_op (\<lambda>lba _. dev_write (medium n) lba zero_block) ls () D = (Ok (), \<lambda>l. if l \<in> set ls then zero_block else D l)"
  by (induction ls arbitrary: D) (auto simp: ok_run chain_run zero_block_facts(1) fun_eq_iff)

text \<open>No files, and room for one.\<close>

definition empty_fs :: "(u32 \<Rightarrow> bytes) \<Rightarrow> bool" where
  "empty_fs D \<longleftrightarrow> D 7 = zero_block \<and> \<not> bit_test (D 1) 2 \<and> \<not> bit_test (D 2) 8"

lemma format_medium:
  assumes "16 \<le> n" "n \<le> 4096"
  shows "\<exists>D'. mcsfs1_format (Some (medium n)) D = (Ok (), D') \<and> fs_ok n D' \<and> empty_fs D'"
proof -
  let ?ib = "bit_set (bit_set zero_block 0) 1" and ?bb = "bit_set (fold (\<lambda>b bb. bit_set bb b) (u32_range 0 8) zero_block) 7"
  define W where "W = (\<lambda>l. if l \<in> set (u32_range 0 n) then zero_block else D l)"
  define S where "S = W(0 := super_bytes (fresh_super n), 1 := ?ib, 2 := ?bb)"
  have n: "\<not> n < 16" "\<not> 4096 < n" "0 < n" using assms by (auto simp: word_less_nat_alt word_le_nat_alt)
  have w: "each_op (\<lambda>lba _. dev_write (medium n) lba zero_block) (u32_range 0 n) () D = (Ok (), W)"
    unfolding W_def by (rule wipe_medium) (simp add: set_u32_range)
  have "sized n W" using assms by (simp add: sized_def W_def set_u32_range zero_block_facts(1))
  moreover have len: "length (super_bytes (fresh_super n)) = 512"
    by (rule length_super_bytes) (simp add: fresh_super_def)
  moreover have bb: "length ?bb = 512" "\<forall>i < 8. bit_test ?bb i" "\<not> bit_test ?bb 8"
    and ib: "length ?ib = 512" "bit_test ?ib 1" "\<not> bit_test ?ib 2"
    using fold_bit_set[of zero_block "u32_range 0 8"] zero_block_facts(2)[of 2] zero_block_facts(2)[of 8]
    by (auto simp: zero_block_facts(1) set_u32_range word_less_nat_alt word_le_nat_alt bit_test_set)
  ultimately have S: "sized n S" by (simp add: S_def sized_update)
  have sh: "inode_shape root_inode" by (simp add: root_inode_def zero_inode_def inode_shape_def mcsfs_consts)
  have "mcsfs1_format (Some (medium n)) D = (Ok (), set_node S 1 root_inode)"
    using n w len bb ib write_inode_medium[OF S _ _ sh, of 1]
      store_bmaps_medium[of n "W(0 := super_bytes (fresh_super n))" ?ib ?bb] \<open>sized n W\<close>
    by (simp add: mcsfs1_format_def chain_run mcsfs_consts Let_def S_def[symmetric] sized_update)
  moreover have S7: "S 7 = zero_block" using sized_less[OF S, of 7] by (simp add: S_def W_def set_u32_range)
  moreover have "meta_ok n (meta_of (set_node S 1 root_inode))"
  proof -
    have "m_ino (meta_of S) i = 0" for i using S7 by (simp add: meta_of_def zero_block_facts(3))
    moreover have "m_ib (meta_of S) 1" "\<forall>b < 8. m_bb (meta_of S) b" using ib bb by (simp_all add: S_def meta_of_def)
    ultimately show ?thesis using meta_set_node[OF S _ _ sh, of 1]
      by (simp add: meta_ok_def root_inode_def zero_inode_def mcsfs_consts)
  qed
  moreover have "set_node S 1 root_inode 0 = super_bytes (fresh_super n)" "set_node S 1 root_inode 1 = ?ib"
    "set_node S 1 root_inode 2 = ?bb" "set_node S 1 root_inode 7 = S 7"
    using inode_lba_neq[of 1] by (simp_all add: set_node_def S_def)
  ultimately show ?thesis using sized_set_node[OF S _ _ sh, of 1] super_of_bytes[of "fresh_super n"]
    bb(3) ib(3) by (simp add: fs_ok_def fresh_super_def empty_fs_def)
qed

section \<open>Creating and removing files\<close>

lemma strlen_bound_Some:
  "strlen_bound_from p m n = Some k \<Longrightarrow> n \<le> m \<Longrightarrow>
    n \<le> k \<and> k \<le> m \<and> (\<forall>i. n \<le> i \<and> i < k \<longrightarrow> (\<exists>c. p i = Some c \<and> c \<noteq> 0)) \<and> (k < m \<longrightarrow> p k = Some 0)"
proof (induction p m n rule: strlen_bound_from.induct)
  case (1 p m n)
  show ?case
  proof (cases "n < m \<and> (\<exists>c. p n = Some c \<and> c \<noteq> 0)")
    case True
    then obtain c where c: "p n = Some c" "c \<noteq> 0" "n < m" by blast
    then have "strlen_bound_from p m (n + 1) = Some k" using 1(2) by (simp add: strlen_bound_from.simps[of p m n])
    from 1(1)[OF c(3) c(1) c(2) this] c show ?thesis by (auto simp: Suc_le_eq nat_less_le)
  next
    case False
    then show ?thesis using 1(2,3) by (auto simp: strlen_bound_from.simps[of p m n] split: if_splits option.splits)
  qed
qed

lemma valid_name_Ok:
  assumes "valid_name name = Ok k"
  obtains s where "name = Some s" "1 \<le> k" "k \<le> 27" "k \<le> length s" "\<forall>i < k. s ! i \<noteq> 0" "k < length s \<longrightarrow> s ! k = 0"
proof -
  obtain s where s: "name = Some s" "strlen_bound_from (string_ptr s) 28 0 = Some k" "1 \<le> k" "k \<le> 27"
    using assms by (cases name) (auto simp: valid_name_def mcsfs_strlen_bound_def mcsfs_consts split: option.splits if_splits)
  have c: "\<forall>i < k. \<exists>c. string_ptr s i = Some c \<and> c \<noteq> 0" "string_ptr s k = Some 0"
    using strlen_bound_Some[OF s(2)] s(4) by auto
  have "\<forall>i < k. i < length s \<and> s ! i \<noteq> 0" using c(1) by (auto simp: string_ptr_def split: if_splits)
  moreover from this have "k \<le> length s" using s(3) by (metis Suc_le_eq Suc_pred' less_eq_Suc_le lessI zero_less_one order_less_le_trans)
  moreover have "k < length s \<longrightarrow> s ! k = 0" using c(2) by (auto simp: string_ptr_def)
  ultimately show ?thesis using that s by blast
qed

lemma find_dirent_still: "snd (find_dirent (medium n) name D) = D"
  by (simp add: find_dirent_def chain_run op_run split: res.splits)

lemma chain_of_res: "chain (of_res r) f s = (case r of Ok x \<Rightarrow> f x s | Err e \<Rightarrow> (Err e, s) | Fault \<Rightarrow> (Fault, s))"
  by (simp add: chain_run op_run split: res.split)

lemma chain_find_dirent:
  "chain (find_dirent (medium n) name) f D =
    (case fst (find_dirent (medium n) name D) of Ok x \<Rightarrow> f x D | Err e \<Rightarrow> (Err e, D) | Fault \<Rightarrow> (Fault, D))"
  by (simp add: chain_run find_dirent_still split: res.split)

definition new_file :: "u32 \<Rightarrow> mcsfs1_inode_disk" where
  "new_file b = zero_inode\<lparr>i_mode := MCSFS1_MODE_FILE, i_links := 1, i_size := 0, i_direct := (i_direct zero_inode)[0 := b]\<rparr>"

lemma new_file_ok: "8 \<le> b \<Longrightarrow> b < n \<Longrightarrow> bb b \<Longrightarrow> file_ok n bb (new_file b) \<and> owned (new_file b) = {b}"
proof -
  assume b: "8 \<le> b" "b < n" "bb b"
  then have "b \<noteq> 0" by auto
  moreover have "i_direct (new_file b) = b # replicate 7 0"
    by (simp add: new_file_def zero_inode_def mcsfs_consts numeral_nat)
  ultimately show ?thesis using b blocks_needed_range(1)[of 0]
    by (auto simp: file_ok_def owned_def new_file_def zero_inode_def inode_shape_def mcsfs_consts)
qed

text \<open>Each branch of a create: an error that changes nothing, or the new entry, inode and bits.\<close>

definition no_room :: "u32 \<Rightarrow> fs_meta \<Rightarrow> bool" where
  "no_room n m \<longleftrightarrow> (\<forall>i < 16. m_ino m i \<noteq> 0) \<or> \<not> (\<exists>i b. 2 \<le> i \<and> i \<le> 32 \<and> \<not> m_ib m i \<and> 8 \<le> b \<and> b < n \<and> \<not> m_bb m b)"

lemma create_medium:
  assumes s: "sized n D" and c: "mcsfs1_create (Some (mount_of (medium n))) name D = (r, D')"
  obtains "D' = D" "r \<noteq> Ok ()"
    "(\<forall>k. valid_name name \<noteq> Ok k) \<or> (\<forall>e. fst (find_dirent (medium n) name D) \<noteq> Err e) \<or> no_room n (meta_of D)"
  | nm k slot ino b where "name = Some nm" "valid_name name = Ok k" "fst (find_dirent (medium n) name D) \<noteq> Fault"
      "\<And>x. fst (find_dirent (medium n) name D) \<noteq> Ok x" "slot < 16" "m_ino (meta_of D) slot = 0" "\<forall>i < slot. m_ino (meta_of D) i \<noteq> 0"
      "2 \<le> ino" "ino \<le> 32" "\<not> m_ib (meta_of D) ino" "8 \<le> b" "b < n" "\<not> m_bb (meta_of D) b" "r = Ok ()"
      "D' = (set_node (D(1 := bit_set (D 1) ino, 2 := bit_set (D 2) b)) ino (new_file b))
        (7 := put (slot * 32) (entry_bytes ino nm k) (D 7))"
proof -
  note fs = mcsfs1_create_def mounted_mount_of option.case chain_of_res
  show thesis
  proof (cases "valid_name name")
    case (Ok k)
    then obtain nm where nm: "name = Some nm" "k \<le> 27" "k \<le> length nm" by (rule valid_name_Ok)
    show thesis
    proof (cases "fst (find_dirent (medium n) name D)")
      case (Err e)
      have l7: "(7 :: u32) < n" "length (D 7) = 512" using sized_less[OF s, of 7] sized_length[OF s, of 7] by simp_all
      let ?find = "find (\<lambda>i. de_ino (D 7) i = 0) [0..<16]"
      show thesis
      proof (cases ?find)
        case None
        then have full: "no_room n (meta_of D)" by (auto simp: no_room_def find_None_iff meta_sel)
        from None have "(r, D') = (Err MCSFS1_ERR_NOSPC, D)"
          using c Ok Err l7 by (simp add: fs chain_run succeeds_run find_dirent_still op_run mcsfs_consts)
        then show thesis using that(1) full by simp
      next
        case (Some slot)
        then have sl: "slot < 16" "de_ino (D 7) slot = 0" "\<forall>i < slot. de_ino (D 7) i \<noteq> 0" by (auto simp: find_Some_iff)
        from alloc_inode_block_medium[OF s] show thesis
        proof (elim disjE exE conjE)
          assume "alloc_inode_block (medium n) D = (Err MCSFS1_ERR_NOSPC, D)"
            "\<not> (\<exists>i b. 2 \<le> i \<and> i \<le> 32 \<and> \<not> m_ib (meta_of D) i \<and> 8 \<le> b \<and> b < n \<and> \<not> m_bb (meta_of D) b)"
          then have full: "no_room n (meta_of D)" and "(r, D') = (Err MCSFS1_ERR_NOSPC, D)"
            using c Ok Err l7 Some by (auto simp: no_room_def fs chain_run succeeds_run find_dirent_still op_run mcsfs_consts)
          then show thesis using that(1) by simp
        next
          fix ino b
          let ?D = "D(1 := bit_set (D 1) ino, 2 := bit_set (D 2) b)"
          assume a: "2 \<le> ino" "ino \<le> 32" "\<not> m_ib (meta_of D) ino" "8 \<le> b" "b < n" "\<not> m_bb (meta_of D) b"
            "alloc_inode_block (medium n) D = (Ok (ino, b), ?D)"
          have S: "sized n ?D" using s by (simp add: sized_update sized_length)
          have sh: "inode_shape (new_file b)" by (simp add: new_file_def zero_inode_def inode_shape_def mcsfs_consts)
          have one: "1 \<le> ino" using a(1) by (simp add: word_le_nat_alt)
          have e: "length (put (slot * 32) (entry_bytes ino nm k) (D 7)) = 512"
            using l7 sl nm by (simp add: entry_bytes_def)
          have "(r, D') = (Ok (), (set_node ?D ino (new_file b))(7 := put (slot * 32) (entry_bytes ino nm k) (D 7)))"
            using c Ok Err l7 Some a(7) write_inode_medium[OF S one a(2) sh] store_dirent_eq[OF l7(2) sl(1) nm(3,2), of ino] nm(1) e
            by (simp add: fs chain_run succeeds_run find_dirent_still op_run mcsfs_consts new_file_def[unfolded MCSFS1_MODE_FILE_def, symmetric])
          then show thesis using that(2)[OF nm(1) Ok _ _ sl(1) _ _ a(1-6)] Err sl by (simp add: meta_sel)
        qed
      qed
    next
      case (Ok x)
      then have "(r, D') = (Err MCSFS1_ERR_EXIST, D)"
        using c \<open>valid_name name = Ok k\<close> by (simp add: fs chain_run succeeds_run find_dirent_still op_run)
      then show thesis using that(1) Ok by simp
    next
      case Fault
      then have "(r, D') = (Fault, D)"
        using c \<open>valid_name name = Ok k\<close> by (simp add: fs chain_run succeeds_run find_dirent_still op_run)
      then show thesis using that(1) Fault by simp
    qed
  qed (use c that(1) in \<open>auto simp: fs\<close>)
qed

lemma create_ok:
  assumes f: "fs_ok n D" and c: "mcsfs1_create (Some (mount_of (medium n))) name D = (r, D')"
  shows "fs_ok n D'"
proof -
  have s: "sized n D" and m: "meta_ok n (meta_of D)" and sb: "super_of (D 0) = fresh_super n" using f by (simp_all add: fs_ok_def)
  from s c show ?thesis
  proof (cases rule: create_medium)
    case (2 nm k slot ino b)
    let ?D = "D(1 := bit_set (D 1) ino, 2 := bit_set (D 2) b)"
    from valid_name_Ok[OF 2(2)] 2(1) have k: "k \<le> 27" "k \<le> length nm" by blast+
    have len: "length (D 1) = 512" "length (D 2) = 512" "length (D 7) = 512" using s by (simp_all add: sized_length)
    have lt: "ino < 4096" "b < 4096" using 2(9,12) s by (auto simp: sized_def word_le_nat_alt word_less_nat_alt)
    have S: "sized n ?D" using s len by (simp add: sized_update)
    have sh: "inode_shape (new_file b)" by (simp add: new_file_def zero_inode_def inode_shape_def mcsfs_consts)
    have one: "1 \<le> ino" using 2(8) by (simp add: word_le_nat_alt)
    have S': "sized n (set_node ?D ino (new_file b))" by (rule sized_set_node[OF S one 2(9) sh])
    have e: "length (entry_bytes ino nm k) = 32" "un32 (entry_bytes ino nm k) = ino" "entry_bytes ino nm k ! 4 = 1"
      using k by (simp_all add: entry_bytes_def nth_append)
    have D7: "set_node ?D ino (new_file b) 7 = D 7" using inode_lba_neq[OF one 2(9)] by (simp add: set_node_def)
    have "meta_of D' = (meta_of D)\<lparr>m_ib := (m_ib (meta_of D))(ino := True), m_bb := (m_bb (meta_of D))(b := True),
      m_ino := (m_ino (meta_of D))(slot := ino), m_type := (m_type (meta_of D))(slot := 1), m_node := (m_node (meta_of D))(ino := new_file b)\<rparr>"
      using meta_dir[OF S' e(1) 2(5)] meta_set_node[OF S one 2(9) sh] len lt
      by (simp add: 2(15) D7 e meta_bb meta_ib bit_test_set meta_sel)
    moreover have "meta_ok n \<dots>"
      using new_file_ok[OF 2(11,12), of "(m_bb (meta_of D))(b := True)"] 2
      by (intro meta_ok_add[OF m]) auto
    moreover have "sized n D'" unfolding 2(15) using S' len e 2(5) by (intro sized_update) simp_all
    moreover have "D' 0 = D 0" using inode_lba_neq[OF one 2(9)] by (simp add: 2(15) set_node_def)
    ultimately show ?thesis using sb by (simp add: fs_ok_def)
  qed (use f in simp)
qed

lemma zero_entry: "length (D7 :: bytes) = 512 \<Longrightarrow> slot < 16 \<Longrightarrow>
    mcsfs_memset D7 (slot * sizeof_dirent) 0 sizeof_dirent = put (slot * 32) (replicate 32 0) D7"
  by (simp add: mcsfs_memset_def mcsfs_consts fold_fill_put)

lemma shape_zero_inode: "inode_shape zero_inode"
  by (simp add: zero_inode_def inode_shape_def mcsfs_consts)

lemma unlink_medium:
  assumes f: "fs_ok n D" and u: "mcsfs1_unlink (Some (mount_of (medium n))) name D = (r, D')"
  obtains "D' = D" "r \<noteq> Ok ()"
  | slot ino bb where "fst (find_dirent (medium n) name D) = Ok (slot, ino)" "slot < 16" "ino = m_ino (meta_of D) slot" "ino \<noteq> 0"
      "length bb = 512" "\<And>b. bit_test bb b \<longleftrightarrow> m_bb (meta_of D) b \<and> b \<notin> owned (m_node (meta_of D) ino)" "r = Ok ()"
      "D' = set_node (D(7 := put (slot * 32) (replicate 32 0) (D 7), 1 := bit_clear (D 1) ino, 2 := bb)) ino zero_inode"
proof -
  have s: "sized n D" and m: "meta_ok n (meta_of D)" using f by (simp_all add: fs_ok_def)
  have l: "length (D 7) = 512" "length (D 1) = 512" "length (D 2) = 512" "(7 :: u32) < n" "n \<le> 4096"
    using s sized_less[OF s, of 7] by (simp_all add: sized_length sized_def)
  note fs = mcsfs1_unlink_def mounted_mount_of option.case chain_find_dirent
  show thesis
  proof (cases "fst (find_dirent (medium n) name D)")
    case (Ok x)
    obtain slot ino where x: "x = (slot, ino)" by (cases x)
    have fd: "find_dirent (medium n) name D = (Ok (slot, ino), D)" using Ok x find_dirent_still by (metis prod.collapse)
    then have i: "slot < 16" "ino = m_ino (meta_of D) slot" "ino \<noteq> 0" using find_dirent_medium[OF s] by blast+
    have e: "entry_ok n (meta_of D) slot" using meta_ok_entry[OF m] i by blast
    then have ino: "1 \<le> ino" "ino \<le> 32" and fo: "file_ok n (m_bb (meta_of D)) (m_node (meta_of D) ino)"
      using i by (auto simp: entry_ok_def word_le_nat_alt)
    let ?x = "m_node (meta_of D) ino"
    let ?D1 = "D(7 := put (slot * 32) (replicate 32 0) (D 7))"
    obtain bb where bb: "clear_all n (i_direct ?x) (D 2) = Ok bb" "length bb = 512"
      "\<And>i. bit_test bb i \<longleftrightarrow> bit_test (D 2) i \<and> \<not> (i \<in> set (i_direct ?x) \<and> i \<noteq> 0 \<and> i < n)"
      using clear_all_medium[OF l(5,3), of "i_direct ?x"] by blast
    have own: "bit_test bb b \<longleftrightarrow> m_bb (meta_of D) b \<and> b \<notin> owned ?x" for b
      using bb(3) fo by (auto simp: meta_sel owned_def file_ok_def)
    let ?D2 = "?D1(1 := bit_clear (D 1) ino, 2 := bb)"
    have s1: "sized n ?D1" using s l i by (intro sized_update) simp_all
    then have s2: "sized n ?D2" using l bb by (simp add: sized_update)
    have fr: "free_inode_and_blocks (medium n) ino ?x ?D1 = (Ok (), ?D2)"
      using load_bmaps_medium[OF s1] bb store_bmaps_medium[OF s1, of "bit_clear (D 1) ino" bb] l
      by (simp add: free_inode_and_blocks_def chain_run op_run)
    have "i_mode ?x = MCSFS1_MODE_FILE" using fo by (simp add: file_ok_def)
    moreover have "dev_read (medium n) MCSFS1_ROOT_DIR_LBA D = (Ok (D 7), D)"
      "dev_write (medium n) MCSFS1_ROOT_DIR_LBA (put (slot * 32) (replicate 32 0) (D 7)) D = (Ok (), ?D1)"
      using l i by (simp_all add: mcsfs_consts)
    ultimately have "(r, D') = (Ok (), set_node ?D2 ino zero_inode)"
      using u fd read_inode_medium[OF s ino] fr write_inode_medium[OF s2 ino shape_zero_inode] zero_entry[OF l(1) i(1)]
      by (simp add: mcsfs1_unlink_def mounted_mount_of chain_run)
    then show thesis using that(2)[of slot ino bb] Ok x i bb own by simp
  qed (use u that(1) in \<open>auto simp: fs\<close>)
qed

lemma unlink_ok:
  assumes f: "fs_ok n D" and u: "mcsfs1_unlink (Some (mount_of (medium n))) name D = (r, D')"
  shows "fs_ok n D'"
proof -
  have s: "sized n D" and m: "meta_ok n (meta_of D)" and sb: "super_of (D 0) = fresh_super n" using f by (simp_all add: fs_ok_def)
  from f u show ?thesis
  proof (cases rule: unlink_medium)
    case (2 slot ino bb)
    have len: "length (D 7) = 512" "length (D 1) = 512" using s by (simp_all add: sized_length)
    have "entry_ok n (meta_of D) slot" using meta_ok_entry[OF m] 2 by blast
    then have ino: "1 \<le> ino" "ino \<le> 32" using 2 by (auto simp: entry_ok_def word_le_nat_alt)
    then have lt: "ino < 4096" by (simp add: word_le_nat_alt word_less_nat_alt)
    let ?D1 = "D(7 := put (slot * 32) (replicate 32 0) (D 7))"
    let ?D2 = "?D1(1 := bit_clear (D 1) ino, 2 := bb)"
    have s1: "sized n ?D1" using s len 2 by (intro sized_update) simp_all
    then have s2: "sized n ?D2" using len 2 by (simp add: sized_update)
    have "meta_of D' = (meta_of D)\<lparr>m_ib := (m_ib (meta_of D))(m_ino (meta_of D) slot := False), m_bb := bit_test bb,
      m_ino := (m_ino (meta_of D))(slot := 0), m_type := (m_type (meta_of D))(slot := 0),
      m_node := (m_node (meta_of D))(m_ino (meta_of D) slot := zero_inode)\<rparr>"
      unfolding 2(3)[symmetric]
      using meta_dir[OF s _ 2(2), of "replicate 32 0"] meta_set_node[OF s2 ino shape_zero_inode] len lt
      by (simp add: 2(8) meta_bb meta_ib bit_test_clear meta_sel)
    moreover have "meta_ok n \<dots>" using 2 by (intro meta_ok_remove[OF m]) auto
    moreover have "sized n D'" unfolding 2(8) by (rule sized_set_node[OF s2 ino shape_zero_inode])
    moreover have "D' 0 = D 0" using inode_lba_neq[OF ino] by (simp add: 2(8) set_node_def)
    ultimately show ?thesis using sb by (simp add: fs_ok_def)
  qed (use f in simp)
qed

section \<open>Writing files\<close>

text \<open>Allocation changes the block bitmap only, and only from clear to set.\<close>

definition marked :: "(u32 \<Rightarrow> bytes) \<Rightarrow> (u32 \<Rightarrow> bytes) \<Rightarrow> bool" where
  "marked D0 D \<longleftrightarrow> (\<exists>bb. length bb = 512 \<and> D = D0(2 := bb) \<and> (\<forall>b. bit_test (D0 2) b \<longrightarrow> bit_test bb b))"

text \<open>The block list \<open>d\<close> extends \<open>d0\<close> by blocks that were free in \<open>D0\<close> and are marked in \<open>D\<close>.\<close>

definition extends :: "u32 \<Rightarrow> (u32 \<Rightarrow> bytes) \<Rightarrow> u32 list \<Rightarrow> (u32 \<Rightarrow> bytes) \<Rightarrow> u32 list \<Rightarrow> bool" where
  "extends n D0 d0 D d \<longleftrightarrow> length d = length d0 \<and> (\<forall>j < length d0. d0 ! j \<noteq> 0 \<longrightarrow> d ! j = d0 ! j) \<and>
     (\<forall>x \<in> set d. x \<noteq> 0 \<longrightarrow> 8 \<le> x \<and> x < n \<and> bit_test (D 2) x \<and> (x \<in> set d0 \<or> \<not> bit_test (D0 2) x)) \<and>
     distinct (filter (\<lambda>x. x \<noteq> 0) d)"

lemma distinct_fill:
  assumes "d ! j = 0" "j < length d" "b \<notin> set d" "distinct (filter (\<lambda>x. x \<noteq> 0) d)"
  shows "distinct (filter (\<lambda>x. x \<noteq> (0 :: u32)) (d[j := b]))"
proof -
  obtain xs ys where d: "d = xs @ 0 # ys" "length xs = j"
    using assms(1,2) id_take_nth_drop[of j d] by (metis length_take min.absorb4)
  then have "d[j := b] = xs @ b # ys" by (auto simp: list_update_append)
  then show ?thesis using assms(3,4) d by auto
qed

lemma alloc_missing_medium:
  assumes s: "sized n D0" and m: "marked D0 D" and e: "extends n D0 d0 D d" and j: "j < length d0"
    and a: "alloc_missing (medium n) j d D = (r, D')"
  shows "marked D0 D' \<and> r \<noteq> Fault \<and>
    (\<forall>d'. r = Ok d' \<longrightarrow> extends n D0 d0 D' d' \<and> d' ! j \<noteq> 0 \<and> (\<forall>i < length d0. d ! i \<noteq> 0 \<longrightarrow> d' ! i = d ! i))"
proof (cases "d ! j = 0")
  case False
  then have "r = Ok d" "D' = D" using a by (simp_all add: alloc_missing_def op_run)
  then show ?thesis using m e False by simp
next
  case True
  obtain bb where bb: "length bb = 512" "D = D0(2 := bb)" "\<forall>b. bit_test (D0 2) b \<longrightarrow> bit_test bb b"
    using m by (auto simp: marked_def)
  then have D: "sized n D" using s by (simp add: sized_update)
  have a': "chain (alloc_data_block (medium n)) (\<lambda>b. ok (d[j := b])) D = (r, D')" using a True by (simp add: alloc_missing_def)
  from alloc_data_block_medium[OF D] show ?thesis
  proof (elim disjE exE conjE)
    assume "alloc_data_block (medium n) D = (Err MCSFS1_ERR_NOSPC, D)"
    then have "r = Err MCSFS1_ERR_NOSPC" "D' = D" using a' by (simp_all add: chain_err)
    then show ?thesis using m by simp
  next
    fix b
    assume b: "8 \<le> b" "b < n" "\<not> m_bb (meta_of D) b" "alloc_data_block (medium n) D = (Ok b, D(2 := bit_set (D 2) b))"
    then have r: "r = Ok (d[j := b])" "D' = D0(2 := bit_set bb b)" using a' bb(2) by (simp_all add: chain_ok op_run)
    have "n \<le> 4096" using s by (simp add: sized_def)
    with b(2) have lt: "b < 4096" by (rule order_less_le_trans)
    have t: "bit_test (bit_set bb b) = (bit_test bb)(b := True)" by (rule bit_test_set[OF bb(1) lt])
    have nb: "\<not> bit_test bb b" "b \<noteq> 0" using b bb(2) by (auto simp: meta_sel)
    then have "b \<notin> set d" using e bb(2) by (auto simp: extends_def)
    then have "distinct (filter (\<lambda>x. x \<noteq> 0) (d[j := b]))" using True j e by (intro distinct_fill) (simp_all add: extends_def)
    moreover have "marked D0 D'" unfolding marked_def r(2) using bb t by (intro exI[of _ "bit_set bb b"]) simp
    moreover have "8 \<le> x \<and> x < n \<and> bit_test (D' 2) x \<and> (x \<in> set d0 \<or> \<not> bit_test (D0 2) x)"
      if x: "x \<in> set (d[j := b])" "x \<noteq> 0" for x
    proof (cases "x = b")
      case True
      then show ?thesis using b nb bb t r by auto
    next
      case False
      then have "x \<in> set d" using x set_update_subset_insert[of d j b] by auto
      then show ?thesis using e x False bb t r by (auto simp: extends_def)
    qed
    ultimately show ?thesis using r(1) e j nb True by (auto simp: extends_def nth_list_update)
  qed
qed

lemma alloc_loop_medium:
  assumes s: "sized n D0" and "marked D0 D" "extends n D0 d0 D d" "\<forall>j \<in> set js. j < length d0"
    and "each_op (alloc_missing (medium n)) js d D = (r, D')"
  shows "marked D0 D' \<and> r \<noteq> Fault \<and>
    (\<forall>d'. r = Ok d' \<longrightarrow> extends n D0 d0 D' d' \<and> (\<forall>j \<in> set js. d' ! j \<noteq> 0) \<and> (\<forall>i < length d0. d ! i \<noteq> 0 \<longrightarrow> d' ! i = d ! i))"
  using assms(2-)
proof (induction js arbitrary: d D)
  case (Cons j js)
  obtain r1 D1 where 1: "alloc_missing (medium n) j d D = (r1, D1)" by (cases "alloc_missing (medium n) j d D")
  have j: "j < length d0" using Cons.prems(3) by simp
  note step = alloc_missing_medium[OF s Cons.prems(1,2) j 1]
  show ?case
  proof (cases r1)
    case (Ok d1)
    then have "each_op (alloc_missing (medium n)) js d1 D1 = (r, D')" using Cons.prems(4) 1 by (simp add: chain_ok)
    moreover have d1: "marked D0 D1" "extends n D0 d0 D1 d1" "d1 ! j \<noteq> 0" "\<forall>i < length d0. d ! i \<noteq> 0 \<longrightarrow> d1 ! i = d ! i"
      using step Ok by auto
    ultimately have "marked D0 D' \<and> r \<noteq> Fault \<and> (\<forall>d'. r = Ok d' \<longrightarrow> extends n D0 d0 D' d' \<and> (\<forall>j \<in> set js. d' ! j \<noteq> 0) \<and>
        (\<forall>i < length d0. d1 ! i \<noteq> 0 \<longrightarrow> d' ! i = d1 ! i))"
      using Cons.prems(3) by (intro Cons.IH) auto
    then show ?thesis using d1(3,4) j by auto
  next
    case (Err e)
    then show ?thesis using Cons.prems(4) 1 step by (auto simp: chain_err)
  qed (use step in simp)
qed (auto simp: ok_run)

lemma length_memcpy [simp]: "length (mcsfs_memcpy d off s k) = length d"
proof -
  have "length (fold (\<lambda>i d. d[off + i := s ! i]) xs d) = length d" for xs by (induction xs arbitrary: d) simp_all
  then show ?thesis by (simp add: mcsfs_memcpy_def)
qed

lemma write_chunk_frame:
  assumes "write_chunk (medium n) d buf len i w D = (r, D')"
  shows "D' = D \<or> d ! i < n \<and> (\<exists>b. length b = 512 \<and> D' = D(d ! i := b))"
proof -
  let ?b = "if chunk_of len w \<noteq> 0 then mcsfs_memcpy zero_block 0 (drop (unat w) (the buf)) (unat (chunk_of len w)) else zero_block"
  have "length ?b = 512" by (simp add: zero_block_facts(1))
  moreover have "D' = D \<or> d ! i < n \<and> D' = D(d ! i := ?b)"
    using assms by (simp add: write_chunk_def Let_def chain_run op_run zero_block_facts(1) split: if_splits)
  ultimately show ?thesis by blast
qed

lemma write_loop_frame:
  assumes "each_op (write_chunk (medium n) d buf len) is w D = (r, D')" "sized n D" "\<forall>i \<in> set is. 8 \<le> d ! i"
  shows "sized n D' \<and> (\<forall>l. l \<notin> (!) d ` set is \<longrightarrow> D' l = D l)"
  using assms
proof (induction "is" arbitrary: w D)
  case (Cons i "is")
  obtain r1 D1 where 1: "write_chunk (medium n) d buf len i w D = (r1, D1)" by (cases "write_chunk (medium n) d buf len i w D")
  have s: "sized n D1" "\<forall>l. l \<noteq> d ! i \<longrightarrow> D1 l = D l" using write_chunk_frame[OF 1] Cons.prems(2) by (auto intro: sized_update)
  show ?case
  proof (cases r1)
    case (Ok w1)
    then have "each_op (write_chunk (medium n) d buf len) is w1 D1 = (r, D')" using Cons.prems(1) 1 by (simp add: chain_ok)
    from Cons.IH[OF this s(1)] Cons.prems(3) s(2) show ?thesis by auto
  qed (use Cons.prems(1) 1 s in \<open>auto simp: chain_def\<close>)
qed (simp add: ok_run)

lemma meta_cong: "(\<And>l. l < 8 \<Longrightarrow> D' l = D l) \<Longrightarrow> meta_of D' = meta_of D"
proof -
  assume d: "\<And>l. l < 8 \<Longrightarrow> D' l = D l"
  have "node_at D' ino = node_at D ino" if "1 \<le> ino" "ino \<le> 32" for ino
    using d[of "inode_lba ino"] inode_lba_neq(5)[OF that] by (simp add: node_at_def linorder_not_le)
  then show ?thesis using d[of 1] d[of 2] d[of 7] by (simp add: meta_of_def fun_eq_iff)
qed

lemma marked_same: "sized n D \<Longrightarrow> marked D D"
  unfolding marked_def by (intro exI[of _ "D 2"]) (simp add: sized_length)

lemma marked_sized: "marked D D1 \<Longrightarrow> sized n D \<Longrightarrow> sized n D1"
  by (auto simp: marked_def intro: sized_update)

lemma file_at:
  assumes f: "fs_ok n D" and fd: "find_dirent (medium n) name D = (Ok (slot, ino), D)"
  shows "slot < 16" "ino = m_ino (meta_of D) slot" "ino \<noteq> 0" "1 \<le> ino" "ino \<le> 32"
    "file_ok n (bit_test (D 2)) (m_node (meta_of D) ino)" "read_inode (medium n) ino D = (Ok (m_node (meta_of D) ino), D)"
proof -
  have s: "sized n D" and m: "meta_ok n (meta_of D)" using f by (simp_all add: fs_ok_def)
  from find_dirent_medium[OF s fd] show i: "slot < 16" "ino = m_ino (meta_of D) slot" "ino \<noteq> 0" by blast+
  have "entry_ok n (meta_of D) slot" using meta_ok_entry[OF m] i by blast
  then show k: "1 \<le> ino" "ino \<le> 32" "file_ok n (bit_test (D 2)) (m_node (meta_of D) ino)"
    using i by (auto simp: entry_ok_def word_le_nat_alt meta_sel)
  from read_inode_medium[OF s k(1,2)] show "read_inode (medium n) ino D = (Ok (m_node (meta_of D) ino), D)" .
qed

lemma extends_start:
  assumes "file_ok n (bit_test (D 2)) x"
  shows "extends n D (i_direct x) D (i_direct x)"
  using assms by (auto simp: extends_def file_ok_def owned_def)

text \<open>A write either fails, having at most marked blocks, or gives the file its blocks and fills them.\<close>

lemma write_medium:
  assumes f: "fs_ok n D" and w: "mcsfs1_write (Some (mount_of (medium n))) name buf len D = (r, D')"
  obtains "marked D D'" "r \<noteq> Ok ()"
  | slot ino d D1 rw D2 where "find_dirent (medium n) name D = (Ok (slot, ino), D)" "len \<le> 4096"
      "marked D D1" "extends n D (i_direct (m_node (meta_of D) ino)) D1 d" "\<forall>j < blocks_needed len. d ! j \<noteq> 0"
      "each_op (write_chunk (medium n) d buf len) [0..<blocks_needed len] 0 D1 = (rw, D2)"
      "(\<exists>w. rw = Ok w) \<and> r = Ok () \<and> D' = set_node D2 ino ((m_node (meta_of D) ino)\<lparr>i_direct := d, i_size := len\<rparr>) \<or>
        (\<forall>w. rw \<noteq> Ok w) \<and> r \<noteq> Ok () \<and> D' = D2"
proof -
  have s: "sized n D" using f by (simp add: fs_ok_def)
  note same = marked_same[OF s]
  note fs = mcsfs1_write_def mounted_mount_of option.case chain_find_dirent
  have c: "of_nat MCSFS1_DIRECT_BLOCKS * MCSFS1_BLOCK_SIZE = (4096 :: u32)" by (simp add: mcsfs_consts)
  show thesis
  proof (cases "(buf = None \<and> len \<noteq> 0) \<or> 4096 < len \<or> (\<forall>x. fst (find_dirent (medium n) name D) \<noteq> Ok x)")
    case True
    then have "D' = D \<and> r \<noteq> Ok ()" using w by (auto simp: fs c op_run split: if_splits res.splits)
    then show thesis using that(1) same by simp
  next
    case False
    then obtain slot ino where "fst (find_dirent (medium n) name D) = Ok (slot, ino)" by auto
    then have fd: "find_dirent (medium n) name D = (Ok (slot, ino), D)" using find_dirent_still by (metis prod.collapse)
    note at = file_at[OF f fd]
    let ?x = "m_node (meta_of D) ino"
    have len: "len \<le> 4096" using False by (simp add: linorder_not_less)
    have mode: "i_mode ?x = MCSFS1_MODE_FILE" and dl: "length (i_direct ?x) = 8" and rl: "length (i_reserved ?x) = 5"
      using at(6) by (simp_all add: file_ok_def inode_shape_def)
    let ?js = "[0..<blocks_needed len]"
    have g: "\<not> (buf = None \<and> len \<noteq> 0)" "\<not> 4096 < len" using False by blast+
    have go: "chain (find_dirent (medium n) name) f D = f (slot, ino) D" "chain (read_inode (medium n) ino) h D = h ?x D"
      for f :: "nat \<times> u32 \<Rightarrow> (u32 \<Rightarrow> bytes, unit) fs_op" and h :: "mcsfs1_inode_disk \<Rightarrow> (u32 \<Rightarrow> bytes, unit) fs_op"
      using fd at(7) by (simp_all add: chain_def)
    have w': "chain (each_op (alloc_missing (medium n)) ?js (i_direct ?x)) (\<lambda>d. chain (each_op (write_chunk (medium n) d buf len) ?js 0)
        (\<lambda>_. chain (write_inode (medium n) ino (?x\<lparr>i_direct := d, i_size := len\<rparr>)) (\<lambda>_. dev_flush (medium n)))) D = (r, D')"
      using w mode unfolding mcsfs1_write_def mounted_mount_of option.case c if_not_P[OF g(1)] if_not_P[OF g(2)]
        go(1) prod.case go(2) Let_def blocks_needed_def by simp
    obtain ra D1 where a: "each_op (alloc_missing (medium n)) ?js (i_direct ?x) D = (ra, D1)" by fastforce
    have js: "\<forall>j \<in> set ?js. j < length (i_direct ?x)" using blocks_needed_range(3)[OF len] dl by simp
    note al = alloc_loop_medium[OF s same extends_start[of n D ?x, OF at(6)] js a]
    show thesis
    proof (cases ra)
      case (Ok d)
      obtain rw D2 where b: "each_op (write_chunk (medium n) d buf len) ?js 0 D1 = (rw, D2)" by fastforce
      have e: "marked D D1" "extends n D (i_direct ?x) D1 d" "\<forall>j < blocks_needed len. d ! j \<noteq> 0" using al Ok by auto
      have "8 \<le> d ! j" if "j < blocks_needed len" for j
        using e(2,3) that js dl blocks_needed_range(3)[OF len] by (auto simp: extends_def)
      then have s2: "sized n D2" using write_loop_frame[OF b marked_sized[OF e(1) s]] by simp
      have "inode_shape (?x\<lparr>i_direct := d, i_size := len\<rparr>)" using e(2) dl rl by (simp add: extends_def inode_shape_def)
      note wi = write_inode_medium[OF s2 at(4,5) this]
      have "(\<exists>w. rw = Ok w) \<and> r = Ok () \<and> D' = set_node D2 ino (?x\<lparr>i_direct := d, i_size := len\<rparr>) \<or>
        (\<forall>w. rw \<noteq> Ok w) \<and> r \<noteq> Ok () \<and> D' = D2"
        using w' a Ok b wi by (cases rw) (auto simp: chain_def)
      then show thesis using that(2)[OF fd len e b] by blast
    next
      case (Err e)
      then show thesis using that(1) al w' a by (auto simp: chain_err)
    qed (use al in simp)
  qed
qed

lemma write_ok:
  assumes f: "fs_ok n D" and w: "mcsfs1_write (Some (mount_of (medium n))) name buf len D = (r, D')"
  shows "fs_ok n D'"
proof -
  have s: "sized n D" and m: "meta_ok n (meta_of D)" and sb: "super_of (D 0) = fresh_super n" using f by (simp_all add: fs_ok_def)
  have mk: "meta_of D1 = (meta_of D)\<lparr>m_bb := bit_test (D1 2)\<rparr>" "D1 0 = D 0" "\<And>b. m_bb (meta_of D) b \<Longrightarrow> bit_test (D1 2) b"
    if "marked D D1" for D1 using that by (auto simp: marked_def meta_bb meta_sel)
  from f w show ?thesis
  proof (cases rule: write_medium)
    case 1
    then show ?thesis using mk[OF 1(1)] meta_ok_alloc[OF m] marked_sized[OF 1(1) s] sb by (simp add: fs_ok_def)
  next
    case (2 slot ino d D1 rw D2)
    note at = file_at[OF f 2(1)]
    let ?x = "m_node (meta_of D) ino" and ?y = "(m_node (meta_of D) ino)\<lparr>i_direct := d, i_size := len\<rparr>"
    have dl: "length d = 8" "length (i_reserved ?x) = 5" "i_mode ?x = MCSFS1_MODE_FILE"
      using at(6) 2(4) by (simp_all add: extends_def file_ok_def inode_shape_def)
    have y: "file_ok n (bit_test (D1 2)) ?y" using 2(2,4,5) dl by (auto simp: file_ok_def extends_def owned_def inode_shape_def)
    have "8 \<le> d ! j" if "j < blocks_needed len" for j
      using 2(4,5) that blocks_needed_range(3)[OF 2(2)] dl by (auto simp: extends_def)
    then have s2: "sized n D2" "\<And>l. l \<notin> (!) d ` {0..<blocks_needed len} \<Longrightarrow> D2 l = D1 l"
      and hi: "\<And>l. l < 8 \<Longrightarrow> l \<notin> (!) d ` {0..<blocks_needed len}"
      using write_loop_frame[OF 2(6) marked_sized[OF 2(3) s]] by (auto simp: linorder_not_le[symmetric])
    have m2: "meta_of D2 = meta_of D1" using s2(2)[OF hi] by (rule meta_cong)
    show ?thesis using 2(7)
    proof (elim disjE conjE)
      assume r: "D' = set_node D2 ino ?y"
      have sh: "inode_shape ?y" using dl by (simp add: inode_shape_def)
      have "meta_of D' = (meta_of D)\<lparr>m_bb := bit_test (D1 2), m_node := (m_node (meta_of D))(m_ino (meta_of D) slot := ?y)\<rparr>"
        unfolding at(2)[symmetric] r meta_set_node[OF s2(1) at(4,5) sh] m2 mk(1)[OF 2(3)] by simp
      moreover have "d \<in> owned ?y \<Longrightarrow> d \<in> owned (m_node (meta_of D) (m_ino (meta_of D) slot)) \<or> \<not> m_bb (meta_of D) d" for d
        using 2(4) at(2) by (auto simp: extends_def owned_def meta_sel)
      then have "meta_ok n ((meta_of D)\<lparr>m_bb := bit_test (D1 2), m_node := (m_node (meta_of D))(m_ino (meta_of D) slot := ?y)\<rparr>)"
        using mk(3)[OF 2(3)] y at(2,3) by (intro meta_ok_change[OF m]) auto
      moreover have "D' 0 = D 0" using inode_lba_neq(1)[OF at(4,5)] s2(2)[OF hi, of 0] mk(2)[OF 2(3)] by (simp add: r set_node_def)
      ultimately show ?thesis using sb sized_set_node[OF s2(1) at(4,5) sh] r by (simp add: fs_ok_def)
    next
      assume "D' = D2"
      then show ?thesis using m2 mk[OF 2(3)] meta_ok_alloc[OF m] s2(1) s2(2)[OF hi, of 0] sb by (simp add: fs_ok_def)
    qed
  qed
qed

section \<open>Histories\<close>

lemma read_inode_still: "snd (read_inode (medium n) ino D) = D"
  by (simp add: read_inode_def chain_run op_run split: res.splits)

lemma load_super_still: "snd (load_super (medium n) D) = D"
  by (simp add: load_super_def chain_run op_run Let_def split: res.splits)

lemma chain_still: "snd (m D) = D \<Longrightarrow> (\<And>x. snd (f x D) = D) \<Longrightarrow> snd (chain m f D) = D"
  by (simp add: chain_run split: res.splits)

lemma read_still: "snd (mcsfs1_read (Some (mount_of (medium n))) name buf cap out_len D) = D"
proof -
  have "snd (read_chunk (medium n) k x i p D) = D" for k x i p
    by (simp add: read_chunk_def chain_run op_run Let_def split: prod.splits res.splits)
  then have "snd (each_op (read_chunk (medium n) k x) is p D) = D" for k x "is" p by (rule each_op_same)
  then show ?thesis unfolding mcsfs1_read_def mounted_mount_of
    by (auto simp: op_run find_dirent_still read_inode_still intro!: chain_still split: option.split)
qed

lemma mount_still: "snd (mcsfs1_mount (Some m) (Some (medium n)) D) = D"
  unfolding mcsfs1_mount_def by (auto simp: op_run load_super_still read_inode_still intro!: chain_still)

text \<open>
  Calls on a formatted device, in any order. A call that indexes an array outside its bounds has no successor.
\<close>

inductive mcsfs1_history :: "'d mcsfs1_blkdev \<Rightarrow> 'd \<Rightarrow> 'd \<Rightarrow> bool" for dev s0 where
  formatted: "mcsfs1_format (Some dev) s0 = (Ok (), s) \<Longrightarrow> mcsfs1_history dev s0 s"
| mounted: "mcsfs1_history dev s0 s \<Longrightarrow> mcsfs1_mount (Some m) (Some dev) s = (r, s') \<Longrightarrow> mcsfs1_history dev s0 s'"
| created: "mcsfs1_history dev s0 s \<Longrightarrow> mcsfs1_create (Some (mount_of dev)) name s = (r, s') \<Longrightarrow> r \<noteq> Fault \<Longrightarrow>
    mcsfs1_history dev s0 s'"
| written: "mcsfs1_history dev s0 s \<Longrightarrow> mcsfs1_write (Some (mount_of dev)) name buf len s = (r, s') \<Longrightarrow> r \<noteq> Fault \<Longrightarrow>
    mcsfs1_history dev s0 s'"
| read: "mcsfs1_history dev s0 s \<Longrightarrow> mcsfs1_read (Some (mount_of dev)) name out cap out_len s = (r', s') \<Longrightarrow> r' \<noteq> Fault \<Longrightarrow>
    mcsfs1_history dev s0 s'"
| unlinked: "mcsfs1_history dev s0 s \<Longrightarrow> mcsfs1_unlink (Some (mount_of dev)) name s = (r, s') \<Longrightarrow> r \<noteq> Fault \<Longrightarrow>
    mcsfs1_history dev s0 s'"
| checked: "mcsfs1_history dev s0 s \<Longrightarrow> mcsfs1_fsck (Some dev) s = (r, s') \<Longrightarrow> r \<noteq> Fault \<Longrightarrow> mcsfs1_history dev s0 s'"

context reliable_device
begin

lemma sim_mount: "good s \<Longrightarrow> mcsfs1_mount (Some m) (Some dev) s = (r, s') \<Longrightarrow>
    good s' \<and> disk s' = snd (mcsfs1_mount (Some (mount_of ideal)) (Some ideal) (disk s))"
proof -
  let ?m = "\<lambda>d. chain (load_super d) (\<lambda>sb. chain (read_inode d MCSFS1_ROOT_INO) (\<lambda>root.
    if i_mode root \<noteq> MCSFS1_MODE_DIR \<or> i_direct root ! 0 \<noteq> MCSFS1_ROOT_DIR_LBA then fail MCSFS1_ERR_CORRUPT else ok ()))"
  assume s: "good s" and m: "mcsfs1_mount (Some m) (Some dev) s = (r, s')"
  have e: "snd (mcsfs1_mount (Some x) (Some d) t) = snd (?m d t)" for x :: "'x mcsfs1_mnt" and d t
    by (simp add: mcsfs1_mount_def chain_run op_run split: res.splits)
  have "simulates good disk (?m dev) (?m ideal)" by (intro sim_calls)
  then show ?thesis using s m e[of m dev s] e[of "mount_of ideal" ideal "disk s"] by (simp add: simulates_def)
qed

lemma history_ok:
  assumes "mcsfs1_history dev s0 s" "good s0"
  shows "good s \<and> fs_ok (dv_block_count dev) (disk s)"
  using assms
proof induction
  case (formatted s)
  from simulatesD[OF sim_format formatted(2,1)]
  have g: "good s" and i: "mcsfs1_format (Some ideal) (disk s0) = (Ok (), disk s)" by blast+
  have "16 \<le> dv_block_count dev \<and> dv_block_count dev \<le> 4096"
    using i by (auto simp: mcsfs1_format_def op_run mcsfs_consts linorder_not_less split: if_splits)
  then show ?case using g i format_medium[of "dv_block_count dev" "disk s0"] by auto
next
  case (mounted s m r s')
  then show ?case using sim_mount[of s m r s'] by (simp add: mount_still)
next
  case (created s name r s')
  then show ?case using simulatesD[OF sim_create _ created(2)] create_ok by blast
next
  case (written s name buf len r s')
  then show ?case using simulatesD[OF sim_write _ written(2)] write_ok by blast
next
  case (read s name out cap out_len r' s')
  then have "good s'" "mcsfs1_read (Some (mount_of ideal)) name out cap out_len (disk s) = (r', disk s')"
    using simulatesD[OF sim_read _ read(2)] by blast+
  then show ?case using read read_still[of "dv_block_count dev" name out cap out_len "disk s"] by simp
next
  case (unlinked s name r s')
  then show ?case using simulatesD[OF sim_unlink _ unlinked(2)] unlink_ok by blast
next
  case (checked s r s')
  then have "good s'" "mcsfs1_fsck (Some ideal) (disk s) = (r, disk s')"
    using simulatesD[OF sim_fsck _ checked(2)] by blast+
  then show ?case using checked fsck_medium[of "dv_block_count dev" "disk s"] by simp
qed

lemma history_fsck:
  assumes "mcsfs1_history dev s0 s" "good s0"
  shows "fst (mcsfs1_fsck (Some dev) s) = Ok () \<and> disk (snd (mcsfs1_fsck (Some dev) s)) = disk s"
proof -
  have "good s" "fs_ok (dv_block_count dev) (disk s)" using history_ok[OF assms] by blast+
  then show ?thesis using sim_fsck fsck_medium[of "dv_block_count dev" "disk s"] by (simp add: simulates_def)
qed

end

section \<open>A disk in memory\<close>

text \<open>The device of \<^verbatim>\<open>tests/m15/test_mcsfs1.c\<close>: an array of 128 blocks and a count of flushes.\<close>

definition RAMBLK_BLOCKS :: u32 where "RAMBLK_BLOCKS = 128"

record ramdisk =
  ram_disk :: "bytes list"
  flush_count :: u32

definition ram_read :: "u32 \<Rightarrow> ramdisk \<Rightarrow> bytes option \<times> ramdisk" where
  "ram_read lba s = (if lba \<ge> RAMBLK_BLOCKS then None else Some (ram_disk s ! unat lba), s)"

definition ram_write :: "u32 \<Rightarrow> bytes \<Rightarrow> ramdisk \<Rightarrow> int \<times> ramdisk" where
  "ram_write lba buf s =
     (if lba \<ge> RAMBLK_BLOCKS then (-1, s) else (0, s\<lparr>ram_disk := (ram_disk s)[unat lba := block512 buf]\<rparr>))"

definition ram_flush :: "ramdisk \<Rightarrow> int \<times> ramdisk" where
  "ram_flush s = (0, s\<lparr>flush_count := flush_count s + 1\<rparr>)"

definition ram_dev :: "ramdisk mcsfs1_blkdev" where
  "ram_dev = \<lparr>dv_block_count = RAMBLK_BLOCKS, dv_read = Some ram_read, dv_write = Some ram_write, dv_flush = Some ram_flush\<rparr>"

definition ram_good :: "ramdisk \<Rightarrow> bool" where
  "ram_good s \<longleftrightarrow> length (ram_disk s) = 128"

definition ram_image :: "ramdisk \<Rightarrow> u32 \<Rightarrow> bytes" where
  "ram_image s lba = (if lba < 128 then ram_disk s ! unat lba else [])"

definition blank_disk :: ramdisk where
  "blank_disk = \<lparr>ram_disk = replicate 128 zero_block, flush_count = 0\<rparr>"

interpretation ramdisk: reliable_device ram_dev ram_good ram_image
proof
  fix s lba b
  assume g: "ram_good s" and l: "lba < dv_block_count ram_dev"
  then have u: "unat lba < 128" "lba < 128" by (simp_all add: ram_dev_def RAMBLK_BLOCKS_def word_less_nat_alt)
  show "\<exists>s'. the (dv_read ram_dev) lba s = (Some (ram_image s lba), s') \<and> ram_good s' \<and> ram_image s' = ram_image s"
    using g u by (simp add: ram_dev_def ram_read_def RAMBLK_BLOCKS_def ram_image_def linorder_not_le)
  have "ram_image (s\<lparr>ram_disk := (ram_disk s)[unat lba := block512 b]\<rparr>) = (ram_image s)(lba := block512 b)"
    using g u by (auto simp: ram_image_def ram_good_def fun_eq_iff nth_list_update unat_eq_iff)
  then show "\<exists>s'. the (dv_write ram_dev) lba b s = (0, s') \<and> ram_good s' \<and> ram_image s' = (ram_image s)(lba := block512 b)"
    using g u by (simp add: ram_dev_def ram_write_def RAMBLK_BLOCKS_def ram_good_def linorder_not_le)
qed (simp_all add: ram_dev_def ram_flush_def ram_good_def ram_image_def fun_eq_iff)

section \<open>Contents\<close>

text \<open>Block \<open>j\<close> of a file that holds the first \<open>n\<close> bytes of \<open>b\<close>.\<close>

definition stored :: "bytes \<Rightarrow> nat \<Rightarrow> nat \<Rightarrow> bytes" where
  "stored b n j = (let c = take 512 (drop (512 * j) (take n b)) in c @ replicate (512 - length c) 0)"

lemma chunk_range:
  assumes "len \<le> 4096" "i < blocks_needed len"
  shows "unat (of_nat (512 * i) :: u32) = 512 * i" "512 * i \<le> unat len" "i < 8"
    "unat (chunk_of len (of_nat (512 * i))) = min 512 (unat len - 512 * i)"
    "of_nat (512 * i) + chunk_of len (of_nat (512 * i)) = (of_nat (min (512 * Suc i) (unat len)) :: u32)"
proof -
  have l: "unat len \<le> 4096" using assms(1) by (simp add: word_le_nat_alt)
  show i: "i < 8" using assms blocks_needed_range(3)[OF assms(1)] by simp
  then show u: "unat (of_nat (512 * i) :: u32) = 512 * i" by (intro unat_of_nat_small) simp
  show le: "512 * i \<le> unat len"
  proof (cases "len = 0")
    case False
    then have "i < (unat len + 511) div 512" using assms blocks_needed_range(1)[OF assms(1)] by simp
    then show ?thesis by (simp add: less_eq_div_iff_mult_less_eq Suc_le_eq[symmetric])
  qed (use assms blocks_needed_range(1)[OF assms(1)] in simp)
  then have s: "unat (len - of_nat (512 * i)) = unat len - 512 * i"
    using u by (simp add: unat_sub word_le_nat_alt)
  then show c: "unat (chunk_of len (of_nat (512 * i))) = min 512 (unat len - 512 * i)"
    by (simp add: chunk_of_def mcsfs_consts word_less_nat_alt min_def)
  have "unat (of_nat (512 * i) + chunk_of len (of_nat (512 * i)) :: u32) = 512 * i + min 512 (unat len - 512 * i)"
    using u c l i by (subst unat_add_small) simp_all
  moreover have "512 * i + min 512 (unat len - 512 * i) = min (512 * Suc i) (unat len)" using le by simp
  moreover have "unat (of_nat (min (512 * Suc i) (unat len)) :: u32) = min (512 * Suc i) (unat len)"
    using l by (intro unat_of_nat_small) simp
  ultimately show "of_nat (512 * i) + chunk_of len (of_nat (512 * i)) = (of_nat (min (512 * Suc i) (unat len)) :: u32)"
    by (simp only: unat_eq_iff[symmetric])
qed

lemma write_chunk_exact:
  assumes "len \<le> 4096" "i < blocks_needed len" "unat len \<le> length b" "d ! i < n"
  shows "write_chunk (medium n) d (Some b) len i (of_nat (512 * i)) D =
    (Ok (of_nat (min (512 * Suc i) (unat len))), D(d ! i := stored b (unat len) i))"
proof -
  let ?c = "chunk_of len (of_nat (512 * i))" and ?n = "min 512 (unat len - 512 * i)"
  note r = chunk_range[OF assms(1,2)]
  have c: "take 512 (drop (512 * i) (take (unat len) b)) = take ?n (drop (512 * i) b)"
    by (simp add: drop_take min.commute)
  have l: "length (take ?n (drop (512 * i) b)) = ?n" using assms(3) r(2) by simp
  have e: "(if ?c \<noteq> 0 then mcsfs_memcpy zero_block 0 (drop (512 * i) b) (unat ?c) else zero_block) = stored b (unat len) i"
  proof (cases "?c = 0")
    case True
    then have "?n = 0" using r(4) by simp
    then show ?thesis using True by (simp add: stored_def Let_def c zero_block_def mcsfs_consts)
  next
    case False
    have "mcsfs_memcpy zero_block 0 (drop (512 * i) b) ?n = put 0 (take ?n (drop (512 * i) b)) zero_block"
      unfolding mcsfs_memcpy_def using l by (intro fold_copy_put) (simp_all add: zero_block_facts(1))
    then show ?thesis using False l r(4) by (simp add: stored_def Let_def c put_def zero_block_def mcsfs_consts)
  qed
  have g: "\<not> (?c \<noteq> 0 \<and> length b < unat (of_nat (512 * i) :: u32) + unat ?c)" unfolding r(1,4) using r(2) assms(3) by linarith
  have "length (stored b (unat len) i) = 512" using l by (simp add: stored_def Let_def c)
  then show ?thesis using g assms(4) unfolding write_chunk_def Let_def option.sel if_not_P[OF g] r(1) e
    by (simp add: chain_run op_run del: of_nat_mult of_nat_numeral) (simp only: r(5) mult_Suc_right)
qed

lemma write_loop_exact:
  assumes "len \<le> 4096" "unat len \<le> length b" "\<forall>j < blocks_needed len. d ! j < n" "k \<le> blocks_needed len"
  shows "each_op (write_chunk (medium n) d (Some b) len) [0..<k] 0 D =
    (Ok (of_nat (min (512 * k) (unat len))), fold (\<lambda>j D. D(d ! j := stored b (unat len) j)) [0..<k] D)"
  using assms(4)
proof (induction k)
  case (Suc k)
  then have k: "k < blocks_needed len" by simp
  have "of_nat (min (512 * k) (unat len)) = (of_nat (512 * k) :: u32)" using chunk_range(2)[OF assms(1) k] by (simp add: min_def)
  then show ?case using Suc write_chunk_exact[OF assms(1) k assms(2), of d n] assms(3)
    by (simp add: each_append chain_def ok_run fun_upd_def)
qed (simp add: ok_run)

lemma fold_update_hit:
  "inj_on ((!) d) {0..<k} \<Longrightarrow> j < k \<Longrightarrow> fold (\<lambda>j D. D(d ! j := g j)) [0..<k] D (d ! j) = g j"
proof (induction k)
  case (Suc k)
  then show ?case by (cases "j = k") (auto simp: inj_on_def)
qed simp

lemma fold_update_miss: "l \<notin> (!) d ` {0..<k} \<Longrightarrow> fold (\<lambda>j D. D(d ! j := g j)) [0..<k] D l = D l"
proof (induction k)
  case (Suc k)
  then show ?case by (simp add: atLeast0_lessThan_Suc)
qed simp

lemma nonzero_inj:
  assumes "distinct (filter (\<lambda>x. x \<noteq> (0 :: u32)) d)" "i < length d" "j < length d" "d ! i \<noteq> 0" "d ! i = d ! j"
  shows "i = j"
  using assms
proof (induction d arbitrary: i j)
  case (Cons x d)
  then show ?case by (cases i; cases j) (auto simp: in_set_conv_nth split: if_splits)
qed simp

text \<open>Reading a file back block by block.\<close>

lemma read_chunk_exact:
  assumes "len \<le> 4096" "i < blocks_needed len" "unat len \<le> length b" "unat len \<le> length buf" "i_size x = len"
    "i_direct x ! i \<noteq> 0" "i_direct x ! i < n" "D (i_direct x ! i) = stored b (unat len) i"
  shows "read_chunk (medium n) n x i (put 0 (take (512 * i) b) buf, of_nat (512 * i)) D =
    (Ok (put 0 (take (min (512 * Suc i) (unat len)) b) buf, of_nat (min (512 * Suc i) (unat len))), D)"
proof -
  let ?n = "min 512 (unat len - 512 * i)" and ?buf = "put 0 (take (512 * i) b) buf"
  note r = chunk_range[OF assms(1,2)]
  have t: "length (take (512 * i) b) = 512 * i" using r(2) assms(3) by simp
  have l: "length ?buf = length buf" using t r(2) assms(4) by simp
  have c: "take 512 (drop (512 * i) (take (unat len) b)) = take ?n (drop (512 * i) b)"
    by (simp add: drop_take min.commute)
  have "length (take ?n (drop (512 * i) b)) = ?n" using assms(3) r(2) by simp
  then have s: "take ?n (stored b (unat len) i) = take ?n (drop (512 * i) b)" "?n \<le> length (stored b (unat len) i)"
    by (simp_all add: stored_def Let_def c)
  have "mcsfs_memcpy ?buf (512 * i) (stored b (unat len) i) ?n = put (512 * i) (take ?n (drop (512 * i) b)) ?buf"
    unfolding mcsfs_memcpy_def s(1)[symmetric] using l r(2) assms(4) s(2) by (intro fold_copy_put) simp_all
  also have "\<dots> = put 0 (take (512 * i) b @ take ?n (drop (512 * i) b)) buf"
    using put_nested_append[of 0 "take (512 * i) b" "take ?n (drop (512 * i) b)" buf] t r(2) assms(3,4) by simp
  also have "take (512 * i) b @ take ?n (drop (512 * i) b) = take (512 * i + ?n) b" by (rule take_add[symmetric])
  also have "512 * i + ?n = min (512 * Suc i) (unat len)" using r(2) by simp
  finally have m: "mcsfs_memcpy ?buf (512 * i) (stored b (unat len) i) ?n = put 0 (take (min (512 * Suc i) (unat len)) b) buf" .
  have g: "\<not> length ?buf < 512 * i + ?n" using l r(2) assms(4) by simp
  show ?thesis using assms(5-8) r m g
    by (simp add: read_chunk_def chain_run op_run Let_def mcsfs_consts linorder_not_le)
qed

lemma read_loop_exact:
  assumes "len \<le> 4096" "unat len \<le> length b" "unat len \<le> length buf" "i_size x = len"
    "\<forall>i < blocks_needed len. i_direct x ! i \<noteq> 0 \<and> i_direct x ! i < n \<and> D (i_direct x ! i) = stored b (unat len) i"
    "k \<le> blocks_needed len"
  shows "each_op (read_chunk (medium n) n x) [0..<k] (buf, 0) D =
    (Ok (put 0 (take (min (512 * k) (unat len)) b) buf, of_nat (min (512 * k) (unat len))), D)"
  using assms(6)
proof (induction k)
  case (Suc k)
  then have k: "k < blocks_needed len" by simp
  have "min (512 * k) (unat len) = 512 * k" using chunk_range(2)[OF assms(1) k] by simp
  then show ?case using Suc k read_chunk_exact[OF assms(1) k assms(2,3,4), of n D] assms(5)
    by (simp add: each_append chain_def ok_run)
qed (simp add: ok_run put_def)

section \<open>Names\<close>

lemma memcmp_zero: "mcsfs_memcmp a b n = 0 \<longleftrightarrow> (\<forall>i < n. a ! i = b ! i)"
proof (cases "find (\<lambda>i. a ! i \<noteq> b ! i) [0..<n]")
  case (Some i)
  then have "i < n" "a ! i \<noteq> b ! i" by (auto simp: find_Some_iff)
  then show ?thesis using Some by (auto simp: mcsfs_memcmp_def word_uint_eq_iff)
next
  case None
  then have "\<forall>i < n. a ! i = b ! i" by (auto simp: find_None_iff)
  then show ?thesis using None by (simp add: mcsfs_memcmp_def)
qed

lemma scan_dirents_Ok:
  "scan_dirents block name k is = Ok (slot, ino) \<Longrightarrow>
    strlen_bound_from (array_ptr block (de_name slot)) 28 0 = Some k \<and> (\<forall>i < k. drop (de_name slot) block ! i = name ! i)"
  by (induction "is") (auto simp: mcsfs_strlen_bound_def mcsfs_consts memcmp_zero split: if_splits option.splits)

lemma find_dirent_Ok:
  assumes "find_dirent (medium n) name D = (Ok (slot, ino), D')"
  obtains k where "valid_name name = Ok k" "strlen_bound_from (array_ptr (D 7) (de_name slot)) 28 0 = Some k"
    "\<forall>i < k. drop (de_name slot) (D 7) ! i = the name ! i"
  using assms by (auto simp: find_dirent_def chain_eq_Ok op_run mcsfs_consts split: if_splits dest!: scan_dirents_Ok)

lemma same_slot_same_name:
  assumes "find_dirent (medium n) (Some a) D = (Ok (slot, i), D1)" "find_dirent (medium n) (Some b) D = (Ok (slot, j), D2)"
    "0 \<notin> set a" "0 \<notin> set b"
  shows "a = b"
proof -
  obtain k where k: "valid_name (Some a) = Ok k" "strlen_bound_from (array_ptr (D 7) (de_name slot)) 28 0 = Some k"
    "\<forall>i < k. drop (de_name slot) (D 7) ! i = a ! i" using find_dirent_Ok[OF assms(1)] by auto
  obtain l where l: "valid_name (Some b) = Ok l" "strlen_bound_from (array_ptr (D 7) (de_name slot)) 28 0 = Some l"
    "\<forall>i < l. drop (de_name slot) (D 7) ! i = b ! i" using find_dirent_Ok[OF assms(2)] by auto
  have "k = length a" using valid_name_Ok[OF k(1)] assms(3) by (metis le_neq_implies_less nth_mem option.inject)
  moreover have "l = length b" using valid_name_Ok[OF l(1)] assms(4) by (metis le_neq_implies_less nth_mem option.inject)
  ultimately show ?thesis using k l by (intro nth_equalityI) auto
qed

section \<open>Reading what was written\<close>

lemma read_medium:
  assumes f: "fs_ok n D" and fd: "find_dirent (medium n) name D = (Ok (slot, ino), D)"
  defines "x \<equiv> m_node (meta_of D) ino"
  shows "mcsfs1_read (Some (mount_of (medium n))) name (Some buf) cap (Some ol) D =
    (if cap < i_size x then (Err MCSFS1_ERR_RANGE, D)
     else chain (each_op (read_chunk (medium n) n x) [0..<unat (blocks_for (i_size x))] (buf, 0)) (\<lambda>(buf, _). ok (buf, i_size x)) D)"
proof -
  note at = file_at[OF f fd, folded x_def]
  have "i_mode x = MCSFS1_MODE_FILE" using at(6) by (simp add: file_ok_def)
  then show ?thesis using fd at(7)
    by (simp add: mcsfs1_read_def mounted_mount_of mount_of_count chain_def[of "find_dirent (medium n) name"]
      chain_def[of "read_inode (medium n) ino"] op_run)
qed

lemma blocks_for_le: "len \<le> 4096 \<Longrightarrow> unat (blocks_for len) = (if len = 0 then 0 else blocks_needed len)"
  by (simp add: unat_blocks_for blocks_needed_range(1))

lemma read_chunk_cong:
  assumes "\<And>i. i \<in> set is \<Longrightarrow> D' (i_direct x ! i) = D (i_direct x ! i)"
  shows "fst (each_op (read_chunk (medium n) n x) is p D') = fst (each_op (read_chunk (medium n) n x) is p D)"
  using assms
proof (induction "is" arbitrary: p)
  case (Cons i "is")
  have "fst (read_chunk (medium n) n x i p D') = fst (read_chunk (medium n) n x i p D)"
    using Cons.prems[of i] by (cases p) (simp add: read_chunk_def chain_run op_run Let_def)
  moreover have "snd (read_chunk (medium n) n x i p E) = E" for E
    by (simp add: read_chunk_def chain_run op_run Let_def split: prod.splits res.splits)
  ultimately show ?case using Cons by (simp add: chain_run split: res.split)
qed (simp add: ok_run)

lemma written_medium:
  assumes f: "fs_ok n D" and w: "mcsfs1_write (Some (mount_of (medium n))) name (Some b) len D = (Ok (), D')"
    and lb: "unat len \<le> length b"
  obtains slot ino d where "find_dirent (medium n) name D = (Ok (slot, ino), D)" "len \<le> 4096" "D' 7 = D 7"
    "m_node (meta_of D') = (m_node (meta_of D))(ino := (m_node (meta_of D) ino)\<lparr>i_direct := d, i_size := len\<rparr>)"
    "\<And>j. j < blocks_needed len \<Longrightarrow> d ! j \<noteq> 0 \<and> 8 \<le> d ! j \<and> d ! j < n \<and> D' (d ! j) = stored b (unat len) j \<and>
      (d ! j \<in> owned (m_node (meta_of D) ino) \<or> \<not> bit_test (D 2) (d ! j))"
    "\<And>l. 8 \<le> l \<Longrightarrow> l \<notin> (!) d ` {0..<blocks_needed len} \<Longrightarrow> D' l = D l"
proof -
  have s: "sized n D" using f by (simp add: fs_ok_def)
  from f w show thesis
  proof (cases rule: write_medium)
    case (2 slot ino d D1 rw D2)
    note at = file_at[OF f 2(1)]
    let ?y = "(m_node (meta_of D) ino)\<lparr>i_direct := d, i_size := len\<rparr>" and ?J = "{0..<blocks_needed len}"
    have D': "D' = set_node D2 ino ?y" using 2(7) by simp
    have dl: "length d = 8" "inode_shape ?y" using at(6) 2(4) by (simp_all add: extends_def file_ok_def inode_shape_def)
    have j8: "j < 8" if "j < blocks_needed len" for j using that blocks_needed_range(3)[OF 2(2)] by simp
    have d: "d ! j \<noteq> 0" "8 \<le> d ! j" "d ! j < n" "d ! j \<in> owned (m_node (meta_of D) ino) \<or> \<not> bit_test (D 2) (d ! j)"
      if "j < blocks_needed len" for j
      using 2(4,5) j8[OF that] dl that by (auto simp: extends_def owned_def)
    have inj: "inj_on ((!) d) ?J"
    proof (rule inj_onI)
      fix i j
      assume "i \<in> ?J" "j \<in> ?J" "d ! i = d ! j"
      then show "i = j" using 2(4) d(1)[of i] j8 dl by (intro nonzero_inj[of d]) (auto simp: extends_def)
    qed
    have D2: "D2 = fold (\<lambda>j D. D(d ! j := stored b (unat len) j)) [0..<blocks_needed len] D1"
      using write_loop_exact[OF 2(2) lb, of d n "blocks_needed len" D1] d(3) 2(6) by simp
    have s2: "sized n D2" using write_loop_frame[OF 2(6) marked_sized[OF 2(3) s]] d(2) by simp
    have hi: "D' l = D2 l" if "8 \<le> l" for l using that inode_lba_neq(5)[OF at(4,5)] by (auto simp: D' set_node_def)
    have miss: "D2 l = D1 l" if "l \<notin> (!) d ` ?J" for l using fold_update_miss[OF that] by (simp add: D2)
    have low: "l \<notin> (!) d ` ?J" if "l < 8" for l using that d(2) by (auto simp: linorder_not_le[symmetric])
    have keep: "D1 l = D l" if "l \<noteq> 2" for l using 2(3) that by (auto simp: marked_def)
    have "meta_of D2 = meta_of D1" by (rule meta_cong) (simp add: miss low)
    moreover have "m_node (meta_of D1) = m_node (meta_of D)" using 2(3) by (auto simp: marked_def meta_bb)
    ultimately have nd: "m_node (meta_of D') = (m_node (meta_of D))(ino := ?y)"
      unfolding D' meta_set_node[OF s2 at(4,5) dl(2)] by simp
    have "D' 7 = D 7" using inode_lba_neq(4)[OF at(4,5)] miss[OF low, of 7] keep[of 7] by (simp add: D' set_node_def)
    moreover have "D' (d ! j) = stored b (unat len) j" if "j < blocks_needed len" for j
      using hi[OF d(2)[OF that]] fold_update_hit[OF inj that] by (simp add: D2)
    moreover have "D' l = D l" if "8 \<le> l" "l \<notin> (!) d ` ?J" for l
    proof -
      have "l \<noteq> 2" using that(1) by (auto simp: word_le_nat_alt)
      then show ?thesis using hi[OF that(1)] miss[OF that(2)] keep by simp
    qed
    ultimately show thesis using that[OF 2(1,2) _ nd] d by blast
  qed simp
qed

lemma find_dirent_cong: "D' 7 = D 7 \<Longrightarrow> fst (find_dirent (medium n) name D') = fst (find_dirent (medium n) name D)"
  by (simp add: find_dirent_def chain_run op_run mcsfs_consts split: res.split)

lemma find_dirent_pair: "fst (find_dirent (medium n) name D) = r \<Longrightarrow> find_dirent (medium n) name D = (r, D)"
  using find_dirent_still[of n name D] by (cases "find_dirent (medium n) name D") simp

lemma write_read_medium:
  assumes f: "fs_ok n D" and w: "mcsfs1_write (Some (mount_of (medium n))) name (Some b) len D = (Ok (), D')"
    and lb: "unat len \<le> length b" and cap: "len \<le> cap" "unat len \<le> length buf"
  shows "fst (mcsfs1_read (Some (mount_of (medium n))) name (Some buf) cap (Some ol) D') =
    Ok (take (unat len) b @ drop (unat len) buf, len)"
proof -
  have f': "fs_ok n D'" using write_ok[OF f w] .
  from f w lb show ?thesis
  proof (cases rule: written_medium)
    case (1 slot ino d)
    let ?y = "m_node (meta_of D') ino"
    have fd: "find_dirent (medium n) name D' = (Ok (slot, ino), D')"
      using find_dirent_cong[of D' D n name] 1(1,3) by (intro find_dirent_pair) simp
    have y: "i_size ?y = len" "i_direct ?y = d" using 1(4) by simp_all
    have u: "unat (blocks_for len) \<le> blocks_needed len" using blocks_for_le[OF 1(2)] by simp
    have m: "min (512 * unat (blocks_for len)) (unat len) = unat len"
      using unat_blocks_for[OF 1(2)] by simp
    have "each_op (read_chunk (medium n) n ?y) [0..<unat (blocks_for len)] (buf, 0) D' =
        (Ok (put 0 (take (unat len) b) buf, of_nat (unat len)), D')"
      using read_loop_exact[OF 1(2) lb cap(2) y(1) _ u, of n D'] 1(5) y(2) m by simp
    moreover have "\<not> cap < i_size ?y" using cap(1) y by (simp add: linorder_not_less)
    ultimately show ?thesis using read_medium[OF f' fd, of buf cap ol] y lb
      by (simp add: chain_def op_run put_def)
  qed
qed

lemma write_other_medium:
  assumes f: "fs_ok n D" and w: "mcsfs1_write (Some (mount_of (medium n))) (Some nm) (Some b) len D = (Ok (), D')"
    and lb: "unat len \<le> length b" and nm: "other \<noteq> nm" "0 \<notin> set nm" "0 \<notin> set other"
  shows "fst (mcsfs1_read (Some (mount_of (medium n))) (Some other) buf cap ol D') =
    fst (mcsfs1_read (Some (mount_of (medium n))) (Some other) buf cap ol D)"
proof -
  have f': "fs_ok n D'" using write_ok[OF f w] .
  from f w lb show ?thesis
  proof (cases rule: written_medium)
    case (1 slot ino d)
    note same = find_dirent_cong[of D' D n "Some other", OF 1(3)]
    show ?thesis
    proof (cases "\<exists>p. fst (find_dirent (medium n) (Some other) D) = Ok p \<and> buf \<noteq> None \<and> ol \<noteq> None")
      case False
      then show ?thesis using same
        by (cases "fst (find_dirent (medium n) (Some other) D)")
          (auto simp: mcsfs1_read_def mounted_mount_of chain_find_dirent op_run split: option.splits)
    next
      case True
      then obtain slot' i bf o' where ok: "fst (find_dirent (medium n) (Some other) D) = Ok (slot', i)"
        and bo: "buf = Some bf" "ol = Some o'" by auto
      have fd: "find_dirent (medium n) (Some other) D = (Ok (slot', i), D)" by (rule find_dirent_pair[OF ok])
      have fd': "find_dirent (medium n) (Some other) D' = (Ok (slot', i), D')" by (rule find_dirent_pair) (simp add: same ok)
      have "slot' \<noteq> slot" using same_slot_same_name[OF 1(1)] fd nm by blast
      note at = file_at[OF f fd] and at0 = file_at[OF f 1(1)]
      have "apart (meta_of D) slot' slot" using f at(1-3) at0(1-3) \<open>slot' \<noteq> slot\<close> by (intro meta_ok_apart) (auto simp: fs_ok_def)
      then have ap: "i \<noteq> ino" "owned (m_node (meta_of D) i) \<inter> owned (m_node (meta_of D) ino) = {}"
        using at(2) at0(2) by (auto simp: apart_def)
      let ?x = "m_node (meta_of D) i"
      have x': "m_node (meta_of D') i = ?x" using 1(4) ap(1) by simp
      have sz: "i_size ?x \<le> 4096" using at(6) by (simp add: file_ok_def)
      have "D' (i_direct ?x ! j) = D (i_direct ?x ! j)" if j: "j < unat (blocks_for (i_size ?x))" for j
      proof -
        have jn: "j < blocks_needed (i_size ?x)" using j blocks_for_le[OF sz] by (simp split: if_splits)
        then have "j < 8" using blocks_needed_range(3)[OF sz] by simp
        then have o: "i_direct ?x ! j \<in> owned ?x" using at(6) jn by (simp add: owned_def file_ok_def inode_shape_def)
        then have b: "8 \<le> i_direct ?x ! j" "bit_test (D 2) (i_direct ?x ! j)" using at(6) by (auto simp: file_ok_def)
        have "d ! k \<noteq> i_direct ?x ! j" if "k < blocks_needed len" for k
          using 1(5)[OF that] o b(2) ap(2) by auto
        then show ?thesis using 1(6)[OF b(1)] by force
      qed
      then have "fst (each_op (read_chunk (medium n) n ?x) [0..<unat (blocks_for (i_size ?x))] (bf, 0) D') =
          fst (each_op (read_chunk (medium n) n ?x) [0..<unat (blocks_for (i_size ?x))] (bf, 0) D)"
        by (intro read_chunk_cong) simp
      then show ?thesis unfolding bo read_medium[OF f' fd'] read_medium[OF f fd] x'
        by (auto simp: chain_run op_run split: res.split)
    qed
  qed
qed

context reliable_device
begin

lemma history_write_read:
  assumes h: "mcsfs1_history dev s0 s" "good s0"
    and w: "mcsfs1_write (Some (mount_of dev)) (Some nm) (Some b) len s = (Ok (), s')" and lb: "unat len \<le> length b"
  shows "len \<le> cap \<Longrightarrow> unat len \<le> length buf \<Longrightarrow>
      fst (mcsfs1_read (Some (mount_of dev)) (Some nm) (Some buf) cap (Some ol) s') = Ok (take (unat len) b @ drop (unat len) buf, len)"
    and "other \<noteq> nm \<Longrightarrow> 0 \<notin> set nm \<Longrightarrow> 0 \<notin> set other \<Longrightarrow>
      fst (mcsfs1_read (Some (mount_of dev)) (Some other) out cap' ol' s') = fst (mcsfs1_read (Some (mount_of dev)) (Some other) out cap' ol' s)"
proof -
  have g: "good s" and f: "fs_ok (dv_block_count dev) (disk s)" using history_ok[OF h] by blast+
  from simulatesD[OF sim_write g w] have g': "good s'"
    and w': "mcsfs1_write (Some (mount_of ideal)) (Some nm) (Some b) len (disk s) = (Ok (), disk s')" by blast+
  have rd: "fst (mcsfs1_read (Some (mount_of dev)) name out cap ol t) = fst (mcsfs1_read (Some (mount_of ideal)) name out cap ol (disk t))"
    if "good t" for t name out cap ol using sim_read that by (simp add: simulates_def)
  show "len \<le> cap \<Longrightarrow> unat len \<le> length buf \<Longrightarrow>
      fst (mcsfs1_read (Some (mount_of dev)) (Some nm) (Some buf) cap (Some ol) s') = Ok (take (unat len) b @ drop (unat len) buf, len)"
    unfolding rd[OF g'] by (rule write_read_medium[OF f w' lb])
  show "other \<noteq> nm \<Longrightarrow> 0 \<notin> set nm \<Longrightarrow> 0 \<notin> set other \<Longrightarrow>
      fst (mcsfs1_read (Some (mount_of dev)) (Some other) out cap' ol' s') = fst (mcsfs1_read (Some (mount_of dev)) (Some other) out cap' ol' s)"
    unfolding rd[OF g'] rd[OF g] by (rule write_other_medium[OF f w' lb])
qed

end

section \<open>A first file\<close>

lemma each_op_keep: "(\<And>x. x \<in> set xs \<Longrightarrow> f x a s = (Ok a, s)) \<Longrightarrow> each_op f xs a s = (Ok a, s)"
  by (induction xs) (simp_all add: ok_run chain_ok)

lemma write_succeeds:
  assumes f: "fs_ok n D" and fd: "find_dirent (medium n) name D = (Ok (slot, ino), D)"
    and len: "len \<le> 4096" "unat len \<le> length b" and d: "\<forall>j < blocks_needed len. i_direct (m_node (meta_of D) ino) ! j \<noteq> 0"
  shows "fst (mcsfs1_write (Some (mount_of (medium n))) name (Some b) len D) = Ok ()"
proof -
  let ?x = "m_node (meta_of D) ino" and ?js = "[0..<blocks_needed len]"
  have s: "sized n D" using f by (simp add: fs_ok_def)
  note at = file_at[OF f fd]
  have x: "i_mode ?x = MCSFS1_MODE_FILE" "inode_shape ?x" using at(6) by (simp_all add: file_ok_def)
  have r: "8 \<le> i_direct ?x ! j" "i_direct ?x ! j < n" if "j < blocks_needed len" for j
    using at(6) d that blocks_needed_range(3)[OF len(1)] by (auto simp: file_ok_def owned_def inode_shape_def)
  have a: "each_op (alloc_missing (medium n)) ?js (i_direct ?x) D = (Ok (i_direct ?x), D)"
    by (rule each_op_keep) (simp add: alloc_missing_def d op_run)
  obtain w E where e: "each_op (write_chunk (medium n) (i_direct ?x) (Some b) len) ?js 0 D = (Ok w, E)"
    using write_loop_exact[OF len, of "i_direct ?x" n "blocks_needed len" D] r(2) by simp
  have "sized n E" using write_loop_frame[OF e s] r(1) by simp
  from write_inode_medium[OF this at(4,5), of "?x\<lparr>i_size := len\<rparr>"] x(2)
  have "write_inode (medium n) ino (?x\<lparr>i_size := len\<rparr>) E = (Ok (), set_node E ino (?x\<lparr>i_size := len\<rparr>))"
    by (simp add: inode_shape_def)
  moreover have "of_nat MCSFS1_DIRECT_BLOCKS * MCSFS1_BLOCK_SIZE = (4096 :: u32)" by (simp add: mcsfs_consts)
  moreover have "\<not> 4096 < len" using len(1) by (simp add: linorder_not_less)
  ultimately show ?thesis using fd at(7) x(1) a e
    by (simp add: mcsfs1_write_def mounted_mount_of Let_def chain_def blocks_needed_def[symmetric])
qed

lemma scan_empty: "\<forall>i \<in> set is. i < 16 \<Longrightarrow> scan_dirents zero_block nm k is = Err MCSFS1_ERR_NOENT"
  by (induction "is") (simp_all add: zero_block_facts(3))

lemma strlen_bound_eq:
  "n \<le> k \<Longrightarrow> k < m \<Longrightarrow> \<forall>i. n \<le> i \<and> i < k \<longrightarrow> (\<exists>c. p i = Some c \<and> c \<noteq> 0) \<Longrightarrow> p k = Some 0 \<Longrightarrow> strlen_bound_from p m n = Some k"
proof (induction "k - n" arbitrary: n)
  case 0
  then show ?case by (simp add: strlen_bound_from.simps[of p m n])
next
  case (Suc j)
  then have "strlen_bound_from p m (n + 1) = Some k" by simp
  moreover obtain c where "p n = Some c" "c \<noteq> 0" using Suc by (metis less_le_not_le nat_less_le order_refl zero_less_Suc zero_less_diff)
  ultimately show ?case using Suc.prems by (simp add: strlen_bound_from.simps[of p m n])
qed

lemma create_first:
  assumes f: "fs_ok n D" "empty_fs D" and v: "valid_name (Some nm) = Ok k" "k \<le> 26"
  obtains D' ino where "mcsfs1_create (Some (mount_of (medium n))) (Some nm) D = (Ok (), D')"
    "find_dirent (medium n) (Some nm) D' = (Ok (0, ino), D')" "i_direct (m_node (meta_of D') ino) ! 0 \<noteq> 0"
proof -
  have s: "sized n D" and D: "D 7 = zero_block" "\<not> bit_test (D 1) 2" "\<not> bit_test (D 2) 8" using f by (simp_all add: fs_ok_def empty_fs_def)
  have n: "(7 :: u32) < n" "(8 :: u32) < n" using sized_less[OF s] by simp_all
  have fd: "fst (find_dirent (medium n) (Some nm) D) = Err MCSFS1_ERR_NOENT"
    using v n D by (simp add: find_dirent_def chain_run op_run mcsfs_consts scan_empty)
  have "2 \<le> (2 :: u32) \<and> (2 :: u32) \<le> 32 \<and> \<not> m_ib (meta_of D) 2 \<and> 8 \<le> (8 :: u32) \<and> 8 < n \<and> \<not> m_bb (meta_of D) 8"
    "m_ino (meta_of D) 0 = 0" using D n by (simp_all add: meta_sel zero_block_facts(3))
  then have room: "\<not> no_room n (meta_of D)" unfolding no_room_def by (metis zero_less_numeral)
  obtain r D' where c: "mcsfs1_create (Some (mount_of (medium n))) (Some nm) D = (r, D')" by fastforce
  from s c show thesis
  proof (cases rule: create_medium)
    case (2 nm' k' slot ino b)
    have k: "nm' = nm" "k' = k" using 2(1,2) v by simp_all
    have sl: "slot = 0" using 2(6,7) D by (auto simp: meta_sel zero_block_facts(3) dest: spec[of _ 0])
    obtain "1 \<le> k" "k \<le> length nm" and nz: "\<forall>i < k. nm ! i \<noteq> 0" using valid_name_Ok[OF v(1)] by blast
    let ?e = "entry_bytes ino nm k" and ?D = "D(1 := bit_set (D 1) ino, 2 := bit_set (D 2) b)"
    have D'7: "D' 7 = put 0 ?e zero_block" using 2(15) sl k D by simp
    have le: "length ?e = 32" using \<open>k \<le> length nm\<close> v(2) by (simp add: entry_bytes_def)
    have blk: "put 0 ?e zero_block ! i = ?e ! i" if "i < 32" for i using that le by (simp add: nth_put zero_block_facts(1))
    have nth: "?e ! (5 + i) = (if i < k then nm ! i else 0)" if "i < 27" for i
      using that \<open>k \<le> length nm\<close> v(2) by (simp add: entry_bytes_def nth_append)
    have ino: "de_ino (put 0 ?e zero_block) 0 = ino"
      using de_ino_put[of zero_block ?e 0 0] le by (simp add: zero_block_facts(1) entry_bytes_def)
    have "ino \<noteq> 0" using 2(8) by auto
    have p: "array_ptr (put 0 ?e zero_block) 5 i = Some (if i < k then nm ! i else 0)" if "i < 27" for i
      using that nth[OF that] blk[of "5 + i"] le by (simp add: array_ptr_def zero_block_facts(1))
    have "strlen_bound_from (array_ptr (put 0 ?e zero_block) 5) 28 0 = Some k"
      using p v(2) nz by (intro strlen_bound_eq) auto
    moreover have "mcsfs_memcmp (drop 5 (put 0 ?e zero_block)) nm k = 0"
      using nth blk v(2) le by (simp add: memcmp_zero zero_block_facts(1))
    ultimately have scan: "scan_dirents (put 0 ?e zero_block) nm k (0 # is) = Ok (0, ino)" for "is"
      using ino \<open>ino \<noteq> 0\<close> by (simp add: mcsfs_strlen_bound_def mcsfs_consts de_name_def)
    have "[0..<16] = (0 :: nat) # [1..<16]" by (simp add: upt_conv_Cons)
    then have "find_dirent (medium n) (Some nm) D' = (Ok (0, ino), D')"
      using scan[of "[1..<16]"] v n D'7 by (simp add: find_dirent_def chain_run op_run mcsfs_consts)
    moreover have "i_direct (m_node (meta_of D') ino) ! 0 \<noteq> 0"
    proof -
      have one: "1 \<le> ino" using 2(8) by (simp add: word_le_nat_alt)
      have S: "sized n ?D" using s by (simp add: sized_update sized_length)
      have "node_at D' ino = new_file b"
        using node_at_set_node[OF S one 2(9) one 2(9), of "new_file b"] node_at_update[OF one 2(9), of 7]
        by (simp add: 2(15) new_file_def zero_inode_def inode_shape_def mcsfs_consts)
      then show ?thesis using one 2(9,11) by (auto simp: meta_of_def new_file_def zero_inode_def mcsfs_consts)
    qed
    ultimately show thesis using that c 2(14) by blast
  qed (use v fd room in auto)
qed

lemma first_write:
  "\<exists>s s'. mcsfs1_history ram_dev blank_disk s \<and>
    mcsfs1_write (Some (mount_of ram_dev)) (Some [0x61]) (Some [1, 2, 3]) 3 s = (Ok (), s')"
proof -
  have n: "dv_block_count ram_dev = 128" by (simp add: ram_dev_def RAMBLK_BLOCKS_def)
  have g0: "ram_good blank_disk" by (simp add: ram_good_def blank_disk_def)
  obtain D1 where d1: "mcsfs1_format (Some (medium 128)) (ram_image blank_disk) = (Ok (), D1)" "fs_ok 128 D1" "empty_fs D1"
    using format_medium[of 128] by auto
  obtain s1 where s1: "mcsfs1_format (Some ram_dev) blank_disk = (Ok (), s1)" "ram_good s1" "ram_image s1 = D1"
    using ramdisk.sim_format g0 d1(1) n unfolding simulates_def by (metis fst_conv prod.collapse snd_conv)
  have v: "valid_name (Some [0x61]) = Ok 1"
    by (simp add: valid_name_def mcsfs_strlen_bound_def strlen_bound_from.simps string_ptr_def mcsfs_consts)
  obtain D2 ino where d2: "mcsfs1_create (Some (mount_of (medium 128))) (Some [0x61]) D1 = (Ok (), D2)"
    "find_dirent (medium 128) (Some [0x61]) D2 = (Ok (0, ino), D2)" "i_direct (m_node (meta_of D2) ino) ! 0 \<noteq> 0"
    using create_first[OF d1(2,3) v] by auto
  obtain s2 where s2: "mcsfs1_create (Some (mount_of ram_dev)) (Some [0x61]) s1 = (Ok (), s2)" "ram_good s2" "ram_image s2 = D2"
    using ramdisk.sim_create[of "Some [0x61]"] s1 d2(1) n unfolding simulates_def by (metis fst_conv prod.collapse snd_conv)
  have "blocks_needed 3 = 1" using blocks_needed_range(1)[of 3] by simp
  then have "fst (mcsfs1_write (Some (mount_of (medium 128))) (Some [0x61]) (Some [1, 2, 3]) 3 D2) = Ok ()"
    using write_succeeds[OF create_ok[OF d1(2) d2(1)] d2(2), of 3 "[1, 2, 3]"] d2(3) by simp
  then have "fst (mcsfs1_write (Some (mount_of ram_dev)) (Some [0x61]) (Some [1, 2, 3]) 3 s2) = Ok ()"
    using ramdisk.sim_write[of "Some [0x61]" "Some [1, 2, 3]" 3] s2 n by (simp add: simulates_def)
  moreover have "mcsfs1_history ram_dev blank_disk s2"
    using mcsfs1_history.created[OF mcsfs1_history.formatted[OF s1(1)] s2(1)] by simp
  ultimately show ?thesis by (metis prod.collapse)
qed

section \<open>Properties\<close>

text \<open>
  C37. On a device that keeps the blocks written to it, no sequence of calls makes the file system
  inconsistent: after a successful format and any mounts, creates, writes, reads, unlinks and checks, whether
  they succeed or fail, \<^verbatim>\<open>mcsfs1_fsck\<close> returns 0 and leaves the medium as it is.
\<close>

theorem mcsfs1_history_consistent:
  assumes "reliable_device dev good disk" "good s0" "mcsfs1_history dev s0 s"
  shows "fst (mcsfs1_fsck (Some dev) s) = Ok () \<and> disk (snd (mcsfs1_fsck (Some dev) s)) = disk s"
  using reliable_device.history_fsck[OF assms(1,3,2)] .

theorem mcsfs1_history_consistent_witness:
  "\<exists>s. mcsfs1_history ram_dev blank_disk s \<and> fst (mcsfs1_fsck (Some ram_dev) s) = Ok ()"
proof -
  obtain s where "mcsfs1_history ram_dev blank_disk s" using first_write by blast
  moreover have "ram_good blank_disk" by (simp add: ram_good_def blank_disk_def)
  ultimately show ?thesis using mcsfs1_history_consistent[OF ramdisk.reliable_device_axioms] by blast
qed

text \<open>
  C38. In every such history, a successful write of \<open>len\<close> bytes to a file makes a later read of it deliver those
  bytes and that length, for every buffer they fit in, and reads of every other name deliver what they did before.
\<close>

theorem mcsfs1_write_read:
  assumes "reliable_device dev good disk" "good s0" "mcsfs1_history dev s0 s"
    and "mcsfs1_write (Some (mount_of dev)) (Some name) (Some b) len s = (Ok (), s')" "unat len \<le> length b"
    and "len \<le> cap" "unat len \<le> length buf" "other \<noteq> name" "0 \<notin> set name" "0 \<notin> set other"
  shows "fst (mcsfs1_read (Some (mount_of dev)) (Some name) (Some buf) cap (Some out_len) s') =
      Ok (take (unat len) b @ drop (unat len) buf, len) \<and>
    fst (mcsfs1_read (Some (mount_of dev)) (Some other) out cap' ol' s') =
      fst (mcsfs1_read (Some (mount_of dev)) (Some other) out cap' ol' s)"
  using reliable_device.history_write_read[OF assms(1,3,2,4,5)] assms(6-) by blast

theorem mcsfs1_write_read_witness:
  "\<exists>s s'. mcsfs1_history ram_dev blank_disk s \<and>
    mcsfs1_write (Some (mount_of ram_dev)) (Some [0x61]) (Some [1, 2, 3]) 3 s = (Ok (), s') \<and>
    fst (mcsfs1_read (Some (mount_of ram_dev)) (Some [0x61]) (Some [9, 9, 9, 9]) 4 (Some 0) s') = Ok ([1, 2, 3, 9], 3)"
proof -
  obtain s s' where s: "mcsfs1_history ram_dev blank_disk s"
    "mcsfs1_write (Some (mount_of ram_dev)) (Some [0x61]) (Some [1, 2, 3]) 3 s = (Ok (), s')" using first_write by blast
  have "ram_good blank_disk" by (simp add: ram_good_def blank_disk_def)
  from mcsfs1_write_read[OF ramdisk.reliable_device_axioms this s, of 4 "[9, 9, 9, 9]" "[0x62]" 0 None 0 None] s show ?thesis
    by auto
qed

end
