(* ===== verification/Journal.thy ===== *)
theory Journal
  imports Diskio
begin

text \<open>
  The journalling file system of \<^verbatim>\<open>kernel/fs/mcsfs1j/m16_mcsfs_journal.c\<close>.

  The state of an operation is the device the code is given: its blocks, the number of blocks, a count of
  writes and the fault injection counter \<open>fail_after\<close>, which makes every write fail once it has reached 0. A
  call through a pointer that may be null is \<open>m16_call\<close>. Structures on disk are bytes: the inode table and the
  directory are read and written at the offsets of their fields.
\<close>

unbundle bit_operations_syntax

section \<open>Model: constants and structures\<close>

definition M16_BLOCK_SIZE :: nat where "M16_BLOCK_SIZE = 512"
definition M16_MAX_BLOCKS :: u32 where "M16_MAX_BLOCKS = 128"
definition M16_MAX_INODES :: u32 where "M16_MAX_INODES = 16"
definition M16_MAX_NAME :: nat where "M16_MAX_NAME = 32"
definition M16_MAGIC :: u64 where "M16_MAGIC = 0x4d43534631564a31"
definition M16_JMAGIC :: u64 where "M16_JMAGIC = 0x4d43534a524e4c31"
definition M16_VERSION :: u32 where "M16_VERSION = 1"
definition M16_J_EMPTY :: u32 where "M16_J_EMPTY = 0"
definition M16_J_COMMITTED :: u32 where "M16_J_COMMITTED = 2"
definition M16_JOURNAL_MAX_RECORDS :: nat where "M16_JOURNAL_MAX_RECORDS = 8"
definition M16_JOURNAL_START :: u32 where "M16_JOURNAL_START = 1"
definition M16_JOURNAL_BLOCKS :: u32 where "M16_JOURNAL_BLOCKS = 1 + 2 * of_nat M16_JOURNAL_MAX_RECORDS"
definition M16_INODE_BITMAP_LBA :: u32 where "M16_INODE_BITMAP_LBA = M16_JOURNAL_START + M16_JOURNAL_BLOCKS"
definition M16_BLOCK_BITMAP_LBA :: u32 where "M16_BLOCK_BITMAP_LBA = M16_INODE_BITMAP_LBA + 1"
definition M16_INODE_TABLE_LBA :: u32 where "M16_INODE_TABLE_LBA = M16_BLOCK_BITMAP_LBA + 1"
definition M16_INODE_TABLE_BLOCKS :: nat where "M16_INODE_TABLE_BLOCKS = 4"
definition M16_ROOT_DIR_LBA :: u32 where "M16_ROOT_DIR_LBA = M16_INODE_TABLE_LBA + of_nat M16_INODE_TABLE_BLOCKS"
definition M16_DATA_START_LBA :: u32 where "M16_DATA_START_LBA = M16_ROOT_DIR_LBA + 1"

datatype m16_err = M16_E_INVAL | M16_E_IO | M16_E_NOSPC | M16_E_EXISTS | M16_E_NOENT | M16_E_CORRUPT | M16_E_TOOLONG

record m16_blockdev =
  blocks :: "u32 \<Rightarrow> bytes"
  total_blocks :: u32
  writes :: u64
  fail_after :: int

type_synonym 'a m16_op = "(m16_blockdev, m16_err, 'a) op"

record m16_super =
  ms_magic :: u64
  ms_version :: u32
  ms_block_size :: u32
  ms_total_blocks :: u32
  ms_journal_start :: u32
  ms_journal_blocks :: u32
  ms_inode_bitmap_lba :: u32
  ms_block_bitmap_lba :: u32
  ms_inode_table_lba :: u32
  ms_inode_table_blocks :: u32
  ms_root_dir_lba :: u32
  ms_data_start_lba :: u32
  ms_clean_generation :: u32
  ms_reserved :: "u32 list"

record m16_journal_header =
  jh_magic :: u64
  jh_version :: u32
  jh_state :: u32
  jh_seq :: u32
  jh_count :: u32
  jh_header_checksum :: u32
  jh_reserved :: "u32 list"

record m16_journal_desc =
  jd_magic :: u64
  jd_target_lba :: u32
  jd_payload_checksum :: u32
  jd_reserved :: "u32 list"

record m16_jrec =
  rec_target_lba :: u32
  rec_payload :: bytes

text \<open>The count of a transaction is the length of the list.\<close>

type_synonym m16_tx = "m16_jrec list"

definition m16_super_bytes :: "m16_super \<Rightarrow> bytes" where
  "m16_super_bytes s =
     le64 (ms_magic s) @ le32s [ms_version s, ms_block_size s, ms_total_blocks s, ms_journal_start s, ms_journal_blocks s,
       ms_inode_bitmap_lba s, ms_block_bitmap_lba s, ms_inode_table_lba s, ms_inode_table_blocks s, ms_root_dir_lba s,
       ms_data_start_lba s, ms_clean_generation s] @ le32s (ms_reserved s)"

definition m16_super_of :: "bytes \<Rightarrow> m16_super" where
  "m16_super_of b =
     \<lparr>ms_magic = un64 b, ms_version = un32 (drop 8 b), ms_block_size = un32 (drop 12 b), ms_total_blocks = un32 (drop 16 b),
      ms_journal_start = un32 (drop 20 b), ms_journal_blocks = un32 (drop 24 b), ms_inode_bitmap_lba = un32 (drop 28 b),
      ms_block_bitmap_lba = un32 (drop 32 b), ms_inode_table_lba = un32 (drop 36 b),
      ms_inode_table_blocks = un32 (drop 40 b), ms_root_dir_lba = un32 (drop 44 b), ms_data_start_lba = un32 (drop 48 b),
      ms_clean_generation = un32 (drop 52 b), ms_reserved = un32s 114 (drop 56 b)\<rparr>"

definition header_bytes :: "m16_journal_header \<Rightarrow> bytes" where
  "header_bytes h =
     le64 (jh_magic h) @ le32s [jh_version h, jh_state h, jh_seq h, jh_count h, jh_header_checksum h] @ le32s (jh_reserved h)"

definition header_of :: "bytes \<Rightarrow> m16_journal_header" where
  "header_of b =
     \<lparr>jh_magic = un64 b, jh_version = un32 (drop 8 b), jh_state = un32 (drop 12 b), jh_seq = un32 (drop 16 b),
      jh_count = un32 (drop 20 b), jh_header_checksum = un32 (drop 24 b), jh_reserved = un32s 121 (drop 28 b)\<rparr>"

definition desc_bytes :: "m16_journal_desc \<Rightarrow> bytes" where
  "desc_bytes d = le64 (jd_magic d) @ le32s [jd_target_lba d, jd_payload_checksum d] @ le32s (jd_reserved d)"

definition desc_of :: "bytes \<Rightarrow> m16_journal_desc" where
  "desc_of b =
     \<lparr>jd_magic = un64 b, jd_target_lba = un32 (drop 8 b), jd_payload_checksum = un32 (drop 12 b),
      jd_reserved = un32s 124 (drop 16 b)\<rparr>"

text \<open>The inode table in memory: 16 inodes of 128 bytes. The directory block: 12 entries of 40 bytes.\<close>

definition sizeof_m16_inode :: nat where "sizeof_m16_inode = 128"

definition inode_used :: "bytes \<Rightarrow> nat \<Rightarrow> u32" where
  "inode_used inodes i = un32 (drop (i * sizeof_m16_inode) inodes)"

definition inode_kind :: "bytes \<Rightarrow> nat \<Rightarrow> u32" where
  "inode_kind inodes i = un32 (drop (i * sizeof_m16_inode + 4) inodes)"

definition inode_size :: "bytes \<Rightarrow> nat \<Rightarrow> u32" where
  "inode_size inodes i = un32 (drop (i * sizeof_m16_inode + 8) inodes)"

definition inode_direct0 :: "bytes \<Rightarrow> nat \<Rightarrow> u32" where
  "inode_direct0 inodes i = un32 (drop (i * sizeof_m16_inode + 12) inodes)"

definition set_inode :: "bytes \<Rightarrow> nat \<Rightarrow> u32 \<Rightarrow> u32 \<Rightarrow> u32 \<Rightarrow> u32 \<Rightarrow> bytes" where
  "set_inode inodes i used kind len direct0 =
     (let inodes = put (i * sizeof_m16_inode) (le32 used) inodes;
          inodes = put (i * sizeof_m16_inode + 4) (le32 kind) inodes;
          inodes = put (i * sizeof_m16_inode + 8) (le32 len) inodes
      in put (i * sizeof_m16_inode + 12) (le32 direct0) inodes)"

definition sizeof_m16_dirent :: nat where "sizeof_m16_dirent = 40"

definition dir_used :: "bytes \<Rightarrow> nat \<Rightarrow> u32" where
  "dir_used dir i = un32 (drop (i * sizeof_m16_dirent) dir)"

definition dir_ino :: "bytes \<Rightarrow> nat \<Rightarrow> u32" where
  "dir_ino dir i = un32 (drop (i * sizeof_m16_dirent + 4) dir)"

definition dir_name :: "nat \<Rightarrow> nat" where
  "dir_name i = i * sizeof_m16_dirent + 8"

section \<open>Model: memory and strings\<close>

definition m16_zero :: "bytes \<Rightarrow> nat \<Rightarrow> nat \<Rightarrow> bytes" where
  "m16_zero p off n = fold (\<lambda>i p. p[off + i := 0]) [0..<n] p"

definition m16_copy :: "bytes \<Rightarrow> nat \<Rightarrow> bytes \<Rightarrow> nat \<Rightarrow> bytes" where
  "m16_copy dst off src n = fold (\<lambda>i d. d[off + i := src ! i]) [0..<n] dst"

text \<open>A string is the bytes before its terminator.\<close>

definition char_at :: "bytes \<Rightarrow> nat \<Rightarrow> u8" where
  "char_at s i = (if i < length s then s ! i else 0)"

function m16_strlen_from :: "bytes \<Rightarrow> nat \<Rightarrow> nat \<Rightarrow> nat" where
  "m16_strlen_from s mx n = (if n < mx \<and> char_at s n \<noteq> 0 then m16_strlen_from s mx (n + 1) else n)"
  by auto
termination by (relation "measure (\<lambda>(s, mx, n). mx - n)") auto

declare m16_strlen_from.simps [simp del]

definition m16_strlen_bounded :: "bytes \<Rightarrow> nat \<Rightarrow> nat" where
  "m16_strlen_bounded s mx = m16_strlen_from s mx 0"

fun m16_streq_from :: "bytes \<Rightarrow> bytes \<Rightarrow> nat list \<Rightarrow> bool" where
  "m16_streq_from a b [] = True"
| "m16_streq_from a b (i # is) = (if a ! i \<noteq> char_at b i then False else if a ! i = 0 then True else m16_streq_from a b is)"

definition m16_streq :: "bytes \<Rightarrow> bytes \<Rightarrow> bool" where
  "m16_streq a b = m16_streq_from a b [0..<M16_MAX_NAME]"

definition m16_checksum :: "bytes \<Rightarrow> nat \<Rightarrow> u32" where
  "m16_checksum p n = fold (\<lambda>i h. (h XOR ucast (p ! i)) * 16777619) [0..<n] 2166136261"

section \<open>Model: the device\<close>

definition m16_valid_lba :: "m16_blockdev \<Rightarrow> u32 \<Rightarrow> bool" where
  "m16_valid_lba dev lba \<longleftrightarrow> lba < total_blocks dev \<and> lba < M16_MAX_BLOCKS"

definition m16_read_block :: "u32 \<Rightarrow> bytes m16_op" where
  "m16_read_block lba = (\<lambda>dev.
     if \<not> m16_valid_lba dev lba then (Err M16_E_INVAL, dev) else (Ok (block512 (blocks dev lba)), dev))"

definition m16_write_block :: "u32 \<Rightarrow> bytes \<Rightarrow> unit m16_op" where
  "m16_write_block lba buf = (\<lambda>dev.
     if \<not> m16_valid_lba dev lba then (Err M16_E_INVAL, dev)
     else if fail_after dev = 0 then (Err M16_E_IO, dev)
     else
       (let dev = (if fail_after dev > 0 then dev\<lparr>fail_after := fail_after dev - 1\<rparr> else dev)
        in (Ok (), dev\<lparr>blocks := (blocks dev)(lba := block512 buf), writes := writes dev + 1\<rparr>)))"

definition m16_dev_init :: m16_blockdev where
  "m16_dev_init = \<lparr>blocks = (\<lambda>_. replicate M16_BLOCK_SIZE 0), total_blocks = M16_MAX_BLOCKS, writes = 0, fail_after = -1\<rparr>"

definition m16_bitmap_set :: "bytes \<Rightarrow> u32 \<Rightarrow> bytes" where
  "m16_bitmap_set bm i = bm[unat (i div 8) := bm ! unat (i div 8) OR push_bit (unat (i mod 8)) 1]"

definition m16_bitmap_get :: "bytes \<Rightarrow> u32 \<Rightarrow> bool" where
  "m16_bitmap_get bm i \<longleftrightarrow> (bm ! unat (i div 8)) AND push_bit (unat (i mod 8)) 1 \<noteq> 0"

definition table_lba :: "nat \<Rightarrow> u32" where
  "table_lba i = M16_INODE_TABLE_LBA + of_nat i"

definition m16_load_inode_table :: "bytes m16_op" where
  "m16_load_inode_table =
     each_op (\<lambda>i raw. chain (m16_read_block (table_lba i)) (\<lambda>b. ok (put (i * M16_BLOCK_SIZE) b raw)))
       [0..<M16_INODE_TABLE_BLOCKS] (replicate (unat M16_MAX_INODES * sizeof_m16_inode) 0)"

section \<open>Model: transactions\<close>

definition m16_store_inode_table :: "m16_tx \<Rightarrow> bytes \<Rightarrow> (m16_err, m16_tx) res" where
  "m16_store_inode_table tx inodes =
     (if length tx + M16_INODE_TABLE_BLOCKS > M16_JOURNAL_MAX_RECORDS then Err M16_E_NOSPC
      else Ok (tx @ map (\<lambda>i. \<lparr>rec_target_lba = table_lba i, rec_payload = bytes_at (i * M16_BLOCK_SIZE) M16_BLOCK_SIZE inodes\<rparr>)
        [0..<M16_INODE_TABLE_BLOCKS]))"

definition m16_tx_add :: "m16_tx \<Rightarrow> u32 \<Rightarrow> bytes \<Rightarrow> (m16_err, m16_tx) res" where
  "m16_tx_add tx lba payload =
     (if length tx \<ge> M16_JOURNAL_MAX_RECORDS then Err M16_E_NOSPC
      else Ok (tx @ [\<lparr>rec_target_lba = lba, rec_payload = block512 payload\<rparr>]))"

definition m16_header_checksum :: "m16_journal_header \<Rightarrow> u32" where
  "m16_header_checksum h = m16_checksum (header_bytes (h\<lparr>jh_header_checksum := 0\<rparr>)) 512"

definition zero_header :: m16_journal_header where
  "zero_header = \<lparr>jh_magic = 0, jh_version = 0, jh_state = 0, jh_seq = 0, jh_count = 0, jh_header_checksum = 0,
     jh_reserved = replicate 121 0\<rparr>"

definition m16_journal_clear :: "unit m16_op" where
  "m16_journal_clear = m16_write_block M16_JOURNAL_START (header_bytes zero_header)"

definition desc_lba :: "nat \<Rightarrow> u32" where
  "desc_lba i = M16_JOURNAL_START + 1 + of_nat i * 2"

definition desc_for :: "m16_jrec \<Rightarrow> m16_journal_desc" where
  "desc_for r = \<lparr>jd_magic = M16_JMAGIC, jd_target_lba = rec_target_lba r,
     jd_payload_checksum = m16_checksum (rec_payload r) M16_BLOCK_SIZE, jd_reserved = replicate 124 0\<rparr>"

definition commit_header :: "m16_tx \<Rightarrow> u32 \<Rightarrow> m16_journal_header" where
  "commit_header tx seq =
     (let h = zero_header\<lparr>jh_magic := M16_JMAGIC, jh_version := M16_VERSION, jh_state := M16_J_COMMITTED, jh_seq := seq,
                jh_count := of_nat (length tx)\<rparr>
      in h\<lparr>jh_header_checksum := m16_header_checksum h\<rparr>)"

definition log_record :: "m16_tx \<Rightarrow> nat \<Rightarrow> unit \<Rightarrow> unit m16_op" where
  "log_record tx i _ =
     chain (m16_write_block (desc_lba i) (desc_bytes (desc_for (tx ! i)))) (\<lambda>_.
     m16_write_block (desc_lba i + 1) (rec_payload (tx ! i)))"

definition m16_journal_commit :: "m16_tx \<Rightarrow> u32 \<Rightarrow> bool \<Rightarrow> unit m16_op" where
  "m16_journal_commit tx seq stop_after_commit_record =
     (if length tx > M16_JOURNAL_MAX_RECORDS then fail M16_E_INVAL
      else
        chain m16_journal_clear (\<lambda>_.
        chain (each_op (log_record tx) [0..<length tx] ()) (\<lambda>_.
        chain (m16_write_block M16_JOURNAL_START (header_bytes (commit_header tx seq))) (\<lambda>_.
        if stop_after_commit_record then ok ()
        else
          chain (each_op (\<lambda>i _. m16_write_block (rec_target_lba (tx ! i)) (rec_payload (tx ! i))) [0..<length tx] ()) (\<lambda>_.
          m16_journal_clear)))))"

definition replay_record :: "nat \<Rightarrow> unit \<Rightarrow> unit m16_op" where
  "replay_record i _ =
     chain (m16_read_block (desc_lba i)) (\<lambda>b.
     let d = desc_of b
     in (\<lambda>dev.
        (if jd_magic d \<noteq> M16_JMAGIC \<or> \<not> m16_valid_lba dev (jd_target_lba d) then fail M16_E_CORRUPT
         else
           chain (m16_read_block (desc_lba i + 1)) (\<lambda>payload.
           if m16_checksum payload M16_BLOCK_SIZE \<noteq> jd_payload_checksum d then fail M16_E_CORRUPT
           else m16_write_block (jd_target_lba d) payload)) dev))"

definition m16_journal_recover :: "unit m16_op" where
  "m16_journal_recover =
     chain (m16_read_block M16_JOURNAL_START) (\<lambda>b.
     let h = header_of b
     in if jh_magic h = 0 \<and> jh_state h = M16_J_EMPTY then ok ()
        else if jh_magic h \<noteq> M16_JMAGIC \<or> jh_version h \<noteq> M16_VERSION \<or> jh_state h \<noteq> M16_J_COMMITTED \<or>
          jh_count h > of_nat M16_JOURNAL_MAX_RECORDS
        then fail M16_E_CORRUPT
        else if m16_header_checksum h \<noteq> jh_header_checksum h then fail M16_E_CORRUPT
        else chain (each_op replay_record [0..<unat (jh_count h)] ()) (\<lambda>_. m16_journal_clear))"

section \<open>Model: the file system\<close>

definition m16_fresh_super :: "u32 \<Rightarrow> m16_super" where
  "m16_fresh_super n =
     \<lparr>ms_magic = M16_MAGIC, ms_version = M16_VERSION, ms_block_size = of_nat M16_BLOCK_SIZE, ms_total_blocks = n,
      ms_journal_start = M16_JOURNAL_START, ms_journal_blocks = M16_JOURNAL_BLOCKS,
      ms_inode_bitmap_lba = M16_INODE_BITMAP_LBA, ms_block_bitmap_lba = M16_BLOCK_BITMAP_LBA,
      ms_inode_table_lba = M16_INODE_TABLE_LBA, ms_inode_table_blocks = of_nat M16_INODE_TABLE_BLOCKS,
      ms_root_dir_lba = M16_ROOT_DIR_LBA, ms_data_start_lba = M16_DATA_START_LBA, ms_clean_generation = 1,
      ms_reserved = replicate 114 0\<rparr>"

definition m16_zero_block :: bytes where
  "m16_zero_block = replicate M16_BLOCK_SIZE 0"

definition m16_format :: "unit m16_op" where
  "m16_format =
     chain (\<lambda>dev. (Ok (total_blocks dev), dev\<lparr>blocks := (\<lambda>_. m16_zero_block)\<rparr>)) (\<lambda>n.
     chain (m16_write_block 0 (m16_super_bytes (m16_fresh_super n))) (\<lambda>_.
     let ib = m16_bitmap_set m16_zero_block 0;
         bb = fold (\<lambda>i bb. m16_bitmap_set bb (of_nat i)) [0..<unat M16_DATA_START_LBA] m16_zero_block
     in chain (m16_write_block M16_INODE_BITMAP_LBA ib) (\<lambda>_.
        chain (m16_write_block M16_BLOCK_BITMAP_LBA bb) (\<lambda>_.
        let inodes = set_inode (replicate (unat M16_MAX_INODES * sizeof_m16_inode) 0) 0 1 2 0 M16_ROOT_DIR_LBA
        in chain (each_op (\<lambda>i _. m16_write_block (table_lba i) (bytes_at (i * M16_BLOCK_SIZE) M16_BLOCK_SIZE inodes))
             [0..<M16_INODE_TABLE_BLOCKS] ()) (\<lambda>_.
           chain (m16_write_block M16_ROOT_DIR_LBA m16_zero_block) (\<lambda>_.
           m16_journal_clear))))))"

definition m16_mount :: "m16_super m16_op" where
  "m16_mount =
     chain m16_journal_recover (\<lambda>_.
     chain (m16_read_block 0) (\<lambda>b.
     let sb = m16_super_of b
     in if ms_magic sb \<noteq> M16_MAGIC \<or> ms_version sb \<noteq> M16_VERSION \<or> ms_block_size sb \<noteq> of_nat M16_BLOCK_SIZE
        then fail M16_E_CORRUPT
        else if ms_data_start_lba sb \<noteq> M16_DATA_START_LBA \<or> ms_root_dir_lba sb \<noteq> M16_ROOT_DIR_LBA
        then fail M16_E_CORRUPT
        else ok sb))"

definition m16_find_free_inode :: "bytes \<Rightarrow> u32 option" where
  "m16_find_free_inode ib = find (\<lambda>i. \<not> m16_bitmap_get ib i) (map of_nat [1..<unat M16_MAX_INODES])"

definition m16_find_free_block :: "bytes \<Rightarrow> u32 option" where
  "m16_find_free_block bb = find (\<lambda>i. \<not> m16_bitmap_get bb i) (map of_nat [unat M16_DATA_START_LBA..<unat M16_MAX_BLOCKS])"

definition dirents :: nat where
  "dirents = M16_BLOCK_SIZE div sizeof_m16_dirent"

definition m16_find_dirent :: "bytes \<Rightarrow> bytes \<Rightarrow> nat option" where
  "m16_find_dirent dir name =
     find (\<lambda>i. dir_used dir i \<noteq> 0 \<and> m16_streq (drop (dir_name i) dir) name) [0..<dirents]"

definition m16_find_free_dirent :: "bytes \<Rightarrow> nat option" where
  "m16_find_free_dirent dir = find (\<lambda>i. dir_used dir i = 0) [0..<dirents]"

definition set_dirent :: "bytes \<Rightarrow> nat \<Rightarrow> u32 \<Rightarrow> bytes \<Rightarrow> nat \<Rightarrow> bytes" where
  "set_dirent dir slot ino name name_len =
     (let dir = put (slot * sizeof_m16_dirent) (le32 1) dir;
          dir = put (slot * sizeof_m16_dirent + 4) (le32 ino) dir;
          dir = m16_zero dir (dir_name slot) M16_MAX_NAME
      in m16_copy dir (dir_name slot) name name_len)"

text \<open>The value of a search, or the error it stands for.\<close>

definition or_error :: "m16_err \<Rightarrow> 'a option \<Rightarrow> 'a m16_op" where
  "or_error e x = (case x of None \<Rightarrow> fail e | Some v \<Rightarrow> ok v)"

definition m16_write_file_ex :: "bytes option \<Rightarrow> bytes option \<Rightarrow> u32 \<Rightarrow> bool \<Rightarrow> unit m16_op" where
  "m16_write_file_ex name data len stop_after_commit_record =
     (case (name, data) of
        (Some name, Some data) \<Rightarrow>
          let name_len = m16_strlen_bounded name M16_MAX_NAME
          in if name_len = 0 \<or> name_len \<ge> M16_MAX_NAME then fail M16_E_TOOLONG
             else if len > of_nat M16_BLOCK_SIZE then fail M16_E_INVAL
             else
               chain m16_mount (\<lambda>sb.
               chain (m16_read_block M16_INODE_BITMAP_LBA) (\<lambda>ib.
               chain (m16_read_block M16_BLOCK_BITMAP_LBA) (\<lambda>bb.
               chain m16_load_inode_table (\<lambda>inodes.
               chain (m16_read_block M16_ROOT_DIR_LBA) (\<lambda>dir.
               if m16_find_dirent dir name \<noteq> None then fail M16_E_EXISTS
               else
                 chain (or_error M16_E_NOSPC (m16_find_free_inode ib)) (\<lambda>ino.
                 chain (or_error M16_E_NOSPC (m16_find_free_block bb)) (\<lambda>data_block.
                 chain (or_error M16_E_NOSPC (m16_find_free_dirent dir)) (\<lambda>slot.
                 if unat len > length data then fault
                 else
                   let data_blk = m16_copy m16_zero_block 0 data (unat len);
                       ib = m16_bitmap_set ib ino;
                       bb = m16_bitmap_set bb data_block;
                       inodes = set_inode inodes (unat ino) 1 1 len data_block;
                       dir = set_dirent dir slot ino name name_len
                   in chain (of_res (m16_tx_add [] M16_INODE_BITMAP_LBA ib)) (\<lambda>tx.
                      chain (of_res (m16_tx_add tx M16_BLOCK_BITMAP_LBA bb)) (\<lambda>tx.
                      chain (of_res (m16_store_inode_table tx inodes)) (\<lambda>tx.
                      chain (m16_journal_commit tx (ms_clean_generation sb + 1) False) (\<lambda>_.
                      chain (of_res (m16_tx_add [] M16_ROOT_DIR_LBA dir)) (\<lambda>tx.
                      chain (of_res (m16_tx_add tx data_block data_blk)) (\<lambda>tx.
                      m16_journal_commit tx (ms_clean_generation sb + 2) stop_after_commit_record))))))))))))))
      | _ \<Rightarrow> fail M16_E_INVAL)"

definition m16_write_file :: "bytes option \<Rightarrow> bytes option \<Rightarrow> u32 \<Rightarrow> unit m16_op" where
  "m16_write_file name data len = m16_write_file_ex name data len False"

definition m16_read_file :: "bytes option \<Rightarrow> bytes option \<Rightarrow> u32 \<Rightarrow> u32 option \<Rightarrow> (bytes \<times> u32) m16_op" where
  "m16_read_file name out out_cap out_size =
     (case (name, out, out_size) of
        (Some name, Some out, Some _) \<Rightarrow>
          chain m16_mount (\<lambda>_.
          chain m16_load_inode_table (\<lambda>inodes.
          chain (m16_read_block M16_ROOT_DIR_LBA) (\<lambda>dir.
          chain (or_error M16_E_NOENT (m16_find_dirent dir name)) (\<lambda>slot.
          let ino = dir_ino dir slot
          in if ino \<ge> M16_MAX_INODES \<or> inode_used inodes (unat ino) = 0 \<or> inode_kind inodes (unat ino) \<noteq> 1
             then fail M16_E_CORRUPT
             else (\<lambda>dev.
               (if inode_size inodes (unat ino) > out_cap \<or> inode_direct0 inodes (unat ino) \<ge> total_blocks dev
                then fail M16_E_INVAL
                else
                  chain (m16_read_block (inode_direct0 inodes (unat ino))) (\<lambda>blk.
                  let n = unat (inode_size inodes (unat ino))
                  in if n > M16_BLOCK_SIZE \<or> n > length out then fault
                     else ok (m16_copy out 0 blk n, inode_size inodes (unat ino)))) dev)))))
      | _ \<Rightarrow> fail M16_E_INVAL)"

definition fsck_dirent :: "bytes \<Rightarrow> bytes \<Rightarrow> bytes \<Rightarrow> bytes \<Rightarrow> nat \<Rightarrow> unit \<Rightarrow> unit m16_op" where
  "fsck_dirent ib bb inodes dir i _ = (\<lambda>dev.
     (if dir_used dir i \<noteq> 0 then
        if dir_ino dir i \<ge> M16_MAX_INODES \<or> \<not> m16_bitmap_get ib (dir_ino dir i) then fail M16_E_CORRUPT
        else
          let ino = unat (dir_ino dir i)
          in if inode_used inodes ino = 0 \<or> inode_kind inodes ino \<noteq> 1 \<or> inode_size inodes ino > of_nat M16_BLOCK_SIZE
             then fail M16_E_CORRUPT
             else if inode_direct0 inodes ino < M16_DATA_START_LBA \<or> inode_direct0 inodes ino \<ge> total_blocks dev
             then fail M16_E_CORRUPT
             else if unat (inode_direct0 inodes ino div 8) \<ge> length bb then fault
             else if \<not> m16_bitmap_get bb (inode_direct0 inodes ino) then fail M16_E_CORRUPT
             else ok ()
      else ok ()) dev)"

definition m16_fsck :: "unit m16_op" where
  "m16_fsck =
     chain m16_mount (\<lambda>_.
     chain (m16_read_block M16_INODE_BITMAP_LBA) (\<lambda>ib.
     chain (m16_read_block M16_BLOCK_BITMAP_LBA) (\<lambda>bb.
     chain m16_load_inode_table (\<lambda>inodes.
     chain (m16_read_block M16_ROOT_DIR_LBA) (\<lambda>dir.
     if \<not> m16_bitmap_get ib 0 \<or> inode_used inodes 0 \<noteq> 1 \<or> inode_kind inodes 0 \<noteq> 2 \<or> inode_direct0 inodes 0 \<noteq> M16_ROOT_DIR_LBA
     then fail M16_E_CORRUPT
     else if list_ex (\<lambda>b. \<not> m16_bitmap_get bb (of_nat b)) [0..<unat M16_DATA_START_LBA] then fail M16_E_CORRUPT
     else each_op (fsck_dirent ib bb inodes dir) [0..<dirents] ())))))"

text \<open>An interface function called with the device pointer \<open>p\<close>.\<close>

definition m16_call :: "'a m16_op \<Rightarrow> (m16_blockdev option, m16_err, 'a) op" where
  "m16_call f p =
     (case p of None \<Rightarrow> (Err M16_E_INVAL, None) | Some dev \<Rightarrow> (case f dev of (r, dev') \<Rightarrow> (r, Some dev')))"

end
