(* ===== verification/Journal_Sound.thy ===== *)
theory Journal_Sound
  imports Journal
begin

text \<open>
  The journal of \<open>Journal\<close> makes a transaction atomic under crashes: operations that a failing write may
  stop anywhere are described by triples with a crash condition. The files above it are the subject of \<open>Journal_Files\<close>.
\<close>

section \<open>Layout\<close>

lemma m16_lbas [simp]:
  "M16_JOURNAL_START = 1" "M16_INODE_BITMAP_LBA = 18" "M16_BLOCK_BITMAP_LBA = 19" "M16_INODE_TABLE_LBA = 20"
  "M16_ROOT_DIR_LBA = 24" "M16_DATA_START_LBA = 25" "M16_MAX_BLOCKS = 128" "M16_MAX_INODES = 16" "M16_BLOCK_SIZE = 512"
  "M16_INODE_TABLE_BLOCKS = 4" "M16_JOURNAL_MAX_RECORDS = 8" "M16_MAX_NAME = 32" "dirents = 12"
  by (simp_all add: M16_JOURNAL_START_def M16_INODE_BITMAP_LBA_def M16_BLOCK_BITMAP_LBA_def M16_INODE_TABLE_LBA_def
    M16_ROOT_DIR_LBA_def M16_DATA_START_LBA_def M16_MAX_BLOCKS_def M16_MAX_INODES_def M16_BLOCK_SIZE_def
    M16_INODE_TABLE_BLOCKS_def M16_JOURNAL_MAX_RECORDS_def M16_MAX_NAME_def M16_JOURNAL_BLOCKS_def dirents_def sizeof_m16_dirent_def)

lemma header_of_bytes: "length (jh_reserved h) = 121 \<Longrightarrow> header_of (header_bytes h) = h"
  by (simp add: header_of_def header_bytes_def)

lemma desc_of_bytes: "length (jd_reserved d) = 124 \<Longrightarrow> desc_of (desc_bytes d) = d"
  by (simp add: desc_of_def desc_bytes_def)

lemma super_of_m16_bytes: "length (ms_reserved s) = 114 \<Longrightarrow> m16_super_of (m16_super_bytes s) = s"
  by (simp add: m16_super_of_def m16_super_bytes_def)

lemma length_struct_bytes [simp]:
  "length (jh_reserved h) = 121 \<Longrightarrow> length (header_bytes h) = 512"
  "length (jd_reserved d) = 124 \<Longrightarrow> length (desc_bytes d) = 512"
  "length (ms_reserved s) = 114 \<Longrightarrow> length (m16_super_bytes s) = 512"
  by (simp_all add: header_bytes_def desc_bytes_def m16_super_bytes_def)

section \<open>Devices and crashes\<close>

definition whole :: "m16_blockdev \<Rightarrow> bool" where
  "whole d \<longleftrightarrow> total_blocks d = 128 \<and> (\<forall>l < 128. length (blocks d l) = 512)"

text \<open>
  Started in \<open>P\<close>, the operation either returns a value in a state of \<open>Q\<close>, or it is stopped by a failing write in a
  state of \<open>R\<close>. With fault injection disabled it returns, and fault injection stays disabled.
\<close>

definition crash_triple ::
  "(m16_blockdev \<Rightarrow> bool) \<Rightarrow> 'a m16_op \<Rightarrow> ('a \<Rightarrow> m16_blockdev \<Rightarrow> bool) \<Rightarrow> (m16_blockdev \<Rightarrow> bool) \<Rightarrow> bool" where
  "crash_triple P m Q R \<longleftrightarrow>
     (\<forall>d r d'. P d \<longrightarrow> m d = (r, d') \<longrightarrow>
        ((\<exists>x. r = Ok x \<and> Q x d') \<or> (r = Err M16_E_IO \<and> R d' \<and> 0 \<le> fail_after d)) \<and>
        (fail_after d < 0 \<longrightarrow> fail_after d' = fail_after d))"

lemma ct_ok: "(\<And>d. P d \<Longrightarrow> Q x d) \<Longrightarrow> crash_triple P (ok x) Q R"
  by (auto simp: crash_triple_def ok_def)

lemma ct_chain:
  assumes m: "crash_triple P m Q R" and f: "\<And>x. crash_triple (Q x) (f x) Q' R"
  shows "crash_triple P (chain m f) Q' R"
  unfolding crash_triple_def
proof (intro allI impI)
  fix d r d'
  assume P: "P d" and c: "chain m f d = (r, d')"
  obtain r1 d1 where 1: "m d = (r1, d1)" by fastforce
  from m P 1 have s: "(\<exists>x. r1 = Ok x \<and> Q x d1) \<or> (r1 = Err M16_E_IO \<and> R d1 \<and> 0 \<le> fail_after d)"
    "fail_after d < 0 \<longrightarrow> fail_after d1 = fail_after d" by (auto simp: crash_triple_def)
  show "((\<exists>x. r = Ok x \<and> Q' x d') \<or> (r = Err M16_E_IO \<and> R d' \<and> 0 \<le> fail_after d)) \<and> (fail_after d < 0 \<longrightarrow> fail_after d' = fail_after d)"
  proof (cases "\<exists>x. r1 = Ok x \<and> Q x d1")
    case True
    then obtain x where x: "r1 = Ok x" "Q x d1" by blast
    then have "f x d1 = (r, d')" using c 1 by (simp add: chain_ok)
    then have "((\<exists>y. r = Ok y \<and> Q' y d') \<or> (r = Err M16_E_IO \<and> R d' \<and> 0 \<le> fail_after d1)) \<and> (fail_after d1 < 0 \<longrightarrow> fail_after d' = fail_after d1)"
      using f[of x] x(2) unfolding crash_triple_def by blast
    then show ?thesis using s(2) by force
  next
    case False
    then show ?thesis using s c 1 by (auto simp: chain_err)
  qed
qed

lemma ct_weaken:
  "crash_triple P m Q R \<Longrightarrow> (\<And>d. P' d \<Longrightarrow> P d) \<Longrightarrow> (\<And>x d. Q x d \<Longrightarrow> Q' x d) \<Longrightarrow> (\<And>d. R d \<Longrightarrow> R' d) \<Longrightarrow> crash_triple P' m Q' R'"
  unfolding crash_triple_def by blast

lemma ct_each:
  "(\<And>i. i < n \<Longrightarrow> crash_triple (I i) (f i ()) (\<lambda>_. I (Suc i)) R) \<Longrightarrow> crash_triple (I 0) (each_op f [0..<n] ()) (\<lambda>_. I n) R"
proof (induction n)
  case 0
  show ?case by (simp add: ct_ok)
next
  case (Suc n)
  have "crash_triple (I n) (each_op f [n] x) (\<lambda>_. I (Suc n)) R" for x :: unit
    using Suc.prems[of n] by (auto intro!: ct_chain[of _ _ "\<lambda>_. I (Suc n)"] ct_ok)
  then show ?case using Suc by (simp add: each_append del: each_op.simps) (rule ct_chain[of _ _ "\<lambda>_. I n"], auto)
qed

lemma ct_write:
  assumes "lba < 128" "length b = 512" "\<And>d. P d \<Longrightarrow> whole d \<and> R d"
    and "\<And>d d'. P d \<Longrightarrow> whole d' \<Longrightarrow> blocks d' = (blocks d)(lba := b) \<Longrightarrow> Q d'"
  shows "crash_triple P (m16_write_block lba b) (\<lambda>_. Q) R"
  unfolding crash_triple_def
proof (intro allI impI)
  fix d r d'
  assume P: "P d" and w: "m16_write_block lba b d = (r, d')"
  have d: "whole d" "R d" using assms(3)[OF P] by blast+
  then have v: "m16_valid_lba d lba" using assms(1) by (simp add: m16_valid_lba_def whole_def)
  show "((\<exists>x. r = Ok x \<and> Q d') \<or> (r = Err M16_E_IO \<and> R d' \<and> 0 \<le> fail_after d)) \<and> (fail_after d < 0 \<longrightarrow> fail_after d' = fail_after d)"
  proof (cases "fail_after d = 0")
    case True
    then show ?thesis using w v d by (simp add: m16_write_block_def)
  next
    case False
    then have r: "r = Ok ()" "blocks d' = (blocks d)(lba := b)" "total_blocks d' = total_blocks d"
      "fail_after d < 0 \<longrightarrow> fail_after d' = fail_after d"
      using w v assms(2) by (auto simp: m16_write_block_def Let_def split: if_splits)
    moreover have "whole d'" using d(1) r(2,3) assms(2) by (simp add: whole_def)
    ultimately show ?thesis using assms(4)[OF P, of d'] by auto
  qed
qed

lemma ct_read:
  assumes "lba < 128" "\<And>d. P d \<Longrightarrow> whole d"
  shows "crash_triple P (m16_read_block lba) (\<lambda>b d. P d \<and> b = blocks d lba) R"
  using assms by (auto simp: crash_triple_def m16_read_block_def m16_valid_lba_def whole_def)

section \<open>The journal\<close>

text \<open>
  The home locations are the blocks outside the journal. A transaction applied to them stores every record at its
  target.
\<close>

definition home :: "m16_blockdev \<Rightarrow> u32 \<Rightarrow> bytes" where
  "home d l = (if l < 128 \<and> \<not> (1 \<le> l \<and> l < 18) then blocks d l else [])"

definition apply_tx :: "m16_tx \<Rightarrow> (u32 \<Rightarrow> bytes) \<Rightarrow> (u32 \<Rightarrow> bytes)" where
  "apply_tx tx H = fold (\<lambda>r H. H(rec_target_lba r := rec_payload r)) tx H"

definition tx_ok :: "m16_tx \<Rightarrow> bool" where
  "tx_ok tx \<longleftrightarrow> length tx \<le> 8 \<and> (\<forall>r \<in> set tx. 18 \<le> rec_target_lba r \<and> rec_target_lba r < 128 \<and> length (rec_payload r) = 512)"

definition journal_empty :: "m16_blockdev \<Rightarrow> bool" where
  "journal_empty d \<longleftrightarrow> jh_magic (header_of (blocks d 1)) = 0 \<and> jh_state (header_of (blocks d 1)) = M16_J_EMPTY"

definition journaled :: "m16_tx \<Rightarrow> nat \<Rightarrow> m16_blockdev \<Rightarrow> bool" where
  "journaled tx k d \<longleftrightarrow>
     (\<forall>i < k. blocks d (desc_lba i) = desc_bytes (desc_for (tx ! i)) \<and> blocks d (desc_lba i + 1) = rec_payload (tx ! i))"

definition pending :: "m16_tx \<Rightarrow> m16_blockdev \<Rightarrow> bool" where
  "pending tx d \<longleftrightarrow> (\<exists>seq. blocks d 1 = header_bytes (commit_header tx seq)) \<and> journaled tx (length tx) d"

text \<open>
  \<open>at_rest H\<close>: the journal is empty and the home locations hold \<open>H\<close>. \<open>settled H\<close>: they hold \<open>H\<close> once the journal
  is replayed.
\<close>

definition at_rest :: "(u32 \<Rightarrow> bytes) \<Rightarrow> m16_blockdev \<Rightarrow> bool" where
  "at_rest H d \<longleftrightarrow> whole d \<and> journal_empty d \<and> home d = H"

definition replaying :: "m16_tx \<Rightarrow> (u32 \<Rightarrow> bytes) \<Rightarrow> m16_blockdev \<Rightarrow> bool" where
  "replaying tx H d \<longleftrightarrow> whole d \<and> pending tx d \<and> apply_tx tx (home d) = H"

definition settled :: "(u32 \<Rightarrow> bytes) \<Rightarrow> m16_blockdev \<Rightarrow> bool" where
  "settled H d \<longleftrightarrow> at_rest H d \<or> (\<exists>tx. tx_ok tx \<and> replaying tx H d)"

lemma apply_tx_simps: "apply_tx [] H = H" "apply_tx (tx @ [r]) H = (apply_tx tx H)(rec_target_lba r := rec_payload r)"
  by (simp_all add: apply_tx_def)

lemma apply_tx_take: "k < length tx \<Longrightarrow>
    apply_tx (take (Suc k) tx) H = (apply_tx (take k tx) H)(rec_target_lba (tx ! k) := rec_payload (tx ! k))"
  by (simp add: take_Suc_conv_app_nth apply_tx_simps)

lemma apply_tx_agree: "(\<And>l. l \<notin> rec_target_lba ` set tx \<Longrightarrow> G l = H l) \<Longrightarrow> apply_tx tx G = apply_tx tx H"
proof (induction tx arbitrary: G H)
  case (Cons r tx)
  show ?case unfolding apply_tx_def fold_Cons o_apply
    by (rule Cons.IH[unfolded apply_tx_def]) (use Cons.prems in auto)
qed (simp add: apply_tx_def fun_eq_iff)

lemma apply_tx_other: "l \<notin> rec_target_lba ` set tx \<Longrightarrow> apply_tx tx H l = H l"
  by (induction tx arbitrary: H) (auto simp: apply_tx_def)

lemma apply_tx_again: "apply_tx tx (apply_tx (take k tx) H) = apply_tx tx H"
  by (rule apply_tx_agree) (auto intro!: apply_tx_other dest: in_set_takeD)

lemma desc_place:
  assumes "i < 8"
  shows "unat (desc_lba i) = 2 + 2 * i" "unat (desc_lba i + 1) = 3 + 2 * i"
proof -
  have i: "unat (of_nat i :: u32) = i" using assms by (intro unat_of_nat_small) simp
  have m: "unat (of_nat i * 2 :: u32) = 2 * i" using assms i by (subst unat_mult_lem[THEN iffD1]) simp_all
  show "unat (desc_lba i) = 2 + 2 * i" using assms m by (simp add: desc_lba_def unat_add_small)
  then show "unat (desc_lba i + 1) = 3 + 2 * i" using assms by (simp add: unat_add_small)
qed

lemma desc_range:
  assumes "i < 8"
  shows "desc_lba i < 128" "desc_lba i + 1 < 128" "desc_lba i \<noteq> 1" "desc_lba i + 1 \<noteq> 1" "1 \<le> desc_lba i \<and> desc_lba i < 18"
    "1 \<le> desc_lba i + 1 \<and> desc_lba i + 1 < 18" "desc_lba i + 1 \<noteq> desc_lba i"
  using desc_place[OF assms] assms by (auto simp: word_less_nat_alt word_le_nat_alt unat_eq_iff[symmetric])

lemma desc_distinct:
  "i < 8 \<Longrightarrow> j < 8 \<Longrightarrow> i \<noteq> j \<Longrightarrow> desc_lba i \<noteq> desc_lba j \<and> desc_lba i + 1 \<noteq> desc_lba j + 1 \<and> desc_lba i \<noteq> desc_lba j + 1 \<and> desc_lba i + 1 \<noteq> desc_lba j"
  using desc_place[of i] desc_place[of j] by (auto simp: unat_eq_iff[symmetric])

lemma home_journal: "blocks d' = (blocks d)(l := b) \<Longrightarrow> 1 \<le> l \<and> l < 18 \<Longrightarrow> home d' = home d"
  by (auto simp: home_def fun_eq_iff)

lemma home_write: "blocks d' = (blocks d)(l := b) \<Longrightarrow> 18 \<le> l \<Longrightarrow> l < 128 \<Longrightarrow> home d' = (home d)(l := b)"
  by (auto simp: home_def fun_eq_iff)

lemma journaled_write: "blocks d' = (blocks d)(l := b) \<Longrightarrow> journaled tx k d \<Longrightarrow> k \<le> 8 \<Longrightarrow> 18 \<le> l \<Longrightarrow> journaled tx k d'"
proof -
  assume w: "blocks d' = (blocks d)(l := b)" "journaled tx k d" "k \<le> 8" "18 \<le> l"
  have "desc_lba i \<noteq> l \<and> desc_lba i + 1 \<noteq> l" if "i < k" for i
    using desc_range(5,6)[of i] that w(3,4) by (metis linorder_not_le order_less_le_trans)
  then show ?thesis using w(1,2) by (simp add: journaled_def)
qed

lemma pending_write: "blocks d' = (blocks d)(l := b) \<Longrightarrow> pending tx d \<Longrightarrow> length tx \<le> 8 \<Longrightarrow> 18 \<le> l \<Longrightarrow> pending tx d'"
proof -
  assume w: "blocks d' = (blocks d)(l := b)" "pending tx d" "length tx \<le> 8" "18 \<le> l"
  have "l \<noteq> 1" using w(4) by (auto simp: word_le_nat_alt)
  then show ?thesis using w journaled_write[OF w(1) _ w(3,4)] by (auto simp: pending_def)
qed

lemma header_reserved [simp]: "length (jh_reserved zero_header) = 121" "length (jh_reserved (commit_header tx seq)) = 121"
  "length (jd_reserved (desc_for r)) = 124"
  by (simp_all add: zero_header_def commit_header_def Let_def desc_for_def)

lemma clear_empty: "blocks d 1 = header_bytes zero_header \<Longrightarrow> journal_empty d"
  by (simp add: journal_empty_def header_of_bytes) (simp add: zero_header_def M16_J_EMPTY_def)

lemma ct_clear:
  assumes "\<And>d. P d \<Longrightarrow> whole d \<and> home d = H \<and> R d"
  shows "crash_triple P m16_journal_clear (\<lambda>_. at_rest H) R"
  unfolding m16_journal_clear_def m16_lbas
  by (rule ct_write) (use assms home_journal in \<open>auto simp: at_rest_def clear_empty\<close>)

lemma ct_log_record:
  assumes tx: "tx_ok tx" and i: "i < length tx"
  shows "crash_triple (\<lambda>d. at_rest H d \<and> journaled tx i d) (log_record tx i ()) (\<lambda>_ d. at_rest H d \<and> journaled tx (Suc i) d) (at_rest H)"
proof -
  have i8: "i < 8" and p: "length (rec_payload (tx ! i)) = 512" using tx i by (auto simp: tx_ok_def)
  note d = desc_range[OF i8]
  have keep: "at_rest H d' \<and> journaled tx i d'"
    if "at_rest H d" "journaled tx i d" "whole d'" "blocks d' = (blocks d)(l := b)" "l = desc_lba i \<or> l = desc_lba i + 1" for d d' l b
  proof -
    have "l \<noteq> desc_lba j \<and> l \<noteq> desc_lba j + 1" if "j < i" for j
      using desc_distinct[OF i8, of j] \<open>j < i\<close> i8 \<open>l = desc_lba i \<or> l = desc_lba i + 1\<close> by auto
    then have "journaled tx i d'" using that(2,4) by (auto simp: journaled_def)
    moreover have "home d' = home d" using home_journal[OF that(4)] that(5) d(5,6) by blast
    moreover have "blocks d' 1 = blocks d 1" using that(4,5) d(3,4) by auto
    ultimately show ?thesis using that(1,3) by (simp add: at_rest_def journal_empty_def)
  qed
  let ?D = "\<lambda>d. blocks d (desc_lba i) = desc_bytes (desc_for (tx ! i))"
  have "crash_triple (\<lambda>d. at_rest H d \<and> journaled tx i d) (m16_write_block (desc_lba i) (desc_bytes (desc_for (tx ! i))))
      (\<lambda>_ d. at_rest H d \<and> journaled tx i d \<and> ?D d) (at_rest H)"
  proof (rule ct_write[OF d(1)])
    fix d d'
    assume w: "at_rest H d \<and> journaled tx i d" "whole d'" "blocks d' = (blocks d)(desc_lba i := desc_bytes (desc_for (tx ! i)))"
    then show "at_rest H d' \<and> journaled tx i d' \<and> ?D d'" using keep[OF _ _ w(2,3)] by simp
  qed (simp_all add: at_rest_def)
  moreover have "crash_triple (\<lambda>d. at_rest H d \<and> journaled tx i d \<and> ?D d)
      (m16_write_block (desc_lba i + 1) (rec_payload (tx ! i))) (\<lambda>_ d. at_rest H d \<and> journaled tx (Suc i) d) (at_rest H)"
  proof (rule ct_write[OF d(2) p])
    fix d d'
    assume w: "at_rest H d \<and> journaled tx i d \<and> ?D d" "whole d'" "blocks d' = (blocks d)(desc_lba i + 1 := rec_payload (tx ! i))"
    then have "at_rest H d'" "journaled tx i d'" "?D d'" "blocks d' (desc_lba i + 1) = rec_payload (tx ! i)"
      using keep[OF _ _ w(2,3)] d(7) by auto
    then show "at_rest H d' \<and> journaled tx (Suc i) d'" by (simp add: journaled_def less_Suc_eq)
  qed (simp add: at_rest_def)
  ultimately show ?thesis unfolding log_record_def by (rule ct_chain)
qed

text \<open>A commit stopped anywhere leaves the old contents or a journal that produces the new ones.\<close>

lemma ct_commit:
  assumes tx: "tx_ok tx"
  shows "crash_triple (at_rest H) (m16_journal_commit tx seq stop)
    (\<lambda>_ d. if stop then replaying tx (apply_tx tx H) d else at_rest (apply_tx tx H) d)
    (\<lambda>d. at_rest H d \<or> replaying tx (apply_tx tx H) d)"
proof -
  let ?R = "\<lambda>d. at_rest H d \<or> replaying tx (apply_tx tx H) d"
  let ?J = "\<lambda>k d. whole d \<and> pending tx d \<and> home d = apply_tx (take k tx) H"
  have l8: "length tx \<le> 8" using tx by (simp add: tx_ok_def)
  have c1: "crash_triple (at_rest H) m16_journal_clear (\<lambda>_ d. at_rest H d \<and> journaled tx 0 d) ?R"
    by (rule ct_weaken[OF ct_clear[of "at_rest H" H ?R]]) (auto simp: at_rest_def journaled_def)
  have c2: "crash_triple (\<lambda>d. at_rest H d \<and> journaled tx 0 d) (each_op (log_record tx) [0..<length tx] ())
      (\<lambda>_ d. at_rest H d \<and> journaled tx (length tx) d) ?R"
    by (rule ct_each[where I = "\<lambda>k d. at_rest H d \<and> journaled tx k d"]) (rule ct_weaken[OF ct_log_record[OF tx]], auto)
  have c3: "crash_triple (\<lambda>d. at_rest H d \<and> journaled tx (length tx) d)
      (m16_write_block 1 (header_bytes (commit_header tx seq))) (\<lambda>_. ?J 0) ?R"
  proof (rule ct_write)
    fix d d'
    assume d: "at_rest H d \<and> journaled tx (length tx) d" "whole d'" "blocks d' = (blocks d)(1 := header_bytes (commit_header tx seq))"
    have "desc_lba i \<noteq> 1 \<and> desc_lba i + 1 \<noteq> 1" if "i < length tx" for i using desc_range(3,4)[of i] that l8 by simp
    then have "journaled tx (length tx) d'" using d by (simp add: journaled_def)
    moreover have "home d' = home d" using home_journal[OF d(3)] by simp
    ultimately show "?J 0 d'" using d by (auto simp: pending_def at_rest_def apply_tx_simps)
  qed (simp_all add: at_rest_def)
  have c4: "crash_triple (?J 0) (each_op (\<lambda>i _. m16_write_block (rec_target_lba (tx ! i)) (rec_payload (tx ! i))) [0..<length tx] ())
      (\<lambda>_. ?J (length tx)) ?R"
  proof (rule ct_each[where I = ?J])
    fix i assume i: "i < length tx"
    then have t: "18 \<le> rec_target_lba (tx ! i)" "rec_target_lba (tx ! i) < 128" "length (rec_payload (tx ! i)) = 512"
      using tx by (auto simp: tx_ok_def)
    show "crash_triple (?J i) (m16_write_block (rec_target_lba (tx ! i)) (rec_payload (tx ! i))) (\<lambda>_. ?J (Suc i)) ?R"
      by (rule ct_write[OF t(2,3)])
        (use t l8 in \<open>auto simp: pending_write home_write apply_tx_take[OF i] replaying_def apply_tx_again\<close>)
  qed
  have c5: "crash_triple (?J (length tx)) m16_journal_clear (\<lambda>_. at_rest (apply_tx tx H)) ?R"
    by (rule ct_clear) (auto simp: replaying_def apply_tx_again[of tx "length tx", simplified])
  have c6: "crash_triple (?J 0) (ok ()) (\<lambda>_. replaying tx (apply_tx tx H)) ?R"
    by (rule ct_ok) (simp add: replaying_def apply_tx_simps)
  have g: "\<not> length tx > M16_JOURNAL_MAX_RECORDS" using l8 by simp
  show ?thesis unfolding m16_journal_commit_def if_not_P[OF g] m16_lbas(1)
    by (cases stop) (simp_all only: if_True if_False, intro ct_chain[OF c1] ct_chain[OF c2] ct_chain[OF c3] c6,
      intro ct_chain[OF c1] ct_chain[OF c2] ct_chain[OF c3] ct_chain[OF c4] c5)
qed

lemma ct_pre: "(\<And>d. P d \<Longrightarrow> phi) \<Longrightarrow> (phi \<Longrightarrow> crash_triple P m Q R) \<Longrightarrow> crash_triple P m Q R"
  unfolding crash_triple_def by blast

lemma ct_cong: "crash_triple P g Q R \<Longrightarrow> (\<And>d. P d \<Longrightarrow> m d = g d) \<Longrightarrow> crash_triple P m Q R"
  unfolding crash_triple_def by metis

lemma ct_cases: "crash_triple P m Q R \<Longrightarrow> (\<And>x. crash_triple (P' x) m Q R) \<Longrightarrow> crash_triple (\<lambda>d. P d \<or> (\<exists>x. P' x d)) m Q R"
  unfolding crash_triple_def by blast

text \<open>A step of the replay that has stored the first \<open>k\<close> records.\<close>

definition replayed :: "m16_tx \<Rightarrow> (u32 \<Rightarrow> bytes) \<Rightarrow> nat \<Rightarrow> m16_blockdev \<Rightarrow> bool" where
  "replayed tx H k d \<longleftrightarrow> whole d \<and> pending tx d \<and> (\<exists>G. home d = apply_tx (take k tx) G \<and> apply_tx tx G = H)"

lemma replayed_replaying: "replayed tx H k d \<Longrightarrow> replaying tx H d"
  by (auto simp: replayed_def replaying_def apply_tx_again)

lemma ct_replay:
  assumes tx: "tx_ok tx" and i: "i < length tx"
  shows "crash_triple (replayed tx H i) (replay_record i ()) (\<lambda>_. replayed tx H (Suc i)) (replaying tx H)"
proof -
  let ?r = "tx ! i"
  have i8: "i < 8" and t: "18 \<le> rec_target_lba ?r" "rec_target_lba ?r < 128" "length (rec_payload ?r) = 512" and l8: "length tx \<le> 8"
    using tx i by (auto simp: tx_ok_def)
  have w: "\<And>d. replayed tx H i d \<Longrightarrow> whole d" by (simp add: replayed_def)
  have pl: "blocks d (desc_lba i) = desc_bytes (desc_for ?r)" "blocks d (desc_lba i + 1) = rec_payload ?r" if "replayed tx H i d" for d
    using that i by (auto simp: replayed_def pending_def journaled_def)
  have wr: "crash_triple (replayed tx H i) (m16_write_block (rec_target_lba ?r) (rec_payload ?r)) (\<lambda>_. replayed tx H (Suc i)) (replaying tx H)"
  proof (rule ct_write[OF t(2,3)])
    fix d d'
    assume d: "replayed tx H i d" "whole d'" "blocks d' = (blocks d)(rec_target_lba ?r := rec_payload ?r)"
    then show "replayed tx H (Suc i) d'"
      using pending_write[OF d(3) _ l8 t(1)] home_write[OF d(3) t(1,2)] by (auto simp: replayed_def apply_tx_take[OF i])
  qed (auto simp: w replayed_replaying)
  have rd: "crash_triple (\<lambda>d. replayed tx H i d \<and> b = blocks d (desc_lba i + 1))
      (if m16_checksum b 512 \<noteq> jd_payload_checksum (desc_for ?r) then fail M16_E_CORRUPT else m16_write_block (rec_target_lba ?r) b)
      (\<lambda>_. replayed tx H (Suc i)) (replaying tx H)" for b
    by (rule ct_pre[of _ "b = rec_payload ?r"]) (auto simp: pl desc_for_def intro!: ct_weaken[OF wr])
  show ?thesis unfolding replay_record_def Let_def m16_lbas
  proof (rule ct_chain[OF ct_read[OF desc_range(1)[OF i8] w]], assumption)
    fix b
    let ?P = "\<lambda>d. replayed tx H i d \<and> b = blocks d (desc_lba i)"
    show "crash_triple ?P (\<lambda>dev. (if jd_magic (desc_of b) \<noteq> M16_JMAGIC \<or> \<not> m16_valid_lba dev (jd_target_lba (desc_of b)) then fail M16_E_CORRUPT
        else chain (m16_read_block (desc_lba i + 1)) (\<lambda>payload. if m16_checksum payload 512 \<noteq> jd_payload_checksum (desc_of b)
          then fail M16_E_CORRUPT else m16_write_block (jd_target_lba (desc_of b)) payload)) dev)
      (\<lambda>_. replayed tx H (Suc i)) (replaying tx H)"
    proof (rule ct_pre[of _ "desc_of b = desc_for ?r"])
      assume b: "desc_of b = desc_for ?r"
      have tg: "jd_target_lba (desc_for ?r) = rec_target_lba ?r" "jd_magic (desc_for ?r) = M16_JMAGIC" by (simp_all add: desc_for_def)
      show ?thesis unfolding b tg(1)
      proof (rule ct_cong)
        show "crash_triple ?P (chain (m16_read_block (desc_lba i + 1)) (\<lambda>payload. if m16_checksum payload 512 \<noteq> jd_payload_checksum (desc_for ?r)
            then fail M16_E_CORRUPT else m16_write_block (rec_target_lba ?r) payload)) (\<lambda>_. replayed tx H (Suc i)) (replaying tx H)"
          by (rule ct_weaken[OF ct_chain[OF ct_read[OF desc_range(2)[OF i8] w] rd]]) auto
      next
        fix d assume "?P d"
        then have "m16_valid_lba d (rec_target_lba ?r)" using w[of d] t by (simp add: m16_valid_lba_def whole_def)
        then have v: "\<not> (jd_magic (desc_for ?r) \<noteq> M16_JMAGIC \<or> \<not> m16_valid_lba d (rec_target_lba ?r))" by (simp add: tg(2))
        show "(if jd_magic (desc_for ?r) \<noteq> M16_JMAGIC \<or> \<not> m16_valid_lba d (rec_target_lba ?r) then fail M16_E_CORRUPT
          else chain (m16_read_block (desc_lba i + 1)) (\<lambda>payload. if m16_checksum payload 512 \<noteq> jd_payload_checksum (desc_for ?r)
            then fail M16_E_CORRUPT else m16_write_block (rec_target_lba ?r) payload)) d =
          chain (m16_read_block (desc_lba i + 1)) (\<lambda>payload. if m16_checksum payload 512 \<noteq> jd_payload_checksum (desc_for ?r)
            then fail M16_E_CORRUPT else m16_write_block (rec_target_lba ?r) payload) d"
          unfolding if_not_P[OF v] ..
      qed
    qed (auto simp: pl desc_of_bytes)
  qed
qed

lemma ct_recover: "crash_triple (settled H) m16_journal_recover (\<lambda>_. at_rest H) (settled H)"
proof -
  have rest: "crash_triple (at_rest H) m16_journal_recover (\<lambda>_. at_rest H) (settled H)"
    unfolding m16_journal_recover_def Let_def m16_lbas
  proof (rule ct_chain[OF ct_read])
    fix b
    show "crash_triple (\<lambda>d. at_rest H d \<and> b = blocks d 1)
      (if jh_magic (header_of b) = 0 \<and> jh_state (header_of b) = M16_J_EMPTY then ok ()
       else if jh_magic (header_of b) \<noteq> M16_JMAGIC \<or> jh_version (header_of b) \<noteq> M16_VERSION \<or> jh_state (header_of b) \<noteq> M16_J_COMMITTED \<or>
         of_nat 8 < jh_count (header_of b) then fail M16_E_CORRUPT
       else if m16_header_checksum (header_of b) \<noteq> jh_header_checksum (header_of b) then fail M16_E_CORRUPT
       else chain (each_op replay_record [0..<unat (jh_count (header_of b))] ()) (\<lambda>_. m16_journal_clear)) (\<lambda>_. at_rest H) (settled H)"
      by (rule ct_pre[of _ "jh_magic (header_of b) = 0 \<and> jh_state (header_of b) = M16_J_EMPTY"])
        (auto simp: at_rest_def journal_empty_def intro!: ct_ok)
  qed (simp_all add: at_rest_def)
  have rep: "crash_triple (\<lambda>d. tx_ok tx \<and> replaying tx H d) m16_journal_recover (\<lambda>_. at_rest H) (settled H)" for tx
  proof (rule ct_pre[of _ "tx_ok tx"])
    assume tx: "tx_ok tx"
    then have l8: "length tx \<le> 8" by (simp add: tx_ok_def)
    then have n: "unat (of_nat (length tx) :: u32) = length tx" by (intro unat_of_nat_small) simp
    then have le: "\<not> (8 :: u32) < of_nat (length tx)" using l8 by (simp add: word_less_nat_alt)
    have "crash_triple (replayed tx H 0) (each_op replay_record [0..<length tx] ()) (\<lambda>_. replayed tx H (length tx)) (settled H)"
      by (rule ct_each, rule ct_weaken[OF ct_replay[OF tx]]) (use tx in \<open>auto simp: settled_def\<close>)
    moreover have "crash_triple (replayed tx H (length tx)) m16_journal_clear (\<lambda>_. at_rest H) (settled H)"
      by (rule ct_clear) (use tx replayed_replaying[of tx H "length tx"] in \<open>auto simp: settled_def replayed_def\<close>)
    ultimately have loop: "crash_triple (replayed tx H 0) (chain (each_op replay_record [0..<length tx] ()) (\<lambda>_. m16_journal_clear))
      (\<lambda>_. at_rest H) (settled H)" by (rule ct_chain)
    show "crash_triple (\<lambda>d. tx_ok tx \<and> replaying tx H d) m16_journal_recover (\<lambda>_. at_rest H) (settled H)"
      unfolding m16_journal_recover_def Let_def m16_lbas
    proof (rule ct_chain[OF ct_read])
      fix b
      let ?P = "\<lambda>d. (tx_ok tx \<and> replaying tx H d) \<and> b = blocks d 1"
      show "crash_triple ?P
        (if jh_magic (header_of b) = 0 \<and> jh_state (header_of b) = M16_J_EMPTY then ok ()
         else if jh_magic (header_of b) \<noteq> M16_JMAGIC \<or> jh_version (header_of b) \<noteq> M16_VERSION \<or> jh_state (header_of b) \<noteq> M16_J_COMMITTED \<or>
           of_nat 8 < jh_count (header_of b) then fail M16_E_CORRUPT
         else if m16_header_checksum (header_of b) \<noteq> jh_header_checksum (header_of b) then fail M16_E_CORRUPT
         else chain (each_op replay_record [0..<unat (jh_count (header_of b))] ()) (\<lambda>_. m16_journal_clear)) (\<lambda>_. at_rest H) (settled H)"
      proof (rule ct_pre[of _ "\<exists>seq. header_of b = commit_header tx seq"])
        assume "\<exists>seq. header_of b = commit_header tx seq"
        then obtain seq where b: "header_of b = commit_header tx seq" ..
        have "jh_magic (commit_header tx seq) = M16_JMAGIC" "M16_JMAGIC \<noteq> 0" "jh_version (commit_header tx seq) = M16_VERSION"
          "jh_state (commit_header tx seq) = M16_J_COMMITTED" "jh_count (commit_header tx seq) = of_nat (length tx)"
          "m16_header_checksum (commit_header tx seq) = jh_header_checksum (commit_header tx seq)"
          by (simp_all add: commit_header_def Let_def zero_header_def m16_header_checksum_def M16_JMAGIC_def)
        then show ?thesis unfolding b
          by (auto simp: n le intro!: ct_weaken[OF loop] exI simp: replayed_def replaying_def apply_tx_simps)
      qed (auto simp: replaying_def pending_def header_of_bytes)
    qed (auto simp: replaying_def)
  qed simp
  show ?thesis using ct_cases[OF rest, of "\<lambda>tx d. tx_ok tx \<and> replaying tx H d"] rep by (simp add: settled_def[abs_def])
qed

section \<open>Crashes\<close>

text \<open>The device after a restart, with room for \<open>k\<close> more writes; \<open>power_on\<close> without a limit.\<close>

definition restart :: "int \<Rightarrow> m16_blockdev \<Rightarrow> m16_blockdev" where
  "restart k d = d\<lparr>fail_after := k\<rparr>"

abbreviation power_on :: "m16_blockdev \<Rightarrow> m16_blockdev" where
  "power_on \<equiv> restart (- 1)"

definition crashed_recoveries :: "int list \<Rightarrow> m16_blockdev \<Rightarrow> m16_blockdev" where
  "crashed_recoveries ks d = fold (\<lambda>k d. snd (m16_journal_recover (restart k d))) ks d"

lemma restart_simps [simp]:
  "fail_after (restart k d) = k" "whole (restart k d) = whole d" "journal_empty (restart k d) = journal_empty d"
  "pending tx (restart k d) = pending tx d"
  by (simp_all add: restart_def whole_def journal_empty_def pending_def journaled_def)

lemma home_restart [simp]: "home (restart k d) = home d"
proof -
  have "blocks (restart k d) = blocks d" by (simp add: restart_def)
  then show ?thesis by (intro ext) (simp only: home_def)
qed

lemma settled_restart [simp]: "settled H (restart k d) = settled H d" "at_rest H (restart k d) = at_rest H d"
  by (simp_all add: settled_def at_rest_def replaying_def)

lemma ctD:
  assumes "crash_triple P m Q R" "P d" "m d = (r, d')"
  shows "(\<exists>x. r = Ok x \<and> Q x d') \<or> (r = Err M16_E_IO \<and> R d' \<and> 0 \<le> fail_after d)" "fail_after d < 0 \<Longrightarrow> fail_after d' = fail_after d"
  using assms by (auto simp: crash_triple_def)

lemma ct_on:
  assumes "crash_triple P m Q R" "P (power_on d)"
  obtains x d' where "m (power_on d) = (Ok x, d')" "Q x d'" "fail_after d' = - 1"
  using assms ctD[OF assms(1,2)] by (cases "m (power_on d)") auto

lemma at_rest_settled: "at_rest H d \<Longrightarrow> settled H d"
  by (simp add: settled_def)

lemma recover_settled: "settled H d \<Longrightarrow> settled H (snd (m16_journal_recover (restart k d)))"
  using ctD(1)[OF ct_recover, of H "restart k d"] at_rest_settled by (cases "m16_journal_recover (restart k d)") fastforce

lemma crashed_settled: "settled H d \<Longrightarrow> settled H (crashed_recoveries ks d)"
  unfolding crashed_recoveries_def by (induction ks arbitrary: d) (simp_all add: recover_settled)

lemma recover_on: "settled H d \<Longrightarrow> m16_journal_recover (power_on d) = (r, d') \<Longrightarrow> r = Ok () \<and> at_rest H d'"
  using ctD(1)[OF ct_recover, of H "power_on d" r d'] by auto

lemma commit_settled:
  assumes "whole d" "journal_empty d" "tx_ok tx" "m16_journal_commit tx seq stop (restart k d) = (r, d')"
  shows "settled (apply_tx tx (home d)) d' \<or> r \<noteq> Ok () \<and> settled (home d) d'"
proof -
  have "at_rest (home d) (restart k d)" using assms(1,2) by (simp add: at_rest_def)
  from ctD(1)[OF ct_commit[OF assms(3)] this assms(4)] assms(3) show ?thesis
    by (cases stop) (auto simp: settled_def)
qed

text \<open>
  C39. A transaction is atomic. Committed with power failing after any number of writes, followed by any number
  of recoveries that are themselves cut off, a complete recovery succeeds, leaves the journal empty, and the blocks
  outside the journal hold either the complete transaction or, only if the commit had not reported success, exactly what
  they held before.
\<close>

theorem journal_commit_atomic:
  assumes "whole dev" "journal_empty dev" "tx_ok tx"
    and "m16_journal_commit tx seq stop (restart k dev) = (r, dev1)"
    and "m16_journal_recover (power_on (crashed_recoveries ks dev1)) = (r', dev2)"
  shows "r' = Ok () \<and> journal_empty dev2 \<and>
    (home dev2 = apply_tx tx (home dev) \<or> r \<noteq> Ok () \<and> home dev2 = home dev)"
  using commit_settled[OF assms(1-4)] recover_on[OF crashed_settled assms(5)] by (auto simp: at_rest_def)

theorem journal_commit_atomic_witness:
  "\<exists>dev1 dev2. m16_journal_commit [\<lparr>rec_target_lba = 25, rec_payload = replicate 512 7\<rparr>] 1 True (power_on m16_dev_init) = (Ok (), dev1) \<and>
    m16_journal_recover (power_on (crashed_recoveries [0, 1] dev1)) = (Ok (), dev2) \<and> home dev2 25 = replicate 512 7"
proof -
  let ?tx = "[\<lparr>rec_target_lba = 25, rec_payload = replicate 512 7\<rparr>]"
  have d: "whole m16_dev_init" "journal_empty m16_dev_init" "tx_ok ?tx"
    by (simp_all add: whole_def journal_empty_def m16_dev_init_def header_of_def un64_def M16_J_EMPTY_def tx_ok_def)
  obtain u dev1 where c: "m16_journal_commit ?tx 1 True (power_on m16_dev_init) = (Ok u, dev1)"
    using ct_on[OF ct_commit[OF d(3), of "home m16_dev_init" 1 True], of m16_dev_init] d by (auto simp: at_rest_def)
  obtain r dev2 where r: "m16_journal_recover (power_on (crashed_recoveries [0, 1] dev1)) = (r, dev2)" by fastforce
  from journal_commit_atomic[OF d c r] c r show ?thesis by (auto simp: apply_tx_def)
qed

end
