(* ===== verification/Journal_Files.thy ===== *)
theory Journal_Files
  imports Journal_Sound
begin

text \<open>
  Crash consistency of the journalling file system at the level of files. \<open>sound H\<close> is the invariant of the home
  blocks, \<open>content H name\<close> the file they hold under a name, and \<open>keeps H G\<close> says that \<open>G\<close> is sound and still holds every
  file of \<open>H\<close>. Each transaction of a write keeps the files, so by the crash triples of the journal every call, whichever of
  its writes fails, ends in a state that settles to home blocks that keep them.
\<close>

section \<open>Inodes and directory entries\<close>

lemma un32_at: "off + 4 \<le> length b \<Longrightarrow> un32 (drop off b) = un32 (bytes_at off 4 b)"
  by (simp add: un32_def bytes_at_def)

lemma bytes_at_put_inside:
  "off \<le> o' \<Longrightarrow> o' + n \<le> off + length xs \<Longrightarrow> off + length xs \<le> length b \<Longrightarrow> bytes_at o' n (put off xs b) = bytes_at (o' - off) n xs"
  by (rule nth_equalityI) (auto simp: bytes_at_def nth_put)

lemma put_append: "off + length xs + length ys \<le> length b \<Longrightarrow> o' = off + length xs \<Longrightarrow> put o' ys (put off xs b) = put off (xs @ ys) b"
  by (simp add: put_def ac_simps)

lemma set_inode_eq:
  "i < 16 \<Longrightarrow> length raw = 2048 \<Longrightarrow> set_inode raw i u k s d = put (i * 128) (le32 u @ le32 k @ le32 s @ le32 d) raw"
  by (simp add: set_inode_def Let_def sizeof_m16_inode_def put_append)

lemmas inode_defs = inode_used_def inode_kind_def inode_size_def inode_direct0_def sizeof_m16_inode_def

lemma inode_put:
  assumes "i < 16" "j < 16" "length raw = 2048" "o' \<in> {0, 4, 8, 12}" "length e = 16"
  shows "un32 (drop (j * 128 + o') (put (i * 128) e raw)) = (if j = i then un32 (bytes_at o' 4 e) else un32 (drop (j * 128 + o') raw))"
proof -
  have r: "j * 128 + o' + 4 \<le> 2048" "o' + 4 \<le> 16" using assms(2,4) by auto
  then have "un32 (drop (j * 128 + o') (put (i * 128) e raw)) = un32 (bytes_at (j * 128 + o') 4 (put (i * 128) e raw))"
    using assms by (intro un32_at) simp
  moreover have "bytes_at (j * 128 + o') 4 (put (i * 128) e raw) = bytes_at o' 4 e" if "j = i"
    using that r assms bytes_at_put_inside[of "i * 128" "j * 128 + o'" 4 e raw] by simp
  moreover have "bytes_at (j * 128 + o') 4 (put (i * 128) e raw) = bytes_at (j * 128 + o') 4 raw" if "j \<noteq> i"
    using that r assms by (intro bytes_at_put_other) (simp_all, linarith)
  ultimately show ?thesis using un32_at[of "j * 128 + o'" raw] r assms(3) by simp
qed

lemma set_inode_get:
  assumes "i < 16" "j < 16" "length raw = 2048"
  shows "inode_used (set_inode raw i u k s d) j = (if j = i then u else inode_used raw j)"
    "inode_kind (set_inode raw i u k s d) j = (if j = i then k else inode_kind raw j)"
    "inode_size (set_inode raw i u k s d) j = (if j = i then s else inode_size raw j)"
    "inode_direct0 (set_inode raw i u k s d) j = (if j = i then d else inode_direct0 raw j)"
  using inode_put[OF assms, of 0 "le32 u @ le32 k @ le32 s @ le32 d"] inode_put[OF assms, of 4 "le32 u @ le32 k @ le32 s @ le32 d"]
    inode_put[OF assms, of 8 "le32 u @ le32 k @ le32 s @ le32 d"] inode_put[OF assms, of 12 "le32 u @ le32 k @ le32 s @ le32 d"]
  by (simp_all add: inode_defs set_inode_eq[OF assms(1,3)] bytes_at_def)

lemma length_set_inode: "i < 16 \<Longrightarrow> length raw = 2048 \<Longrightarrow> length (set_inode raw i u k s d) = 2048"
  by (simp add: set_inode_eq)

definition new_entry :: "u32 \<Rightarrow> bytes \<Rightarrow> nat \<Rightarrow> bytes" where
  "new_entry ino name n = le32 1 @ le32 ino @ take n name @ replicate (32 - n) 0"

lemma set_dirent_eq:
  assumes "length dir = 512" "slot < 12" "n \<le> length name" "n \<le> 32"
  shows "set_dirent dir slot ino name n = put (slot * 40) (new_entry ino name n) dir"
proof -
  let ?d = "put (slot * 40) (le32 1 @ le32 ino) dir"
  have a: "put (slot * 40 + 4) (le32 ino) (put (slot * 40) (le32 1) dir) = ?d" using assms by (simp add: put_append)
  have b: "m16_zero ?d (slot * 40 + 8) 32 = put (slot * 40) (le32 1 @ le32 ino @ replicate 32 0) dir"
    using assms by (simp add: m16_zero_def fold_fill_put put_append)
  have "m16_copy (put (slot * 40) (le32 1 @ le32 ino @ replicate 32 0) dir) (slot * 40 + 8) name n =
      put (slot * 40 + 8) (take n name) (put (slot * 40) (le32 1 @ le32 ino @ replicate 32 0) dir)"
    unfolding m16_copy_def using assms by (intro fold_copy_put) simp_all
  also have "\<dots> = put (slot * 40) (new_entry ino name n) dir" using assms by (simp add: put_def new_entry_def)
  finally show ?thesis using a b by (simp add: set_dirent_def Let_def sizeof_m16_dirent_def dir_name_def)
qed

lemma length_new_entry: "n \<le> length name \<Longrightarrow> n \<le> 32 \<Longrightarrow> length (new_entry ino name n) = 40"
  by (simp add: new_entry_def)

lemma dir_put:
  assumes "length dir = 512" "slot < 12" "j < 12" "length e = 40" "o' + k \<le> 40"
  shows "bytes_at (j * 40 + o') k (put (slot * 40) e dir) = (if j = slot then bytes_at o' k e else bytes_at (j * 40 + o') k dir)"
proof (cases "j = slot")
  case True
  then show ?thesis using assms bytes_at_put_inside[of "slot * 40" "j * 40 + o'" k e dir] by simp
next
  case False
  then show ?thesis using assms by (simp, intro bytes_at_put_other) (simp_all, linarith)
qed

lemma dir_get:
  assumes "length dir = 512" "slot < 12" "j < 12" "n \<le> length name" "n \<le> 32"
  shows "dir_used (set_dirent dir slot ino name n) j = (if j = slot then 1 else dir_used dir j)"
    "dir_ino (set_dirent dir slot ino name n) j = (if j = slot then ino else dir_ino dir j)"
    "bytes_at (dir_name j) 32 (set_dirent dir slot ino name n) =
      (if j = slot then take n name @ replicate (32 - n) 0 else bytes_at (dir_name j) 32 dir)"
proof -
  note e = set_dirent_eq[OF assms(1,2,4,5), of ino] and l = length_new_entry[OF assms(4,5), of ino]
  have u: "un32 (drop (j * 40 + o') b) = un32 (bytes_at (j * 40 + o') 4 b)" if "length b = 512" "o' \<le> 36" for b o'
    using that assms(3) by (intro un32_at) simp
  have lb: "length (put (slot * 40) (new_entry ino name n) dir) = 512" using assms l by simp
  show "dir_used (set_dirent dir slot ino name n) j = (if j = slot then 1 else dir_used dir j)"
    using u[of _ 0] dir_put[OF assms(1-3) l, of 0 4] lb assms(1)
    by (simp add: dir_used_def sizeof_m16_dirent_def e) (simp add: new_entry_def bytes_at_def)
  show "dir_ino (set_dirent dir slot ino name n) j = (if j = slot then ino else dir_ino dir j)"
    using u[of _ 4] dir_put[OF assms(1-3) l, of 4 4] lb assms(1)
    by (simp add: dir_ino_def sizeof_m16_dirent_def e) (simp add: new_entry_def bytes_at_def)
  show "bytes_at (dir_name j) 32 (set_dirent dir slot ino name n) =
      (if j = slot then take n name @ replicate (32 - n) 0 else bytes_at (dir_name j) 32 dir)"
    using dir_put[OF assms(1-3) l, of 8 32] assms
    by (simp add: dir_name_def sizeof_m16_dirent_def e) (simp add: new_entry_def bytes_at_def)
qed

section \<open>Names\<close>

text \<open>Two strings agree up to the first zero byte, or on all 32 bytes.\<close>

definition same_name :: "(nat \<Rightarrow> u8) \<Rightarrow> (nat \<Rightarrow> u8) \<Rightarrow> bool" where
  "same_name a b \<longleftrightarrow> (\<forall>i < 32. (\<forall>j < i. a j \<noteq> 0) \<longrightarrow> a i = b i)"

lemma streq_from_step: "k < n \<Longrightarrow> m16_streq_from a b [k..<n] \<longleftrightarrow> a ! k = char_at b k \<and> (a ! k \<noteq> 0 \<longrightarrow> m16_streq_from a b [Suc k..<n])"
  by (simp add: upt_conv_Cons)

lemma streq_from_iff:
  "m16_streq_from a b [k..<n] \<longleftrightarrow> (\<forall>i. k \<le> i \<and> i < n \<and> (\<forall>j \<in> {k..<i}. a ! j \<noteq> 0) \<longrightarrow> a ! i = char_at b i)" (is "_ \<longleftrightarrow> ?all k")
proof (induction "n - k" arbitrary: k)
  case (Suc m)
  then have k: "k < n" and ih: "m16_streq_from a b [Suc k..<n] \<longleftrightarrow> ?all (Suc k)" by simp_all
  have split: "{k..<i} = insert k {Suc k..<i}" if "k < i" for i using that by auto
  show ?case
  proof
    assume l: "m16_streq_from a b [k..<n]"
    show "?all k"
    proof (intro allI impI)
      fix i assume i: "k \<le> i \<and> i < n \<and> (\<forall>j \<in> {k..<i}. a ! j \<noteq> 0)"
      show "a ! i = char_at b i"
      proof (cases "i = k")
        case True
        then show ?thesis using l streq_from_step[OF k] by simp
      next
        case False
        then have "k < i" using i by simp
        then have "a ! k \<noteq> 0" "\<forall>j \<in> {Suc k..<i}. a ! j \<noteq> 0" using i split[of i] by simp_all
        moreover from this have "?all (Suc k)" using l streq_from_step[OF k, of a b] ih by blast
        ultimately show ?thesis using i \<open>k < i\<close> by simp
      qed
    qed
  next
    assume r: "?all k"
    then have "a ! k = char_at b k" using k by simp
    moreover have "?all (Suc k)" if "a ! k \<noteq> 0"
    proof (intro allI impI)
      fix i assume i: "Suc k \<le> i \<and> i < n \<and> (\<forall>j \<in> {Suc k..<i}. a ! j \<noteq> 0)"
      then show "a ! i = char_at b i" using r split[of i] that by simp
    qed
    ultimately show "m16_streq_from a b [k..<n]" using streq_from_step[OF k] ih by blast
  qed
qed auto

lemma streq_iff: "m16_streq a b \<longleftrightarrow> same_name ((!) a) (char_at b)"
  unfolding m16_streq_def m16_lbas streq_from_iff same_name_def by auto

lemma same_name_swap: "same_name a b \<Longrightarrow> same_name b a"
  unfolding same_name_def
proof (intro allI impI)
  fix i assume h: "\<forall>i < 32. (\<forall>j < i. a j \<noteq> 0) \<longrightarrow> a i = b i" and i: "i < 32" and z: "\<forall>j < i. b j \<noteq> (0 :: u8)"
  have "j < i \<Longrightarrow> a j \<noteq> 0" for j
  proof (induction j rule: less_induct)
    case (less j)
    then have "\<forall>k < j. a k \<noteq> 0" by (meson less_trans)
    then have "a j = b j" using h less.prems i by (meson less_trans)
    then show ?case using z less.prems by metis
  qed
  then show "b i = a i" using h i by metis
qed

lemma same_name_trans: "same_name a b \<Longrightarrow> same_name b c \<Longrightarrow> same_name a c"
  unfolding same_name_def
proof (intro allI impI)
  fix i assume h: "\<forall>i < 32. (\<forall>j < i. a j \<noteq> 0) \<longrightarrow> a i = b i" "\<forall>i < 32. (\<forall>j < i. b j \<noteq> (0 :: u8)) \<longrightarrow> b i = c i"
    and i: "i < 32" and z: "\<forall>j < i. a j \<noteq> 0"
  have "a j = b j" if "j \<le> i" for j using h(1) z i that by (meson le_less_trans less_le_trans)
  then show "a i = c i" using h(2) i z by (metis less_imp_le order_refl)
qed

lemma strlen_from_spec:
  "m16_strlen_from s mx n = k \<Longrightarrow> n \<le> mx \<Longrightarrow> n \<le> k \<and> k \<le> mx \<and> (\<forall>i \<in> {n..<k}. char_at s i \<noteq> 0) \<and> (k < mx \<longrightarrow> char_at s k = 0)"
proof (induction s mx n rule: m16_strlen_from.induct)
  case (1 s mx n)
  show ?case
  proof (cases "n < mx \<and> char_at s n \<noteq> 0")
    case True
    then have "m16_strlen_from s mx (n + 1) = k" using 1(2) by (simp add: m16_strlen_from.simps[of s mx n])
    from 1(1)[OF True this] True have ih: "n + 1 \<le> k" "k \<le> mx" "\<forall>i \<in> {n + 1..<k}. char_at s i \<noteq> 0" "k < mx \<longrightarrow> char_at s k = 0" by auto
    moreover have "{n..<k} = insert n {n + 1..<k}" using ih(1) by auto
    ultimately show ?thesis using True by simp
  next
    case False
    then have "k = n" using 1(2) by (auto simp: m16_strlen_from.simps[of s mx n] split: if_splits)
    then show ?thesis using False 1(3) by auto
  qed
qed

lemma strlen_spec:
  assumes "m16_strlen_bounded s 32 = n" "n < 32"
  shows "n \<le> length s" "char_at s n = 0" "\<And>i. i < n \<Longrightarrow> char_at s i = s ! i \<and> s ! i \<noteq> 0"
proof -
  have c: "\<forall>i \<in> {0..<n}. char_at s i \<noteq> 0" "char_at s n = 0"
    using strlen_from_spec[of s 32 0 n] assms by (simp_all add: m16_strlen_bounded_def)
  then show "char_at s n = 0" by blast
  have i: "i < length s \<and> char_at s i \<noteq> 0" if "i < n" for i
    using c(1) that by (metis atLeastLessThan_iff char_at_def le0)
  then show "n \<le> length s" by (meson linorder_not_le order_less_irrefl)
  show "char_at s i = s ! i \<and> s ! i \<noteq> 0" if "i < n" for i using i[OF that] by (auto simp: char_at_def)
qed

lemma stored_name:
  assumes "m16_strlen_bounded s 32 = n" "n < 32"
  shows "same_name ((!) (take n s @ replicate (32 - n) 0)) (char_at s)"
  unfolding same_name_def
proof (intro allI impI)
  let ?a = "take n s @ replicate (32 - n) (0 :: u8)"
  fix i assume i: "i < 32" and z: "\<forall>j < i. ?a ! j \<noteq> 0"
  note sp = strlen_spec[OF assms]
  have "?a ! n = 0" using sp(1) assms(2) by (simp add: nth_append)
  then have "i \<le> n" using z by (metis linorder_not_le)
  then show "?a ! i = char_at s i" using sp i by (cases "i = n") (simp_all add: nth_append)
qed

definition entry_name :: "bytes \<Rightarrow> nat \<Rightarrow> nat \<Rightarrow> u8" where
  "entry_name dir i = (!) (bytes_at (dir_name i) 32 dir)"

lemma same_name_cong: "(\<And>i. i < 32 \<Longrightarrow> a i = a' i) \<Longrightarrow> same_name a b = same_name a' b"
  unfolding same_name_def by (metis less_trans)

lemma find_dirent_iff:
  assumes "length dir = 512"
  shows "m16_find_dirent dir name = find (\<lambda>i. dir_used dir i \<noteq> 0 \<and> same_name (entry_name dir i) (char_at name)) [0..<12]"
  unfolding m16_find_dirent_def m16_lbas
proof (rule find_cong[OF refl])
  fix i assume "i \<in> set [0..<12]"
  then have i: "i < 12" by simp
  have "same_name ((!) (drop (dir_name i) dir)) (char_at name) = same_name (entry_name dir i) (char_at name)"
    using assms i by (intro same_name_cong) (simp add: entry_name_def bytes_at_def dir_name_def sizeof_m16_dirent_def)
  then show "(dir_used dir i \<noteq> 0 \<and> m16_streq (drop (dir_name i) dir) name) = (dir_used dir i \<noteq> 0 \<and> same_name (entry_name dir i) (char_at name))"
    by (simp add: streq_iff)
qed

text \<open>A new entry for a name that is not in the directory hides no other.\<close>

lemma find_dirent_new:
  assumes l: "length dir = 512" "slot < 12" "dir_used dir slot = 0" and n: "m16_strlen_bounded nm 32 = n" "n < 32"
    and new: "m16_find_dirent dir nm = None" and old: "m16_find_dirent dir name = Some s"
  shows "m16_find_dirent (set_dirent dir slot ino nm n) name = Some s"
proof -
  let ?d = "set_dirent dir slot ino nm n"
  have nl: "n \<le> length nm" "n \<le> 32" using strlen_spec(1)[OF n] n(2) by simp_all
  note g = dir_get[OF l(1,2) _ nl]
  have ld: "length ?d = 512" using set_dirent_eq[OF l(1,2) nl] length_new_entry[OF nl] l by simp
  have s: "s < 12" "dir_used dir s \<noteq> 0" "same_name (entry_name dir s) (char_at name)"
    using old unfolding find_dirent_iff[OF l(1)] by (auto simp: find_Some_iff)
  have no: "\<not> same_name (entry_name dir s) (char_at nm)"
    using new s unfolding find_dirent_iff[OF l(1)] by (auto simp: find_None_iff)
  have "\<not> same_name (entry_name ?d slot) (char_at name)"
  proof
    assume a: "same_name (entry_name ?d slot) (char_at name)"
    have "same_name (entry_name ?d slot) (char_at nm)" using stored_name[OF n] g(3)[OF l(2)] by (simp add: entry_name_def)
    then have "same_name (entry_name dir s) (char_at nm)"
      using same_name_trans[OF s(3) same_name_trans[OF same_name_swap[OF a]]] by blast
    with no show False ..
  qed
  then have "find (\<lambda>i. dir_used ?d i \<noteq> 0 \<and> same_name (entry_name ?d i) (char_at name)) [0..<12] =
      find (\<lambda>i. dir_used dir i \<noteq> 0 \<and> same_name (entry_name dir i) (char_at name)) [0..<12]"
    using g l by (intro find_cong[OF refl]) (auto simp: entry_name_def)
  then show ?thesis using old unfolding find_dirent_iff[OF l(1)] find_dirent_iff[OF ld] by simp
qed

section \<open>Sound file systems\<close>

definition tab :: "(u32 \<Rightarrow> bytes) \<Rightarrow> bytes" where
  "tab H = H 20 @ H 21 @ H 22 @ H 23"

definition inode_ok :: "(u32 \<Rightarrow> bytes) \<Rightarrow> u32 \<Rightarrow> bool" where
  "inode_ok H ino \<longleftrightarrow> ino < 16 \<and> m16_bitmap_get (H 18) ino \<and> inode_used (tab H) (unat ino) \<noteq> 0 \<and> inode_kind (tab H) (unat ino) = 1 \<and>
     inode_size (tab H) (unat ino) \<le> 512 \<and> 25 \<le> inode_direct0 (tab H) (unat ino) \<and> inode_direct0 (tab H) (unat ino) < 128 \<and>
     m16_bitmap_get (H 19) (inode_direct0 (tab H) (unat ino))"

definition sound :: "(u32 \<Rightarrow> bytes) \<Rightarrow> bool" where
  "sound H \<longleftrightarrow> (\<forall>l < 128. l = 0 \<or> 18 \<le> l \<longrightarrow> length (H l) = 512) \<and> m16_super_of (H 0) = m16_fresh_super 128 \<and>
     m16_bitmap_get (H 18) 0 \<and> inode_used (tab H) 0 = 1 \<and> inode_kind (tab H) 0 = 2 \<and> inode_direct0 (tab H) 0 = 24 \<and>
     (\<forall>b < 25. m16_bitmap_get (H 19) b) \<and> (\<forall>i < 12. dir_used (H 24) i \<noteq> 0 \<longrightarrow> inode_ok H (dir_ino (H 24) i))"

definition content :: "(u32 \<Rightarrow> bytes) \<Rightarrow> bytes \<Rightarrow> (bytes \<times> u32) option" where
  "content H name =
     (case m16_find_dirent (H 24) name of
        None \<Rightarrow> None
      | Some slot \<Rightarrow>
          let ino = unat (dir_ino (H 24) slot)
          in Some (take (unat (inode_size (tab H) ino)) (H (inode_direct0 (tab H) ino)), inode_size (tab H) ino))"

text \<open>A later file system that still holds every file.\<close>

definition keeps :: "(u32 \<Rightarrow> bytes) \<Rightarrow> (u32 \<Rightarrow> bytes) \<Rightarrow> bool" where
  "keeps H G \<longleftrightarrow> sound G \<and> (\<forall>name. content H name \<noteq> None \<longrightarrow> content G name = content H name)"

lemma bitmap_ops: "m16_bitmap_set = byte_set" "m16_bitmap_get = byte_test"
  by (simp_all add: fun_eq_iff m16_bitmap_set_def byte_set_def m16_bitmap_get_def byte_test_def byte_bit_test del: push_bit_of_1)

lemma bitmap_get_set: "length b = 512 \<Longrightarrow> i < 4096 \<Longrightarrow> m16_bitmap_get (m16_bitmap_set b i) j \<longleftrightarrow> j = i \<or> m16_bitmap_get b j"
  by (simp add: bitmap_ops byte_bits.test_set byte_holds_block)

lemma length_bitmap_set [simp]: "length (m16_bitmap_set b i) = length b"
  by (simp add: bitmap_ops)

lemma sound_length: "sound H \<Longrightarrow> l < 128 \<Longrightarrow> l = 0 \<or> 18 \<le> l \<Longrightarrow> length (H l) = 512"
  unfolding sound_def by blast

lemma length_tab: "sound H \<Longrightarrow> length (tab H) = 2048"
  using sound_length[of H] by (simp add: tab_def)

lemma find_dirent_used:
  assumes "length dir = 512" "m16_find_dirent dir name = Some s"
  shows "s < 12" "dir_used dir s \<noteq> 0"
  using assms(2) unfolding find_dirent_iff[OF assms(1)] by (auto simp: find_Some_iff)

lemma find_dirent_itself:
  assumes l: "length dir = 512" "slot < 12" and n: "m16_strlen_bounded nm 32 = n" "n < 32"
    and new: "m16_find_dirent dir nm = None"
  shows "m16_find_dirent (set_dirent dir slot ino nm n) nm = Some slot"
proof -
  let ?d = "set_dirent dir slot ino nm n"
  have nl: "n \<le> length nm" "n \<le> 32" using strlen_spec(1)[OF n] n(2) by simp_all
  note g = dir_get[OF l(1,2) _ nl]
  have ld: "length ?d = 512" using set_dirent_eq[OF l(1,2) nl] length_new_entry[OF nl] l by simp
  have old: "\<not> (dir_used dir i \<noteq> 0 \<and> same_name (entry_name dir i) (char_at nm))" if "i < 12" for i
    using new that unfolding find_dirent_iff[OF l(1)] by (auto simp: find_None_iff)
  have "same_name (entry_name ?d slot) (char_at nm)" using stored_name[OF n] g(3)[OF l(2)] by (simp add: entry_name_def)
  moreover have "\<not> (dir_used ?d i \<noteq> 0 \<and> same_name (entry_name ?d i) (char_at nm))" if "i < slot" for i
    using old[of i] g[of i] that l(2) by (simp add: entry_name_def)
  ultimately show ?thesis
    unfolding find_dirent_iff[OF ld] find_Some_iff using g(1)[OF l(2)] l(2) by (intro exI[of _ slot]) simp
qed

lemma keeps_refl: "sound H \<Longrightarrow> keeps H H"
  by (simp add: keeps_def)

lemma keeps_trans: "keeps H G \<Longrightarrow> keeps G K \<Longrightarrow> keeps H K"
  by (auto simp: keeps_def)

lemma sound_inode: "sound H \<Longrightarrow> i < 12 \<Longrightarrow> dir_used (H 24) i \<noteq> 0 \<Longrightarrow> inode_ok H (dir_ino (H 24) i)"
  by (simp add: sound_def)

text \<open>The first transaction of a write: a free inode and a free block become a file that no directory entry names.\<close>

definition allocated :: "(u32 \<Rightarrow> bytes) \<Rightarrow> u32 \<Rightarrow> u32 \<Rightarrow> u32 \<Rightarrow> (u32 \<Rightarrow> bytes) \<Rightarrow> bool" where
  "allocated H ino b len G \<longleftrightarrow> G 18 = m16_bitmap_set (H 18) ino \<and> G 19 = m16_bitmap_set (H 19) b \<and>
     tab G = set_inode (tab H) (unat ino) 1 1 len b \<and> (\<forall>l \<in> {18..<24}. length (G l) = 512) \<and> (\<forall>l. l \<notin> {18..<24} \<longrightarrow> G l = H l)"

lemma ino_index: "(i :: u32) < 16 \<Longrightarrow> unat i < 16"
  by (simp add: word_less_nat_alt)

lemma inode_ok_alloc:
  assumes s: "sound H" and f: "ino < 16" "\<not> m16_bitmap_get (H 18) ino" "b < 128" and a: "allocated H ino b len G"
    and i: "inode_ok H i"
  shows "inode_ok G i" "inode_size (tab G) (unat i) = inode_size (tab H) (unat i)"
    "inode_direct0 (tab G) (unat i) = inode_direct0 (tab H) (unat i)"
proof -
  have ne: "unat i \<noteq> unat ino" and i16: "i < 16" using i f(2) by (auto simp: inode_ok_def unat_eq_iff)
  have t: "tab G = set_inode (tab H) (unat ino) 1 1 len b" "G 18 = m16_bitmap_set (H 18) ino" "G 19 = m16_bitmap_set (H 19) b"
    using a by (simp_all add: allocated_def)
  note g = set_inode_get[OF ino_index[OF f(1)] ino_index[OF i16] length_tab[OF s], of 1 1 len b, folded t(1)]
  have l: "length (H 18) = 512" "length (H 19) = 512" using sound_length[OF s] by simp_all
  have c: "ino < 4096" "b < 4096" using f(1,3) by (simp_all add: word_less_nat_alt)
  show "inode_size (tab G) (unat i) = inode_size (tab H) (unat i)" "inode_direct0 (tab G) (unat i) = inode_direct0 (tab H) (unat i)"
    using g ne by simp_all
  show "inode_ok G i" using i ne unfolding inode_ok_def g t(2,3) bitmap_get_set[OF l(1) c(1)] bitmap_get_set[OF l(2) c(2)] by simp
qed

lemma alloc_ok:
  assumes s: "sound H" and f: "ino < 16" "25 \<le> b" "b < 128" "len \<le> 512" and a: "allocated H ino b len G"
  shows "inode_ok G ino" "inode_size (tab G) (unat ino) = len" "inode_direct0 (tab G) (unat ino) = b"
proof -
  have t: "tab G = set_inode (tab H) (unat ino) 1 1 len b" "G 18 = m16_bitmap_set (H 18) ino" "G 19 = m16_bitmap_set (H 19) b"
    using a by (simp_all add: allocated_def)
  note g = set_inode_get[OF ino_index[OF f(1)] ino_index[OF f(1)] length_tab[OF s], of 1 1 len b, folded t(1)]
  have l: "length (H 18) = 512" "length (H 19) = 512" using sound_length[OF s] by simp_all
  have c: "ino < 4096" "b < 4096" using f(1,3) by (simp_all add: word_less_nat_alt)
  show "inode_size (tab G) (unat ino) = len" "inode_direct0 (tab G) (unat ino) = b" using g by simp_all
  show "inode_ok G ino" using f unfolding inode_ok_def g t(2,3) bitmap_get_set[OF l(1) c(1)] bitmap_get_set[OF l(2) c(2)] by simp
qed

lemma alloc_sound:
  assumes s: "sound H" and f: "ino < 16" "ino \<noteq> 0" "\<not> m16_bitmap_get (H 18) ino" "b < 128" and a: "allocated H ino b len G"
  shows "sound G"
proof -
  have t: "tab G = set_inode (tab H) (unat ino) 1 1 len b" "G 18 = m16_bitmap_set (H 18) ino" "G 19 = m16_bitmap_set (H 19) b"
    and o: "\<And>l. l \<notin> {18..<24} \<Longrightarrow> G l = H l" and n: "\<And>l. l \<in> {18..<24} \<Longrightarrow> length (G l) = 512"
    using a by (simp_all add: allocated_def)
  have d: "G 24 = H 24" "G 0 = H 0" using o by simp_all
  have len: "length (G l) = 512" if "l < 128" "l = 0 \<or> 18 \<le> l" for l
    using n[of l] o[of l] sound_length[OF s that] by (cases "l \<in> {18..<24}") simp_all
  have "unat ino \<noteq> 0" using f(2) by (simp add: unat_eq_0)
  then have root: "inode_used (tab G) 0 = 1" "inode_kind (tab G) 0 = 2" "inode_direct0 (tab G) 0 = 24"
    using set_inode_get[OF ino_index[OF f(1)] _ length_tab[OF s], of 0 1 1 len b] s unfolding t(1) sound_def by simp_all
  have l: "length (H 18) = 512" "length (H 19) = 512" using sound_length[OF s] by simp_all
  have c: "ino < 4096" "b < 4096" using f(1,4) by (simp_all add: word_less_nat_alt)
  have bits: "m16_bitmap_get (G 18) 0" "\<forall>b < 25. m16_bitmap_get (G 19) b"
    using s unfolding t(2,3) bitmap_get_set[OF l(1) c(1)] bitmap_get_set[OF l(2) c(2)] sound_def by simp_all
  have ents: "\<forall>i < 12. dir_used (G 24) i \<noteq> 0 \<longrightarrow> inode_ok G (dir_ino (G 24) i)"
    using sound_inode[OF s] inode_ok_alloc(1)[OF s f(1,3,4) a] d by simp
  have "m16_super_of (G 0) = m16_fresh_super 128" using s d by (simp add: sound_def)
  with len root bits ents show ?thesis unfolding sound_def by blast
qed

lemma alloc_keeps:
  assumes s: "sound H" and f: "ino < 16" "ino \<noteq> 0" "\<not> m16_bitmap_get (H 18) ino" "b < 128" and a: "allocated H ino b len G"
  shows "keeps H G"
proof -
  have o: "\<And>l. l \<notin> {18..<24} \<Longrightarrow> G l = H l" using a by (simp add: allocated_def)
  then have d: "G 24 = H 24" by simp
  have "content G name = content H name" for name
  proof (cases "m16_find_dirent (H 24) name")
    case (Some i)
    have "length (H 24) = 512" using sound_length[OF s] by simp
    from sound_inode[OF s find_dirent_used[OF this Some]] have ok: "inode_ok H (dir_ino (H 24) i)" .
    note g = inode_ok_alloc(2,3)[OF s f(1,3,4) a ok]
    have "25 \<le> inode_direct0 (tab H) (unat (dir_ino (H 24) i))" using ok by (simp add: inode_ok_def)
    then have "inode_direct0 (tab H) (unat (dir_ino (H 24) i)) \<notin> {18..<24}" by (auto simp: word_le_nat_alt word_less_nat_alt)
    from o[OF this] show ?thesis using Some by (simp add: content_def d g)
  qed (simp add: content_def d)
  with alloc_sound[OF assms] show ?thesis by (simp add: keeps_def)
qed

text \<open>The second transaction: the directory entry and the data.\<close>

lemma link_same:
  assumes "b \<ge> 25" "G = (H(24 := dir))(b := data)"
  shows "tab G = tab H" "G 24 = dir" "G 18 = H 18" "G 19 = H 19" "G 0 = H 0" "inode_ok G = inode_ok H"
proof -
  have ne: "b \<noteq> 24" "b \<noteq> 18" "b \<noteq> 19" "b \<noteq> 0" "b \<noteq> 20" "b \<noteq> 21" "b \<noteq> 22" "b \<noteq> 23" using assms(1) by (auto simp: word_le_nat_alt)
  then show t: "tab G = tab H" "G 24 = dir" "G 18 = H 18" "G 19 = H 19" "G 0 = H 0" using assms(2) by (simp_all add: tab_def)
  then show "inode_ok G = inode_ok H" by (simp add: fun_eq_iff inode_ok_def)
qed

lemma link_sound:
  assumes s: "sound H" and i: "inode_ok H ino" and b: "25 \<le> b" "length data = 512" and slot: "slot < 12"
    and n: "m16_strlen_bounded nm 32 = n" "n < 32" and G: "G = (H(24 := set_dirent (H 24) slot ino nm n))(b := data)"
  shows "sound G"
proof -
  have l: "length (H 24) = 512" using sound_length[OF s] by simp
  have nl: "n \<le> length nm" "n \<le> 32" using strlen_spec(1)[OF n] n(2) by simp_all
  note g = dir_get[OF l slot _ nl, of _ ino] and t = link_same[OF b(1) G]
  have ld: "length (set_dirent (H 24) slot ino nm n) = 512" using set_dirent_eq[OF l slot nl] length_new_entry[OF nl] l slot by simp
  have len: "length (G l) = 512" if "l < 128" "l = 0 \<or> 18 \<le> l" for l
    using sound_length[OF s that] ld b(2) by (simp add: G)
  have ents: "\<forall>j < 12. dir_used (G 24) j \<noteq> 0 \<longrightarrow> inode_ok G (dir_ino (G 24) j)"
    unfolding t(2,6) using g(1,2) sound_inode[OF s] i by simp
  show ?thesis using s ents len unfolding sound_def t(1,3-5) by blast
qed

lemma link_keeps:
  assumes s: "sound H" and i: "inode_ok H ino" and b: "25 \<le> b" "length data = 512" and slot: "slot < 12" "dir_used (H 24) slot = 0"
    and n: "m16_strlen_bounded nm 32 = n" "n < 32" and new: "m16_find_dirent (H 24) nm = None"
    and own: "inode_direct0 (tab H) (unat ino) = b"
    and free: "\<And>j. j < 12 \<Longrightarrow> dir_used (H 24) j \<noteq> 0 \<Longrightarrow> inode_direct0 (tab H) (unat (dir_ino (H 24) j)) \<noteq> b"
    and G: "G = (H(24 := set_dirent (H 24) slot ino nm n))(b := data)"
  shows "keeps H G" "content G nm = Some (take (unat (inode_size (tab H) (unat ino))) data, inode_size (tab H) (unat ino))"
proof -
  have l: "length (H 24) = 512" using sound_length[OF s] by simp
  have nl: "n \<le> length nm" "n \<le> 32" using strlen_spec(1)[OF n] n(2) by simp_all
  note g = dir_get[OF l slot(1) _ nl, of _ ino] and t = link_same[OF b(1) G]
  have "content G name = content H name" if c: "content H name \<noteq> None" for name
  proof -
    from c obtain j where j: "m16_find_dirent (H 24) name = Some j" by (auto simp: content_def split: option.splits)
    note u = find_dirent_used[OF l j]
    have f: "m16_find_dirent (G 24) name = Some j" unfolding t(2) by (rule find_dirent_new[OF l slot n new j])
    have e: "dir_ino (G 24) j = dir_ino (H 24) j" unfolding t(2) using g(2)[OF u(1)] u(2) slot(2) by auto
    let ?d = "inode_direct0 (tab H) (unat (dir_ino (H 24) j))"
    have "25 \<le> ?d" using sound_inode[OF s u] by (simp add: inode_ok_def)
    then have "?d \<noteq> 24" by (auto simp: word_le_nat_alt)
    then have "G ?d = H ?d" using free[OF u] by (simp add: G)
    then show ?thesis using f j e by (simp add: content_def t(1))
  qed
  then show "keeps H G" using link_sound[OF s i b slot(1) n G] by (simp add: keeps_def)
  have f: "m16_find_dirent (G 24) nm = Some slot" unfolding t(2) by (rule find_dirent_itself[OF l slot(1) n new])
  have Gb: "G b = data" by (simp add: G)
  have e: "dir_ino (G 24) slot = ino" unfolding t(2) using g(2)[OF slot(1)] by simp
  show "content G nm = Some (take (unat (inode_size (tab H) (unat ino))) data, inode_size (tab H) (unat ino))"
    using f e own by (simp add: content_def t(1) Let_def Gb)
qed

section \<open>Runs of the file operations\<close>

lemma read_run: "at_rest H d \<Longrightarrow> l < 128 \<Longrightarrow> l = 0 \<or> 18 \<le> l \<Longrightarrow> m16_read_block l d = (Ok (H l), d)"
  by (auto simp: at_rest_def whole_def m16_read_block_def m16_valid_lba_def home_def word_le_nat_alt word_less_nat_alt)

lemma table_lbas: "table_lba 0 = 20" "table_lba (Suc 0) = 21" "table_lba 2 = 22" "table_lba 3 = 23"
  by (simp_all add: table_lba_def)

lemma upt_4: "[0..<4] = [0, Suc 0, 2, 3]"
  by (simp add: upt_rec)

lemma load_run:
  assumes "at_rest H d" "sound H"
  shows "m16_load_inode_table d = (Ok (tab H), d)"
proof -
  have l: "length (H 20) = 512" "length (H 21) = 512" "length (H 22) = 512" "length (H 23) = 512"
    using sound_length[OF assms(2)] by simp_all
  have "put 1536 (H 23) (put 1024 (H 22) (put 512 (H 21) (put 0 (H 20) (replicate 2048 0)))) = tab H"
    using l by (simp add: put_append tab_def) (simp add: put_def)
  then show ?thesis
    by (simp add: m16_load_inode_table_def upt_4 chain_run op_run table_lbas read_run[OF assms(1)] sizeof_m16_inode_def del: upt_rec_numeral)
qed

lemma ct_mount:
  assumes "sound H"
  shows "crash_triple (settled H) m16_mount (\<lambda>_. at_rest H) (settled H)"
  unfolding m16_mount_def
proof (rule ct_chain[OF ct_recover])
  fix u
  have s: "m16_super_of (H 0) = m16_fresh_super 128" using assms by (simp add: sound_def)
  show "crash_triple (at_rest H) (chain (m16_read_block 0) (\<lambda>b. let sb = m16_super_of b
     in if ms_magic sb \<noteq> M16_MAGIC \<or> ms_version sb \<noteq> M16_VERSION \<or> ms_block_size sb \<noteq> of_nat M16_BLOCK_SIZE
        then fail M16_E_CORRUPT
        else if ms_data_start_lba sb \<noteq> M16_DATA_START_LBA \<or> ms_root_dir_lba sb \<noteq> M16_ROOT_DIR_LBA
        then fail M16_E_CORRUPT
        else ok sb)) (\<lambda>_. at_rest H) (settled H)"
    by (rule ct_cong[OF ct_ok]) (simp_all add: chain_run read_run s m16_fresh_super_def)
qed

lemma mount_cases:
  assumes "sound H" "settled H d" "chain m16_mount f d = (r, d')"
  obtains (crash) "r = Err M16_E_IO" "settled H d'" "0 \<le> fail_after d"
  | (on) sb d1 where "at_rest H d1" "fail_after d < 0 \<longrightarrow> fail_after d1 = fail_after d" "f sb d1 = (r, d')"
proof -
  obtain x d1 where m: "m16_mount d = (x, d1)" by fastforce
  from ctD[OF ct_mount[OF assms(1)] assms(2) m] assms(3) m that show ?thesis by (auto simp: chain_def)
qed

text \<open>The transactions of a write.\<close>

definition alloc_tx :: "bytes \<Rightarrow> bytes \<Rightarrow> bytes \<Rightarrow> m16_tx" where
  "alloc_tx ib bb inodes = [\<lparr>rec_target_lba = 18, rec_payload = block512 ib\<rparr>, \<lparr>rec_target_lba = 19, rec_payload = block512 bb\<rparr>,
     \<lparr>rec_target_lba = 20, rec_payload = bytes_at 0 512 inodes\<rparr>, \<lparr>rec_target_lba = 21, rec_payload = bytes_at 512 512 inodes\<rparr>,
     \<lparr>rec_target_lba = 22, rec_payload = bytes_at 1024 512 inodes\<rparr>, \<lparr>rec_target_lba = 23, rec_payload = bytes_at 1536 512 inodes\<rparr>]"

definition link_tx :: "bytes \<Rightarrow> u32 \<Rightarrow> bytes \<Rightarrow> m16_tx" where
  "link_tx dir b data = [\<lparr>rec_target_lba = 24, rec_payload = block512 dir\<rparr>, \<lparr>rec_target_lba = b, rec_payload = block512 data\<rparr>]"

lemma alloc_tx_run:
  "chain (of_res (m16_tx_add [] 18 ib)) (\<lambda>tx. chain (of_res (m16_tx_add tx 19 bb)) (\<lambda>tx.
     chain (of_res (m16_store_inode_table tx inodes)) f)) = f (alloc_tx ib bb inodes)"
  by (simp add: fun_eq_iff chain_run op_run m16_tx_add_def m16_store_inode_table_def upt_4 table_lbas alloc_tx_def del: upt_rec_numeral)

lemma link_tx_run:
  "chain (of_res (m16_tx_add [] 24 dir)) (\<lambda>tx. chain (of_res (m16_tx_add tx b data)) f) = f (link_tx dir b data)"
  by (simp add: fun_eq_iff chain_run op_run m16_tx_add_def link_tx_def)

lemma table_blocks:
  assumes "length t = 2048"
  shows "bytes_at 0 512 t @ bytes_at 512 512 t @ bytes_at 1024 512 t @ bytes_at 1536 512 t = t"
proof -
  have "take 512 (drop n t) @ drop (n + 512) t = drop n t" for n by (metis append_take_drop_id drop_drop add.commute)
  from this[of 0] this[of 512] this[of 1024] show ?thesis using assms by (simp add: bytes_at_def)
qed

lemma alloc_tx_spec:
  assumes "sound H" "ino < 16"
    and tx_def: "tx = alloc_tx (m16_bitmap_set (H 18) ino) (m16_bitmap_set (H 19) b) (set_inode (tab H) (unat ino) 1 1 len b)"
  shows "tx_ok tx" "allocated H ino b len (apply_tx tx H)"
proof -
  have t: "length (set_inode (tab H) (unat ino) 1 1 len b) = 2048" by (rule length_set_inode[OF ino_index[OF assms(2)] length_tab[OF assms(1)]])
  then show "tx_ok tx" by (auto simp: tx_def alloc_tx_def tx_ok_def)
  have l: "length (H 18) = 512" "length (H 19) = 512" using sound_length[OF assms(1)] by simp_all
  have r: "{18..<24} = {18, 19, 20, 21, 22, 23 :: u32}"
    by (auto simp: word_le_nat_alt word_less_nat_alt unat_eq_iff[symmetric])
  show "allocated H ino b len (apply_tx tx H)"
    unfolding allocated_def r using l t table_blocks[OF t] by (simp add: tx_def alloc_tx_def apply_tx_def tab_def)
qed

lemma link_tx_spec:
  assumes "length dir = 512" "length data = 512" "25 \<le> b" "b < 128"
  shows "tx_ok (link_tx dir b data)" "apply_tx (link_tx dir b data) H = (H(24 := dir))(b := data)"
proof -
  have "18 \<le> b" using assms(3) by (simp add: word_le_nat_alt)
  with assms show "tx_ok (link_tx dir b data)" by (simp add: link_tx_def tx_ok_def)
  show "apply_tx (link_tx dir b data) H = (H(24 := dir))(b := data)" using assms(1,2) by (simp add: link_tx_def apply_tx_def)
qed

lemma ct_two_commits:
  assumes "tx_ok t1" "tx_ok t2"
  shows "crash_triple (at_rest H) (chain (m16_journal_commit t1 s1 False) (\<lambda>_. m16_journal_commit t2 s2 stop))
    (\<lambda>_. settled (apply_tx t2 (apply_tx t1 H)))
    (\<lambda>d. settled H d \<or> settled (apply_tx t1 H) d \<or> settled (apply_tx t2 (apply_tx t1 H)) d)"
proof (rule ct_chain)
  show "crash_triple (at_rest H) (m16_journal_commit t1 s1 False) (\<lambda>_. at_rest (apply_tx t1 H))
    (\<lambda>d. settled H d \<or> settled (apply_tx t1 H) d \<or> settled (apply_tx t2 (apply_tx t1 H)) d)"
    by (rule ct_weaken[OF ct_commit[OF assms(1)]]) (use assms(1) in \<open>auto simp: settled_def\<close>)
  show "crash_triple (at_rest (apply_tx t1 H)) (m16_journal_commit t2 s2 stop) (\<lambda>_. settled (apply_tx t2 (apply_tx t1 H)))
    (\<lambda>d. settled H d \<or> settled (apply_tx t1 H) d \<or> settled (apply_tx t2 (apply_tx t1 H)) d)" for u :: unit
    by (rule ct_weaken[OF ct_commit[OF assms(2)]]) (use assms(2) in \<open>auto simp: settled_def split: if_splits\<close>)
qed

lemma find_map_Some: "find P (map f xs) = Some y \<Longrightarrow> \<exists>x \<in> set xs. y = f x \<and> P y"
  by (induction xs) (auto split: if_splits)

lemma free_inode:
  assumes "m16_find_free_inode ib = Some ino"
  shows "ino < 16" "ino \<noteq> 0" "\<not> m16_bitmap_get ib ino"
proof -
  obtain i where i: "ino = of_nat i" "1 \<le> i" "i < 16" "\<not> m16_bitmap_get ib ino"
    using find_map_Some[OF assms[unfolded m16_find_free_inode_def]] by (auto simp del: upt_rec_numeral)
  then have "unat ino = i" by (simp add: unat_of_nat_small)
  then show "ino < 16" "ino \<noteq> 0" "\<not> m16_bitmap_get ib ino" using i by (auto simp: word_less_nat_alt)
qed

lemma free_block:
  assumes "m16_find_free_block bb = Some b"
  shows "25 \<le> b" "b < 128" "\<not> m16_bitmap_get bb b"
proof -
  obtain i where i: "b = of_nat i" "25 \<le> i" "i < 128" "\<not> m16_bitmap_get bb b"
    using find_map_Some[OF assms[unfolded m16_find_free_block_def]] by (auto simp del: upt_rec_numeral)
  then have "unat b = i" by (simp add: unat_of_nat_small)
  then show "25 \<le> b" "b < 128" "\<not> m16_bitmap_get bb b" using i by (auto simp: word_less_nat_alt word_le_nat_alt)
qed

lemma free_dirent: "m16_find_free_dirent dir = Some slot \<Longrightarrow> slot < 12 \<and> dir_used dir slot = 0"
  unfolding m16_find_free_dirent_def by (auto simp: find_Some_iff)

lemma data_block:
  assumes "n \<le> 512" "n \<le> length data"
  shows "length (m16_copy m16_zero_block 0 data n) = 512" "take n (m16_copy m16_zero_block 0 data n) = take n data"
proof -
  have "m16_copy m16_zero_block 0 data n = take n data @ replicate (512 - n) 0"
    using assms fold_copy_put[of 0 n m16_zero_block data] by (simp add: m16_copy_def m16_zero_block_def put_def)
  then show "length (m16_copy m16_zero_block 0 data n) = 512" "take n (m16_copy m16_zero_block 0 data n) = take n data"
    using assms by simp_all
qed

lemma store_keeps:
  assumes s: "sound H" and ino: "m16_find_free_inode (H 18) = Some ino" and b: "m16_find_free_block (H 19) = Some b"
    and slot: "m16_find_free_dirent (H 24) = Some slot" and new: "m16_find_dirent (H 24) name = None"
    and n: "m16_strlen_bounded name 32 = n" "n < 32" and len: "len \<le> 512" "unat len \<le> length data"
    and t1: "t1 = alloc_tx (m16_bitmap_set (H 18) ino) (m16_bitmap_set (H 19) b) (set_inode (tab H) (unat ino) 1 1 len b)"
    and t2: "t2 = link_tx (set_dirent (H 24) slot ino name n) b (m16_copy m16_zero_block 0 data (unat len))"
  shows "tx_ok t1" "tx_ok t2" "keeps H (apply_tx t1 H)" "keeps H (apply_tx t2 (apply_tx t1 H))"
    "content (apply_tx t2 (apply_tx t1 H)) name = Some (take (unat len) data, len)"
proof -
  let ?G = "apply_tx t1 H" and ?blk = "m16_copy m16_zero_block 0 data (unat len)"
  note i = free_inode[OF ino] and f = free_block[OF b] and sl = free_dirent[OF slot]
  note a = alloc_tx_spec[OF s i(1) t1]
  then show "tx_ok t1" by simp
  show k1: "keeps H ?G" by (rule alloc_keeps[OF s i(1-3) f(2) a(2)])
  then have sG: "sound ?G" by (simp add: keeps_def)
  have d: "?G 24 = H 24" using a(2) by (simp add: allocated_def)
  have l: "length (H 24) = 512" using sound_length[OF s] by simp
  have nl: "n \<le> length name" "n \<le> 32" using strlen_spec(1)[OF n] n(2) by simp_all
  have ld: "length (set_dirent (H 24) slot ino name n) = 512"
    using set_dirent_eq[OF l conjunct1[OF sl] nl] length_new_entry[OF nl] l sl by simp
  have "unat len \<le> 512" using len(1) by (simp add: word_le_nat_alt)
  note blk = data_block[OF this len(2)] and lt = link_tx_spec[OF ld data_block(1)[OF this len(2)] f(1,2)]
  then show "tx_ok t2" by (simp add: t2)
  have G2: "apply_tx t2 ?G = (?G(24 := set_dirent (?G 24) slot ino name n))(b := ?blk)" unfolding t2 d by (rule lt(2))
  note ok = alloc_ok[OF s i(1) f(1,2) len(1) a(2)]
  have free: "inode_direct0 (tab ?G) (unat (dir_ino (?G 24) j)) \<noteq> b" if "j < 12" "dir_used (?G 24) j \<noteq> 0" for j
  proof -
    have io: "inode_ok H (dir_ino (H 24) j)" using sound_inode[OF s that(1)] that(2) d by simp
    then have "m16_bitmap_get (H 19) (inode_direct0 (tab H) (unat (dir_ino (H 24) j)))" by (simp add: inode_ok_def)
    then show ?thesis using f(3) inode_ok_alloc(3)[OF s i(1,3) f(2) a(2) io] d by auto
  qed
  note lk = link_keeps[OF sG ok(1) f(1) blk(1) conjunct1[OF sl] _ n _ ok(3) free G2, unfolded d, OF conjunct2[OF sl] new]
  show "keeps H (apply_tx t2 ?G)" by (rule keeps_trans[OF k1 lk(1)])
  show "content (apply_tx t2 ?G) name = Some (take (unat len) data, len)" using lk(2) ok(2) blk(2) by simp
qed

text \<open>What a write does on a mounted file system.\<close>

definition store_file :: "(u32 \<Rightarrow> bytes) \<Rightarrow> bytes \<Rightarrow> bytes \<Rightarrow> u32 \<Rightarrow> bool \<Rightarrow> m16_super \<Rightarrow> unit m16_op" where
  "store_file H name data len stop sb =
     (if m16_find_dirent (H 24) name \<noteq> None then fail M16_E_EXISTS
      else case (m16_find_free_inode (H 18), m16_find_free_block (H 19), m16_find_free_dirent (H 24)) of
        (Some ino, Some b, Some slot) \<Rightarrow>
          if unat len > length data then fault
          else chain (m16_journal_commit (alloc_tx (m16_bitmap_set (H 18) ino) (m16_bitmap_set (H 19) b)
                   (set_inode (tab H) (unat ino) 1 1 len b)) (ms_clean_generation sb + 1) False) (\<lambda>_.
                 m16_journal_commit (link_tx (set_dirent (H 24) slot ino name (m16_strlen_bounded name 32)) b
                   (m16_copy m16_zero_block 0 data (unat len))) (ms_clean_generation sb + 2) stop)
      | _ \<Rightarrow> fail M16_E_NOSPC)"

lemma write_shape:
  "\<exists>body. m16_write_file_ex (Some name) (Some data) len stop =
      (if m16_strlen_bounded name 32 = 0 \<or> m16_strlen_bounded name 32 \<ge> 32 then fail M16_E_TOOLONG
       else if len > of_nat 512 then fail M16_E_INVAL else chain m16_mount body) \<and>
     (\<forall>H sb d. sound H \<longrightarrow> at_rest H d \<longrightarrow> body sb d = store_file H name data len stop sb d)"
  unfolding m16_write_file_ex_def prod.case option.case Let_def m16_lbas alloc_tx_run link_tx_run
proof (intro exI conjI allI impI, rule refl, goal_cases)
  case (1 H sb d)
  have r: "chain (m16_read_block l) f d = f (H l) d" if "l < 128" "18 \<le> l" for l and f :: "bytes \<Rightarrow> unit m16_op"
    using read_run[OF 1(2) that(1)] that(2) by (simp add: chain_ok)
  have l: "chain m16_load_inode_table f d = f (tab H) d" for f :: "bytes \<Rightarrow> unit m16_op" using load_run[OF 1(2,1)] by (simp add: chain_ok)
  have c: "chain (or_error e x) f d = (case x of None \<Rightarrow> (Err e, d) | Some v \<Rightarrow> f v d)" for e x and f :: "'b \<Rightarrow> unit m16_op"
    by (cases x) (simp_all add: or_error_def chain_run op_run)
  show ?case by (simp add: r l c store_file_def op_run split: option.splits)
qed

text \<open>A write, wherever it is interrupted, keeps the other files; one that returns has stored its own.\<close>

lemma store_outcome:
  assumes s: "sound H" and d: "at_rest H d" and w: "store_file H name data len stop sb d = (r, d')"
    and n: "m16_strlen_bounded name 32 < 32" "len \<le> 512"
  shows "\<exists>G. keeps H G \<and> settled G d' \<and> (r = Ok () \<longrightarrow> content G name = Some (take (unat len) data, len))"
proof -
  note same = exI[of _ H] keeps_refl[OF s] at_rest_settled[OF d]
  show ?thesis
  proof (cases "m16_find_dirent (H 24) name = None \<and> unat len \<le> length data \<and> m16_find_free_inode (H 18) \<noteq> None \<and>
      m16_find_free_block (H 19) \<noteq> None \<and> m16_find_free_dirent (H 24) \<noteq> None")
    case True
    then obtain ino b slot where f: "m16_find_free_inode (H 18) = Some ino" "m16_find_free_block (H 19) = Some b"
        "m16_find_free_dirent (H 24) = Some slot" "m16_find_dirent (H 24) name = None" "unat len \<le> length data"
      by auto
    note k = store_keeps[OF s f(1-4) refl n f(5) refl refl]
    from w f have "chain (m16_journal_commit (alloc_tx (m16_bitmap_set (H 18) ino) (m16_bitmap_set (H 19) b)
          (set_inode (tab H) (unat ino) 1 1 len b)) (ms_clean_generation sb + 1) False) (\<lambda>_.
        m16_journal_commit (link_tx (set_dirent (H 24) slot ino name (m16_strlen_bounded name 32)) b
          (m16_copy m16_zero_block 0 data (unat len))) (ms_clean_generation sb + 2) stop) d = (r, d')"
      by (simp add: store_file_def)
    from ctD(1)[OF ct_two_commits[OF k(1,2)] d this] k(3-5) keeps_refl[OF s] show ?thesis by auto
  next
    case False
    then have "r \<noteq> Ok () \<and> d' = d" using w by (auto simp: store_file_def op_run split: option.splits if_splits)
    with same show ?thesis by blast
  qed
qed

lemma write_outcome:
  assumes s: "sound H" and d: "settled H d" and w: "m16_write_file_ex (Some name) (Some data) len stop d = (r, d')"
  shows "\<exists>G. keeps H G \<and> settled G d' \<and> (r = Ok () \<longrightarrow> content G name = Some (take (unat len) data, len))"
proof -
  obtain body where e: "m16_write_file_ex (Some name) (Some data) len stop =
      (if m16_strlen_bounded name 32 = 0 \<or> m16_strlen_bounded name 32 \<ge> 32 then fail M16_E_TOOLONG
       else if len > of_nat 512 then fail M16_E_INVAL else chain m16_mount body)"
    and b: "\<And>H sb d. sound H \<Longrightarrow> at_rest H d \<Longrightarrow> body sb d = store_file H name data len stop sb d"
    using write_shape[of name data len stop] by (elim exE conjE) blast
  show ?thesis
  proof (cases "m16_strlen_bounded name 32 = 0 \<or> m16_strlen_bounded name 32 \<ge> 32 \<or> len > of_nat 512")
    case True
    then have "r \<noteq> Ok () \<and> d' = d" using w unfolding e by (auto simp: op_run split: if_splits)
    with keeps_refl[OF s] d show ?thesis by blast
  next
    case False
    then have "chain m16_mount body d = (r, d')" "m16_strlen_bounded name 32 < 32" "len \<le> 512" using w unfolding e by auto
    note run = this
    from s d run(1) show ?thesis
    proof (cases rule: mount_cases)
      case crash
      then show ?thesis using keeps_refl[OF s] by blast
    next
      case (on sb d1)
      from store_outcome[OF s on(1) on(3)[unfolded b[OF s on(1)]] run(2,3)] show ?thesis .
    qed
  qed
qed

lemma content_Some:
  assumes s: "sound H" and c: "content H name = Some (c, sz)"
  obtains slot where "m16_find_dirent (H 24) name = Some slot" "inode_ok H (dir_ino (H 24) slot)"
    "sz = inode_size (tab H) (unat (dir_ino (H 24) slot))"
    "c = take (unat sz) (H (inode_direct0 (tab H) (unat (dir_ino (H 24) slot))))"
proof -
  from c obtain slot where f: "m16_find_dirent (H 24) name = Some slot" by (auto simp: content_def split: option.splits)
  have "length (H 24) = 512" using sound_length[OF s] by simp
  from sound_inode[OF s find_dirent_used[OF this f]] that[OF f] c f show ?thesis by (auto simp: content_def Let_def)
qed

lemma inode_bounds:
  assumes "inode_ok H i"
  shows "i < 16" "inode_direct0 (tab H) (unat i) < 128" "18 \<le> inode_direct0 (tab H) (unat i)" "inode_size (tab H) (unat i) \<le> 512"
  using assms by (auto simp: inode_ok_def word_le_nat_alt)

lemma read_body:
  assumes s: "sound H" and d: "at_rest H d" and f: "m16_find_dirent (H 24) name = Some slot" and i: "inode_ok H (dir_ino (H 24) slot)"
    and sz: "sz = inode_size (tab H) (unat (dir_ino (H 24) slot))" "sz \<le> cap" "unat sz \<le> length out"
    and c: "c = take (unat sz) (H (inode_direct0 (tab H) (unat (dir_ino (H 24) slot))))"
  shows "\<exists>body. m16_read_file (Some name) (Some out) cap (Some x) = chain m16_mount (\<lambda>_. body) \<and> body d = (Ok (c @ drop (unat sz) out, sz), d)"
proof -
  note b = inode_bounds[OF i]
  have t: "total_blocks d = 128" using d by (simp add: at_rest_def whole_def)
  have r: "chain (m16_read_block l) f d = f (H l) d" if "l < 128" "18 \<le> l" for l and f :: "bytes \<Rightarrow> (bytes \<times> u32) m16_op"
    using read_run[OF d that(1)] that(2) by (simp add: chain_ok)
  have l: "chain m16_load_inode_table f d = f (tab H) d" for f :: "bytes \<Rightarrow> (bytes \<times> u32) m16_op" using load_run[OF d s] by (simp add: chain_ok)
  have e: "chain (or_error er (Some v)) f d = f v d" for er v and f :: "nat \<Rightarrow> (bytes \<times> u32) m16_op"
    by (simp add: or_error_def chain_run op_run)
  have n: "unat sz \<le> 512" using b(4) sz(1) by (simp add: word_le_nat_alt)
  have "length (H (inode_direct0 (tab H) (unat (dir_ino (H 24) slot)))) = 512" using sound_length[OF s b(2)] b(3) by simp
  then have copy: "m16_copy out 0 (H (inode_direct0 (tab H) (unat (dir_ino (H 24) slot)))) (unat sz) = c @ drop (unat sz) out"
    using fold_copy_put[of 0 "unat sz" out] n sz(3) c by (simp add: m16_copy_def put_def)
  have ok: "\<not> dir_ino (H 24) slot \<ge> 16" "inode_used (tab H) (unat (dir_ino (H 24) slot)) \<noteq> 0" "inode_kind (tab H) (unat (dir_ino (H 24) slot)) = 1"
    using i by (simp_all add: inode_ok_def linorder_not_le)
  show ?thesis unfolding m16_read_file_def prod.case option.case m16_lbas Let_def
    by (rule exI, rule conjI, rule refl)
      (use ok b n copy sz t in \<open>simp add: r l f e op_run linorder_not_less\<close>)
qed

lemma each_ok: "(\<And>i. i \<in> set xs \<Longrightarrow> f i () d = (Ok (), d)) \<Longrightarrow> each_op f xs () d = (Ok (), d)"
  by (induction xs) (simp_all add: op_run chain_run)

lemma fsck_entry:
  assumes s: "sound H" and d: "at_rest H d" and i: "i < 12"
  shows "fsck_dirent (H 18) (H 19) (tab H) (H 24) i () d = (Ok (), d)"
proof (cases "dir_used (H 24) i = 0")
  case False
  note o = sound_inode[OF s i False]
  have l: "length (H 19) = 512" using sound_length[OF s] by simp
  have t: "total_blocks d = 128" using d by (simp add: at_rest_def whole_def)
  let ?b = "inode_direct0 (tab H) (unat (dir_ino (H 24) i))"
  have "unat ?b < 128" using o by (simp add: inode_ok_def word_less_nat_alt)
  then have "unat (?b div 8) < 512" by (simp add: unat_div)
  then show ?thesis using o False l t by (simp add: fsck_dirent_def inode_ok_def op_run Let_def linorder_not_less linorder_not_le)
qed (simp add: fsck_dirent_def op_run)

lemma fsck_shape:
  "\<exists>body. m16_fsck = chain m16_mount (\<lambda>_. body) \<and> (\<forall>H d. sound H \<longrightarrow> at_rest H d \<longrightarrow> body d = (Ok (), d))"
  unfolding m16_fsck_def m16_lbas
proof (intro exI conjI allI impI, rule refl, goal_cases)
  case (1 H d)
  have bits: "\<not> list_ex (\<lambda>b. \<not> m16_bitmap_get (H 19) (of_nat b)) [0..<25]"
    using 1(1) by (auto simp: sound_def list_ex_iff word_less_nat_alt unat_of_nat_small simp del: upt_rec_numeral)
  have each: "each_op (fsck_dirent (H 18) (H 19) (tab H) (H 24)) [0..<12] () d = (Ok (), d)"
    by (rule each_ok) (use fsck_entry[OF 1] in \<open>simp del: upt_rec_numeral\<close>)
  have c: "chain (m16_read_block l) f d = f (H l) d" if "l < 128" "18 \<le> l" for l and f :: "bytes \<Rightarrow> unit m16_op"
    using read_run[OF 1(2) that(1)] that(2) by (simp add: chain_ok)
  have l: "chain m16_load_inode_table f d = f (tab H) d" for f :: "bytes \<Rightarrow> unit m16_op" using load_run[OF 1(2,1)] by (simp add: chain_ok)
  from 1(1) bits each show ?case by (simp add: c l sound_def del: upt_rec_numeral)
qed

text \<open>Operations that change nothing once the file system is mounted.\<close>

definition still :: "'a m16_op \<Rightarrow> bool" where
  "still m \<longleftrightarrow> (\<forall>d. snd (m d) = d)"

named_theorems still_rules

lemma still_base [still_rules]: "still (ok x)" "still (fail e)" "still fault" "still (or_error e o')" "still (m16_read_block l)"
  by (auto simp: still_def op_run or_error_def m16_read_block_def split: option.splits)

lemma still_chain [still_rules]: "still m \<Longrightarrow> (\<And>x. still (f x)) \<Longrightarrow> still (chain m f)"
  by (simp add: still_def chain_run split: res.splits)

lemma still_if [still_rules]: "still m \<Longrightarrow> still m' \<Longrightarrow> still (if c then m else m')"
  by simp

lemma still_if_dev [still_rules]: "still m \<Longrightarrow> still m' \<Longrightarrow> still (\<lambda>d. (if c d then m else m') d)"
  by (simp add: still_def)

lemma still_fsck_dirent [still_rules]: "still (fsck_dirent ib bb inodes dir i u)"
  by (simp add: still_def fsck_dirent_def op_run Let_def)

lemma still_each [still_rules]: "(\<And>i x. still (f i x)) \<Longrightarrow> still (each_op f xs a)"
  by (induction xs arbitrary: a) (simp_all add: still_rules)

lemma still_load [still_rules]: "still m16_load_inode_table"
  unfolding m16_load_inode_table_def by (intro still_rules)

lemma m16_mount_still:
  assumes "sound H" "settled H d" "\<And>sb. still (f sb)" "chain m16_mount f d = (r, d')"
  shows "settled H d'"
  using assms(1,2,4)
proof (cases rule: mount_cases)
  case (on sb d1)
  then have "d' = d1" using assms(3)[of sb] by (simp add: still_def) (metis snd_conv)
  then show ?thesis using on(1) by (simp add: at_rest_settled)
qed

lemma read_settled:
  assumes "sound H" "settled H d" "m16_read_file name out cap x d = (r, d')"
  shows "settled H d'"
proof (cases "name = None \<or> out = None \<or> x = None")
  case True
  then show ?thesis using assms by (auto simp: m16_read_file_def op_run split: option.splits)
next
  case False
  then obtain nm o' y where a: "name = Some nm" "out = Some o'" "x = Some y" by auto
  show ?thesis
    by (rule m16_mount_still[OF assms(1,2) _ assms(3)[unfolded m16_read_file_def a prod.case option.case Let_def]]) (intro still_rules)
qed

lemma fsck_settled:
  assumes "sound H" "settled H d" "m16_fsck d = (r, d')"
  shows "settled H d'"
  by (rule m16_mount_still[OF assms(1,2) _ assms(3)[unfolded m16_fsck_def]]) (intro still_rules)

subsection \<open>A fresh file system\<close>

definition holds :: "(u32 \<Rightarrow> bytes) \<Rightarrow> m16_blockdev \<Rightarrow> bool" where
  "holds B d \<longleftrightarrow> whole d \<and> blocks d = B"

lemma ct_store: "l < 128 \<Longrightarrow> length b = 512 \<Longrightarrow> crash_triple (holds B) (m16_write_block l b) (\<lambda>_. holds (B(l := b))) (\<lambda>_. True)"
  by (rule ct_write) (auto simp: holds_def)

definition fresh :: "u32 \<Rightarrow> bytes" where
  "fresh = (let inodes = set_inode (replicate 2048 0) 0 1 2 0 24
     in (\<lambda>_. m16_zero_block)(0 := m16_super_bytes (m16_fresh_super 128), 18 := m16_bitmap_set m16_zero_block 0,
       19 := fold (\<lambda>i bb. m16_bitmap_set bb (of_nat i)) [0..<25] m16_zero_block, 20 := bytes_at 0 512 inodes,
       21 := bytes_at 512 512 inodes, 22 := bytes_at 1024 512 inodes, 23 := bytes_at 1536 512 inodes, 24 := m16_zero_block,
       1 := header_bytes zero_header))"

lemma length_fold_bits: "length (fold (\<lambda>i bb. m16_bitmap_set bb (of_nat i)) xs bb) = length bb"
  by (induction xs arbitrary: bb) simp_all

lemma fold_bits:
  "length bb = 512 \<Longrightarrow> (\<And>i. i \<in> set xs \<Longrightarrow> i < 4096) \<Longrightarrow>
    m16_bitmap_get (fold (\<lambda>i bb. m16_bitmap_set bb (of_nat i)) xs bb) j \<longleftrightarrow> m16_bitmap_get bb j \<or> (\<exists>i \<in> set xs. j = of_nat i)"
proof (induction xs arbitrary: bb)
  case (Cons x xs)
  have "(of_nat x :: u32) < 4096" using Cons.prems(2)[of x] by (simp add: word_less_nat_alt unat_of_nat_small)
  from bitmap_get_set[OF Cons.prems(1) this] Cons show ?case by auto
qed simp

lemma fresh_reserved [simp]: "length (ms_reserved (m16_fresh_super n)) = 114"
  by (simp add: m16_fresh_super_def)

lemma ct_done: "crash_triple P (ok x) (\<lambda>_. P) R"
  by (rule ct_ok)

lemma ct_given: "(phi \<Longrightarrow> crash_triple P m Q R) \<Longrightarrow> crash_triple (\<lambda>d. phi \<and> P d) m Q R"
  by (auto simp: crash_triple_def)

lemma fresh_lengths: "length m16_zero_block = 512" "length (set_inode (replicate 2048 0) 0 1 2 0 24) = 2048"
  by (simp add: m16_zero_block_def) (rule length_set_inode, simp_all)

lemma ct_erase:
  "crash_triple (\<lambda>d. total_blocks d = 128) (\<lambda>dev. (Ok (total_blocks dev), dev\<lparr>blocks := (\<lambda>_. m16_zero_block)\<rparr>))
    (\<lambda>n d. n = 128 \<and> holds (\<lambda>_. m16_zero_block) d) (\<lambda>_. True)"
  by (simp add: crash_triple_def holds_def whole_def fresh_lengths)

lemma ct_format: "crash_triple (\<lambda>d. total_blocks d = 128) m16_format (\<lambda>_. holds fresh) (\<lambda>_. True)"
  unfolding m16_format_def Let_def
proof (rule ct_chain[OF ct_erase], rule ct_given, goal_cases)
  case (1 n)
  have sz: "unat M16_MAX_INODES * sizeof_m16_inode = 2048" by (simp add: sizeof_m16_inode_def)
  have u: "unat (25 :: u32) = 25" by simp
  show ?case unfolding 1 fresh_def Let_def m16_journal_clear_def m16_lbas u sz[unfolded m16_lbas] upt_4 each_op.simps table_lbas
    by (rule ct_chain ct_store ct_done | simp add: fresh_lengths length_fold_bits)+
qed

lemma fresh_blocks:
  "fresh 0 = m16_super_bytes (m16_fresh_super 128)" "fresh 18 = m16_bitmap_set m16_zero_block 0"
  "fresh 19 = fold (\<lambda>i bb. m16_bitmap_set bb (of_nat i)) [0..<25] m16_zero_block" "fresh 24 = m16_zero_block" "fresh 1 = header_bytes zero_header"
  by (simp_all add: fresh_def Let_def del: upt_rec_numeral)

lemma length_fresh: "length (fresh l) = 512"
  by (simp add: fresh_def Let_def fresh_lengths length_fold_bits del: upt_rec_numeral)

lemma fresh_sound:
  assumes "holds fresh d"
  shows "at_rest (home d) d" "sound (home d)"
proof -
  have h: "home d l = fresh l" if "l = 0 \<or> 18 \<le> l" "l < 128" for l
    using assms that by (auto simp: holds_def home_def word_le_nat_alt word_less_nat_alt)
  have "blocks d 1 = header_bytes zero_header" using assms fresh_blocks(5) by (simp add: holds_def)
  then show "at_rest (home d) d" using assms by (simp add: at_rest_def holds_def clear_empty)
  have t: "tab (home d) = set_inode (replicate 2048 0) 0 1 2 0 24"
    using table_blocks[OF fresh_lengths(2)] by (simp add: tab_def h) (simp add: fresh_def Let_def)
  have g: "inode_used (tab (home d)) 0 = 1" "inode_kind (tab (home d)) 0 = 2" "inode_direct0 (tab (home d)) 0 = 24"
    unfolding t using set_inode_get[of 0 0 "replicate 2048 0" 1 2 0 24] by simp_all
  have b0: "m16_bitmap_get (home d 18) 0"
    using bitmap_get_set[OF fresh_lengths(1), of 0 0] by (simp add: h fresh_blocks)
  have bb: "m16_bitmap_get (home d 19) b" if "b < 25" for b
  proof -
    have "b = of_nat (unat b) \<and> unat b \<in> set [0..<25]" using that by (simp add: word_less_nat_alt del: upt_rec_numeral)
    then have "\<exists>i \<in> set [0..<25]. b = of_nat i" by blast
    then show ?thesis using fold_bits[OF fresh_lengths(1), of "[0..<25]" b] by (simp add: h fresh_blocks del: upt_rec_numeral)
  qed
  have du: "dir_used (home d 24) i = 0" if "i < 12" for i
    using that by (simp add: h fresh_blocks dir_used_def m16_zero_block_def sizeof_m16_dirent_def)
  have su: "m16_super_of (home d 0) = m16_fresh_super 128" by (simp add: h fresh_blocks super_of_m16_bytes)
  have "\<forall>l < 128. l = 0 \<or> 18 \<le> l \<longrightarrow> length (home d l) = 512" using h length_fresh by simp
  with g b0 bb du su show "sound (home d)" unfolding sound_def by blast
qed

section \<open>Histories with power failures\<close>

text \<open>
  A call made after the fault counter is set to any value. A negative value disables fault injection; otherwise
  the write with that number fails, and so does every later one until the next call.
\<close>

inductive m16_step :: "m16_blockdev \<Rightarrow> m16_blockdev \<Rightarrow> bool" where
  write_call: "m16_write_file_ex name data len stop (restart k d) = (r, d') \<Longrightarrow> r \<noteq> Fault \<Longrightarrow> m16_step d d'"
| read_call: "m16_read_file name out cap size_p (restart k d) = (r, d') \<Longrightarrow> r \<noteq> Fault \<Longrightarrow> m16_step d d'"
| fsck_call: "m16_fsck (restart k d) = (r, d') \<Longrightarrow> m16_step d d'"
| mount_call: "m16_mount (restart k d) = (r, d') \<Longrightarrow> m16_step d d'"
| recover_call: "m16_journal_recover (restart k d) = (r, d') \<Longrightarrow> m16_step d d'"

lemma step_keeps:
  assumes "m16_step d d'" "sound H" "settled H d"
  shows "\<exists>G. keeps H G \<and> settled G d'"
  using assms
proof (induction rule: m16_step.induct)
  case (write_call name data len stop k d r d')
  show ?case
  proof (cases "name = None \<or> data = None")
    case True
    then have "d' = restart k d" using write_call(1) by (auto simp: m16_write_file_ex_def op_run split: option.splits)
    then show ?thesis using write_call(3,4) keeps_refl by auto
  next
    case False
    then obtain nm bs where "m16_write_file_ex (Some nm) (Some bs) len stop (restart k d) = (r, d')" using write_call(1) by auto
    then show ?thesis using write_outcome[of H "restart k d" nm bs len stop r d'] write_call(3,4) by auto
  qed
next
  case (read_call name out cap size_p k d r d')
  then show ?case using read_settled[of H "restart k d" name out cap size_p r d'] keeps_refl by auto
next
  case (fsck_call k d r d')
  then show ?case using fsck_settled[of H "restart k d" r d'] keeps_refl by auto
next
  case (mount_call k d r d')
  have "chain m16_mount ok (restart k d) = (r, d')" using mount_call(1) by (simp add: chain_def ok_def split: res.splits)
  with m16_mount_still[of H "restart k d" ok] still_base(1) mount_call keeps_refl show ?case by auto
next
  case (recover_call k d r d')
  then show ?case using recover_settled[of H d k] keeps_refl by auto
qed

lemma steps_keep: "m16_step\<^sup>*\<^sup>* d d' \<Longrightarrow> sound H \<Longrightarrow> settled H d \<Longrightarrow> \<exists>G. keeps H G \<and> settled G d'"
proof (induction rule: rtranclp_induct)
  case base
  then show ?case using keeps_refl by blast
next
  case (step y z)
  then obtain G where g: "keeps H G" "settled G y" by blast
  then have "sound G" by (simp add: keeps_def)
  from step_keeps[OF step(2) this g(2)] keeps_trans[OF g(1)] show ?case by blast
qed

lemma fsck_on: "sound H \<Longrightarrow> settled H d \<Longrightarrow> fst (m16_fsck (power_on d)) = Ok ()"
proof -
  assume s: "sound H" "settled H d"
  obtain body where e: "m16_fsck = chain m16_mount (\<lambda>_. body)" and b: "\<And>H d. sound H \<Longrightarrow> at_rest H d \<Longrightarrow> body d = (Ok (), d)"
    using fsck_shape by (elim exE conjE) blast
  have "settled H (power_on d)" using s by simp
  from ct_on[OF ct_mount[OF s(1)] this] obtain sb d1 where "m16_mount (power_on d) = (Ok sb, d1)" "at_rest H d1" .
  then show ?thesis using b[OF s(1)] by (simp add: e chain_ok)
qed

lemma read_on:
  assumes s: "sound H" "settled H d" and c: "content H name = Some (c, sz)" and o: "sz \<le> cap" "unat sz \<le> length out"
  shows "fst (m16_read_file (Some name) (Some out) cap (Some x) (power_on d)) = Ok (c @ drop (unat sz) out, sz)"
proof -
  have "settled H (power_on d)" using s by simp
  from ct_on[OF ct_mount[OF s(1)] this] obtain sb d1 where m: "m16_mount (power_on d) = (Ok sb, d1)" "at_rest H d1" .
  obtain slot where f: "m16_find_dirent (H 24) name = Some slot" "inode_ok H (dir_ino (H 24) slot)"
    "sz = inode_size (tab H) (unat (dir_ino (H 24) slot))" "c = take (unat sz) (H (inode_direct0 (tab H) (unat (dir_ino (H 24) slot))))"
    by (rule content_Some[OF s(1) c])
  from read_body[OF s(1) m(2) f(1-3) o f(4), of x] m(1) show ?thesis by (auto simp: chain_ok)
qed

lemma zero_bits: "b < 4096 \<Longrightarrow> \<not> m16_bitmap_get m16_zero_block b"
  by (simp add: m16_bitmap_get_def m16_zero_block_def word_less_nat_alt unat_div less_mult_imp_div_less)

lemma fresh_searches:
  "m16_find_free_inode (fresh 18) = Some 1" "m16_find_free_block (fresh 19) = Some 25" "m16_find_free_dirent (fresh 24) = Some 0"
  "m16_find_dirent (fresh 24) name = None"
proof -
  have "[1..<16] = 1 # [2..<16 :: nat]" by (simp add: upt_conv_Cons)
  moreover have "\<not> m16_bitmap_get (fresh 18) 1" using bitmap_get_set[OF fresh_lengths(1), of 0 1] zero_bits[of 1] by (simp add: fresh_blocks)
  ultimately show "m16_find_free_inode (fresh 18) = Some 1" by (simp add: m16_find_free_inode_def del: upt_rec_numeral)
  have "[25..<128] = 25 # [26..<128 :: nat]" by (simp add: upt_conv_Cons del: upt_rec_numeral)
  moreover have "\<not> (\<exists>i \<in> set [0..<25]. (25 :: u32) = of_nat i)"
    by (auto simp: unat_eq_iff[symmetric] unat_of_nat_small simp del: upt_rec_numeral)
  then have "\<not> m16_bitmap_get (fresh 19) 25" using fold_bits[OF fresh_lengths(1), of "[0..<25]" 25] zero_bits[of 25]
    by (simp add: fresh_blocks del: upt_rec_numeral)
  ultimately show "m16_find_free_block (fresh 19) = Some 25" by (simp add: m16_find_free_block_def del: upt_rec_numeral)
  have u: "dir_used (fresh 24) i = 0" if "i < 12" for i
    using that by (simp add: fresh_blocks dir_used_def m16_zero_block_def sizeof_m16_dirent_def)
  then show "m16_find_free_dirent (fresh 24) = Some 0" by (simp add: m16_find_free_dirent_def upt_conv_Cons)
  show "m16_find_dirent (fresh 24) name = None" using u by (simp add: m16_find_dirent_def find_None_iff del: upt_rec_numeral)
qed

lemma write_fresh:
  assumes "holds fresh d"
  shows "\<exists>d'. m16_write_file_ex (Some [97]) (Some [7, 8, 9]) 3 False (power_on d) = (Ok (), d')"
proof -
  note f = fresh_sound[OF assms]
  let ?H = "home d"
  have h: "?H 18 = fresh 18" "?H 19 = fresh 19" "?H 24 = fresh 24" using assms by (simp_all add: holds_def home_def)
  have n: "m16_strlen_bounded [97] 32 = 1" by (simp add: m16_strlen_bounded_def m16_strlen_from.simps char_at_def)
  have m: "m16_strlen_bounded [97] 32 < 32" "(3 :: u32) \<le> 512" "unat (3 :: u32) \<le> length [7, 8, 9 :: u8]" by (simp_all add: n)
  note k = store_keeps[OF f(2) fresh_searches(1)[folded h(1)] fresh_searches(2)[folded h(2)] fresh_searches(3)[folded h(3)]
    fresh_searches(4)[folded h(3)] refl m refl refl]
  obtain body where e: "m16_write_file_ex (Some [97]) (Some [7, 8, 9]) 3 False = chain m16_mount body"
    and b: "\<And>H sb d. sound H \<Longrightarrow> at_rest H d \<Longrightarrow> body sb d = store_file H [97] [7, 8, 9] 3 False sb d"
    using write_shape[of "[97]" "[7, 8, 9]" 3 False] by (auto simp: n)
  have "settled ?H (power_on d)" using at_rest_settled[OF f(1)] by simp
  from ct_on[OF ct_mount[OF f(2)] this] obtain sb d1 where d1: "m16_mount (power_on d) = (Ok sb, d1)" "at_rest ?H d1" "fail_after d1 = - 1" .
  obtain r d' where w: "store_file ?H [97] [7, 8, 9] 3 False sb d1 = (r, d')" by fastforce
  have x: "\<not> None \<noteq> (None :: nat option)" "\<not> unat (3 :: u32) > length [7, 8, 9 :: u8]" by simp_all
  note c = w[unfolded store_file_def h fresh_searches prod.case option.case if_not_P[OF x(1)] if_not_P[OF x(2)], folded h]
  from ctD(1)[OF ct_two_commits[OF k(1,2)] d1(2) c] d1(3) have "r = Ok ()" by auto
  with w b[OF f(2) d1(2)] d1(1) show ?thesis by (simp add: e chain_ok)
qed

text \<open>
  C40. A file that \<^verbatim>\<open>m16_write_file\<close> has stored survives every later history of calls with power failures at any
  writes: on a device with 128 blocks, after \<^verbatim>\<open>m16_format\<close>, any calls, a write that returned success (even one that
  stopped after the commit record) and any further calls, each with fault injection set to fail at any of its writes,
  \<^verbatim>\<open>m16_fsck\<close> finds the file system consistent and \<^verbatim>\<open>m16_read_file\<close> returns the bytes that were written; also
  before the write, \<^verbatim>\<open>m16_fsck\<close> succeeds on whatever the history left.
\<close>

theorem m16_writes_durable:
  assumes "total_blocks dev = 128" "m16_format (power_on dev) = (r0, d0)"
    and "m16_step\<^sup>*\<^sup>* d0 d1"
    and "m16_write_file_ex (Some name) (Some data) len stop (restart k d1) = (Ok (), d2)"
    and "m16_step\<^sup>*\<^sup>* d2 d3"
    and "len \<le> cap" "unat len \<le> length out"
  shows "r0 = Ok () \<and> fst (m16_fsck (power_on d1)) = Ok () \<and> fst (m16_fsck (power_on d3)) = Ok () \<and>
    fst (m16_read_file (Some name) (Some out) cap (Some x) (power_on d3)) = Ok (take (unat len) data @ drop (unat len) out, len)"
proof -
  have "total_blocks (power_on dev) = 128" using assms(1) by (simp add: restart_def)
  from ctD(1)[OF ct_format this assms(2)] have r0: "r0 = Ok ()" and h: "holds fresh d0" by auto
  note f = fresh_sound[OF h]
  from steps_keep[OF assms(3) f(2) at_rest_settled[OF f(1)]] obtain H where "keeps (home d0) H" "settled H d1" by blast
  then have H: "sound H" "settled H d1" by (simp_all add: keeps_def)
  from write_outcome[of H "restart k d1", OF H(1) _ assms(4)] H(2) obtain G where
    g: "keeps H G" "settled G d2" "content G name = Some (take (unat len) data, len)" by auto
  then have "sound G" by (simp add: keeps_def)
  from steps_keep[OF assms(5) this g(2)] obtain K where "keeps G K" "settled K d3" by blast
  then have K: "sound K" "settled K d3" "content K name = Some (take (unat len) data, len)" using g(3) by (auto simp: keeps_def)
  show ?thesis using r0 fsck_on[OF H] fsck_on[OF K(1,2)] read_on[OF K assms(6,7)] by simp
qed

theorem m16_writes_durable_witness:
  "\<exists>d0 d2 d3. m16_format (power_on m16_dev_init) = (Ok (), d0) \<and>
    m16_write_file_ex (Some [97]) (Some [7, 8, 9]) 3 False (power_on d0) = (Ok (), d2) \<and>
    m16_fsck (restart 1 d2) = d3 \<and> fst (m16_fsck (power_on d0)) = Ok () \<and> fst (m16_fsck (power_on (snd d3))) = Ok () \<and>
    fst (m16_read_file (Some [97]) (Some [0, 0, 0, 5]) 4 (Some 0) (power_on (snd d3))) = Ok ([7, 8, 9, 5], 3)"
proof -
  have t: "total_blocks m16_dev_init = 128" "total_blocks (power_on m16_dev_init) = 128" by (simp_all add: m16_dev_init_def restart_def)
  obtain r0 d0 where f: "m16_format (power_on m16_dev_init) = (r0, d0)" by fastforce
  from ctD(1)[OF ct_format t(2) f] have h: "holds fresh d0" by auto
  from write_fresh[OF h] obtain d2 where w: "m16_write_file_ex (Some [97]) (Some [7, 8, 9]) 3 False (power_on d0) = (Ok (), d2)" by blast
  obtain r3 d3 where k: "m16_fsck (restart 1 d2) = (r3, d3)" by fastforce
  then have s: "m16_step\<^sup>*\<^sup>* d2 d3" by (blast intro: m16_step.fsck_call)
  have "(3 :: u32) \<le> 4" "unat (3 :: u32) \<le> length [0, 0, 0, 5 :: u8]" by simp_all
  from m16_writes_durable[OF t(1) f rtranclp.rtrancl_refl w s this, of 0] f w k show ?thesis by auto
qed

end
