(* ===== verification/Spec2Isabelle.thy ===== *)
theory Spec2Isabelle
  imports Boot Sync Block Libmem Mcsfs1_Sound Journal_Files
begin

text \<open>
  Verification of the MCSOS kernel, an x86-64 teaching kernel in C. File names are relative to the root of the source
  tree.

  \<^bold>\<open>The program.\<close> \<^verbatim>\<open>kmain\<close> of \<^verbatim>\<open>src/kernel.c\<close> starts the serial port, the interrupt descriptor table, the interrupt
  controllers and the timer. It then starts the frame allocator, the page tables on top of it and the heap. It
  prepares two demo threads for the cooperative scheduler, plans a built-in ELF image, installs the system calls and
  yields to the first thread. System calls reach the descriptor layer and the RAM file system, and call back into
  the scheduler, the timer and the serial port. The synchronisation primitives, the block layer with its RAM driver and the two on-disk file
  systems are libraries that this start does not call. \<^verbatim>\<open>kernel/core\<close> is an earlier kernel with its own entry, log and
  trap dispatch.

  \<^bold>\<open>Conventions.\<close> Machine integers are words of their width and wrap. A struct is a record, an enum a datatype or its
  integer values. A pointer argument that may be null is an option, and an address in memory that is modelled is a
  word, with 0 for null. A function that changes memory returns the new state. A loop that may run forever is a partial
  function into \<open>option\<close>: \<open>None\<close> is a run that never ends. In the ELF planner \<open>None\<close> is a read outside the image, and in the file
  systems the result \<open>Fault\<close> is an access outside an array. There is no fuel: every loop without a limit in the code is such
  a partial function or a recursion with a termination proof, and results are shown to be defined. Bounds that occur in statements are the
  constants of the source: 16 locks, 32 cache entries, 16 descriptors, 8 segments, 100000 polls of the serial port.

  \<^bold>\<open>The theories.\<close>
  \<^item> \<open>Prelude\<close>: word and list facts, loops, and the interface \<open>bit_store\<close> of a bitmap, which \<open>Pmm\<close> and \<open>Diskio\<close> implement.
  \<^item> \<open>Pmm\<close>: \<^verbatim>\<open>src/pmm.c\<close>. The frames that are free after the start from a memory map are exactly the usable ones when no region reaches the last
    page of the address space; another property gives the exact set for every map, with the wrap-around that frees or keeps too much. Allocation refines a pool;
    along every history no frame is owned twice.
  \<^item> \<open>Vmm\<close>: \<^verbatim>\<open>src/vmm.c\<close> over word-addressed memory, against the interface \<open>frame_allocator\<close>. The tables form a tree and
    present a map from pages to entries.
  \<^item> \<open>Kernel_Mm\<close>: the adapters, \<^verbatim>\<open>kernel_memory_init\<close> and \<^verbatim>\<open>kernel_vmm_init\<close> of \<^verbatim>\<open>src/kernel.c\<close>. The frame allocator implements
    the interface; mapping, unmapping and query refine that map; the root table is not cleared, and what stale words in it do is shown for every memory.
  \<^item> \<open>Kmem\<close>, \<open>Kernel_Heap\<close>: \<^verbatim>\<open>kernel/mm/kmem.c\<close> and \<^verbatim>\<open>kernel_heap_init\<close>. The list of blocks in memory refines first fit on a list;
    all calls return and live blocks stay disjoint and untouched.
  \<^item> \<open>Sched\<close>: \<^verbatim>\<open>kernel/mcsos_thread.c\<close> and \<^verbatim>\<open>arch/x86_64/context_switch.S\<close>. The ready list implements the interface \<open>fifo\<close>; histories keep
    every thread in one place, with the current and the idle thread in state running; yielding is round robin and switches contexts.
  \<^item> \<open>Sync\<close>: \<^verbatim>\<open>kernel/sync\<close>. The locks are step functions with one atomic access a step; exclusion and
    freedom from deadlock hold under every interleaving.
  \<^item> \<open>Block\<close>: \<^verbatim>\<open>kernel/block\<close>. Over the interface \<open>block_driver\<close>, which the RAM driver implements, the write-back cache presents one
    disk, except that a write to a full cache is lost.
  \<^item> \<open>Elf\<close>: \<^verbatim>\<open>kernel/user\<close>. The planner reads inside the image only and accepts exactly the images of a declarative
    specification. The entry point is not compared with the segments.
  \<^item> \<open>Libmem\<close>: \<^verbatim>\<open>kernel/lib/memory.c\<close>, against parallel copy and fill.
  \<^item> \<open>Ramfs\<close>, \<open>Vfs\<close>: \<^verbatim>\<open>kernel/vfs\<close>. Creation and lookup, typed descriptor tables, and the contents of files.
  \<^item> \<open>Syscall\<close>: \<^verbatim>\<open>kernel/syscall/syscall.c\<close>, with the callbacks as parameters. Calls write user memory inside the user region only; along
    every history the file layer is well typed, and an open call with a path that ends in the checked bytes returns and reads no others.
  \<^item> \<open>Console\<close>, \<open>Interrupts\<close>: \<^verbatim>\<open>src/serial.c\<close>, \<^verbatim>\<open>kernel/core/serial.c\<close>, \<^verbatim>\<open>src/idt.c\<close>, \<^verbatim>\<open>src/pic.c\<close>, \<^verbatim>\<open>src/pit.c\<close>, \<^verbatim>\<open>src/panic.c\<close>, with the callbacks of
    \<^verbatim>\<open>src/kernel.c\<close>. The devices are a parameter: what a port reads depends on the number of reads and on all writes so far.
    Two hypotheses on it occur: \<^const>\<open>drains\<close>, the transmitter is ready at some later poll, and \<^const>\<open>pic_8259\<close>, the mask registers read as the
    initialisation and operation command words of the 8259A leave them, as long as no command asks for another register.
  \<^item> \<open>Core\<close>: log, panic, traps and descriptor table of \<^verbatim>\<open>kernel/core\<close> and \<^verbatim>\<open>kernel/arch/x86_64\<close>.
  \<^item> \<open>Diskio\<close>, \<open>Mcsfs1\<close>, \<open>Mcsfs1_Sound\<close>: \<^verbatim>\<open>fs/mcsfs1\<close> over bytes of blocks. On a device of the interface \<open>reliable_device\<close> every
    history passes the check, and a read returns what was written. The memory disk of \<^verbatim>\<open>tests/m15\<close> is such a device.
  \<^item> \<open>Journal\<close>, \<open>Journal_Sound\<close>, \<open>Journal_Files\<close>: \<^verbatim>\<open>kernel/fs/mcsfs1j\<close>. Crashes are the fault injection of the code, which makes
    any chosen write and all later ones fail. Transactions are atomic and successful writes durable under crashes, those during recovery included.
  \<^item> \<open>Boot\<close>: both functions \<^verbatim>\<open>kmain\<close> and the demo threads, as the composition of the components. The instruction and stack pointer that a
    context switch loads select the demo loop that runs; the frame sizes and the other saved registers are parameters.
  \<^item> This theory: the property of the whole start, below.

  \<^bold>\<open>Not modelled.\<close>
  \<^item> Interrupts between two statements of a function other than a lock: the dispatcher is modelled as a call.
    Weak memory orders: atomic accesses are sequentially consistent.
  \<^item> Assembly other than the context switch (\<^verbatim>\<open>src/boot.S\<close>, \<^verbatim>\<open>src/interrupts.S\<close>, \<^verbatim>\<open>kernel/arch/x86_64/isr.S\<close>,
    \<^verbatim>\<open>kernel/syscall/syscall_entry.S\<close>) and inline assembly of one instruction: there is no C-level behaviour to state. The addresses of the stubs are
    parameters.
  \<^item> The idle loop \<^verbatim>\<open>mcsos_thread_trampoline\<close>, which no code reaches through a context switch.
  \<^item> \<^verbatim>\<open>kernel/vfs/sys_vfs.c\<close>, a pointer and its setter that no kernel code uses, the host tests other than the disk above,
    the toolchain probes, and the build.
\<close>

section \<open>The whole start\<close>

text \<open>
  C1. \<^const>\<open>kmain\<close> starts the kernel. The conditions are a serial transmitter that is ready again at some later poll, mask
  registers that read as on the 8259A as long as no command asked for another register, linker addresses that
  do not collide, with demo stacks that hold the frames of their threads, a cleared root table frame and a physical memory window that does not wrap.
  Then \<^const>\<open>kmain\<close> runs to the switch away from the boot thread without halting or looping, with interrupts
  on and only the timer line open. The first 48 vectors and vector 0x80 reach their stubs, the address space is sound and
  maps nothing, the heap is one free block, the system calls have the kernel's operations and the user region, and the
  processor is at the entry of the first demo thread. From there the registers that each switch loads lead into the loops of the
  two demo threads in turn, for as many rounds as one likes, and what they send to the serial port is their two lines in alternation.
\<close>

theorem kernel_boots:
  assumes "drains dev" "pic_8259 dev" "unpolled (kouts k)" "image_ok im"
    and "length (kernel_pmm_bitmap (k_mm k)) = unat PMM_BITMAP_BYTES" "unat (hhdm_offset (k_mm k)) + 2 ^ 52 \<le> 2 ^ 64"
      "\<And>i. i < 512 \<Longrightarrow> mem m (slot (hhdm_offset (k_mm k) + 0x1000) i) = 0"
    and "length (g_idt (machine (k_sys k))) = 256" "resume_label (m_threads (machine (k_sys k))) \<notin> {im_demo_a im, im_demo_b im}"
  shows "\<exists>k' s. kmain dev im k = Some (outcome.Returned k') \<and> interrupts_on k' \<and>
    fst (pic_read_master_mask dev (m_io (machine (k_sys k')))) = 0xFE \<and> fst (pic_read_slave_mask dev (m_io (machine (k_sys k')))) = 0xFF \<and>
    gates_ok im (g_idt (machine (k_sys k'))) \<and>
    kernel_space_ok (kernel_space k') m \<and> page_map (kernel_space k') m = Map.empty \<and> heap_ok (k_heap k') [(s, 65488, True)] \<and>
    sys_ops (k_sys k') = kernel_syscall_ops dev \<and> user_region (k_sys k') = \<lparr>ur_base = 0x400000, ur_limit = 0x800000000000\<rparr> \<and>
    current (g_sched (machine (k_sys k'))) = im_thread_a im \<and> rip (cpu (m_threads (machine (k_sys k')))) = im_demo_a im \<and>
    (\<forall>n. \<exists>k''. demo_rounds dev im n k' = Some k'' \<and> kouts k'' = kouts k' @ map (Pair COM1) (ticks True n))"
proof -
  from kmain_spec[OF assms] obtain k' s where
    k': "kmain dev im k = Some (outcome.Returned k')" "turn im True k'" "timer_only k'" "interrupts_on k'"
    "rip (cpu (m_threads (machine (k_sys k')))) = im_demo_a im" "gates_ok im (g_idt (machine (k_sys k')))"
    "kernel_space_ok (kernel_space k') m" "page_map (kernel_space k') m = Map.empty" "ctx (kernel_space k') = k_mm k'"
    "heap_ok (k_heap k') [(s, 65488, True)]" "sys_ops (k_sys k') = kernel_syscall_ops dev" "user_region (k_sys k') = user_space" .
  have "current (g_sched (machine (k_sys k'))) = im_thread_a im" using k'(2) by (simp add: turn_def)
  moreover have "\<forall>n. \<exists>k''. demo_rounds dev im n k' = Some k'' \<and> kouts k'' = kouts k' @ map (Pair COM1) (ticks True n)"
    using demo_rounds_spec[OF assms(1,4) k'(2)] by blast
  ultimately show ?thesis
    by (intro exI[of _ k'] exI[of _ s] conjI k'(1,4-8,10-12) timer_only_masks[OF assms(2) k'(3)])
qed

section \<open>A machine to start on\<close>

text \<open>Every other poll finds the transmitter busy.\<close>

definition sample_device :: device where
  "sample_device p n os =
     (if p = COM1 + 5 then if even n then 0 else 0x20
      else if p = PIC1_DATA then fst (chip PIC1_COMMAND PIC1_DATA os (0, 0))
      else if p = PIC2_DATA then fst (chip PIC2_COMMAND PIC2_DATA os (0, 0))
      else 0)"

definition sample_image :: image where
  "sample_image = \<lparr>im_cs = 0x28, im_stubs = map (\<lambda>i. 0x200000 + 16 * of_nat i) [0..<48], im_idt = 0x210000, im_int80 = 0x211000,
     im_heap = 0x220000, im_boot_thread = 0x230000, im_thread_a = 0x230100, im_thread_b = 0x230200,
     im_boot_name = 0x231000, im_name_a = 0x231010, im_name_b = 0x231020, im_demo_a = 0x201000, im_demo_b = 0x201100,
     im_stack_a = 0x240000, im_stack_b = 0x242000, im_frames_a = 64, im_frames_b = 64, im_regs_a = id, im_regs_b = id,
     im_stats = \<lparr>total_bytes = 0, used_bytes = 0, free_bytes = 0, block_count = 0, free_count = 0, largest_free = 0\<rparr>,
     im_plan = sample_plan\<rparr>"

definition sample_kernel :: kernel where
  "sample_kernel =
     \<lparr>k_sys = \<lparr>ramfs_at = 0x250000, ramfs_mem = \<lambda>_. raw_ramfs, main_process = \<lparr>pid = 0, fd_table = raw_table\<rparr>, vfs_initialized = 0,
        sys_ops = \<lparr>get_ticks = None, yield_current = None, exit_current = None, write_serial = None\<rparr>,
        user_region = \<lparr>ur_base = 0, ur_limit = 0\<rparr>, user_mem = \<lambda>_. 0,
        machine = \<lparr>m_io = \<lparr>reads = 0, outs = []\<rparr>, g_ticks = 0,
          g_idt = replicate 256 \<lparr>offset_low = 0, selector = 0, ist = 0, type_attr = 0, offset_mid = 0, offset_high = 0, ie_zero = 0\<rparr>,
          idtr = None, m_threads = raw_threads, g_sched = raw_sched\<rparr>\<rparr>,
      k_mm = boot_mm, kernel_space = no_space, k_heap = blank_kmem, k_log_ready = 0, interrupts_on = False\<rparr>"

lemma sample_device_ok: "drains sample_device" "pic_8259 sample_device"
proof -
  have "ready_at sample_device (n + (if even n then 1 else 0)) os" for n os by (simp add: ready_at_def sample_device_def)
  then show "drains sample_device" unfolding drains_def by blast
  show "pic_8259 sample_device" unfolding pic_8259_def by (auto simp: sample_device_def COM1_def pic_ports)
qed

lemma sample_image_ok: "image_ok sample_image"
  by (simp add: image_ok_def sample_image_def sample_plan_def)

theorem kernel_boots_witness:
  "\<exists>k' k''. kmain sample_device sample_image sample_kernel = Some (outcome.Returned k') \<and>
     current (g_sched (machine (k_sys k'))) = 0x230100 \<and> rip (cpu (m_threads (machine (k_sys k')))) = 0x201000 \<and>
     demo_rounds sample_device sample_image 3 k' = Some k'' \<and> kouts k'' = kouts k' @ map (Pair COM1) (ticks True 3)"
proof -
  have "length (g_idt (machine (k_sys sample_kernel))) = 256" "k_mm sample_kernel = boot_mm" "unpolled (kouts sample_kernel)"
    "resume_label (m_threads (machine (k_sys sample_kernel))) \<notin> {im_demo_a sample_image, im_demo_b sample_image}"
    by (simp_all add: sample_kernel_def kouts_def unpolled_def raw_threads_def sample_image_def)
  with kernel_boots[OF sample_device_ok _ sample_image_ok, of sample_kernel clean_machine] boot_mm_args
  have "\<exists>k'. kmain sample_device sample_image sample_kernel = Some (outcome.Returned k') \<and>
     current (g_sched (machine (k_sys k'))) = im_thread_a sample_image \<and> rip (cpu (m_threads (machine (k_sys k')))) = im_demo_a sample_image \<and>
     (\<forall>n. \<exists>k''. demo_rounds sample_device sample_image n k' = Some k'' \<and> kouts k'' = kouts k' @ map (Pair COM1) (ticks True n))"
    by (auto simp only:)
  moreover have "im_thread_a sample_image = 0x230100" "im_demo_a sample_image = 0x201000" by (simp_all add: sample_image_def)
  ultimately show ?thesis by metis
qed

end
